(* ===== verification/Prelude.thy ===== *)
theory Prelude
  imports Main "HOL-Library.AList" "HOL-Library.Word"
begin

text \<open>
  Shared ground of the development: the C++ exceptions the code can raise, machine
  integers, the numeric conversions of the C++ standard library that the code calls
  (\<^verbatim>\<open>std::to_string\<close>, \<^verbatim>\<open>std::from_chars\<close>, \<^verbatim>\<open>std::stoll\<close>,
  \<^verbatim>\<open>std::stoi\<close>), character classification, and lemmas on lists and association
  lists.

  A \<^typ>\<open>char\<close> is a byte, a \<^typ>\<open>string\<close> is the contents of a
  \<^verbatim>\<open>std::string\<close>. A \<^verbatim>\<open>std::unordered_map\<close> is an association list in
  iteration order (which the language leaves open; no theorem depends on it).
\<close>

named_theorems db_simps \<open>facts that evaluate the operations of the storage engine\<close>
named_theorems inv_intros \<open>introduction rules for the invariants\<close>

section \<open>Exceptions and results\<close>

datatype exn =
    InvalidArgument    \<comment> \<open>\<^verbatim>\<open>std::invalid_argument\<close>, no digits to convert\<close>
  | OutOfRange         \<comment> \<open>\<^verbatim>\<open>std::out_of_range\<close>, value not representable\<close>
  | BadVariantAccess   \<comment> \<open>\<^verbatim>\<open>std::bad_variant_access\<close>, \<^verbatim>\<open>std::get\<close> on another alternative\<close>
  | LengthError        \<comment> \<open>\<^verbatim>\<open>std::length_error\<close> or \<^verbatim>\<open>std::bad_alloc\<close> of a container\<close>
  | Undefined          \<comment> \<open>undefined behaviour: a null or dangling pointer, an index out of range\<close>

type_synonym 'a result = "exn + 'a"

section \<open>Signed machine integers\<close>

text \<open>
  \<^verbatim>\<open>int64_t\<close> values are integers; every place where the code can leave the range
  says so with \<open>wrap64\<close>, the two's complement wrap-around (in C++ the overflow
  itself is undefined behaviour, wrapping is what the supported targets do).
\<close>

definition i64_min :: int where "i64_min = - (2 ^ 63)"
definition i64_max :: int where "i64_max = 2 ^ 63 - 1"

definition in_i64 :: "int \<Rightarrow> bool" where
  "in_i64 n \<longleftrightarrow> i64_min \<le> n \<and> n \<le> i64_max"

definition wrap_s :: "nat \<Rightarrow> int \<Rightarrow> int" where
  "wrap_s w n = (n + 2 ^ (w - 1)) mod 2 ^ w - 2 ^ (w - 1)"

abbreviation wrap64 :: "int \<Rightarrow> int" where "wrap64 \<equiv> wrap_s 64"
abbreviation wrap32 :: "int \<Rightarrow> int" where "wrap32 \<equiv> wrap_s 32"

lemma wrap64_id [simp]: "in_i64 n \<Longrightarrow> wrap64 n = n"
  by (simp add: in_i64_def i64_min_def i64_max_def wrap_s_def)

lemma in_i64_wrap64: "in_i64 (wrap64 n)"
proof -
  have "0 \<le> (n + 2 ^ 63) mod (2 ^ 64 :: int)" and "(n + 2 ^ 63) mod 2 ^ 64 < (2 ^ 64 :: int)"
    by simp_all
  then show ?thesis by (simp add: in_i64_def i64_min_def i64_max_def wrap_s_def)
qed

section \<open>Characters\<close>

definition is_digit :: "char \<Rightarrow> bool" where
  "is_digit c \<longleftrightarrow> 48 \<le> (of_char c :: nat) \<and> (of_char c :: nat) \<le> 57"

definition digit_val :: "char \<Rightarrow> nat" where
  "digit_val c = of_char c - 48"

definition digit_char :: "nat \<Rightarrow> char" where
  "digit_char d = char_of (48 + d)"

text \<open>\<^verbatim>\<open>isspace\<close> of the C locale: space and the control characters 9 to 13.\<close>

definition is_space :: "char \<Rightarrow> bool" where
  "is_space c \<longleftrightarrow> (of_char c :: nat) = 32 \<or> (9 \<le> (of_char c :: nat) \<and> (of_char c :: nat) \<le> 13)"

text \<open>\<^verbatim>\<open>toupper\<close> and \<^verbatim>\<open>tolower\<close> of the C locale.\<close>

definition to_upper :: "char \<Rightarrow> char" where
  "to_upper c = (if 97 \<le> (of_char c :: nat) \<and> (of_char c :: nat) \<le> 122
     then char_of ((of_char c :: nat) - 32) else c)"

definition to_lower :: "char \<Rightarrow> char" where
  "to_lower c = (if 65 \<le> (of_char c :: nat) \<and> (of_char c :: nat) \<le> 90
     then char_of ((of_char c :: nat) + 32) else c)"

abbreviation CR :: char where "CR \<equiv> CHR 0x0D"
abbreviation LF :: char where "LF \<equiv> CHR 0x0A"
abbreviation CRLF :: string where "CRLF \<equiv> [CR, LF]"

lemma of_char_digit_char: "d < 10 \<Longrightarrow> (of_char (digit_char d) :: nat) = 48 + d"
  by (simp add: digit_char_def of_char_of)

lemma is_digit_digit_char [simp]: "d < 10 \<Longrightarrow> is_digit (digit_char d)"
  by (simp add: is_digit_def of_char_digit_char)

lemma digit_val_digit_char [simp]: "d < 10 \<Longrightarrow> digit_val (digit_char d) = d"
  by (simp add: digit_val_def of_char_digit_char)

lemma not_digit_consts [simp]:
  "\<not> is_digit (CHR ''-'')" "\<not> is_digit (CHR ''+'')" "\<not> is_digit CR" "\<not> is_digit LF"
  by (simp_all add: is_digit_def)

lemma to_upper_idem [simp]: "to_upper (to_upper c) = to_upper c"
  by (auto simp: to_upper_def of_char_of)

section \<open>Numbers as text\<close>

fun nat_to_dec :: "nat \<Rightarrow> string" where
  "nat_to_dec n = (if n < 10 then [digit_char n]
     else nat_to_dec (n div 10) @ [digit_char (n mod 10)])"

declare nat_to_dec.simps [simp del]

text \<open>\<^verbatim>\<open>std::to_string\<close> of a signed integer.\<close>

definition int_to_dec :: "int \<Rightarrow> string" where
  "int_to_dec n = (if n < 0 then CHR ''-'' # nat_to_dec (nat (- n)) else nat_to_dec (nat n))"

definition dec_val :: "string \<Rightarrow> nat" where
  "dec_val ds = foldl (\<lambda>a c. 10 * a + digit_val c) 0 ds"

text \<open>
  \<^verbatim>\<open>std::from_chars\<close> on an \<^verbatim>\<open>int64_t\<close>: an optional minus sign and the
  longest run of digits, no leading space, no plus sign. \<open>Some (value, n)\<close> is success
  with \<open>n\<close> characters consumed; \<open>None\<close> is \<^verbatim>\<open>ec != std::errc()\<close> (no
  digits, or a value out of range), which leaves the caller's variable unchanged.
\<close>

definition from_chars_i64 :: "string \<Rightarrow> (int \<times> nat) option" where
  "from_chars_i64 s =
     (let neg = (s \<noteq> [] \<and> hd s = CHR ''-'');
          body = (if neg then tl s else s);
          ds = takeWhile is_digit body;
          v = (if neg then - int (dec_val ds) else int (dec_val ds))
      in if ds = [] then None
         else if in_i64 v then Some (v, (if neg then 1 else 0) + length ds)
         else None)"

text \<open>
  The \<^verbatim>\<open>strtol\<close> family under \<^verbatim>\<open>std::stoll\<close>, \<^verbatim>\<open>std::stol\<close>
  and \<^verbatim>\<open>std::stoi\<close>: leading white space, an optional sign, digits; what follows the
  digits is ignored.
\<close>

definition strtol_range :: "int \<Rightarrow> int \<Rightarrow> string \<Rightarrow> int result" where
  "strtol_range lo hi s =
     (let t = dropWhile is_space s;
          sgn = (t \<noteq> [] \<and> (hd t = CHR ''-'' \<or> hd t = CHR ''+''));
          neg = (t \<noteq> [] \<and> hd t = CHR ''-'');
          ds = takeWhile is_digit (if sgn then tl t else t);
          v = (if neg then - int (dec_val ds) else int (dec_val ds))
      in if ds = [] then Inl InvalidArgument
         else if lo \<le> v \<and> v \<le> hi then Inr v
         else Inl OutOfRange)"

definition stoll :: "string \<Rightarrow> int result" where
  "stoll = strtol_range i64_min i64_max"

definition stoi :: "string \<Rightarrow> int result" where
  "stoi = strtol_range (- (2 ^ 31)) (2 ^ 31 - 1)"

lemma nat_to_dec_nonempty [simp]: "nat_to_dec n \<noteq> []"
  by (subst nat_to_dec.simps) simp

lemma nat_to_dec_digits: "c \<in> set (nat_to_dec n) \<Longrightarrow> is_digit c"
proof (induction n rule: nat_to_dec.induct)
  case (1 n)
  then show ?case
    by (cases "n < 10") (auto simp: nat_to_dec.simps [of n])
qed

lemma dec_val_append_digit: "dec_val (ds @ [c]) = 10 * dec_val ds + digit_val c"
  by (simp add: dec_val_def)

lemma dec_val_nat_to_dec [simp]: "dec_val (nat_to_dec n) = n"
proof (induction n rule: nat_to_dec.induct)
  case (1 n)
  show ?case
  proof (cases "n < 10")
    case True
    then show ?thesis by (simp add: nat_to_dec.simps [of n] dec_val_def)
  next
    case False
    with "1.IH" show ?thesis
      by (simp add: nat_to_dec.simps [of n] dec_val_append_digit)
  qed
qed

lemma takeWhile_nat_to_dec:
  assumes "xs = [] \<or> \<not> is_digit (hd xs)"
  shows "takeWhile is_digit (nat_to_dec n @ xs) = nat_to_dec n"
proof -
  have "takeWhile is_digit xs = []"
    using assms by (cases xs) auto
  then show ?thesis
    by (subst takeWhile_append2) (auto dest: nat_to_dec_digits)
qed

lemma takeWhile_nat_to_dec_all [simp]: "takeWhile is_digit (nat_to_dec n) = nat_to_dec n"
  using takeWhile_nat_to_dec [of "[]"] by simp

lemma hd_nat_to_dec: "is_digit (hd (nat_to_dec n))"
  using nat_to_dec_digits [of "hd (nat_to_dec n)" n] by simp

lemma digit_not_sign: "is_digit c \<Longrightarrow> c \<noteq> CHR ''-'' \<and> c \<noteq> CHR ''+'' \<and> \<not> is_space c"
  by (auto simp: is_digit_def is_space_def)

lemma hd_nat_to_dec_sign [simp]: "hd (nat_to_dec n) \<noteq> CHR ''-''" "hd (nat_to_dec n) \<noteq> CHR ''+''"
  using digit_not_sign [OF hd_nat_to_dec] by auto

lemma int_to_dec_chars: "c \<in> set (int_to_dec n) \<Longrightarrow> c = CHR ''-'' \<or> is_digit c"
  by (auto simp: int_to_dec_def dest: nat_to_dec_digits split: if_splits)

lemma no_CR_in_dec [simp]: "CR \<notin> set (nat_to_dec n)" "CR \<notin> set (int_to_dec i)"
  using nat_to_dec_digits [of CR n] int_to_dec_chars [of CR i] by auto

text \<open>Reading back what \<^const>\<open>int_to_dec\<close> wrote.\<close>

lemma from_chars_int_to_dec [simp]:
  assumes "in_i64 n"
  shows "from_chars_i64 (int_to_dec n) = Some (n, length (int_to_dec n))"
  using assms by (auto simp: from_chars_i64_def int_to_dec_def Let_def)

lemma dropWhile_space_nat_to_dec [simp]: "dropWhile is_space (nat_to_dec k) = nat_to_dec k"
  using digit_not_sign [OF hd_nat_to_dec [of k]] by (cases "nat_to_dec k") auto

lemma stoll_int_to_dec [simp]:
  assumes "in_i64 n"
  shows "stoll (int_to_dec n) = Inr n"
  using assms
  by (auto simp: stoll_def strtol_range_def int_to_dec_def Let_def in_i64_def is_space_def)

lemma stoll_range: "stoll s = Inr v \<Longrightarrow> in_i64 v"
  by (auto simp: stoll_def strtol_range_def Let_def in_i64_def split: if_splits)

lemma from_chars_range: "from_chars_i64 s = Some (v, k) \<Longrightarrow> in_i64 v"
  by (auto simp: from_chars_i64_def Let_def split: if_splits)

section \<open>Lists updated by index\<close>

lemma nth_update: "xs[i := x] ! j = (if j = i \<and> i < length xs then x else xs ! j)"
  by (cases "i < length xs") (auto simp: nth_list_update list_update_beyond)

lemma nth_other: "a \<notin> set xs \<Longrightarrow> i < length xs \<Longrightarrow> xs ! i \<noteq> a"
  using nth_mem by blast

text \<open>\<^verbatim>\<open>for (x : xs) result.push_back(f(x));\<close>\<close>

lemma foldl_snoc_map: "foldl (\<lambda>r x. r @ [f x]) acc xs = acc @ map f xs"
  by (induction xs arbitrary: acc) simp_all

section \<open>Association lists as hash maps of the standard library\<close>

abbreviation keys_of :: "('k \<times> 'v) list \<Rightarrow> 'k list" where
  "keys_of al \<equiv> map fst al"

lemma map_of_update [simp]: "map_of (AList.update k v al) = (map_of al)(k \<mapsto> v)"
  by (rule update_conv')

lemma map_of_delete [simp]: "map_of (AList.delete k al) = (map_of al)(k := None)"
  by (rule delete_conv')

lemma keys_update: "set (keys_of (AList.update k v al)) = insert k (set (keys_of al))"
  by (simp add: dom_map_of_conv_image_fst [symmetric])

lemma keys_delete: "set (keys_of (AList.delete k al)) = set (keys_of al) - {k}"
  by (simp add: dom_map_of_conv_image_fst [symmetric])

lemma distinct_keys_update: "distinct (keys_of al) \<Longrightarrow> distinct (keys_of (AList.update k v al))"
  by (rule distinct_update)

lemma distinct_keys_delete: "distinct (keys_of al) \<Longrightarrow> distinct (keys_of (AList.delete k al))"
  by (rule distinct_delete)

lemma map_of_None_iff: "map_of al k = None \<longleftrightarrow> k \<notin> set (keys_of al)"
  by (simp add: map_of_eq_None_iff)

lemma map_of_delete_None [simp]: "map_of al k = None \<Longrightarrow> AList.delete k al = al"
  by (simp add: map_of_eq_None_iff delete_id)

lemma delete_update_same [simp]: "AList.delete k (AList.update k v al) = AList.delete k al"
  by (induction al) auto

lemma length_keys: "length (keys_of al) = length al"
  by simp

section \<open>Counting loops\<close>

text \<open>
  \<^verbatim>\<open>for (x : xs) if (op(x)) count++;\<close>, the loop of the commands that insert or
  remove several members and report how many were new or present.
\<close>

fun countLoop :: "('x \<Rightarrow> 't \<Rightarrow> bool \<times> 't) \<Rightarrow> 'x list \<Rightarrow> 't \<Rightarrow> nat \<times> 't" where
  "countLoop f [] t = (0, t)"
| "countLoop f (x # xs) t =
     (let (hit, t') = f x t; (n, t'') = countLoop f xs t'
      in ((if hit then n + 1 else n), t''))"

lemma card_insert_new: "finite A \<Longrightarrow> card (insert x A) = card A + (if x \<in> A then 0 else 1)"
  by (simp add: card_insert_if)

lemma card_remove_old: "finite A \<Longrightarrow> card (A - {x}) + (if x \<in> A then 1 else 0) = card A"
  by (auto simp: card_gt_0_iff Suc_diff_le dest: card_Suc_Diff1 simp del: card_Diff_singleton)

end
