(* ===== verification/Resp.thy ===== *)
theory Resp
  imports Prelude
begin

text \<open>
  The RESP value type of \<^verbatim>\<open>protocol/resp_types.h\<close> and the serializer of
  \<^verbatim>\<open>protocol/resp_serializer.h\<close> and \<^verbatim>\<open>.cpp\<close>. The struct holds a tag and a
  variant which its factory functions always set together, so the model is one datatype
  with a constructor per factory function.
\<close>

datatype RespValue =
    SimpleString string
  | Error string
  | Integer int
  | BulkString string
  | Array "RespValue list"
  | Null

text \<open>\<^verbatim>\<open>asString\<close>: \<^verbatim>\<open>std::get<std::string>\<close>, which throws on the others.\<close>

fun asString :: "RespValue \<Rightarrow> string result" where
  "asString (SimpleString s) = Inr s"
| "asString (Error s) = Inr s"
| "asString (BulkString s) = Inr s"
| "asString (Integer n) = Inl BadVariantAccess"
| "asString (Array vs) = Inl BadVariantAccess"
| "asString Null = Inl BadVariantAccess"

fun asInteger :: "RespValue \<Rightarrow> int result" where
  "asInteger (Integer n) = Inr n"
| "asInteger v = Inl BadVariantAccess"

fun asArray :: "RespValue \<Rightarrow> RespValue list result" where
  "asArray (Array vs) = Inr vs"
| "asArray v = Inl BadVariantAccess"

section \<open>RespSerializer\<close>

fun serialize :: "RespValue \<Rightarrow> string" where
  "serialize (SimpleString s) = ''+'' @ s @ CRLF"
| "serialize (Error s) = ''-'' @ s @ CRLF"
| "serialize (Integer n) = '':'' @ int_to_dec n @ CRLF"
| "serialize (BulkString s) = ''$'' @ nat_to_dec (length s) @ CRLF @ s @ CRLF"
| "serialize (Array vs) = ''*'' @ nat_to_dec (length vs) @ CRLF @ concat (map serialize vs)"
| "serialize Null = ''$-1'' @ CRLF"

definition reply_ok :: string where "reply_ok = ''+OK'' @ CRLF"
definition reply_pong :: string where "reply_pong = ''+PONG'' @ CRLF"
definition reply_simpleString :: "string \<Rightarrow> string" where
  "reply_simpleString s = ''+'' @ s @ CRLF"
definition reply_error :: "string \<Rightarrow> string" where
  "reply_error msg = ''-ERR '' @ msg @ CRLF"
definition reply_wrongType :: string where
  "reply_wrongType =
     ''-WRONGTYPE Operation against a key holding the wrong kind of value'' @ CRLF"
definition reply_integer :: "int \<Rightarrow> string" where
  "reply_integer n = '':'' @ int_to_dec n @ CRLF"
definition reply_bulkString :: "string \<Rightarrow> string" where
  "reply_bulkString s = ''$'' @ nat_to_dec (length s) @ CRLF @ s @ CRLF"
definition reply_nullBulkString :: string where "reply_nullBulkString = ''$-1'' @ CRLF"
definition reply_nullArray :: string where "reply_nullArray = ''*-1'' @ CRLF"
definition reply_emptyArray :: string where "reply_emptyArray = ''*0'' @ CRLF"

definition reply_array :: "string list \<Rightarrow> string" where
  "reply_array elements =
     foldl (\<lambda>result elem. result @ elem) (''*'' @ nat_to_dec (length elements) @ CRLF) elements"

definition reply_bulkStringArray :: "string list \<Rightarrow> string" where
  "reply_bulkStringArray strings =
     foldl (\<lambda>result s. result @ reply_bulkString s)
       (''*'' @ nat_to_dec (length strings) @ CRLF) strings"

text \<open>The loops of the array serializers are concatenations.\<close>

lemma foldl_append_concat: "foldl (\<lambda>r x. r @ f x) acc xs = acc @ concat (map f xs)"
  by (induction xs arbitrary: acc) simp_all

lemma reply_bulkStringArray_serialize:
  "reply_bulkStringArray ss = serialize (Array (map BulkString ss))"
  by (simp add: reply_bulkStringArray_def foldl_append_concat reply_bulkString_def comp_def)

lemma reply_array_concat: "reply_array es = ''*'' @ nat_to_dec (length es) @ CRLF @ concat es"
  by (simp add: reply_array_def foldl_append_concat [where f = "\<lambda>x. x", simplified])

lemmas reply_defs = reply_ok_def reply_pong_def reply_simpleString_def reply_error_def
  reply_wrongType_def reply_integer_def reply_bulkString_def reply_nullBulkString_def
  reply_nullArray_def reply_emptyArray_def

lemma serialize_nonempty [simp]: "serialize v \<noteq> []"
  by (cases v) simp_all

text \<open>
  The values that survive a trip over the wire: line-based payloads without a carriage
  return, integers in the 64-bit range, and lengths an \<^verbatim>\<open>int64_t\<close> can hold.
\<close>

fun wire_ok :: "RespValue \<Rightarrow> bool" where
  "wire_ok (SimpleString s) \<longleftrightarrow> CR \<notin> set s"
| "wire_ok (Error s) \<longleftrightarrow> CR \<notin> set s"
| "wire_ok (Integer n) \<longleftrightarrow> in_i64 n"
| "wire_ok (BulkString s) \<longleftrightarrow> in_i64 (int (length s))"
| "wire_ok (Array vs) \<longleftrightarrow> in_i64 (int (length vs)) \<and> (\<forall>v \<in> set vs. wire_ok v)"
| "wire_ok Null \<longleftrightarrow> True"

text \<open>The arrays inside a value, for which the parser reserves memory.\<close>

fun array_sizes :: "RespValue \<Rightarrow> nat set" where
  "array_sizes (Array vs) = insert (length vs) (\<Union> (array_sizes ` set vs))"
| "array_sizes v = {}"

end
