(* ===== verification/RespParser.thy ===== *)
theory RespParser
  imports Resp
begin

text \<open>
  The request parser of \<^verbatim>\<open>protocol/resp_parser.cpp\<close>. A parsing function takes the
  whole buffer and a position, as in the code. Its result is \<open>Inl e\<close> if it throws,
  \<open>Inr None\<close> for \<^verbatim>\<open>std::nullopt\<close> (the position is then unchanged, each
  function restores it), and \<open>Inr (Some (v, pos'))\<close> for a value with the new position.

  Memory is the environment's: \<open>can_reserve n\<close> says whether
  \<^verbatim>\<open>std::vector<RespValue>::reserve(n)\<close> succeeds; where it does not, it throws
  (\<^verbatim>\<open>std::length_error\<close> or \<^verbatim>\<open>std::bad_alloc\<close>) and nothing in the parser
  catches it.
\<close>

type_synonym 'a parsed = "(('a \<times> nat) option) result"

function findCRLF :: "string \<Rightarrow> nat \<Rightarrow> nat option" where
  "findCRLF buffer pos =
     (if pos + 1 < length buffer then
        (if buffer ! pos = CR \<and> buffer ! (pos + 1) = LF then Some pos
         else findCRLF buffer (pos + 1))
      else None)"
  by pat_completeness auto
termination
  by (relation "measure (\<lambda>(buffer, pos). length buffer - pos)") auto

declare findCRLF.simps [simp del]

definition readLine :: "string \<Rightarrow> nat \<Rightarrow> (string \<times> nat) option" where
  "readLine buffer pos = (case findCRLF buffer pos of
      None \<Rightarrow> None
    | Some crlfPos \<Rightarrow> Some (take (crlfPos - pos) (drop pos buffer), crlfPos + 2))"

text \<open>The number of a header line: \<^verbatim>\<open>std::from_chars\<close>, then \<^verbatim>\<open>std::stoll\<close>.\<close>

definition readNumber :: "string \<Rightarrow> int option" where
  "readNumber line = (case from_chars_i64 line of
      Some (v, _) \<Rightarrow> Some v
    | None \<Rightarrow> (case stoll line of Inr v \<Rightarrow> Some v | Inl _ \<Rightarrow> None))"

abbreviation blank :: "char \<Rightarrow> bool" where
  "blank c \<equiv> c = CHR '' '' \<or> c = CHR 0x09"

lemma dropWhile_shorter:
  "dropWhile p xs = y # ys \<Longrightarrow> length (dropWhile q ys) < length xs"
  "dropWhile p xs = y # ys \<Longrightarrow> length (drop 1 (dropWhile q ys)) < length xs"
  using length_dropWhile_le [of p xs] length_dropWhile_le [of q ys] by auto

function inlineArgs :: "string \<Rightarrow> RespValue list" where
  "inlineArgs content = (case dropWhile blank content of
      [] \<Rightarrow> []
    | c # rest \<Rightarrow>
        (if c = CHR 0x22 then
           BulkString (takeWhile (\<lambda>d. d \<noteq> CHR 0x22) rest)
             # inlineArgs (drop 1 (dropWhile (\<lambda>d. d \<noteq> CHR 0x22) rest))
         else if c = CHR 0x27 then
           BulkString (takeWhile (\<lambda>d. d \<noteq> CHR 0x27) rest)
             # inlineArgs (drop 1 (dropWhile (\<lambda>d. d \<noteq> CHR 0x27) rest))
         else
           BulkString (c # takeWhile (\<lambda>d. \<not> blank d) rest)
             # inlineArgs (dropWhile (\<lambda>d. \<not> blank d) rest)))"
  by pat_completeness auto

termination
  by (relation "measure length") (auto dest: dropWhile_shorter simp del: drop_Suc)

declare inlineArgs.simps [simp del]

definition parseInline :: "string \<Rightarrow> nat \<Rightarrow> RespValue parsed" where
  "parseInline buffer pos = (case readLine buffer pos of
      None \<Rightarrow> Inr None
    | Some (content, pos') \<Rightarrow>
        (if content = [] then Inr (Some (Array [], pos'))
         else Inr (Some (Array (inlineArgs content), pos'))))"

definition parseSimpleString :: "string \<Rightarrow> nat \<Rightarrow> RespValue parsed" where
  "parseSimpleString buffer pos = (case readLine buffer (pos + 1) of
      None \<Rightarrow> Inr None
    | Some (line, pos') \<Rightarrow> Inr (Some (SimpleString line, pos')))"

definition parseError :: "string \<Rightarrow> nat \<Rightarrow> RespValue parsed" where
  "parseError buffer pos = (case readLine buffer (pos + 1) of
      None \<Rightarrow> Inr None
    | Some (line, pos') \<Rightarrow> Inr (Some (Error line, pos')))"

definition parseInteger :: "string \<Rightarrow> nat \<Rightarrow> RespValue parsed" where
  "parseInteger buffer pos = (case readLine buffer (pos + 1) of
      None \<Rightarrow> Inr None
    | Some (line, pos') \<Rightarrow> (case readNumber line of
          None \<Rightarrow> Inr None
        | Some v \<Rightarrow> Inr (Some (Integer v, pos'))))"

definition parseBulkString :: "string \<Rightarrow> nat \<Rightarrow> RespValue parsed" where
  "parseBulkString buffer pos = (case readLine buffer (pos + 1) of
      None \<Rightarrow> Inr None
    | Some (line, p) \<Rightarrow> (case readNumber line of
          None \<Rightarrow> Inr None
        | Some len \<Rightarrow>
            (if len = -1 then Inr (Some (Null, p))
             else if len < 0 then Inr None
             else if p + nat len + 2 > length buffer then Inr None
             else (let data = take (nat len) (drop p buffer); q = p + nat len in
               if q + 1 \<ge> length buffer \<or> buffer ! q \<noteq> CR \<or> buffer ! (q + 1) \<noteq> LF
               then Inr None
               else Inr (Some (BulkString data, q + 2))))))"

text \<open>The element loop of \<^verbatim>\<open>parseArray\<close>, over the parser for one element.\<close>

primrec parseElements ::
  "(nat \<Rightarrow> RespValue parsed) \<Rightarrow> nat \<Rightarrow> nat \<Rightarrow> RespValue list parsed" where
  "parseElements pv 0 pos = Inr (Some ([], pos))"
| "parseElements pv (Suc n) pos = (case pv pos of
      Inl e \<Rightarrow> Inl e
    | Inr None \<Rightarrow> Inr None
    | Inr (Some (v, p)) \<Rightarrow> (case parseElements pv n p of
          Inl e \<Rightarrow> Inl e
        | Inr None \<Rightarrow> Inr None
        | Inr (Some (vs, q)) \<Rightarrow> Inr (Some (v # vs, q))))"

definition parseArray ::
  "(nat \<Rightarrow> bool) \<Rightarrow> (nat \<Rightarrow> RespValue parsed) \<Rightarrow> string \<Rightarrow> nat \<Rightarrow> RespValue parsed" where
  "parseArray can_reserve pv buffer pos = (case readLine buffer (pos + 1) of
      None \<Rightarrow> Inr None
    | Some (line, p) \<Rightarrow> (case readNumber line of
          None \<Rightarrow> Inr None
        | Some cnt \<Rightarrow>
            (if cnt = -1 then Inr (Some (Null, p))
             else if cnt < 0 then Inr None
             else if \<not> can_reserve (nat cnt) then Inl LengthError
             else (case parseElements pv (nat cnt) p of
                 Inl e \<Rightarrow> Inl e
               | Inr None \<Rightarrow> Inr None
               | Inr (Some (vs, q)) \<Rightarrow> Inr (Some (Array vs, q))))))"

text \<open>
  One body of \<^verbatim>\<open>parseValue\<close>, with the parser for nested values as a parameter, and
  the recursive function with a bound on the nesting depth. Every nested value starts at
  a later position, so the bound \<open>Suc (length buffer)\<close> is never reached: the theorem
  \<open>parseValue_unfold\<close> states the code's recursion without it.
\<close>

definition parseValueBody ::
  "(nat \<Rightarrow> bool) \<Rightarrow> (nat \<Rightarrow> RespValue parsed) \<Rightarrow> string \<Rightarrow> nat \<Rightarrow> RespValue parsed" where
  "parseValueBody can_reserve pv buffer pos =
     (if pos \<ge> length buffer then Inr None
      else if buffer ! pos = CHR ''+'' then parseSimpleString buffer pos
      else if buffer ! pos = CHR ''-'' then parseError buffer pos
      else if buffer ! pos = CHR '':'' then parseInteger buffer pos
      else if buffer ! pos = CHR ''$'' then parseBulkString buffer pos
      else if buffer ! pos = CHR ''*'' then parseArray can_reserve pv buffer pos
      else parseInline buffer pos)"

primrec parseValueDepth ::
  "(nat \<Rightarrow> bool) \<Rightarrow> nat \<Rightarrow> string \<Rightarrow> nat \<Rightarrow> RespValue parsed" where
  "parseValueDepth can_reserve 0 buffer pos = Inr None"
| "parseValueDepth can_reserve (Suc d) buffer pos =
     parseValueBody can_reserve (parseValueDepth can_reserve d buffer) buffer pos"

definition parseValue :: "(nat \<Rightarrow> bool) \<Rightarrow> string \<Rightarrow> nat \<Rightarrow> RespValue parsed" where
  "parseValue can_reserve buffer pos =
     parseValueDepth can_reserve (Suc (length buffer)) buffer pos"

definition parseStep :: "(nat \<Rightarrow> bool) \<Rightarrow> string \<Rightarrow> nat \<Rightarrow> RespValue parsed" where
  "parseStep can_reserve buffer pos =
     (if buffer ! pos \<in> {CHR ''*'', CHR ''+'', CHR ''-'', CHR '':'', CHR ''$''}
      then parseValue can_reserve buffer pos
      else parseInline buffer pos)"

section \<open>Consumption\<close>

lemma findCRLF_bounds:
  "findCRLF buffer pos = Some c \<Longrightarrow>
     pos \<le> c \<and> c + 1 < length buffer \<and> buffer ! c = CR \<and> buffer ! (c + 1) = LF"
proof (induction buffer pos rule: findCRLF.induct)
  case (1 buffer pos)
  show ?case
  proof (cases "pos + 1 < length buffer \<and> \<not> (buffer ! pos = CR \<and> buffer ! (pos + 1) = LF)")
    case True
    with "1.prems" have "findCRLF buffer (pos + 1) = Some c"
      by (auto simp: findCRLF.simps [of buffer pos] split: if_splits)
    with True "1.IH" show ?thesis by simp
  next
    case False
    with "1.prems" show ?thesis
      by (auto simp: findCRLF.simps [of buffer pos] split: if_splits)
  qed
qed

lemma readLine_bounds:
  "readLine buffer pos = Some (l, p) \<Longrightarrow> pos + 2 \<le> p \<and> p \<le> length buffer"
  by (auto simp: readLine_def split: option.splits dest!: findCRLF_bounds)

named_theorems consume \<open>a parser that returns a value moves forward, inside the buffer\<close>

definition forward :: "string \<Rightarrow> nat \<Rightarrow> 'a parsed \<Rightarrow> bool" where
  "forward buffer pos r \<longleftrightarrow>
     (case r of Inr (Some (v, p)) \<Rightarrow> pos < p \<and> p \<le> length buffer | _ \<Rightarrow> True)"

lemma forwardD: "forward buffer pos (Inr (Some (v, p))) \<Longrightarrow> pos < p \<and> p \<le> length buffer"
  by (simp add: forward_def)

lemma parseInline_forward [consume]: "forward buffer pos (parseInline buffer pos)"
  by (auto simp: forward_def parseInline_def split: option.splits prod.splits
      dest!: readLine_bounds)

lemma parseSimpleString_forward [consume]: "forward buffer pos (parseSimpleString buffer pos)"
  by (auto simp: forward_def parseSimpleString_def split: option.splits prod.splits
      dest!: readLine_bounds)

lemma parseError_forward [consume]: "forward buffer pos (parseError buffer pos)"
  by (auto simp: forward_def parseError_def split: option.splits prod.splits
      dest!: readLine_bounds)

lemma parseInteger_forward [consume]: "forward buffer pos (parseInteger buffer pos)"
  by (auto simp: forward_def parseInteger_def split: option.splits prod.splits
      dest!: readLine_bounds)

lemma parseBulkString_forward [consume]: "forward buffer pos (parseBulkString buffer pos)"
  by (auto simp: forward_def parseBulkString_def Let_def split: option.splits prod.splits
      dest!: readLine_bounds)

lemma parseElements_forward:
  assumes "\<And>p. forward buffer p (pv p)"
  shows "parseElements pv n pos = Inr (Some (vs, q)) \<Longrightarrow> pos \<le> length buffer \<Longrightarrow>
    pos \<le> q \<and> q \<le> length buffer"
proof (induction n arbitrary: pos vs)
  case 0
  then show ?case by simp
next
  case (Suc n)
  from Suc.prems(1) obtain v p ws where
    one: "pv pos = Inr (Some (v, p))" and rest: "parseElements pv n p = Inr (Some (ws, q))"
    by (auto split: sum.splits option.splits prod.splits)
  from one assms [of pos] have "pos < p" "p \<le> length buffer"
    by (auto simp: forward_def)
  with Suc.IH [OF rest] show ?case by simp
qed

lemma parseArray_forward:
  assumes "\<And>p. forward buffer p (pv p)"
  shows "forward buffer pos (parseArray can_reserve pv buffer pos)"
  using parseElements_forward [OF assms]
  by (fastforce simp: forward_def parseArray_def split: sum.splits option.splits prod.splits
      dest!: readLine_bounds)

lemma parseValueBody_forward:
  assumes "\<And>p. forward buffer p (pv p)"
  shows "forward buffer pos (parseValueBody can_reserve pv buffer pos)"
  using parseArray_forward [OF assms]
  by (simp add: parseValueBody_def consume) (simp add: forward_def)

lemma parseValueDepth_forward [consume]:
  "forward buffer pos (parseValueDepth can_reserve d buffer pos)"
  by (induction d arbitrary: pos) (simp_all add: forward_def [of _ _ "Inr None"] parseValueBody_forward)

lemma parseValue_forward [consume]: "forward buffer pos (parseValue can_reserve buffer pos)"
  by (simp only: parseValue_def consume)

lemma parseStep_forward [consume]: "forward buffer pos (parseStep can_reserve buffer pos)"
  by (simp add: parseStep_def consume)

section \<open>The driver loop\<close>

record ParseResult =
  commands :: "RespValue list"
  bytesConsumed :: nat

function parseLoop ::
  "(nat \<Rightarrow> bool) \<Rightarrow> string \<Rightarrow> nat \<Rightarrow> ParseResult \<Rightarrow> ParseResult result" where
  "parseLoop can_reserve buffer pos result =
     (if pos < length buffer then
        (case parseStep can_reserve buffer pos of
           Inl e \<Rightarrow> Inl e
         | Inr None \<Rightarrow> Inr result
         | Inr (Some (v, pos')) \<Rightarrow>
             parseLoop can_reserve buffer pos'
               (result\<lparr>commands := commands result @ [v], bytesConsumed := pos'\<rparr>))
      else Inr result)"
  by pat_completeness auto
termination
proof (relation "measure (\<lambda>(cr, buffer, pos, r). length buffer - pos)", goal_cases)
  case 1
  show ?case by simp
next
  case (2 can_reserve buffer pos result x2 x2a x y)
  from parseStep_forward [of buffer pos can_reserve] 2 show ?case
    by (auto simp: forward_def)
qed

declare parseLoop.simps [simp del]

definition parse :: "(nat \<Rightarrow> bool) \<Rightarrow> string \<Rightarrow> ParseResult result" where
  "parse can_reserve buffer =
     parseLoop can_reserve buffer 0 \<lparr>commands = [], bytesConsumed = 0\<rparr>"

end
