(* ===== verification/RespStream.thy ===== *)
theory RespStream
  imports RespParser
begin

text \<open>
  Correctness of the request parser: the nesting bound of the model is never reached,
  a parse does not depend on what precedes the position or on what follows the bytes
  it used, the parser inverts the serializer, and splitting the input into chunks does
  not change the commands that come out.
\<close>

section \<open>The nesting bound is never reached\<close>

lemma parseElements_cong:
  assumes "\<And>q. pos \<le> q \<Longrightarrow> pv q = pv' q" and "\<And>p. forward buffer p (pv' p)"
  shows "parseElements pv n pos = parseElements pv' n pos"
  using assms(1)
proof (induction n arbitrary: pos)
  case 0
  then show ?case by simp
next
  case (Suc n)
  have "parseElements pv n p = parseElements pv' n p" if "pv' pos = Inr (Some (v, p))" for v p
    using Suc assms(2) [of pos] that by (auto simp: forward_def)
  with Suc.prems [of pos] show ?case by (simp split: sum.splits option.splits)
qed

lemma parseArray_cong:
  assumes "\<And>q. pos < q \<Longrightarrow> pv q = pv' q" and "\<And>p. forward buffer p (pv' p)"
  shows "parseArray can_reserve pv buffer pos = parseArray can_reserve pv' buffer pos"
proof -
  have "parseElements pv n p = parseElements pv' n p" if "readLine buffer (pos + 1) = Some (l, p)" for l p n
    using readLine_bounds [OF that] assms by (intro parseElements_cong) auto
  then show ?thesis by (auto simp: parseArray_def split: option.splits)
qed

lemma parseValueBody_cong:
  assumes "\<And>q. pos < q \<Longrightarrow> pv q = pv' q" and "\<And>p. forward buffer p (pv' p)"
  shows "parseValueBody can_reserve pv buffer pos = parseValueBody can_reserve pv' buffer pos"
  using parseArray_cong [OF assms] by (simp add: parseValueBody_def)

lemma parseValueBody_outside: "length buffer \<le> pos \<Longrightarrow> parseValueBody cr pv buffer pos = Inr None"
  by (simp add: parseValueBody_def)

lemma parseValueDepth_enough:
  "length buffer < d + pos \<Longrightarrow> length buffer < d' + pos \<Longrightarrow>
    parseValueDepth can_reserve d buffer pos = parseValueDepth can_reserve d' buffer pos"
proof (induction d arbitrary: d' pos)
  case 0
  then show ?case by (cases d') (simp_all add: parseValueBody_outside)
next
  case (Suc d)
  show ?case
  proof (cases d')
    case 0
    with Suc.prems show ?thesis by (simp add: parseValueBody_outside)
  next
    case (Suc e)
    have "parseValueDepth can_reserve d buffer q = parseValueDepth can_reserve e buffer q"
      if "pos < q" for q
      using Suc.IH [of q e] Suc.prems that Suc by simp
    then show ?thesis
      unfolding Suc parseValueDepth.simps
      by (rule parseValueBody_cong) (simp_all add: consume)
  qed
qed

text \<open>The recursion of the source, without a bound.\<close>

lemma parseValue_unfold:
  "parseValue can_reserve buffer pos =
     parseValueBody can_reserve (parseValue can_reserve buffer) buffer pos"
proof -
  have "parseValueBody can_reserve (parseValueDepth can_reserve (length buffer) buffer) buffer pos =
        parseValueBody can_reserve (parseValue can_reserve buffer) buffer pos"
    by (rule parseValueBody_cong) (auto simp: parseValue_def consume intro: parseValueDepth_enough
        simp del: parseValueDepth.simps)
  then show ?thesis by (simp add: parseValue_def)
qed

section \<open>More input does not change a value already parsed\<close>

definition stable :: "'a parsed \<Rightarrow> 'a parsed \<Rightarrow> bool" where
  "stable r r' \<longleftrightarrow> r = Inr None \<or> r' = r"

lemma findCRLF_append:
  "findCRLF buffer pos = Some c \<Longrightarrow> findCRLF (buffer @ extra) pos = Some c"
proof (induction buffer pos rule: findCRLF.induct)
  case (1 buffer pos)
  then show ?case
    by (auto simp: findCRLF.simps [of buffer pos] findCRLF.simps [of "buffer @ extra" pos]
        nth_append split: if_splits)
qed

lemma readLine_append:
  assumes "readLine buffer pos = Some (l, p)"
  shows "readLine (buffer @ extra) pos = Some (l, p)"
proof -
  from assms obtain c where c: "findCRLF buffer pos = Some c"
    and l: "l = take (c - pos) (drop pos buffer)" "p = c + 2"
    by (auto simp: readLine_def split: option.splits)
  from findCRLF_bounds [OF c] have "c < length buffer" "pos \<le> c" by auto
  with l findCRLF_append [OF c, of extra] show ?thesis
    by (simp add: readLine_def)
qed

named_theorems stability \<open>parsers whose result is stable under more input\<close>

lemma parseInline_stable [stability]:
  "stable (parseInline buffer pos) (parseInline (buffer @ extra) pos)"
  by (auto simp: stable_def parseInline_def readLine_append split: option.splits prod.splits)

lemma parseSimpleString_stable [stability]:
  "stable (parseSimpleString buffer pos) (parseSimpleString (buffer @ extra) pos)"
  by (auto simp: stable_def parseSimpleString_def split: option.splits
      dest: readLine_append [where extra = extra])

lemma parseError_stable [stability]:
  "stable (parseError buffer pos) (parseError (buffer @ extra) pos)"
  by (auto simp: stable_def parseError_def split: option.splits
      dest: readLine_append [where extra = extra])

lemma parseInteger_stable [stability]:
  "stable (parseInteger buffer pos) (parseInteger (buffer @ extra) pos)"
  by (auto simp: stable_def parseInteger_def split: option.splits
      dest: readLine_append [where extra = extra])

lemma parseBulkString_stable [stability]:
  "stable (parseBulkString buffer pos) (parseBulkString (buffer @ extra) pos)"
proof (cases "readLine buffer (pos + 1)")
  case None
  then show ?thesis by (simp add: stable_def parseBulkString_def)
next
  case (Some lp)
  obtain l p where lp: "lp = (l, p)" by (cases lp)
  with Some readLine_append readLine_bounds
  have r: "readLine buffer (Suc pos) = Some (l, p)"
    "readLine (buffer @ extra) (Suc pos) = Some (l, p)" "p \<le> length buffer"
    by fastforce+
  then show ?thesis
    by (auto simp: stable_def parseBulkString_def Let_def nth_append split: option.splits if_splits)
qed

lemma parseElements_stable:
  assumes "\<And>p. stable (pv p) (pv' p)"
  shows "stable (parseElements pv n pos) (parseElements pv' n pos)"
proof (induction n arbitrary: pos)
  case 0
  then show ?case by (simp add: stable_def)
next
  case (Suc n)
  show ?case
  proof (cases "pv pos = Inr None")
    case True
    then show ?thesis by (simp add: stable_def)
  next
    case False
    with assms [of pos] have eq: "pv' pos = pv pos" by (simp add: stable_def)
    have e: "parseElements pv n p = Inr None \<or> parseElements pv' n p = parseElements pv n p" for p
      using Suc.IH by (simp add: stable_def)
    have "stable (parseElements pv (Suc n) pos) (parseElements pv' (Suc n) pos)"
      if "pv pos = Inr (Some (v, p))" for v p
      using that eq e [of p] by (elim disjE) (simp_all add: stable_def)
    with eq show ?thesis by (auto simp: stable_def split: sum.splits option.splits)
  qed
qed

lemma parseArray_stable:
  assumes "\<And>p. stable (pv p) (pv' p)"
  shows "stable (parseArray cr pv buffer pos) (parseArray cr pv' (buffer @ extra) pos)"
proof (cases "readLine buffer (pos + 1)")
  case None
  then show ?thesis by (simp add: stable_def parseArray_def)
next
  case (Some lp)
  obtain l p where lp: "lp = (l, p)" by (cases lp)
  with Some readLine_append
  have r: "readLine buffer (Suc pos) = Some (l, p)"
    "readLine (buffer @ extra) (Suc pos) = Some (l, p)"
    by fastforce+
  have e: "parseElements pv n p = Inr None \<or> parseElements pv' n p = parseElements pv n p" for n
    using parseElements_stable [OF assms] by (simp add: stable_def)
  show ?thesis
  proof (cases "readNumber l")
    case None
    with r show ?thesis by (simp add: stable_def parseArray_def)
  next
    case (Some cnt)
    with r e [of "nat cnt"] show ?thesis
      by (elim disjE) (simp_all add: stable_def parseArray_def)
  qed
qed

lemma parseValueBody_stable:
  assumes "\<And>p. stable (pv p) (pv' p)"
  shows "stable (parseValueBody cr pv buffer pos) (parseValueBody cr pv' (buffer @ extra) pos)"
proof (cases "pos < length buffer")
  case False
  then show ?thesis by (simp add: stable_def parseValueBody_def)
next
  case True
  with parseArray_stable [OF assms] show ?thesis
    by (simp add: parseValueBody_def nth_append stability)
qed

lemma parseValueDepth_stable:
  "d \<le> d' \<Longrightarrow> stable (parseValueDepth cr d buffer pos) (parseValueDepth cr d' (buffer @ extra) pos)"
proof (induction d arbitrary: d' pos)
  case 0
  then show ?case by (simp add: stable_def)
next
  case (Suc d)
  then obtain e where "d' = Suc e" "d \<le> e" by (cases d') auto
  with Suc.IH parseValueBody_stable show ?case by simp
qed

lemma parseValue_stable [stability]:
  "stable (parseValue cr buffer pos) (parseValue cr (buffer @ extra) pos)"
  unfolding parseValue_def by (rule parseValueDepth_stable) simp

lemma parseStep_stable [stability]:
  "pos < length buffer \<Longrightarrow>
    stable (parseStep cr buffer pos) (parseStep cr (buffer @ extra) pos)"
  by (simp add: parseStep_def nth_append stability)

section \<open>What precedes the position does not matter\<close>

definition shift :: "nat \<Rightarrow> 'a parsed \<Rightarrow> 'a parsed" where
  "shift k = map_sum id (map_option (apsnd ((+) k)))"

lemma shift_simps [simp]:
  "shift k (Inl e) = Inl e" "shift k (Inr None) = Inr None"
  "shift k (Inr (Some (v, p))) = Inr (Some (v, k + p))"
  by (simp_all add: shift_def)

lemma findCRLF_shift:
  "findCRLF (pre @ buffer) (length pre + pos) = map_option ((+) (length pre)) (findCRLF buffer pos)"
proof (induction buffer pos rule: findCRLF.induct)
  case (1 buffer pos)
  then show ?case
    by (simp add: findCRLF.simps [of buffer pos]
        findCRLF.simps [of "pre @ buffer" "length pre + pos"] nth_append)
qed

lemma readLine_shift:
  "readLine (pre @ buffer) (length pre + pos) =
     map_option (apsnd ((+) (length pre))) (readLine buffer pos)"
  by (simp add: readLine_def findCRLF_shift split: option.split)

lemma readLine_shift_Suc:
  "readLine (pre @ buffer) (Suc (length pre + pos)) =
     map_option (apsnd ((+) (length pre))) (readLine buffer (Suc pos))"
  using readLine_shift [of pre buffer "Suc pos"] by simp

named_theorems shifting \<open>parsers are independent of what precedes the position\<close>

lemma parseInline_shift [shifting]:
  "parseInline (pre @ buffer) (length pre + pos) = shift (length pre) (parseInline buffer pos)"
  by (simp add: parseInline_def readLine_shift split: option.split prod.split)

lemma parseSimpleString_shift [shifting]:
  "parseSimpleString (pre @ buffer) (length pre + pos) =
     shift (length pre) (parseSimpleString buffer pos)"
  by (simp add: parseSimpleString_def readLine_shift_Suc split: option.split prod.split)

lemma parseError_shift [shifting]:
  "parseError (pre @ buffer) (length pre + pos) = shift (length pre) (parseError buffer pos)"
  by (simp add: parseError_def readLine_shift_Suc split: option.split prod.split)

lemma parseInteger_shift [shifting]:
  "parseInteger (pre @ buffer) (length pre + pos) = shift (length pre) (parseInteger buffer pos)"
  by (simp add: parseInteger_def readLine_shift_Suc split: option.split prod.split)

lemma parseBulkString_shift [shifting]:
  "parseBulkString (pre @ buffer) (length pre + pos) =
     shift (length pre) (parseBulkString buffer pos)"
  by (simp add: parseBulkString_def readLine_shift_Suc Let_def nth_append add.assoc
      split: option.split prod.split)

lemma parseElements_shift:
  assumes "\<And>p. pv' (k + p) = shift k (pv p)"
  shows "parseElements pv' n (k + pos) = shift k (parseElements pv n pos)"
proof (induction n arbitrary: pos)
  case 0
  then show ?case by simp
next
  case (Suc n)
  then show ?case
    using assms [of pos] by (simp split: sum.split option.split prod.split)
qed

lemma parseArray_shift:
  assumes "\<And>p. pv' (length pre + p) = shift (length pre) (pv p)"
  shows "parseArray cr pv' (pre @ buffer) (length pre + pos) =
    shift (length pre) (parseArray cr pv buffer pos)"
  using parseElements_shift [where pv' = pv' and pv = pv, OF assms]
  by (simp add: parseArray_def readLine_shift_Suc split: sum.split option.split prod.split)

lemma parseValueBody_shift:
  assumes "\<And>p. pv' (length pre + p) = shift (length pre) (pv p)"
  shows "parseValueBody cr pv' (pre @ buffer) (length pre + pos) =
    shift (length pre) (parseValueBody cr pv buffer pos)"
  using parseArray_shift [where pv' = pv' and pv = pv, OF assms] by (simp add: parseValueBody_def nth_append shifting)

lemma parseValueDepth_shift:
  "parseValueDepth cr d (pre @ buffer) (length pre + pos) =
     shift (length pre) (parseValueDepth cr d buffer pos)"
  by (induction d arbitrary: pos) (simp_all add: parseValueBody_shift)

lemma parseValue_shift [shifting]:
  "parseValue cr (pre @ buffer) (length pre + pos) = shift (length pre) (parseValue cr buffer pos)"
proof -
  have "parseValue cr (pre @ buffer) (length pre + pos) =
    parseValueDepth cr (Suc (length buffer)) (pre @ buffer) (length pre + pos)"
    unfolding parseValue_def by (rule parseValueDepth_enough) simp_all
  then show ?thesis by (simp add: parseValueDepth_shift parseValue_def del: parseValueDepth.simps)
qed

lemma parseStep_shift [shifting]:
  "parseStep cr (pre @ buffer) (length pre + pos) = shift (length pre) (parseStep cr buffer pos)"
  by (simp add: parseStep_def nth_append shifting)

section \<open>The driver loop over a growing buffer\<close>

definition prepend :: "RespValue list \<Rightarrow> nat \<Rightarrow> ParseResult \<Rightarrow> ParseResult" where
  "prepend vs k r = \<lparr>commands = vs @ commands r, bytesConsumed = k + bytesConsumed r\<rparr>"

lemma prepend_sel [simp]:
  "commands (prepend vs k r) = vs @ commands r"
  "bytesConsumed (prepend vs k r) = k + bytesConsumed r"
  by (simp_all add: prepend_def)

lemma prepend_update:
  "prepend vs k r\<lparr>commands := vs @ commands r @ [v], bytesConsumed := k + p\<rparr> =
     prepend vs k (r\<lparr>commands := commands r @ [v], bytesConsumed := p\<rparr>)"
  by (simp add: prepend_def)

lemma parseLoop_prepend:
  "parseLoop cr (pre @ buffer) (length pre + pos) (prepend vs (length pre) r) =
     map_sum id (prepend vs (length pre)) (parseLoop cr buffer pos r)"
proof (induction cr buffer pos r rule: parseLoop.induct)
  case (1 cr buffer pos r)
  show ?case
  proof (cases "pos < length buffer")
    case False
    then show ?thesis
      by (simp add: parseLoop.simps [of cr buffer pos]
          parseLoop.simps [of cr "pre @ buffer" "length pre + pos"])
  next
    case True
    have step: "parseLoop cr (pre @ buffer) (length pre + p)
        (prepend vs (length pre) r\<lparr>commands := vs @ commands r @ [v], bytesConsumed := length pre + p\<rparr>) =
      map_sum id (prepend vs (length pre))
        (parseLoop cr buffer p (r\<lparr>commands := commands r @ [v], bytesConsumed := p\<rparr>))"
      if "parseStep cr buffer pos = Inr (Some (v, p))" for v p
      using "1.IH" [OF True that refl refl] by (simp only: prepend_update)
    from True step show ?thesis
      by (simp add: parseLoop.simps [of cr buffer pos]
          parseLoop.simps [of cr "pre @ buffer" "length pre + pos"] shifting id_def
          split: sum.split option.split prod.split)
  qed
qed

lemma parseLoop_consumed:
  "parseLoop cr buffer pos r = Inr r' \<Longrightarrow> bytesConsumed r = pos \<Longrightarrow> pos \<le> length buffer \<Longrightarrow>
     pos \<le> bytesConsumed r' \<and> bytesConsumed r' \<le> length buffer"
proof (induction cr buffer pos r rule: parseLoop.induct)
  case (1 cr buffer pos r)
  show ?case
  proof (cases "pos < length buffer")
    case False
    with "1.prems" show ?thesis by (simp add: parseLoop.simps [of cr buffer pos])
  next
    case True
    show ?thesis
    proof (cases "parseStep cr buffer pos = Inr None")
      case True
      with "1.prems" show ?thesis by (simp add: parseLoop.simps [of cr buffer pos] split: if_splits)
    next
      case False
      with True "1.prems" obtain v p where vp: "parseStep cr buffer pos = Inr (Some (v, p))"
        by (auto simp: parseLoop.simps [of cr buffer pos] split: sum.splits option.splits)
      with parseStep_forward [of buffer pos cr] have "pos < p" "p \<le> length buffer"
        by (auto simp: forward_def)
      with "1.IH" [OF True vp refl refl] "1.prems" True vp show ?thesis
        by (simp add: parseLoop.simps [of cr buffer pos])
    qed
  qed
qed

lemma parseLoop_extend:
  "bytesConsumed r = pos \<Longrightarrow>
     parseLoop cr (buffer @ extra) pos r =
       (case parseLoop cr buffer pos r of
          Inl e \<Rightarrow> Inl e
        | Inr r' \<Rightarrow> parseLoop cr (buffer @ extra) (bytesConsumed r') r')"
proof (induction cr buffer pos r rule: parseLoop.induct)
  case (1 cr buffer pos r)
  show ?case
  proof (cases "pos < length buffer \<and> parseStep cr buffer pos \<noteq> Inr None")
    case False
    with "1.prems" show ?thesis
      by (auto simp: parseLoop.simps [of cr buffer pos])
  next
    case True
    then have p: "pos < length buffer" by simp
    from True parseStep_stable [OF p, of cr extra]
    have same: "parseStep cr (buffer @ extra) pos = parseStep cr buffer pos"
      by (simp add: stable_def)
    show ?thesis
    proof (cases "parseStep cr buffer pos")
      case (Inl e)
      with p same show ?thesis
        by (simp add: parseLoop.simps [of cr buffer pos] parseLoop.simps [of cr "buffer @ extra" pos])
    next
      case (Inr w)
      with True obtain v q where vq: "parseStep cr buffer pos = Inr (Some (v, q))" by auto
      with "1.IH" [OF p vq refl refl] p same show ?thesis
        by (simp add: parseLoop.simps [of cr buffer pos] parseLoop.simps [of cr "buffer @ extra" pos])
    qed
  qed
qed

lemma parse_consumed: "parse cr buffer = Inr r \<Longrightarrow> bytesConsumed r \<le> length buffer"
  using parseLoop_consumed by (fastforce simp: parse_def)

lemma parse_extend:
  "parse cr (buffer @ extra) =
     (case parse cr buffer of
        Inl e \<Rightarrow> Inl e
      | Inr r \<Rightarrow> map_sum id (prepend (commands r) (bytesConsumed r))
          (parse cr (drop (bytesConsumed r) buffer @ extra)))"
proof (cases "parse cr buffer")
  case (Inl e)
  then show ?thesis by (simp add: parse_def parseLoop_extend)
next
  case (Inr r)
  then have c: "bytesConsumed r \<le> length buffer" by (rule parse_consumed)
  let ?pre = "take (bytesConsumed r) buffer"
  let ?buf = "drop (bytesConsumed r) buffer @ extra"
  have split: "buffer @ extra = ?pre @ ?buf" by simp
  have r: "prepend (commands r) (length ?pre) \<lparr>commands = [], bytesConsumed = 0\<rparr> = r"
    using c by (simp add: prepend_def)
  have "parse cr (buffer @ extra) = parseLoop cr (buffer @ extra) (bytesConsumed r) r"
    using Inr by (simp add: parse_def parseLoop_extend)
  also have "\<dots> = parseLoop cr (?pre @ ?buf) (length ?pre + 0)
      (prepend (commands r) (length ?pre) \<lparr>commands = [], bytesConsumed = 0\<rparr>)"
    using c by (simp only: r split [symmetric]) simp
  also have "\<dots> = map_sum id (prepend (commands r) (length ?pre)) (parse cr ?buf)"
    unfolding parse_def by (rule parseLoop_prepend)
  finally show ?thesis using Inr c by simp
qed

section \<open>The parser inverts the serializer\<close>

lemma findCRLF_line: "CR \<notin> set s \<Longrightarrow> findCRLF (s @ CRLF @ rest) 0 = Some (length s)"
proof (induction s)
  case Nil
  show ?case by (simp add: findCRLF.simps)
next
  case (Cons c s)
  then have "findCRLF ([c] @ (s @ CRLF @ rest)) (length [c] + 0) = Some (1 + length s)"
    unfolding findCRLF_shift by simp
  with Cons.prems show ?case
    by (auto simp: findCRLF.simps [of "c # s @ CR # LF # rest" 0])
qed

lemma readLine_line:
  assumes "CR \<notin> set s"
  shows "readLine (c # s @ CRLF @ rest) (Suc 0) = Some (s, length s + 3)"
proof -
  have "readLine (s @ CRLF @ rest) 0 = Some (s, length s + 2)"
    using findCRLF_line [OF assms, of rest] by (simp add: readLine_def)
  then show ?thesis
    using readLine_shift [of "[c]" "s @ CRLF @ rest" 0] by simp
qed

lemma readNumber_int_to_dec [simp]: "in_i64 n \<Longrightarrow> readNumber (int_to_dec n) = Some n"
  by (simp add: readNumber_def)

lemma readNumber_nat_to_dec [simp]: "in_i64 (int n) \<Longrightarrow> readNumber (nat_to_dec n) = Some (int n)"
  using readNumber_int_to_dec [of "int n"] by (simp add: int_to_dec_def)

lemma minus_one_dec: "''-1'' = int_to_dec (-1)"
  by (simp add: int_to_dec_def nat_to_dec.simps digit_char_def char_of_def bit_0)

lemma readNumber_minus_one [simp]: "readNumber ''-1'' = Some (-1)"
  unfolding minus_one_dec by (rule readNumber_int_to_dec) (simp add: in_i64_def i64_min_def i64_max_def)

lemma no_CR_minus_one: "CR \<notin> set ''-1''"
  by simp

lemma parseElements_concat:
  assumes "\<And>v pre extra. v \<in> set vs \<Longrightarrow>
      parseValue cr (pre @ ser v @ extra) (length pre) = Inr (Some (v, length pre + length (ser v)))"
  shows "parseElements (parseValue cr (pre @ concat (map ser vs) @ extra)) (length vs) (length pre) =
    Inr (Some (vs, length pre + length (concat (map ser vs))))"
  using assms
proof (induction vs arbitrary: pre)
  case Nil
  then show ?case by simp
next
  case (Cons v vs)
  have one: "parseValue cr (pre @ ser v @ concat (map ser vs) @ extra) (length pre) =
      Inr (Some (v, length pre + length (ser v)))"
    by (rule Cons.prems) simp
  have "parseElements (parseValue cr ((pre @ ser v) @ concat (map ser vs) @ extra)) (length vs)
      (length (pre @ ser v)) = Inr (Some (vs, length (pre @ ser v) + length (concat (map ser vs))))"
    by (rule Cons.IH) (simp add: Cons.prems)
  with one show ?case by (simp add: add.assoc)
qed

lemma parseValue_line_start:
  assumes "parseValueBody cr (parseValue cr (b # buffer)) (b # buffer) 0 = Inr (Some (v, k))"
  shows "parseValue cr (pre @ b # buffer) (length pre) = Inr (Some (v, length pre + k))"
  using parseValue_shift [of cr pre "b # buffer" 0] assms parseValue_unfold [of cr "b # buffer" 0]
  by simp

lemma parseValue_serialize:
  "wire_ok v \<Longrightarrow> \<forall>n \<in> array_sizes v. cr n \<Longrightarrow>
    parseValue cr (pre @ serialize v @ extra) (length pre) =
      Inr (Some (v, length pre + length (serialize v)))"
proof (induction v arbitrary: pre extra rule: serialize.induct)
  case (1 s)
  have "parseValue cr (pre @ CHR ''+'' # s @ CRLF @ extra) (length pre) =
      Inr (Some (SimpleString s, length pre + (length s + 3)))"
    using "1.prems" readLine_line [of s "CHR ''+''" extra]
    by (intro parseValue_line_start) (simp add: parseValueBody_def parseSimpleString_def)
  then show ?case by simp
next
  case (2 s)
  have "parseValue cr (pre @ CHR ''-'' # s @ CRLF @ extra) (length pre) =
      Inr (Some (Error s, length pre + (length s + 3)))"
    using "2.prems" readLine_line [of s "CHR ''-''" extra]
    by (intro parseValue_line_start) (simp add: parseValueBody_def parseError_def)
  then show ?case by simp
next
  case (3 n)
  have "parseValue cr (pre @ CHR '':'' # int_to_dec n @ CRLF @ extra) (length pre) =
      Inr (Some (Integer n, length pre + (length (int_to_dec n) + 3)))"
    using "3.prems" readLine_line [of "int_to_dec n" "CHR '':''" extra]
    by (intro parseValue_line_start) (simp add: parseValueBody_def parseInteger_def)
  then show ?case by simp
next
  case (4 s)
  let ?d = "nat_to_dec (length s)"
  have "parseValue cr (pre @ CHR ''$'' # ?d @ CRLF @ s @ CRLF @ extra) (length pre) =
      Inr (Some (BulkString s, length pre + (length ?d + length s + 5)))"
    using "4.prems" readLine_line [of ?d "CHR ''$''" "s @ CRLF @ extra"]
    by (intro parseValue_line_start)
      (simp add: parseValueBody_def parseBulkString_def nth_append Let_def numeral_3_eq_3)
  then show ?case by (simp add: algebra_simps)
next
  case (5 vs)
  let ?d = "nat_to_dec (length vs)" and ?body = "concat (map serialize vs)"
  let ?head = "CHR ''*'' # ?d @ CRLF"
  have each: "parseValue cr (p @ serialize v @ e) (length p) =
      Inr (Some (v, length p + length (serialize v)))" if "v \<in> set vs" for v p e
    using "5.IH" [OF that] "5.prems" that by auto
  have elems: "parseElements (parseValue cr (?head @ ?body @ extra)) (length vs) (length ?head) =
      Inr (Some (vs, length ?head + length ?body))"
    using each by (rule parseElements_concat)
  have "parseValue cr (pre @ CHR ''*'' # ?d @ CRLF @ ?body @ extra) (length pre) =
      Inr (Some (Array vs, length pre + (length ?head + length ?body)))"
    using "5.prems" readLine_line [of ?d "CHR ''*''" "?body @ extra"] elems
    by (intro parseValue_line_start)
      (simp add: parseValueBody_def parseArray_def eval_nat_numeral)
  then show ?case by (simp add: algebra_simps)
next
  case 6
  have "parseValue cr (pre @ CHR ''$'' # ''-1'' @ CRLF @ extra) (length pre) =
      Inr (Some (Null, length pre + 5))"
    using readLine_line [OF no_CR_minus_one, of "CHR ''$''" extra]
    by (intro parseValue_line_start) (simp add: parseValueBody_def parseBulkString_def)
  then show ?case by simp
qed

lemma serialize_start:
  "\<exists>b rest. serialize v = b # rest \<and> b \<in> {CHR ''*'', CHR ''+'', CHR ''-'', CHR '':'', CHR ''$''}"
  by (cases v) simp_all

lemma parse_serialize_step:
  assumes "wire_ok v" "\<forall>n \<in> array_sizes v. cr n"
  shows "parseStep cr (serialize v @ extra) 0 = Inr (Some (v, length (serialize v)))"
proof -
  from serialize_start [of v] have "(serialize v @ extra) ! 0 \<in>
      {CHR ''*'', CHR ''+'', CHR ''-'', CHR '':'', CHR ''$''}" by auto
  with parseValue_serialize [OF assms, of "[]" extra] show ?thesis
    by (simp add: parseStep_def)
qed

lemma parse_Cons:
  assumes "wire_ok v" "\<forall>n \<in> array_sizes v. cr n"
  shows "parse cr (serialize v @ extra) =
    map_sum id (prepend [v] (length (serialize v))) (parse cr extra)"
proof -
  let ?k = "length (serialize v)"
  have "parse cr (serialize v @ extra) =
      parseLoop cr (serialize v @ extra) (?k + 0) (prepend [v] ?k \<lparr>commands = [], bytesConsumed = 0\<rparr>)"
    by (simp add: parse_def parseLoop.simps [of cr "serialize v @ extra" 0]
        parse_serialize_step [OF assms] prepend_def)
  then show ?thesis by (simp only: parseLoop_prepend parse_def)
qed

lemma parse_Nil [simp]: "parse cr [] = Inr \<lparr>commands = [], bytesConsumed = 0\<rparr>"
  by (simp add: parse_def parseLoop.simps)

lemma parse_concat_serialize:
  "\<forall>v \<in> set vs. wire_ok v \<and> (\<forall>n \<in> array_sizes v. cr n) \<Longrightarrow>
    parse cr (concat (map serialize vs)) =
      Inr \<lparr>commands = vs, bytesConsumed = length (concat (map serialize vs))\<rparr>"
proof (induction vs)
  case Nil
  show ?case by simp
next
  case (Cons v vs)
  then show ?case by (simp add: parse_Cons prepend_def)
qed

end
