(* ===== verification/Client.thy ===== *)
theory Client
  imports Resp
begin

text \<open>
  The state of a connection, \<^verbatim>\<open>networking/client.h\<close> and \<^verbatim>\<open>.cpp\<close>: buffers,
  flags, the transaction queue, and the watching, subscription and blocking state. The
  sets are lists without duplicates in iteration order. The socket is not part of the
  record: what \<^verbatim>\<open>recv\<close> and \<^verbatim>\<open>send\<close> return is an argument.
\<close>

record client =
  client_fd :: int
  client_id :: nat
  inputBuffer :: string
  outputBuffer :: string
  outputPos :: nat
  flags :: "32 word"
  selectedDb :: int
  createdAt :: int
  lastInteraction :: int
  transactionQueue :: "RespValue list list"
  watching :: "string list"
  subscribed :: "string list"
  psubscribed :: "string list"
  blockedKeys :: "string list"
  blockTimeout :: int
  blockTarget :: string
  blockCmd :: RespValue

definition CLIENT_MULTI :: "32 word" where "CLIENT_MULTI = 1"
definition CLIENT_DIRTY_EXEC :: "32 word" where "CLIENT_DIRTY_EXEC = 2"
definition CLIENT_SLAVE :: "32 word" where "CLIENT_SLAVE = 4"
definition CLIENT_MASTER :: "32 word" where "CLIENT_MASTER = 8"
definition CLIENT_PUBSUB :: "32 word" where "CLIENT_PUBSUB = 16"
definition CLIENT_CLOSE_ASAP :: "32 word" where "CLIENT_CLOSE_ASAP = 32"
definition CLIENT_BLOCKED :: "32 word" where "CLIENT_BLOCKED = 64"

lemmas client_flags = CLIENT_MULTI_def CLIENT_DIRTY_EXEC_def CLIENT_SLAVE_def
  CLIENT_MASTER_def CLIENT_PUBSUB_def CLIENT_CLOSE_ASAP_def CLIENT_BLOCKED_def

definition newClient :: "int \<Rightarrow> nat \<Rightarrow> int \<Rightarrow> client" where
  "newClient fd ident now = \<lparr>client_fd = fd, client_id = ident, inputBuffer = '''',
     outputBuffer = '''', outputPos = 0, flags = 0, selectedDb = 0, createdAt = now,
     lastInteraction = now, transactionQueue = [], watching = [], subscribed = [],
     psubscribed = [], blockedKeys = [], blockTimeout = 0, blockTarget = '''', blockCmd = Null\<rparr>"

section \<open>Flags\<close>

unbundle bit_operations_syntax

definition setFlag :: "32 word \<Rightarrow> client \<Rightarrow> client" where
  "setFlag f c = c\<lparr>flags := flags c OR f\<rparr>"

definition clearFlag :: "32 word \<Rightarrow> client \<Rightarrow> client" where
  "clearFlag f c = c\<lparr>flags := flags c AND NOT f\<rparr>"

definition hasFlag :: "32 word \<Rightarrow> client \<Rightarrow> bool" where
  "hasFlag f c \<longleftrightarrow> flags c AND f \<noteq> 0"

text \<open>Flags are independent bits.\<close>

definition flag_bit :: "32 word \<Rightarrow> nat \<Rightarrow> bool" where
  "flag_bit f n \<longleftrightarrow> (\<forall>k. bit f k \<longleftrightarrow> k = n)"

definition is_flag :: "32 word \<Rightarrow> bool" where
  "is_flag f \<longleftrightarrow> (\<exists>n. flag_bit f n)"

lemma is_flagI: "f = 2 ^ n \<Longrightarrow> n < 32 \<Longrightarrow> is_flag f"
  by (auto simp: is_flag_def flag_bit_def bit_simps)

lemma client_flags_are_flags [simp]:
  "is_flag CLIENT_MULTI" "is_flag CLIENT_DIRTY_EXEC" "is_flag CLIENT_SLAVE"
  "is_flag CLIENT_MASTER" "is_flag CLIENT_PUBSUB" "is_flag CLIENT_CLOSE_ASAP"
  "is_flag CLIENT_BLOCKED"
  using is_flagI [of _ 0] is_flagI [of _ 1] is_flagI [of _ 2] is_flagI [of _ 3]
    is_flagI [of _ 4] is_flagI [of _ 5] is_flagI [of _ 6]
  by (simp_all add: client_flags)

lemma hasFlag_bit:
  assumes "flag_bit f n"
  shows "hasFlag f c \<longleftrightarrow> bit (flags c) n"
  using assms bit_imp_le_length [of "flags c" n]
  by (auto simp: hasFlag_def flag_bit_def bit_eq_iff [of "flags c AND f"] bit_simps)

lemma flag_bit_eq: "flag_bit f m \<Longrightarrow> flag_bit g n \<Longrightarrow> g = f \<longleftrightarrow> n = m"
  unfolding flag_bit_def by (metis bit_word_eqI)

lemma hasFlag_setFlag:
  assumes "is_flag f" "is_flag g"
  shows "hasFlag g (setFlag f c) \<longleftrightarrow> g = f \<or> hasFlag g c"
proof -
  from assms obtain m n where m: "flag_bit f m" and n: "flag_bit g n" by (auto simp: is_flag_def)
  with flag_bit_eq [OF m n] show ?thesis
    by (auto simp: hasFlag_bit [OF n] setFlag_def bit_simps flag_bit_def)
qed

lemma hasFlag_clearFlag:
  assumes "is_flag f" "is_flag g"
  shows "hasFlag g (clearFlag f c) \<longleftrightarrow> g \<noteq> f \<and> hasFlag g c"
proof -
  from assms obtain m n where m: "flag_bit f m" and n: "flag_bit g n" by (auto simp: is_flag_def)
  have "bit (flags c) n \<Longrightarrow> n < 32" by (auto dest: bit_imp_le_length)
  with flag_bit_eq [OF m n] show ?thesis using m n
    by (auto simp: hasFlag_bit [OF n] clearFlag_def bit_simps flag_bit_def)
qed

section \<open>Buffers\<close>

definition addReply :: "string \<Rightarrow> client \<Rightarrow> client" where
  "addReply d c = c\<lparr>outputBuffer := outputBuffer c @ d\<rparr>"

definition consumeInput :: "nat \<Rightarrow> client \<Rightarrow> client" where
  "consumeInput bytes c =
     (if bytes \<ge> length (inputBuffer c) then c\<lparr>inputBuffer := ''''\<rparr>
      else c\<lparr>inputBuffer := drop bytes (inputBuffer c)\<rparr>)"

definition hasPendingOutput :: "client \<Rightarrow> bool" where
  "hasPendingOutput c \<longleftrightarrow> outputPos c < length (outputBuffer c)"

definition clearOutputBuffer :: "client \<Rightarrow> client" where
  "clearOutputBuffer c = c\<lparr>outputBuffer := '''', outputPos := 0\<rparr>"

datatype socket_read = Received string | Closed | WouldBlock | Failed

definition READ_BUFFER_SIZE :: nat where "READ_BUFFER_SIZE = 16384"

definition MAX_INPUT_BUFFER :: nat where "MAX_INPUT_BUFFER = 1024 * 1024 * 1024"

definition readFromSocket :: "socket_read \<Rightarrow> int \<Rightarrow> client \<Rightarrow> int \<times> client" where
  "readFromSocket r now c = (case r of
      Received buf \<Rightarrow>
        (let c' = c\<lparr>inputBuffer := inputBuffer c @ buf, lastInteraction := now\<rparr>
         in if length (inputBuffer c') > MAX_INPUT_BUFFER then (0, c')
            else (int (length buf), c'))
    | Closed \<Rightarrow> (0, c)
    | WouldBlock \<Rightarrow> (-1, c)
    | Failed \<Rightarrow> (0, c))"

datatype socket_write = Sent nat | WriteBlocked | WriteFailed

text \<open>
  The result of a write has three parts: what the method returns, the bytes the kernel took of
  those that \<^verbatim>\<open>send\<close> was given, and the client afterwards. \<^verbatim>\<open>send\<close> is given \<open>remaining\<close> bytes from
  \<open>data\<close> on; the conversion of the count to \<^verbatim>\<open>int\<close> is exact below two gigabytes.
\<close>

definition writeToSocket :: "socket_write \<Rightarrow> client \<Rightarrow> int \<times> string \<times> client" where
  "writeToSocket r c =
     (if \<not> hasPendingOutput c then (0, '''', c)
      else
        let data = drop (outputPos c) (outputBuffer c);
            remaining = length (outputBuffer c) - outputPos c
        in case r of
          Sent n \<Rightarrow>
            (let c' = c\<lparr>outputPos := outputPos c + n\<rparr>
             in (int n, take n (take remaining data),
                 if outputPos c' \<ge> length (outputBuffer c')
                 then c'\<lparr>outputBuffer := '''', outputPos := 0\<rparr> else c'))
        | WriteBlocked \<Rightarrow> (-1, '''', c)
        | WriteFailed \<Rightarrow> (0, '''', c))"

section \<open>Transactions and blocking\<close>

definition clearTransaction :: "client \<Rightarrow> client" where
  "clearTransaction c =
     clearFlag CLIENT_DIRTY_EXEC (clearFlag CLIENT_MULTI (c\<lparr>transactionQueue := []\<rparr>))"

definition clearBlockState :: "client \<Rightarrow> client" where
  "clearBlockState c = clearFlag CLIENT_BLOCKED
     (c\<lparr>blockedKeys := [], blockTimeout := 0, blockTarget := '''', blockCmd := Null\<rparr>)"

text \<open>What the peer has been sent and will be sent: the bytes still to be written.\<close>

definition pendingOutput :: "client \<Rightarrow> string" where
  "pendingOutput c = drop (outputPos c) (outputBuffer c)"

text \<open>What the kernel took and what is still pending are what was pending before.\<close>

lemma writeToSocket_pending:
  assumes "outputPos c \<le> length (outputBuffer c)" "writeToSocket r c = (k, taken, c')"
  shows "taken @ pendingOutput c' = pendingOutput c" "outputPos c' \<le> length (outputBuffer c')"
  using assms
  by (auto simp: writeToSocket_def pendingOutput_def hasPendingOutput_def Let_def ac_simps
      simp flip: drop_drop split: socket_write.splits if_splits)

lemma addReply_pending:
  "outputPos c \<le> length (outputBuffer c) \<Longrightarrow> pendingOutput (addReply d c) = pendingOutput c @ d"
  by (simp add: pendingOutput_def addReply_def)

lemma consumeInput_drop: "inputBuffer (consumeInput n c) = drop n (inputBuffer c)"
  by (simp add: consumeInput_def)

end
