(* ===== verification/Framing.thy ===== *)
theory Framing
  imports RespStream Client
begin

text \<open>
  The byte streams of a connection. \<open>receive\<close> is what one readable event does to the input
  buffer: \<^verbatim>\<open>Client::readFromSocket\<close>, then the parse and \<^verbatim>\<open>consumeInput\<close> at the
  start of \<^verbatim>\<open>Server::processClientInput\<close>; the connection is closed (\<^const>\<open>None\<close>) when the
  read returns nothing, at the end of the stream or above the limit of the input buffer. The
  theorems say that, apart from such closes, the commands seen by the server do not depend on how
  the network cuts the stream into pieces, that whole commands come back exactly as they were
  serialised, and that replies leave in order.
\<close>

section \<open>Input\<close>

definition receive ::
  "(nat \<Rightarrow> bool) \<Rightarrow> int \<Rightarrow> string \<Rightarrow> client \<Rightarrow> (RespValue list \<times> client option) result" where
  "receive cr now chunk c =
     (let (nread, c1) = readFromSocket (Received chunk) now c
      in if nread \<le> 0 then Inr ([], None)
         else case parse cr (inputBuffer c1) of
           Inl e \<Rightarrow> Inl e
         | Inr r \<Rightarrow> Inr (commands r,
             Some (if bytesConsumed r > 0 then consumeInput (bytesConsumed r) c1 else c1)))"

text \<open>
  The chunks of a stream one after the other, with all the commands they completed; after a
  close nothing more is received.
\<close>

primrec receiveAll ::
  "(nat \<Rightarrow> bool) \<Rightarrow> int \<Rightarrow> string list \<Rightarrow> client \<Rightarrow> (RespValue list \<times> client option) result" where
  "receiveAll cr now [] c = Inr ([], Some c)"
| "receiveAll cr now (chunk # chunks) c = (case receive cr now chunk c of
      Inl e \<Rightarrow> Inl e
    | Inr (vs, None) \<Rightarrow> Inr (vs, None)
    | Inr (vs, Some c1) \<Rightarrow> map_sum id (apfst ((@) vs)) (receiveAll cr now chunks c1))"

abbreviation idle :: "(nat \<Rightarrow> bool) \<Rightarrow> string \<Rightarrow> bool" where
  "idle cr buffer \<equiv> parse cr buffer = Inr \<lparr>commands = [], bytesConsumed = 0\<rparr>"

text \<open>What a parse leaves in the buffer holds no complete command.\<close>

lemma parse_idle:
  assumes "parse cr buffer = Inr r"
  shows "idle cr (drop (bytesConsumed r) buffer)"
proof -
  obtain r' where r': "parse cr (drop (bytesConsumed r) buffer) = Inr r'"
    and r: "r = prepend (commands r) (bytesConsumed r) r'"
    using parse_extend [of cr buffer "[]"] assms
    by (cases "parse cr (drop (bytesConsumed r) buffer)") auto
  from r have "commands r' = []" "bytesConsumed r' = 0"
    by (metis append_self_conv prepend_sel(1)) (metis add_cancel_right_right prepend_sel(2) r)
  with r' show ?thesis by simp
qed

text \<open>Received as a whole, by one parse of all that arrives.\<close>

definition at_once :: "(nat \<Rightarrow> bool) \<Rightarrow> string \<Rightarrow> (RespValue list \<times> string option) result" where
  "at_once cr stream = map_sum id (\<lambda>r. (commands r, Some (drop (bytesConsumed r) stream))) (parse cr stream)"

abbreviation buffered :: "(RespValue list \<times> client option) result \<Rightarrow> (RespValue list \<times> string option) result" where
  "buffered \<equiv> map_sum id (apsnd (map_option inputBuffer))"

text \<open>
  Chunk \<open>k\<close> closes the connection: it is empty, which is the end of the peer's stream, or what
  the chunks before it left in the buffer and the chunk itself exceed the limit.
\<close>

definition closed_by :: "(nat \<Rightarrow> bool) \<Rightarrow> string \<Rightarrow> string list \<Rightarrow> nat \<Rightarrow> RespValue list \<Rightarrow> bool" where
  "closed_by cr before chunks k vs \<longleftrightarrow> k < length chunks \<and>
     (\<exists>left. at_once cr (before @ concat (take k chunks)) = Inr (vs, Some left) \<and>
       (chunks ! k = '''' \<or> length left + length (chunks ! k) > MAX_INPUT_BUFFER))"

lemma receive_cases:
  "if chunk = '''' \<or> length (inputBuffer c) + length chunk > MAX_INPUT_BUFFER then receive cr now chunk c = Inr ([], None)
    else buffered (receive cr now chunk c) = at_once cr (inputBuffer c @ chunk)"
  by (cases "parse cr (inputBuffer c @ chunk)")
    (auto simp: receive_def readFromSocket_def Let_def consumeInput_drop at_once_def)

lemma at_once_extend:
  "at_once cr (s @ t) = (case at_once cr s of
      Inl e \<Rightarrow> Inl e
    | Inr (vs, left) \<Rightarrow> map_sum id (apfst ((@) vs)) (at_once cr (the left @ t)))"
proof (cases "parse cr s")
  case (Inr r)
  have "bytesConsumed r \<le> length s" by (rule parse_consumed [OF Inr])
  then have "drop (bytesConsumed r + n) (s @ t) = drop n (drop (bytesConsumed r) s @ t)" for n
    by (simp add: drop_append) (simp add: add.commute drop_drop flip: drop_drop)
  with Inr show ?thesis
    by (cases "parse cr (drop (bytesConsumed r) s @ t)") (simp_all add: at_once_def parse_extend [of cr s t])
qed (simp add: at_once_def parse_extend [of cr s t])

lemma at_once_idle: "at_once cr s = Inr (vs, Some left) \<Longrightarrow> idle cr left"
  using parse_idle [of cr s] by (cases "parse cr s") (auto simp: at_once_def)

lemma receiveAll_cases:
  assumes "idle cr (inputBuffer c)"
  shows "buffered (receiveAll cr now chunks c) = at_once cr (inputBuffer c @ concat chunks) \<or>
    (\<exists>k vs. closed_by cr (inputBuffer c) chunks k vs \<and> receiveAll cr now chunks c = Inr (vs, None))"
  using assms
proof (induction chunks arbitrary: c)
  case Nil
  then show ?case by (simp add: at_once_def)
next
  case (Cons chunk chunks)
  let ?b = "inputBuffer c"
  have start: "at_once cr ?b = Inr ([], Some ?b)" using Cons.prems by (simp add: at_once_def)
  show ?case
  proof (cases "chunk = '''' \<or> length ?b + length chunk > MAX_INPUT_BUFFER")
    case True
    with receive_cases [of chunk c cr now] start have "closed_by cr ?b (chunk # chunks) 0 []"
      "receiveAll cr now (chunk # chunks) c = Inr ([], None)" by (simp_all add: closed_by_def)
    then show ?thesis by blast
  next
    case False
    with receive_cases [of chunk c cr now] have r: "buffered (receive cr now chunk c) = at_once cr (?b @ chunk)" by simp
    show ?thesis
    proof (cases "at_once cr (?b @ chunk)")
      case (Inl e)
      with r have "receive cr now chunk c = Inl e" by (cases "receive cr now chunk c") auto
      with Inl at_once_extend [of cr "?b @ chunk" "concat chunks"] show ?thesis by simp
    next
      case (Inr x)
      then obtain vs left where o: "at_once cr (?b @ chunk) = Inr (vs, Some left)"
        by (cases "parse cr (?b @ chunk)") (auto simp: at_once_def)
      with r obtain c1 where c1: "receive cr now chunk c = Inr (vs, Some c1)" "inputBuffer c1 = left"
        by (cases "receive cr now chunk c") auto
      note whole = at_once_extend [of cr "?b @ chunk", unfolded o sum.case prod.case option.sel append.assoc]
      have "idle cr (inputBuffer c1)" using at_once_idle [OF o] c1(2) by simp
      from Cons.IH [OF this] c1(2)
      consider "buffered (receiveAll cr now chunks c1) = at_once cr (left @ concat chunks)"
        | k us where "closed_by cr left chunks k us" "receiveAll cr now chunks c1 = Inr (us, None)" by blast
      then show ?thesis
      proof cases
        case 1
        then have "buffered (receiveAll cr now (chunk # chunks) c) = at_once cr (?b @ concat (chunk # chunks))"
          using c1(1) whole [of "concat chunks"]
          by (cases "receiveAll cr now chunks c1"; cases "at_once cr (left @ concat chunks)") auto
        then show ?thesis ..
      next
        case 2
        then have "closed_by cr ?b (chunk # chunks) (Suc k) (vs @ us)"
          using whole [of "concat (take k chunks)"] by (auto simp: closed_by_def)
        moreover have "receiveAll cr now (chunk # chunks) c = Inr (vs @ us, None)" using c1(1) 2(2) by simp
        ultimately show ?thesis by blast
      qed
    qed
  qed
qed

lemma newClient_buffers [simp]:
  "inputBuffer (newClient fd i now) = ''''" "outputBuffer (newClient fd i now) = ''''"
  "outputPos (newClient fd i now) = 0" "flags (newClient fd i now) = 0"
  by (simp_all add: newClient_def)

section \<open>Malformed input\<close>

lemma parseBulkString_negative:
  assumes "in_i64 n" "n < -1"
  shows "parseBulkString (CHR ''$'' # int_to_dec n @ CRLF @ rest) 0 = Inr None"
  using assms readLine_line [of "int_to_dec n" "CHR ''$''" rest]
  by (simp add: parseBulkString_def)

lemma parseArray_negative:
  assumes "in_i64 n" "n < -1"
  shows "parseArray cr pv (CHR ''*'' # int_to_dec n @ CRLF @ rest) 0 = Inr None"
  using assms readLine_line [of "int_to_dec n" "CHR ''*''" rest]
  by (simp add: parseArray_def)

section \<open>Output\<close>

datatype output_event = Queue string | Flush socket_write

text \<open>The bytes the kernel takes over, and the client afterwards.\<close>

primrec runOutput :: "output_event list \<Rightarrow> client \<Rightarrow> string \<times> client" where
  "runOutput [] c = ('''', c)"
| "runOutput (ev # evs) c = (case ev of
      Queue d \<Rightarrow> runOutput evs (addReply d c)
    | Flush r \<Rightarrow> (case writeToSocket r c of (_, taken, c') \<Rightarrow> apfst ((@) taken) (runOutput evs c')))"

primrec queuedOutput :: "output_event list \<Rightarrow> string" where
  "queuedOutput [] = ''''"
| "queuedOutput (ev # evs) = (case ev of Queue d \<Rightarrow> d | Flush r \<Rightarrow> '''') @ queuedOutput evs"

section \<open>Properties\<close>

lemma split_concat:
  "s @ rest = concat xs \<Longrightarrow> \<exists>j t. s = concat (take j xs) @ t \<and> (t = [] \<or> j < length xs \<and> length t < length (xs ! j))"
proof (induction xs arbitrary: s)
  case (Cons x xs)
  show ?case
  proof (cases "length s < length x")
    case True
    then show ?thesis by (intro exI [of _ 0] exI [of _ s]) simp
  next
    case False
    with Cons.prems obtain u where u: "s = x @ u" "u @ rest = concat xs" by (auto simp: append_eq_append_conv2)
    from Cons.IH [OF u(2)] obtain j t where "u = concat (take j xs) @ t"
      "t = [] \<or> j < length xs \<and> length t < length (xs ! j)" by blast
    with u(1) show ?thesis by (intro exI [of _ "Suc j"] exI [of _ t]) simp
  qed
qed simp

lemma at_once_left: "at_once cr s = Inr (vs, Some left) \<Longrightarrow> length left \<le> length s"
  by (cases "parse cr s") (auto simp: at_once_def)

text \<open>C8: Commands a peer serialises and sends back to back arrive at the server as exactly
  these commands, in order and completely, however the stream is cut into pieces of at most
  the size of the read buffer; nothing is left in the input buffer and the connection stays
  open. Each command must leave room for one piece below the limit of the input buffer, and
  the allocation of the announced array sizes must succeed.\<close>

theorem pipelined_commands_arrive:
  assumes "inputBuffer c = ''''"
    and "concat chunks = concat (map serialize vs)"
    and "\<forall>chunk \<in> set chunks. chunk \<noteq> '''' \<and> length chunk \<le> READ_BUFFER_SIZE"
    and "\<forall>v \<in> set vs. wire_ok v \<and> (\<forall>n \<in> array_sizes v. cr n) \<and>
      length (serialize v) + READ_BUFFER_SIZE \<le> MAX_INPUT_BUFFER"
  shows "\<exists>c'. receiveAll cr now chunks c = Inr (vs, Some c') \<and> inputBuffer c' = ''''"
proof -
  have wire: "\<forall>v \<in> set us. wire_ok v \<and> (\<forall>n \<in> array_sizes v. cr n)" if "set us \<subseteq> set vs" for us
    using assms(4) that by blast
  have arrived: "at_once cr (concat (map serialize us)) = Inr (us, Some '''')" if "set us \<subseteq> set vs" for us
    using parse_concat_serialize [OF wire [OF that]] by (simp add: at_once_def)
  have "\<not> closed_by cr '''' chunks k us" for k us
  proof
    assume "closed_by cr '''' chunks k us"
    then obtain left where k: "k < length chunks" and left: "at_once cr (concat (take k chunks)) = Inr (us, Some left)"
      and over: "chunks ! k = '''' \<or> length left + length (chunks ! k) > MAX_INPUT_BUFFER" by (auto simp: closed_by_def)
    have piece: "chunks ! k \<noteq> ''''" "length (chunks ! k) \<le> READ_BUFFER_SIZE" using assms(3) k by auto
    have "concat (take k chunks) @ concat (drop k chunks) = concat (map serialize vs)"
      using assms(2) by (metis append_take_drop_id concat_append)
    from split_concat [OF this] obtain j t where s: "concat (take k chunks) = concat (map serialize (take j vs)) @ t"
      "t = [] \<or> j < length vs \<and> length t < length (serialize (vs ! j))" by (auto simp: take_map)
    have "set (take j vs) \<subseteq> set vs" by (rule set_take_subset)
    from at_once_extend [of cr "concat (map serialize (take j vs))" t] arrived [OF this] left s(1)
    obtain us' where "at_once cr t = Inr (us', Some left)" by (cases "at_once cr t") auto
    from at_once_left [OF this] have "length left \<le> length t" .
    moreover have "length t + READ_BUFFER_SIZE \<le> MAX_INPUT_BUFFER" if "j < length vs" "length t < length (serialize (vs ! j))"
      using that assms(4) nth_mem [of j vs] by fastforce
    ultimately have "length left + READ_BUFFER_SIZE \<le> MAX_INPUT_BUFFER"
      using s(2) by (cases "t = []") (auto simp: MAX_INPUT_BUFFER_def READ_BUFFER_SIZE_def)
    with over piece show False by simp
  qed
  with receiveAll_cases [of cr c now chunks] assms(1,2) arrived [of vs] show ?thesis
    by (cases "receiveAll cr now chunks c") auto
qed

theorem pipelined_commands_arrive_witness:
  "\<exists>c'. receiveAll (\<lambda>n. n \<le> 10) 0 [''*1'', CRLF @ ''$4'', CRLF @ ''PING'' @ CRLF] (newClient 3 1 0)
     = Inr ([Array [BulkString ''PING'']], Some c') \<and> inputBuffer c' = ''''"
  by (rule pipelined_commands_arrive)
    (simp_all add: nat_to_dec.simps digit_char_def char_of_def bit_0 in_i64_def i64_min_def i64_max_def
      READ_BUFFER_SIZE_def MAX_INPUT_BUFFER_def)

text \<open>C16: The commands received and the bytes kept for later depend only on the stream, not on
  how it is cut into chunks: receiving it piecewise gives what one parse of all of it gives,
  exceptions included, unless a chunk closes the connection. That happens only at an empty
  chunk, the end of the stream, and when the incomplete command in the buffer and the chunk
  exceed the limit of the input buffer; the commands completed before have been received.\<close>

theorem chunking_invariant:
  assumes "inputBuffer c = ''''"
  shows "buffered (receiveAll cr now chunks c) = at_once cr (concat chunks) \<or>
    (\<exists>k vs. closed_by cr '''' chunks k vs \<and> receiveAll cr now chunks c = Inr (vs, None))"
  using receiveAll_cases [of cr c now chunks] assms by simp

theorem chunking_invariant_witness:
  "buffered (receiveAll (\<lambda>n. n \<le> 10) 0 [''PI'', ''NG'' @ CRLF @ ''*2''] (newClient 3 1 0)) =
      at_once (\<lambda>n. n \<le> 10) (concat [''PI'', ''NG'' @ CRLF @ ''*2'']) \<or>
    (\<exists>k vs. closed_by (\<lambda>n. n \<le> 10) '''' [''PI'', ''NG'' @ CRLF @ ''*2''] k vs \<and>
      receiveAll (\<lambda>n. n \<le> 10) 0 [''PI'', ''NG'' @ CRLF @ ''*2''] (newClient 3 1 0) = Inr (vs, None))"
  by (rule chunking_invariant) simp

text \<open>C38: A bulk string or array with a length below minus one blocks its connection: the
  header is neither consumed nor answered, so no command after it is ever executed, whatever
  the client sends, until the connection is closed.\<close>

theorem negative_length_blocks_connection:
  assumes "in_i64 n" "n < -1" "b \<in> {CHR ''$'', CHR ''*''}" "inputBuffer c = ''''"
    and "concat chunks = b # int_to_dec n @ CRLF @ rest"
  shows "\<exists>c'. receiveAll cr now chunks c = Inr ([], c') \<and> (\<forall>d. c' = Some d \<longrightarrow> inputBuffer d = concat chunks)"
proof -
  have "parseStep cr (concat chunks) 0 = Inr None"
    using assms parseBulkString_negative [OF assms(1,2), of rest] parseArray_negative [OF assms(1,2), of cr _ rest]
    by (auto simp: parseStep_def parseValue_unfold [of cr _ 0] parseValueBody_def)
  then have whole: "at_once cr (concat chunks) = Inr ([], Some (concat chunks))"
    using assms(5) by (simp add: at_once_def parse_def parseLoop.simps)
  have "vs = []" if "closed_by cr '''' chunks k vs" for k vs
  proof -
    from that obtain left where "at_once cr (concat (take k chunks)) = Inr (vs, Some left)" by (auto simp: closed_by_def)
    moreover have "concat chunks = concat (take k chunks) @ concat (drop k chunks)"
      by (metis append_take_drop_id concat_append)
    ultimately show ?thesis using whole at_once_extend [of cr "concat (take k chunks)" "concat (drop k chunks)"]
      by (cases "at_once cr (left @ concat (drop k chunks))") auto
  qed
  with receiveAll_cases [of cr c now chunks] whole assms(4) show ?thesis
    by (cases "receiveAll cr now chunks c") auto
qed

theorem negative_length_blocks_connection_witness:
  "\<exists>c'. receiveAll (\<lambda>n. n \<le> 10) 0 [''$'' @ int_to_dec (-5), CRLF, ''PING'' @ CRLF] (newClient 3 1 0) = Inr ([], c') \<and>
     (\<forall>d. c' = Some d \<longrightarrow> inputBuffer d = concat [''$'' @ int_to_dec (-5), CRLF, ''PING'' @ CRLF])"
  by (rule negative_length_blocks_connection [where n = "-5" and b = "CHR ''$''" and rest = "''PING'' @ CRLF"])
    (simp_all add: in_i64_def i64_min_def i64_max_def)

text \<open>C23: Replies leave in the order they were queued, without loss or repetition: whatever the
  socket accepts in each call, the bytes it took of those \<^verbatim>\<open>send\<close> was given, followed by the
  bytes still pending, are the bytes that were pending before followed by the replies queued
  since.\<close>

theorem output_in_order:
  assumes "outputPos c \<le> length (outputBuffer c)"
  shows "fst (runOutput evs c) @ pendingOutput (snd (runOutput evs c)) = pendingOutput c @ queuedOutput evs"
  using assms
proof (induction evs arbitrary: c)
  case Nil
  then show ?case by simp
next
  case (Cons ev evs)
  show ?case
  proof (cases ev)
    case (Queue d)
    have "outputPos (addReply d c) \<le> length (outputBuffer (addReply d c))"
      using Cons.prems by (simp add: addReply_def)
    from Cons.IH [OF this] Queue Cons.prems show ?thesis by (simp add: addReply_pending)
  next
    case (Flush r)
    obtain k taken c' where w: "writeToSocket r c = (k, taken, c')" using prod_cases3 by blast
    from Cons.IH [OF writeToSocket_pending(2) [OF Cons.prems w]] writeToSocket_pending(1) [OF Cons.prems w] Flush w
    show ?thesis by (simp flip: append_assoc) simp
  qed
qed

theorem output_in_order_witness:
  "fst (runOutput [Queue ''+OK'', Flush (Sent 2), Queue ''!'', Flush (Sent 1)] (newClient 3 1 0)) @
     pendingOutput (snd (runOutput [Queue ''+OK'', Flush (Sent 2), Queue ''!'', Flush (Sent 1)] (newClient 3 1 0)))
   = ''+OK!''"
  using output_in_order [of "newClient 3 1 0" "[Queue ''+OK'', Flush (Sent 2), Queue ''!'', Flush (Sent 1)]"]
  by (simp add: pendingOutput_def)

text \<open>The flags of a client are independent: setting or clearing one never changes
  another, and reading gives what was last written.\<close>

theorem flags_independent:
  assumes "is_flag f" "is_flag g"
  shows "(hasFlag g (setFlag f c) \<longleftrightarrow> g = f \<or> hasFlag g c) \<and>
    (hasFlag g (clearFlag f c) \<longleftrightarrow> g \<noteq> f \<and> hasFlag g c)"
  using assms by (simp add: hasFlag_setFlag hasFlag_clearFlag)

theorem flags_independent_witness:
  "hasFlag CLIENT_MULTI (setFlag CLIENT_BLOCKED (newClient 3 1 0)) = hasFlag CLIENT_MULTI (newClient 3 1 0)"
  using flags_independent [OF client_flags_are_flags(7,1), of "newClient 3 1 0"]
  by (simp add: client_flags)

end
