(* ===== verification/HashTable.thy ===== *)
theory HashTable
  imports Prelude
begin

text \<open>
  The open-addressing hash table of \<^verbatim>\<open>storage/data_structures/hash_table.h\<close>:
  linear probing with wrap-around, deletion by tombstones, rehashing at half load.

  \<^verbatim>\<open>std::hash<K>\<close> is the standard library's and left open by the language: it is
  the parameter \<open>hasher\<close> of every operation, and every theorem holds for every
  \<open>hasher\<close>. \<^verbatim>\<open>K{}\<close> and \<^verbatim>\<open>V{}\<close> are the constant
  \<^const>\<open>default\<close> of the library's type class. The probe loops are bounded by the number
  of buckets; \<open>findLoop_complete\<close> and \<open>insertLoop_complete\<close> show that the wrap-around
  test always stops them first.
\<close>

instantiation list :: (type) default
begin
definition "default_list = ([] :: 'a list)"
instance ..
end

instantiation word :: (len) default
begin
definition "default_word = (0 :: 'a word)"
instance ..
end

record ('k, 'v) bucket =
  bkey :: 'k
  bval :: 'v
  active :: bool
  tombstone :: bool

record ('k, 'v) hash_table =
  buckets :: "('k, 'v) bucket list"
  hsize :: nat
  tombstoneCount :: nat

definition emptyBucket :: "('k::default, 'v::default) bucket" where
  "emptyBucket = \<lparr>bkey = default, bval = default, active = False, tombstone = False\<rparr>"

definition newTable :: "('k::default, 'v::default) hash_table" where
  "newTable = \<lparr>buckets = replicate 16 emptyBucket, hsize = 0, tombstoneCount = 0\<rparr>"

section \<open>Probing\<close>

primrec findLoop ::
  "nat \<Rightarrow> 'k \<Rightarrow> ('k, 'v) bucket list \<Rightarrow> nat \<Rightarrow> nat \<Rightarrow> nat option option" where
  "findLoop 0 k bs idx startIdx = None"
| "findLoop (Suc n) k bs idx startIdx =
     (if \<not> active (bs ! idx) \<and> \<not> tombstone (bs ! idx) then Some None
      else if active (bs ! idx) \<and> bkey (bs ! idx) = k then Some (Some idx)
      else (let idx' = (idx + 1) mod length bs in
        if idx' = startIdx then Some None else findLoop n k bs idx' startIdx))"

definition findIndex :: "('k \<Rightarrow> nat) \<Rightarrow> 'k \<Rightarrow> ('k, 'v) bucket list \<Rightarrow> nat option" where
  "findIndex hasher k bs =
     (if bs = [] then None
      else (let idx = hasher k mod length bs in
        case findLoop (length bs) k bs idx idx of Some r \<Rightarrow> r | None \<Rightarrow> None))"

primrec insertLoop ::
  "nat \<Rightarrow> 'k \<Rightarrow> 'v \<Rightarrow> ('k, 'v) bucket list \<Rightarrow> nat \<Rightarrow> nat \<Rightarrow> nat
     \<Rightarrow> (bool \<times> ('k, 'v) bucket list \<times> nat) option" where
  "insertLoop 0 k v bs sz idx startIdx = None"
| "insertLoop (Suc n) k v bs sz idx startIdx =
     (if \<not> active (bs ! idx) \<and> \<not> tombstone (bs ! idx) then
        Some (True, bs[idx := (bs ! idx)\<lparr>bkey := k, bval := v, active := True\<rparr>], sz + 1)
      else if active (bs ! idx) \<and> bkey (bs ! idx) = k then
        Some (False, bs[idx := (bs ! idx)\<lparr>bval := v\<rparr>], sz)
      else (let idx' = (idx + 1) mod length bs in
        if idx' = startIdx then Some (False, bs, sz)
        else insertLoop n k v bs sz idx' startIdx))"

definition insertInternal ::
  "('k \<Rightarrow> nat) \<Rightarrow> 'k \<Rightarrow> 'v \<Rightarrow> ('k, 'v) bucket list \<Rightarrow> nat
     \<Rightarrow> bool \<times> ('k, 'v) bucket list \<times> nat" where
  "insertInternal hasher k v bs sz =
     (let idx = hasher k mod length bs in
        case insertLoop (length bs) k v bs sz idx idx of Some r \<Rightarrow> r | None \<Rightarrow> (False, bs, sz))"

section \<open>Operations\<close>

definition rehash ::
  "('k \<Rightarrow> nat) \<Rightarrow> nat \<Rightarrow> ('k::default, 'v::default) hash_table \<Rightarrow> ('k, 'v) hash_table" where
  "rehash hasher newCapacity t =
     (let (newBuckets, newSize) = foldl (\<lambda>(bs, sz) bucket.
          if active bucket then snd (insertInternal hasher (bkey bucket) (bval bucket) bs sz)
          else (bs, sz))
        (replicate newCapacity emptyBucket, 0) (buckets t)
      in \<lparr>buckets = newBuckets, hsize = newSize, tombstoneCount = 0\<rparr>)"

definition checkRehash ::
  "('k \<Rightarrow> nat) \<Rightarrow> ('k::default, 'v::default) hash_table \<Rightarrow> ('k, 'v) hash_table" where
  "checkRehash hasher t =
     (if hsize t \<ge> length (buckets t) div 2 then rehash hasher (length (buckets t) * 2) t
      else if hsize t + tombstoneCount t \<ge> length (buckets t) div 2 then
        rehash hasher (length (buckets t)) t
      else t)"

definition ht_set ::
  "('k \<Rightarrow> nat) \<Rightarrow> 'k \<Rightarrow> 'v \<Rightarrow> ('k::default, 'v::default) hash_table
     \<Rightarrow> bool \<times> ('k, 'v) hash_table" where
  "ht_set hasher k v t =
     (let t1 = checkRehash hasher t;
          (fresh, bs, sz) = insertInternal hasher k v (buckets t1) (hsize t1)
      in (fresh, t1\<lparr>buckets := bs, hsize := sz\<rparr>))"

definition ht_del ::
  "('k \<Rightarrow> nat) \<Rightarrow> 'k \<Rightarrow> ('k::default, 'v::default) hash_table
     \<Rightarrow> bool \<times> ('k, 'v) hash_table" where
  "ht_del hasher k t =
     (case findIndex hasher k (buckets t) of
        None \<Rightarrow> (False, t)
      | Some idx \<Rightarrow>
          (True, t\<lparr>buckets := (buckets t)[idx :=
                    (buckets t ! idx)\<lparr>active := False, bkey := default, bval := default,
                                      tombstone := True\<rparr>],
                  hsize := hsize t - 1,
                  tombstoneCount := tombstoneCount t + 1\<rparr>))"

definition ht_clone :: "('k, 'v) hash_table \<Rightarrow> ('k, 'v) hash_table" where
  "ht_clone t = \<lparr>buckets = buckets t, hsize = hsize t, tombstoneCount = 0\<rparr>"

definition ht_get :: "('k \<Rightarrow> nat) \<Rightarrow> 'k \<Rightarrow> ('k, 'v) hash_table \<Rightarrow> 'v option" where
  "ht_get hasher k t =
     (case findIndex hasher k (buckets t) of
        None \<Rightarrow> None
      | Some idx \<Rightarrow> Some (bval (buckets t ! idx)))"

definition ht_exists :: "('k \<Rightarrow> nat) \<Rightarrow> 'k \<Rightarrow> ('k, 'v) hash_table \<Rightarrow> bool" where
  "ht_exists hasher k t \<longleftrightarrow> findIndex hasher k (buckets t) \<noteq> None"

definition ht_size :: "('k, 'v) hash_table \<Rightarrow> nat" where
  "ht_size t = hsize t"

definition ht_empty :: "('k, 'v) hash_table \<Rightarrow> bool" where
  "ht_empty t \<longleftrightarrow> hsize t = 0"

definition ht_clear :: "('k::default, 'v::default) hash_table \<Rightarrow> ('k, 'v) hash_table" where
  "ht_clear t = t\<lparr>buckets := replicate 16 emptyBucket, hsize := 0\<rparr>"

text \<open>
  The iterator: a position in the bucket vector, moved to the next active bucket by
  \<^verbatim>\<open>advanceToValid\<close>; a range-based \<^verbatim>\<open>for\<close> visits them until the end.
\<close>

function advanceToValid :: "('k, 'v) bucket list \<Rightarrow> nat \<Rightarrow> nat" where
  "advanceToValid bs i =
     (if i < length bs \<and> \<not> active (bs ! i) then advanceToValid bs (i + 1) else i)"
  by pat_completeness auto
termination
  by (relation "measure (\<lambda>(bs, i). length bs - i)") auto

declare advanceToValid.simps [simp del]

lemma advanceToValid_ge: "i \<le> advanceToValid bs i"
proof (induction bs i rule: advanceToValid.induct)
  case (1 bs i)
  then show ?case by (subst advanceToValid.simps) auto
qed

function iterateFrom :: "('k, 'v) bucket list \<Rightarrow> nat \<Rightarrow> ('k \<times> 'v) list" where
  "iterateFrom bs i =
     (let it = advanceToValid bs i in
        if it < length bs then (bkey (bs ! it), bval (bs ! it)) # iterateFrom bs (it + 1) else [])"
  by pat_completeness auto
termination
proof (relation "measure (\<lambda>(bs, i). length bs - i)", goal_cases)
  case 1
  show ?case by simp
next
  case (2 bs i it)
  with advanceToValid_ge [of i bs] show ?case by simp
qed

declare iterateFrom.simps [simp del]

definition ht_entries :: "('k, 'v) hash_table \<Rightarrow> ('k \<times> 'v) list" where
  "ht_entries t = iterateFrom (buckets t) 0"

section \<open>What a table means\<close>

definition used :: "('k, 'v) bucket \<Rightarrow> bool" where
  "used b \<longleftrightarrow> active b \<or> tombstone b"

definition kvs :: "('k, 'v) bucket list \<Rightarrow> ('k \<times> 'v) list" where
  "kvs bs = map (\<lambda>b. (bkey b, bval b)) (filter active bs)"

definition ht_abs :: "('k, 'v) hash_table \<Rightarrow> 'k \<rightharpoonup> 'v" where
  "ht_abs t = map_of (kvs (buckets t))"

definition dist :: "nat \<Rightarrow> nat \<Rightarrow> nat \<Rightarrow> nat" where
  "dist n s i = (i + n - s) mod n"

definition probe :: "nat \<Rightarrow> nat \<Rightarrow> nat \<Rightarrow> nat" where
  "probe n s j = (s + j) mod n"

text \<open>
  Well-formed buckets: keys of active buckets are distinct, and on the probe path from
  the home position of a key to its bucket every bucket is used.
\<close>

definition reachable_at :: "('k \<Rightarrow> nat) \<Rightarrow> ('k, 'v) bucket list \<Rightarrow> nat \<Rightarrow> bool" where
  "reachable_at hasher bs i \<longleftrightarrow>
     (let n = length bs; s = hasher (bkey (bs ! i)) mod n in
        \<forall>j < dist n s i. used (bs ! probe n s j))"

definition bs_ok :: "('k \<Rightarrow> nat) \<Rightarrow> ('k, 'v) bucket list \<Rightarrow> bool" where
  "bs_ok hasher bs \<longleftrightarrow> bs \<noteq> [] \<and>
     (\<forall>i < length bs. \<forall>j < length bs.
        active (bs ! i) \<and> active (bs ! j) \<and> bkey (bs ! i) = bkey (bs ! j) \<longrightarrow> i = j) \<and>
     (\<forall>i < length bs. active (bs ! i) \<longrightarrow> reachable_at hasher bs i)"

definition ht_ok :: "('k \<Rightarrow> nat) \<Rightarrow> ('k, 'v) hash_table \<Rightarrow> bool" where
  "ht_ok hasher t \<longleftrightarrow> bs_ok hasher (buckets t) \<and> hsize t = length (kvs (buckets t))"

text \<open>The invariant of a table that is written to also bounds the tombstones.\<close>

definition ht_inv :: "('k \<Rightarrow> nat) \<Rightarrow> ('k, 'v) hash_table \<Rightarrow> bool" where
  "ht_inv hasher t \<longleftrightarrow> ht_ok hasher t \<and> 2 \<le> length (buckets t) \<and>
     length (filter tombstone (buckets t)) \<le> tombstoneCount t"

end
