(* ===== verification/HashTableSpec.thy ===== *)
theory HashTableSpec
  imports HashTable
begin

text \<open>
  Correctness of the hash table: every operation implements the operation of the same
  name on a partial map, for every hash function, and keeps the invariant. The contract
  is the locale \<open>kv_table\<close>; its clients (hash, set and sorted set commands, the
  loaders) use the facts proved inside it.
\<close>

section \<open>Probe sequences\<close>

lemma probe_less [simp]: "0 < n \<Longrightarrow> probe n s j < n"
  by (simp add: probe_def)

lemma dist_less [simp]: "0 < n \<Longrightarrow> dist n s i < n"
  by (simp add: dist_def)

lemma probe_dist:
  assumes "s < n" "i < n"
  shows "probe n s (dist n s i) = i"
proof -
  have "probe n s (dist n s i) = (s + (i + n - s)) mod n"
    by (simp add: probe_def dist_def mod_add_right_eq)
  also have "\<dots> = (i + n) mod n" using assms by simp
  finally show ?thesis using assms by simp
qed

lemma dist_probe:
  assumes "s < n" "j < n"
  shows "dist n s (probe n s j) = j"
proof -
  have "probe n s j = (if s + j < n then s + j else s + j - n)"
    using assms by (auto simp: probe_def mod_if)
  with assms show ?thesis by (auto simp: dist_def mod_if)
qed

lemma probe_Suc: "0 < n \<Longrightarrow> (probe n s j + 1) mod n = probe n s (j + 1)"
  by (simp add: probe_def mod_simps)

lemma probe_wraps:
  assumes "s < n" "j < n"
  shows "probe n s (j + 1) = s \<longleftrightarrow> j + 1 = n"
proof (cases "j + 1 = n")
  case True
  then have "s + (j + 1) = s + n" by simp
  with assms True show ?thesis by (simp add: probe_def)
next
  case False
  with assms have "j + 1 < n" by simp
  with dist_probe [OF assms(1) this] dist_probe [OF assms(1), of 0] False assms show ?thesis
    by (auto simp: probe_def)
qed

text \<open>Both loops stop at the first bucket of the probe sequence that is free or holds the key.\<close>

definition stops :: "'k \<Rightarrow> ('k, 'v) bucket list \<Rightarrow> nat \<Rightarrow> bool" where
  "stops k bs i \<longleftrightarrow> \<not> used (bs ! i) \<or> (active (bs ! i) \<and> bkey (bs ! i) = k)"

definition firstStop :: "('k \<Rightarrow> nat) \<Rightarrow> 'k \<Rightarrow> ('k, 'v) bucket list \<Rightarrow> nat option" where
  "firstStop hasher k bs =
     find (stops k bs) (map (probe (length bs) (hasher k mod length bs)) [0..<length bs])"

lemma upt_step: "j < n \<Longrightarrow> [j..<n] = j # [Suc j..<n]"
  by (rule upt_conv_Cons)

lemma findLoop_find:
  assumes s: "s < length bs"
  shows "j < length bs \<Longrightarrow>
    findLoop (length bs - j) k bs (probe (length bs) s j) s =
      Some (case find (stops k bs) (map (probe (length bs) s) [j..<length bs]) of
              None \<Rightarrow> None
            | Some i \<Rightarrow> if used (bs ! i) then Some i else None)"
proof (induction "length bs - j" arbitrary: j)
  case 0
  then show ?case by simp
next
  case (Suc m)
  let ?n = "length bs" and ?i = "probe (length bs) s j"
  have m: "?n - j = Suc m" and n0: "0 < ?n" using Suc s by auto
  have wrap: "probe ?n s (Suc j) = s \<longleftrightarrow> Suc j = ?n"
    using probe_wraps [OF s Suc.prems] by simp
  have next_i: "Suc ?i mod ?n = probe ?n s (Suc j)"
    using probe_Suc [OF n0, of s j] by simp
  show ?case
  proof (cases "Suc j = ?n")
    case True
    with m wrap next_i Suc.prems show ?thesis
      by (auto simp: upt_step stops_def used_def Let_def)
  next
    case False
    with Suc.prems have "Suc j < ?n" by simp
    with Suc.hyps(1) [of "Suc j"] Suc.hyps(2)
    have "findLoop m k bs (probe ?n s (Suc j)) s =
      Some (case find (stops k bs) (map (probe ?n s) [Suc j..<?n]) of
              None \<Rightarrow> None | Some i \<Rightarrow> if used (bs ! i) then Some i else None)"
      by (metis Suc_diff_Suc Suc_inject Suc.prems)
    with m wrap next_i Suc.prems False show ?thesis
      by (auto simp: upt_step stops_def used_def Let_def)
  qed
qed

lemma insertLoop_find:
  assumes s: "s < length bs"
  shows "j < length bs \<Longrightarrow>
    insertLoop (length bs - j) k v bs sz (probe (length bs) s j) s =
      Some (case find (stops k bs) (map (probe (length bs) s) [j..<length bs]) of
              None \<Rightarrow> (False, bs, sz)
            | Some i \<Rightarrow> if used (bs ! i) then (False, bs[i := (bs ! i)\<lparr>bval := v\<rparr>], sz)
                else (True, bs[i := (bs ! i)\<lparr>bkey := k, bval := v, active := True\<rparr>], sz + 1))"
proof (induction "length bs - j" arbitrary: j)
  case 0
  then show ?case by simp
next
  case (Suc m)
  let ?n = "length bs" and ?i = "probe (length bs) s j"
  have m: "?n - j = Suc m" and n0: "0 < ?n" using Suc s by auto
  have wrap: "probe ?n s (Suc j) = s \<longleftrightarrow> Suc j = ?n"
    using probe_wraps [OF s Suc.prems] by simp
  have next_i: "Suc ?i mod ?n = probe ?n s (Suc j)"
    using probe_Suc [OF n0, of s j] by simp
  show ?case
  proof (cases "Suc j = ?n")
    case True
    with m wrap next_i Suc.prems show ?thesis
      by (auto simp: upt_step stops_def used_def Let_def)
  next
    case False
    with Suc.prems have j': "Suc j < ?n" "m = ?n - Suc j" using m by auto
    from Suc.hyps(1) [OF j'(2) j'(1)] m wrap next_i Suc.prems False j'(2) show ?thesis
      by (auto simp: upt_step stops_def used_def Let_def)
  qed
qed

text \<open>The bound on the loops is never reached.\<close>

lemma findLoop_complete:
  "bs \<noteq> [] \<Longrightarrow> findLoop (length bs) k bs (h mod length bs) (h mod length bs) \<noteq> None"
  using findLoop_find [of "h mod length bs" bs 0 k] by (simp add: probe_def)

lemma insertLoop_complete:
  "bs \<noteq> [] \<Longrightarrow> insertLoop (length bs) k v bs sz (h mod length bs) (h mod length bs) \<noteq> None"
  using insertLoop_find [of "h mod length bs" bs 0 k v sz] by (simp add: probe_def)

lemma findIndex_firstStop:
  "bs \<noteq> [] \<Longrightarrow> findIndex hasher k bs =
     (case firstStop hasher k bs of None \<Rightarrow> None | Some i \<Rightarrow> if used (bs ! i) then Some i else None)"
  using findLoop_find [of "hasher k mod length bs" bs 0 k]
  by (simp add: findIndex_def firstStop_def probe_def)

lemma insertInternal_firstStop:
  "bs \<noteq> [] \<Longrightarrow> insertInternal hasher k v bs sz =
     (case firstStop hasher k bs of
        None \<Rightarrow> (False, bs, sz)
      | Some i \<Rightarrow> if used (bs ! i) then (False, bs[i := (bs ! i)\<lparr>bval := v\<rparr>], sz)
          else (True, bs[i := (bs ! i)\<lparr>bkey := k, bval := v, active := True\<rparr>], sz + 1))"
  using insertLoop_find [of "hasher k mod length bs" bs 0 k v sz]
  by (simp add: insertInternal_def firstStop_def probe_def)

lemma firstStop_None:
  "firstStop hasher k bs = None \<longleftrightarrow>
    (\<forall>j < length bs. \<not> stops k bs (probe (length bs) (hasher k mod length bs) j))"
  by (auto simp: firstStop_def find_None_iff)

lemma firstStop_Some:
  assumes "firstStop hasher k bs = Some i"
  shows "i < length bs \<and> stops k bs i \<and>
    (\<forall>j < dist (length bs) (hasher k mod length bs) i.
       \<not> stops k bs (probe (length bs) (hasher k mod length bs) j))"
proof -
  let ?n = "length bs" and ?s = "hasher k mod length bs"
  from assms obtain j where j: "j < ?n" "i = probe ?n ?s j" "stops k bs i"
    "\<forall>j' < j. \<not> stops k bs (probe ?n ?s j')"
    unfolding firstStop_def by (auto simp: find_Some_iff)
  then have "bs \<noteq> []" by auto
  with j dist_probe [of ?s ?n j] show ?thesis by simp
qed

section \<open>Buckets as a map\<close>

lemma keys_kvs: "set (map fst (kvs bs)) = {bkey (bs ! i) | i. i < length bs \<and> active (bs ! i)}"
proof -
  have "set (map fst (kvs bs)) = bkey ` {b \<in> set bs. active b}"
    by (simp add: kvs_def image_image)
  then show ?thesis by (auto simp: set_conv_nth)
qed

lemma kvs_distinct_iff:
  "distinct (map fst (kvs bs)) \<longleftrightarrow>
     (\<forall>i < length bs. \<forall>j < length bs.
        active (bs ! i) \<and> active (bs ! j) \<and> bkey (bs ! i) = bkey (bs ! j) \<longrightarrow> i = j)"
proof (induction bs)
  case Nil
  show ?case by (simp add: kvs_def)
next
  case (Cons b bs)
  have keys: "bkey b \<in> set (map fst (kvs bs)) \<longleftrightarrow>
      (\<exists>i < length bs. active (bs ! i) \<and> bkey (bs ! i) = bkey b)"
    unfolding keys_kvs by (auto simp: eq_commute [of "bkey b"])
  show ?case
  proof (cases "active b")
    case True
    then have "distinct (map fst (kvs (b # bs))) \<longleftrightarrow>
        bkey b \<notin> set (map fst (kvs bs)) \<and> distinct (map fst (kvs bs))"
      by (simp add: kvs_def)
    with keys Cons.IH True show ?thesis
      by (auto simp: All_less_Suc2)
  next
    case False
    with Cons.IH show ?thesis by (simp add: kvs_def All_less_Suc2)
  qed
qed

lemma bs_ok_distinct: "bs_ok hasher bs \<Longrightarrow> distinct (map fst (kvs bs))"
  by (simp add: kvs_distinct_iff bs_ok_def)

lemma kvs_Some_iff:
  assumes "distinct (map fst (kvs bs))"
  shows "map_of (kvs bs) k = Some v \<longleftrightarrow>
    (\<exists>i < length bs. active (bs ! i) \<and> bkey (bs ! i) = k \<and> bval (bs ! i) = v)"
  unfolding map_of_eq_Some_iff [OF assms]
  by (auto simp: kvs_def in_set_conv_nth)

lemma kvs_None_iff:
  "map_of (kvs bs) k = None \<longleftrightarrow> (\<forall>i < length bs. active (bs ! i) \<longrightarrow> bkey (bs ! i) \<noteq> k)"
  by (auto simp: map_of_eq_None_iff kvs_def image_iff in_set_conv_nth)

lemma filter_update_count:
  assumes "i < length xs"
  shows "length (filter P (xs[i := x])) + (if P (xs ! i) then 1 else 0) =
    length (filter P xs) + (if P x then 1 else 0)"
proof -
  have "filter P xs = filter P (take i xs) @ filter P (xs ! i # drop (Suc i) xs)"
    using assms by (metis filter_append id_take_nth_drop)
  with assms show ?thesis by (simp add: upd_conv_take_nth_drop)
qed

lemma filter_free_less:
  assumes "i < length xs" "\<not> P (xs ! i)"
  shows "length (filter P xs) < length xs"
  using assms by (meson length_filter_less nth_mem)

lemma free_bucket_exists:
  assumes "length (filter used bs) < length bs"
  shows "\<exists>i < length bs. \<not> used (bs ! i)"
  using assms by (metis filter_True in_set_conv_nth less_irrefl)

text \<open>Where the search for a key stops.\<close>

lemma stop_is_key:
  assumes ok: "bs_ok hasher bs" and i: "i < length bs" and act: "active (bs ! i)"
  shows "firstStop hasher (bkey (bs ! i)) bs = Some i"
proof -
  let ?k = "bkey (bs ! i)" and ?n = "length bs" and ?s = "hasher (bkey (bs ! i)) mod length bs"
  have ne: "bs \<noteq> []" and n: "?s < ?n" using i by (cases bs; auto)+
  have reach: "\<forall>j < dist ?n ?s i. used (bs ! probe ?n ?s j)"
    using ok i act by (simp add: bs_ok_def reachable_at_def Let_def)
  have "\<exists>j < ?n. stops ?k bs (probe ?n ?s j)"
    using i act probe_dist [OF n i] dist_less [of ?n ?s i] ne
    by (intro exI [of _ "dist ?n ?s i"]) (auto simp: stops_def)
  then obtain i' where i': "firstStop hasher ?k bs = Some i'"
    by (metis firstStop_None not_None_eq)
  from firstStop_Some [OF i'] have b: "i' < ?n" "stops ?k bs i'"
    and first: "\<forall>j < dist ?n ?s i'. \<not> stops ?k bs (probe ?n ?s j)" by auto
  have "dist ?n ?s i' \<le> dist ?n ?s i"
  proof (rule ccontr)
    assume "\<not> ?thesis"
    with first have "\<not> stops ?k bs i" using probe_dist [OF n i] by (metis not_le)
    with act show False by (simp add: stops_def)
  qed
  then have "i' = i \<or> used (bs ! i')"
    using reach probe_dist [OF n i] probe_dist [OF n b(1)] by (metis le_neq_implies_less)
  moreover have "i' = i" if "active (bs ! i')" "bkey (bs ! i') = ?k"
    using ok i act b(1) that by (auto simp: bs_ok_def)
  ultimately have "i' = i" using b(2) act by (auto simp: stops_def)
  with i' show ?thesis by simp
qed

lemma firstStop_absent:
  assumes ok: "bs_ok hasher bs" and absent: "map_of (kvs bs) k = None"
    and stop: "firstStop hasher k bs = Some i"
  shows "i < length bs \<and> \<not> used (bs ! i) \<and>
    (\<forall>j < dist (length bs) (hasher k mod length bs) i.
       used (bs ! probe (length bs) (hasher k mod length bs) j))"
  using firstStop_Some [OF stop] absent by (auto simp: stops_def kvs_None_iff)

lemma firstStop_free:
  assumes "i < length bs" "\<not> used (bs ! i)"
  shows "firstStop hasher k bs \<noteq> None"
proof -
  let ?s = "hasher k mod length bs"
  have ne: "bs \<noteq> []" and s: "?s < length bs" using assms by (cases bs; auto)+
  then have "\<not> \<not> stops k bs (probe (length bs) ?s (dist (length bs) ?s i))"
    using assms probe_dist [OF s assms(1)] by (simp add: stops_def)
  with ne show ?thesis
    unfolding firstStop_None using dist_less [of "length bs" ?s i] by blast
qed

lemma firstStop_present:
  assumes "bs_ok hasher bs" "map_of (kvs bs) k = Some v"
  shows "\<exists>i < length bs. firstStop hasher k bs = Some i \<and> active (bs ! i) \<and> used (bs ! i) \<and>
    bkey (bs ! i) = k \<and> bval (bs ! i) = v"
proof -
  from assms obtain i where "i < length bs" "active (bs ! i)" "bkey (bs ! i) = k" "bval (bs ! i) = v"
    by (auto simp: kvs_Some_iff [OF bs_ok_distinct])
  with stop_is_key [OF assms(1)] show ?thesis by (auto simp: used_def)
qed

section \<open>Insertion and deletion on bucket lists\<close>

lemma reachable_mono:
  assumes "reachable_at hasher bs i" "i < length bs" "length bs' = length bs"
    and "bkey (bs' ! i) = bkey (bs ! i)"
    and "\<And>j. j < length bs \<Longrightarrow> used (bs ! j) \<Longrightarrow> used (bs' ! j)"
  shows "reachable_at hasher bs' i"
proof -
  have "bs \<noteq> []" using assms(2) by auto
  with assms show ?thesis by (auto simp: reachable_at_def Let_def)
qed

lemma ex_update_iff:
  assumes "i < length xs"
  shows "(\<exists>j < length (xs[i := x]). P (xs[i := x] ! j)) \<longleftrightarrow> P x \<or> (\<exists>j < length xs. j \<noteq> i \<and> P (xs ! j))"
  using assms by (auto simp: nth_list_update)

lemma kvs_eqI:
  assumes "distinct (map fst (kvs bs))"
    and "\<And>k v. m k = Some v \<longleftrightarrow>
      (\<exists>i < length bs. active (bs ! i) \<and> bkey (bs ! i) = k \<and> bval (bs ! i) = v)"
  shows "map_of (kvs bs) = m"
  using assms(2) kvs_Some_iff [OF assms(1)] by (metis (no_types, lifting) ext not_Some_eq)

lemma bs_ok_unique:
  assumes "bs_ok hasher bs" "i < length bs" "j < length bs" "active (bs ! i)" "active (bs ! j)"
    "bkey (bs ! i) = bkey (bs ! j)"
  shows "i = j"
  using assms unfolding bs_ok_def by blast

lemma bs_okI:
  assumes "bs \<noteq> []"
    and "\<And>i j. i < length bs \<Longrightarrow> j < length bs \<Longrightarrow> active (bs ! i) \<Longrightarrow> active (bs ! j) \<Longrightarrow>
      bkey (bs ! i) = bkey (bs ! j) \<Longrightarrow> i = j"
    and "\<And>i. i < length bs \<Longrightarrow> active (bs ! i) \<Longrightarrow> reachable_at hasher bs i"
  shows "bs_ok hasher bs"
  using assms unfolding bs_ok_def by blast

lemma bs_ok_update_value:
  assumes ok: "bs_ok hasher bs" and i: "i < length bs" "active (bs ! i)"
  shows "bs_ok hasher (bs[i := (bs ! i)\<lparr>bval := v\<rparr>])"
proof -
  let ?bs = "bs[i := (bs ! i)\<lparr>bval := v\<rparr>]"
  have same: "active (?bs ! j) = active (bs ! j)" "bkey (?bs ! j) = bkey (bs ! j)"
    "used (?bs ! j) = used (bs ! j)" for j
    by (auto simp: nth_update used_def)
  show ?thesis
    using ok by (auto simp: bs_ok_def same intro: reachable_mono [of hasher bs])
qed

lemma insert_present:
  assumes ok: "bs_ok hasher bs" and pres: "map_of (kvs bs) k = Some w"
  shows "\<exists>bs'. insertInternal hasher k v bs sz = (False, bs', sz) \<and> bs_ok hasher bs' \<and>
    map_of (kvs bs') = (map_of (kvs bs))(k \<mapsto> v) \<and> length bs' = length bs \<and>
    length (kvs bs') = length (kvs bs) \<and>
    length (filter tombstone bs') = length (filter tombstone bs)"
proof -
  from firstStop_present [OF ok pres] obtain i where i: "i < length bs" "active (bs ! i)"
    "used (bs ! i)" "bkey (bs ! i) = k" "firstStop hasher k bs = Some i" by auto
  let ?bs = "bs[i := (bs ! i)\<lparr>bval := v\<rparr>]"
  from i have run: "insertInternal hasher k v bs sz = (False, ?bs, sz)"
    by (subst insertInternal_firstStop) auto
  have ok': "bs_ok hasher ?bs" using ok i by (intro bs_ok_update_value)
  have uniq: "bkey (bs ! j) \<noteq> k" if "j < length bs" "active (bs ! j)" "j \<noteq> i" for j
    using ok i that by (auto simp: bs_ok_def)
  have "map_of (kvs ?bs) = (map_of (kvs bs))(k \<mapsto> v)"
  proof (rule kvs_eqI [OF bs_ok_distinct [OF ok']])
    fix k' v'
    show "((map_of (kvs bs))(k \<mapsto> v)) k' = Some v' \<longleftrightarrow> (\<exists>j < length ?bs. active (?bs ! j) \<and>
        bkey (?bs ! j) = k' \<and> bval (?bs ! j) = v')"
      unfolding ex_update_iff [OF i(1), where P = "\<lambda>b. active b \<and> bkey b = k' \<and> bval b = v'"]
      using i uniq by (cases "k' = k") (auto simp: kvs_Some_iff [OF bs_ok_distinct [OF ok]])
  qed
  moreover have "length (kvs ?bs) = length (kvs bs)"
    using filter_update_count [OF i(1), of active "(bs ! i)\<lparr>bval := v\<rparr>"] i by (simp add: kvs_def)
  moreover have "length (filter tombstone ?bs) = length (filter tombstone bs)"
    using filter_update_count [OF i(1), of tombstone "(bs ! i)\<lparr>bval := v\<rparr>"] by (simp split: if_splits)
  ultimately show ?thesis using run ok' by simp
qed

lemma bs_ok_insert_new:
  assumes ok: "bs_ok hasher bs" and absent: "map_of (kvs bs) k = None"
    and stop: "firstStop hasher k bs = Some i"
  shows "bs_ok hasher (bs[i := (bs ! i)\<lparr>bkey := k, bval := v, active := True\<rparr>])"
    (is "bs_ok hasher ?bs")
proof -
  from firstStop_absent [OF ok absent stop] have i: "i < length bs" "\<not> used (bs ! i)"
    and path: "\<forall>j < dist (length bs) (hasher k mod length bs) i.
       used (bs ! probe (length bs) (hasher k mod length bs) j)" by auto
  have mono: "used (?bs ! j)" if "used (bs ! j)" "j < length bs" for j
    using that by (auto simp: nth_update used_def)
  have reach: "reachable_at hasher ?bs j" if "j < length bs" "active (?bs ! j)" for j
  proof (cases "j = i")
    case True
    have "bs \<noteq> []" using i by auto
    with path mono i True show ?thesis by (auto simp: reachable_at_def Let_def)
  next
    case False
    with that ok have "reachable_at hasher bs j" by (simp add: bs_ok_def)
    then show ?thesis
      by (rule reachable_mono) (use that(1) False mono in auto)
  qed
  have "\<forall>j < length bs. active (bs ! j) \<longrightarrow> bkey (bs ! j) \<noteq> k"
    using absent by (simp add: kvs_None_iff)
  then have other: "bkey (bs ! j) \<noteq> k" if "j < length bs" "active (bs ! j)" for j
    using that by blast
  have uniq: "a = b" if ab: "a < length bs" "b < length bs" "active (?bs ! a)" "active (?bs ! b)"
    "bkey (?bs ! a) = bkey (?bs ! b)" for a b
  proof (cases "a = i"; cases "b = i")
    assume "a \<noteq> i" "b \<noteq> i"
    with ab show ?thesis by (intro bs_ok_unique [OF ok]) simp_all
  next
    assume "a = i" "b \<noteq> i"
    with ab i other [of b] show ?thesis by simp
  next
    assume "a \<noteq> i" "b = i"
    with ab i other [of a] show ?thesis by simp
  qed simp
  show ?thesis
  proof (rule bs_okI)
    show "?bs \<noteq> []" using i by auto
  next
    fix a b
    assume "a < length ?bs" "b < length ?bs" "active (?bs ! a)" "active (?bs ! b)"
      "bkey (?bs ! a) = bkey (?bs ! b)"
    then show "a = b" using uniq by (metis length_list_update)
  next
    fix a
    assume "a < length ?bs" "active (?bs ! a)"
    then show "reachable_at hasher ?bs a" using reach by (metis length_list_update)
  qed
qed

lemma insert_absent:
  assumes ok: "bs_ok hasher bs" and absent: "map_of (kvs bs) k = None"
    and free: "length (filter used bs) < length bs"
  shows "\<exists>bs'. insertInternal hasher k v bs sz = (True, bs', sz + 1) \<and> bs_ok hasher bs' \<and>
    map_of (kvs bs') = (map_of (kvs bs))(k \<mapsto> v) \<and> length bs' = length bs \<and>
    length (kvs bs') = length (kvs bs) + 1 \<and>
    length (filter tombstone bs') = length (filter tombstone bs)"
proof -
  from free_bucket_exists [OF free] firstStop_free obtain i
    where stop: "firstStop hasher k bs = Some i" by (metis not_None_eq)
  from firstStop_absent [OF ok absent stop] have i: "i < length bs" "\<not> used (bs ! i)" by auto
  let ?b = "(bs ! i)\<lparr>bkey := k, bval := v, active := True\<rparr>"
  let ?bs = "bs[i := ?b]"
  from i stop have run: "insertInternal hasher k v bs sz = (True, ?bs, sz + 1)"
    by (subst insertInternal_firstStop) auto
  have ok': "bs_ok hasher ?bs" using ok absent stop by (rule bs_ok_insert_new)
  have fresh: "bkey (bs ! j) \<noteq> k" if "j < length bs" "active (bs ! j)" for j
    using absent that by (simp add: kvs_None_iff)
  have "map_of (kvs ?bs) = (map_of (kvs bs))(k \<mapsto> v)"
  proof (rule kvs_eqI [OF bs_ok_distinct [OF ok']])
    fix k' v'
    show "((map_of (kvs bs))(k \<mapsto> v)) k' = Some v' \<longleftrightarrow> (\<exists>j < length ?bs. active (?bs ! j) \<and>
        bkey (?bs ! j) = k' \<and> bval (?bs ! j) = v')"
      unfolding ex_update_iff [OF i(1), where P = "\<lambda>b. active b \<and> bkey b = k' \<and> bval b = v'"]
      using i fresh by (cases "k' = k") (auto simp: kvs_Some_iff [OF bs_ok_distinct [OF ok]] used_def)
  qed
  moreover have "length (kvs ?bs) = length (kvs bs) + 1"
    using filter_update_count [OF i(1), of active ?b] i by (simp add: kvs_def used_def)
  moreover have "length (filter tombstone ?bs) = length (filter tombstone bs)"
    using filter_update_count [OF i(1), of tombstone ?b] i by (simp add: used_def)
  ultimately show ?thesis using run ok' by simp
qed

text \<open>Both cases in one statement.\<close>

definition inserts_to ::
  "('k \<Rightarrow> nat) \<Rightarrow> 'k \<Rightarrow> 'v \<Rightarrow> ('k, 'v) bucket list \<Rightarrow> bool \<Rightarrow> ('k, 'v) bucket list \<Rightarrow> bool" where
  "inserts_to hasher k v bs fresh bs' \<longleftrightarrow>
     bs_ok hasher bs' \<and> map_of (kvs bs') = (map_of (kvs bs))(k \<mapsto> v) \<and>
     fresh = (map_of (kvs bs) k = None) \<and> length bs' = length bs \<and>
     length (kvs bs') = length (kvs bs) + (if fresh then 1 else 0) \<and>
     length (filter tombstone bs') = length (filter tombstone bs)"

lemma insertInternal_correct:
  assumes "bs_ok hasher bs" "length (filter used bs) < length bs"
  shows "\<exists>fresh bs'. insertInternal hasher k v bs sz = (fresh, bs', sz + (if fresh then 1 else 0)) \<and>
    inserts_to hasher k v bs fresh bs'"
proof (cases "map_of (kvs bs) k")
  case None
  from insert_absent [OF assms(1) None assms(2)] None show ?thesis
    by (fastforce simp: inserts_to_def)
next
  case (Some w)
  from insert_present [OF assms(1) Some] Some show ?thesis
    by (fastforce simp: inserts_to_def)
qed

lemma bs_ok_delete:
  assumes ok: "bs_ok hasher bs" and i: "i < length bs"
  shows "bs_ok hasher (bs[i := (bs ! i)\<lparr>active := False, bkey := d, bval := w, tombstone := True\<rparr>])"
    (is "bs_ok hasher ?bs")
proof -
  have mono: "used (?bs ! j)" if "used (bs ! j)" "j < length bs" for j
    using that by (auto simp: nth_update used_def)
  have "reachable_at hasher ?bs j" if "j < length bs" "active (?bs ! j)" for j
  proof -
    have "j \<noteq> i" using that i by auto
    with that ok have "reachable_at hasher bs j" by (simp add: bs_ok_def)
    then show ?thesis
      by (rule reachable_mono) (use that(1) \<open>j \<noteq> i\<close> mono in auto)
  qed
  moreover have "a = b" if "a < length bs" "b < length bs" "active (?bs ! a)" "active (?bs ! b)"
    "bkey (?bs ! a) = bkey (?bs ! b)" for a b
    using that i by (intro bs_ok_unique [OF ok]) (simp_all add: nth_update split: if_splits)
  ultimately show ?thesis using i by (intro bs_okI) auto
qed

lemma delete_map:
  assumes ok: "bs_ok hasher bs" and i: "i < length bs" "active (bs ! i)" "bkey (bs ! i) = k"
  shows "map_of (kvs (bs[i := (bs ! i)\<lparr>active := False, bkey := d, bval := w, tombstone := True\<rparr>]))
    = (map_of (kvs bs))(k := None)"
proof (rule kvs_eqI [OF bs_ok_distinct [OF bs_ok_delete [OF ok i(1)]]])
  have uniq: "bkey (bs ! j) \<noteq> k" if "j < length bs" "active (bs ! j)" "j \<noteq> i" for j
    using ok i that by (auto simp: bs_ok_def)
  let ?bs = "bs[i := (bs ! i)\<lparr>active := False, bkey := d, bval := w, tombstone := True\<rparr>]"
  fix k' v'
  show "((map_of (kvs bs))(k := None)) k' = Some v' \<longleftrightarrow> (\<exists>j < length ?bs. active (?bs ! j) \<and>
      bkey (?bs ! j) = k' \<and> bval (?bs ! j) = v')"
    unfolding ex_update_iff [OF i(1), where P = "\<lambda>b. active b \<and> bkey b = k' \<and> bval b = v'"]
    using i uniq by (cases "k' = k") (auto simp: kvs_Some_iff [OF bs_ok_distinct [OF ok]])
qed

lemma findIndex_correct:
  assumes ok: "bs_ok hasher bs"
  shows "case findIndex hasher k bs of
      None \<Rightarrow> map_of (kvs bs) k = None
    | Some i \<Rightarrow> i < length bs \<and> active (bs ! i) \<and> bkey (bs ! i) = k \<and>
        map_of (kvs bs) k = Some (bval (bs ! i))"
proof -
  have ne: "bs \<noteq> []" using ok by (simp add: bs_ok_def)
  show ?thesis
  proof (cases "map_of (kvs bs) k")
    case None
    have "findIndex hasher k bs = None"
    proof (cases "firstStop hasher k bs")
      case None
      with ne show ?thesis by (simp add: findIndex_firstStop)
    next
      case (Some i)
      with firstStop_absent [OF ok None Some] ne show ?thesis by (simp add: findIndex_firstStop)
    qed
    with None show ?thesis by simp
  next
    case (Some v)
    from firstStop_present [OF ok Some] obtain i where "i < length bs" "active (bs ! i)"
      "used (bs ! i)" "bkey (bs ! i) = k" "bval (bs ! i) = v" "firstStop hasher k bs = Some i" by auto
    with Some ne show ?thesis by (simp add: findIndex_firstStop)
  qed
qed

section \<open>Tables\<close>

lemma kvs_replicate_empty [simp]: "kvs (replicate n emptyBucket) = []"
  by (simp add: kvs_def emptyBucket_def)

lemma filter_replicate_empty [simp]:
  "filter tombstone (replicate n emptyBucket) = []" "filter used (replicate n emptyBucket) = []"
  by (simp_all add: emptyBucket_def used_def)

lemma bs_ok_replicate [simp]: "0 < n \<Longrightarrow> bs_ok hasher (replicate n emptyBucket)"
  by (simp add: bs_ok_def emptyBucket_def)

lemma used_count_le:
  "length (filter used bs) \<le> length (kvs bs) + length (filter tombstone bs)"
  by (induction bs) (auto simp: kvs_def used_def)

text \<open>The loop of \<^const>\<open>rehash\<close> over the buckets that are still to be moved.\<close>

abbreviation move_bucket where
  "move_bucket hasher \<equiv> \<lambda>(bs, sz) bucket.
     if active bucket then snd (insertInternal hasher (bkey bucket) (bval bucket) bs sz) else (bs, sz)"

lemma move_buckets:
  assumes "bs_ok hasher bs" "filter tombstone bs = []"
    and "length (kvs bs) + length (kvs old) < length bs"
    and "distinct (map fst (kvs old))" "dom (map_of (kvs bs)) \<inter> dom (map_of (kvs old)) = {}"
    and "sz = length (kvs bs)"
  shows "\<exists>bs'. foldl (move_bucket hasher) (bs, sz) old = (bs', length (kvs bs')) \<and>
    bs_ok hasher bs' \<and> length bs' = length bs \<and> filter tombstone bs' = [] \<and>
    map_of (kvs bs') = map_of (kvs bs) ++ map_of (kvs old) \<and>
    length (kvs bs') = length (kvs bs) + length (kvs old)"
  using assms
proof (induction old arbitrary: bs sz)
  case Nil
  then show ?case by (simp add: kvs_def [of "[]"])
next
  case (Cons b old)
  show ?case
  proof (cases "active b")
    case False
    with Cons show ?thesis by (simp add: kvs_def [of "b # old"] flip: kvs_def)
  next
    case True
    then have kvs: "kvs (b # old) = (bkey b, bval b) # kvs old" by (simp add: kvs_def)
    have absent: "map_of (kvs bs) (bkey b) = None"
      using Cons.prems(5) kvs by (auto simp: disjoint_iff domIff)
    have "length (filter used bs) < length bs"
      using used_count_le [of bs] Cons.prems(2,3) kvs by simp
    from insert_absent [OF Cons.prems(1) absent this, of "bval b" sz] obtain bs1 where
      run: "insertInternal hasher (bkey b) (bval b) bs sz = (True, bs1, sz + 1)" and
      ok1: "bs_ok hasher bs1" "map_of (kvs bs1) = (map_of (kvs bs))(bkey b \<mapsto> bval b)"
        "length bs1 = length bs" "length (kvs bs1) = length (kvs bs) + 1"
        "length (filter tombstone bs1) = length (filter tombstone bs)" by auto
    have new: "map_of (kvs old) (bkey b) = None"
      using Cons.prems(4) kvs by (simp add: map_of_eq_None_iff)
    have "\<exists>bs'. foldl (move_bucket hasher) (bs1, sz + 1) old = (bs', length (kvs bs')) \<and>
        bs_ok hasher bs' \<and> length bs' = length bs1 \<and> filter tombstone bs' = [] \<and>
        map_of (kvs bs') = map_of (kvs bs1) ++ map_of (kvs old) \<and>
        length (kvs bs') = length (kvs bs1) + length (kvs old)"
      using ok1 Cons.prems kvs new by (intro Cons.IH) (auto simp: disjoint_iff domIff)
    then obtain bs' where bs': "foldl (move_bucket hasher) (bs1, sz + 1) old = (bs', length (kvs bs'))"
      "bs_ok hasher bs'" "length bs' = length bs1" "filter tombstone bs' = []"
      "map_of (kvs bs') = map_of (kvs bs1) ++ map_of (kvs old)"
      "length (kvs bs') = length (kvs bs1) + length (kvs old)" by blast
    have "map_of (kvs bs') = map_of (kvs bs) ++ map_of (kvs (b # old))"
      unfolding bs'(5) ok1(2) kvs using new
      by (auto simp: map_add_def fun_eq_iff split: option.splits)
    moreover have "foldl (move_bucket hasher) (bs, sz) (b # old) = (bs', length (kvs bs'))"
      using True run bs'(1) by simp
    ultimately show ?thesis
      using bs'(2-4,6) ok1(3,4) kvs by (intro exI [of _ bs'] conjI) (simp_all del: map_of.simps)
  qed
qed

lemma rehash_correct:
  assumes "ht_ok hasher t" "hsize t < n"
  shows "ht_ok hasher (rehash hasher n t) \<and> length (buckets (rehash hasher n t)) = n \<and>
    ht_abs (rehash hasher n t) = ht_abs t \<and> hsize (rehash hasher n t) = hsize t \<and>
    filter tombstone (buckets (rehash hasher n t)) = []"
proof -
  let ?new = "replicate n emptyBucket"
  have "bs_ok hasher ?new" using assms(2) by (intro bs_ok_replicate) simp
  moreover have "distinct (map fst (kvs (buckets t)))"
    using assms(1) bs_ok_distinct [of hasher] by (auto simp: ht_ok_def)
  ultimately obtain bs' where
    "foldl (move_bucket hasher) (?new, 0) (buckets t) = (bs', length (kvs bs'))"
    "bs_ok hasher bs'" "length bs' = n" "filter tombstone bs' = []"
    "map_of (kvs bs') = map_of (kvs (buckets t))" "length (kvs bs') = length (kvs (buckets t))"
    using move_buckets [of hasher ?new "buckets t" 0] assms by (auto simp: ht_ok_def)
  then show ?thesis
    using assms(1) by (simp add: rehash_def ht_ok_def ht_abs_def)
qed

text \<open>Before an insertion the table has a free bucket, whatever was deleted before.\<close>

lemma checkRehash_correct:
  assumes "ht_inv hasher t"
  shows "ht_inv hasher (checkRehash hasher t) \<and> ht_abs (checkRehash hasher t) = ht_abs t \<and>
    length (filter used (buckets (checkRehash hasher t))) < length (buckets (checkRehash hasher t))"
proof -
  let ?n = "length (buckets t)"
  have ok: "ht_ok hasher t" and n: "2 \<le> ?n"
    and tomb: "length (filter tombstone (buckets t)) \<le> tombstoneCount t"
    using assms by (auto simp: ht_inv_def)
  have size: "hsize t \<le> ?n" using ok by (simp add: ht_ok_def kvs_def)
  have rehashed: ?thesis if r: "checkRehash hasher t = rehash hasher m t" and "hsize t < m" "2 \<le> m" for m
    using rehash_correct [OF ok that(2)] that(3) used_count_le [of "buckets (rehash hasher m t)"] that(2)
    unfolding r by (simp add: ht_inv_def ht_ok_def)
  show ?thesis
  proof (cases "hsize t \<ge> ?n div 2")
    case True
    with size n show ?thesis by (intro rehashed [of "?n * 2"]) (simp_all add: checkRehash_def)
  next
    case less: False
    show ?thesis
    proof (cases "hsize t + tombstoneCount t \<ge> ?n div 2")
      case True
      with less n show ?thesis by (intro rehashed [of ?n]) (simp_all add: checkRehash_def)
    next
      case False
      then have "length (filter used (buckets t)) < ?n"
        using used_count_le [of "buckets t"] tomb ok by (simp add: ht_ok_def)
      with False less assms show ?thesis by (simp add: checkRehash_def)
    qed
  qed
qed

lemma ht_set_correct:
  assumes "ht_inv hasher t"
  shows "ht_inv hasher (snd (ht_set hasher k v t)) \<and>
    ht_abs (snd (ht_set hasher k v t)) = (ht_abs t)(k \<mapsto> v) \<and>
    fst (ht_set hasher k v t) = (ht_abs t k = None)"
proof -
  let ?t = "checkRehash hasher t"
  from checkRehash_correct [OF assms] have inv: "ht_inv hasher ?t" "ht_abs ?t = ht_abs t"
    and free: "length (filter used (buckets ?t)) < length (buckets ?t)" by auto
  have ok: "bs_ok hasher (buckets ?t)" using inv by (simp add: ht_inv_def ht_ok_def)
  from insertInternal_correct [OF ok free, of k v "hsize ?t"] obtain fresh bs' where
    "insertInternal hasher k v (buckets ?t) (hsize ?t) = (fresh, bs', hsize ?t + (if fresh then 1 else 0))"
    "inserts_to hasher k v (buckets ?t) fresh bs'" by auto
  with inv show ?thesis
    by (auto simp: ht_set_def Let_def ht_inv_def ht_ok_def ht_abs_def inserts_to_def)
qed

lemma ht_del_correct:
  assumes "ht_inv hasher t"
  shows "ht_inv hasher (snd (ht_del hasher k t)) \<and>
    ht_abs (snd (ht_del hasher k t)) = (ht_abs t)(k := None) \<and>
    fst (ht_del hasher k t) = (ht_abs t k \<noteq> None)"
proof -
  have ok: "bs_ok hasher (buckets t)" using assms by (simp add: ht_inv_def ht_ok_def)
  show ?thesis
  proof (cases "findIndex hasher k (buckets t)")
    case None
    with findIndex_correct [OF ok, of k] have "ht_abs t k = None" by (simp add: ht_abs_def)
    with None assms show ?thesis by (auto simp: ht_del_def)
  next
    case (Some i)
    with findIndex_correct [OF ok, of k] have i: "i < length (buckets t)" "active (buckets t ! i)"
      "bkey (buckets t ! i) = k" "map_of (kvs (buckets t)) k \<noteq> None" by auto
    let ?b = "(buckets t ! i)\<lparr>active := False, bkey := default, bval := default, tombstone := True\<rparr>"
    let ?bs = "(buckets t)[i := ?b]"
    have "length (kvs ?bs) + 1 = length (kvs (buckets t))"
      using filter_update_count [OF i(1), of active ?b] i(2) by (simp add: kvs_def)
    moreover have "length (filter tombstone ?bs) \<le> length (filter tombstone (buckets t)) + 1"
      using filter_update_count [OF i(1), of tombstone ?b] by (simp split: if_splits)
    ultimately show ?thesis
      using Some i assms bs_ok_delete [OF ok i(1)] delete_map [OF ok i(1-3)]
      by (auto simp: ht_del_def ht_inv_def ht_ok_def ht_abs_def)
  qed
qed

lemma ht_get_correct:
  assumes "ht_ok hasher t"
  shows "ht_get hasher k t = ht_abs t k" "ht_exists hasher k t \<longleftrightarrow> ht_abs t k \<noteq> None"
proof -
  have "bs_ok hasher (buckets t)" using assms by (simp add: ht_ok_def)
  from findIndex_correct [OF this, of k]
  show "ht_get hasher k t = ht_abs t k" "ht_exists hasher k t \<longleftrightarrow> ht_abs t k \<noteq> None"
    by (auto simp: ht_get_def ht_exists_def ht_abs_def split: option.splits)
qed

lemma ht_inv_ok [intro, simp]: "ht_inv hasher t \<Longrightarrow> ht_ok hasher t"
  by (simp add: ht_inv_def)

lemma newTable_inv [simp]: "ht_inv hasher newTable" and newTable_abs [simp]: "ht_abs newTable = Map.empty"
  by (simp_all add: newTable_def ht_inv_def ht_ok_def ht_abs_def)

lemma newTable_size [simp]: "hsize newTable = 0"
  by (simp add: newTable_def)

lemma ht_clear_inv: "ht_inv hasher t \<Longrightarrow> ht_inv hasher (ht_clear t)"
  and ht_clear_abs: "ht_abs (ht_clear t) = Map.empty"
  by (simp_all add: ht_clear_def ht_inv_def ht_ok_def ht_abs_def)

text \<open>A clone has the same contents; it forgets the tombstone count.\<close>

lemma ht_clone_ok: "ht_ok hasher t \<Longrightarrow> ht_ok hasher (ht_clone t)"
  and ht_clone_abs: "ht_abs (ht_clone t) = ht_abs t"
  by (simp_all add: ht_clone_def ht_ok_def ht_abs_def)

section \<open>Iteration and size\<close>

lemma iterateFrom_kvs: "iterateFrom bs i = kvs (drop i bs)"
proof (induction bs i rule: iterateFrom.induct)
  case (1 bs i)
  have adv: "kvs (drop i bs) = kvs (drop (advanceToValid bs i) bs)"
    "advanceToValid bs i < length bs \<Longrightarrow> active (bs ! advanceToValid bs i)" for i
  proof (induction bs i rule: advanceToValid.induct)
    case (1 bs i)
    {
      case 1
      then show ?case
        using "1.IH"(1)
        by (subst advanceToValid.simps) (auto simp: kvs_def Cons_nth_drop_Suc [symmetric])
    next
      case 2
      then show ?case using "1.IH"(2) by (simp add: advanceToValid.simps [of bs i] split: if_splits)
    }
  qed
  let ?j = "advanceToValid bs i"
  show ?case
  proof (cases "?j < length bs")
    case True
    then have "kvs (drop ?j bs) = (bkey (bs ! ?j), bval (bs ! ?j)) # kvs (drop (?j + 1) bs)"
      using adv(2) by (simp add: kvs_def Cons_nth_drop_Suc [symmetric])
    with True "1.IH" adv(1) [of i] show ?thesis
      by (simp add: iterateFrom.simps [of bs i] Let_def)
  next
    case False
    with adv(1) [of i] show ?thesis
      by (simp add: iterateFrom.simps [of bs i] Let_def kvs_def)
  qed
qed

lemma ht_entries_kvs: "ht_entries t = kvs (buckets t)"
  by (simp add: ht_entries_def iterateFrom_kvs)

lemma ht_entries_correct:
  assumes "ht_ok hasher t"
  shows "map_of (ht_entries t) = ht_abs t" "distinct (map fst (ht_entries t))"
    "length (ht_entries t) = hsize t"
  using assms by (auto simp: ht_entries_kvs ht_abs_def ht_ok_def bs_ok_distinct)

lemma ht_size_card:
  assumes "ht_ok hasher t"
  shows "hsize t = card (dom (ht_abs t))"
proof -
  from ht_entries_correct [OF assms] have
    "hsize t = card (set (map fst (ht_entries t)))" by (metis distinct_card length_map)
  with ht_entries_correct(1) [OF assms] show ?thesis
    by (metis dom_map_of_conv_image_fst image_set)
qed

lemma ht_abs_finite [simp]: "finite (dom (ht_abs t))"
  by (simp add: ht_abs_def finite_dom_map_of)

section \<open>The contract of a table\<close>

text \<open>
  What the clients of a table rely on: an invariant, the partial map a table stands for,
  and each operation as its counterpart on maps.
\<close>

locale kv_table =
  fixes inv :: "'t \<Rightarrow> bool" and abs :: "'t \<Rightarrow> 'k \<rightharpoonup> 'v" and new :: 't
    and put :: "'k \<Rightarrow> 'v \<Rightarrow> 't \<Rightarrow> bool \<times> 't" and rem :: "'k \<Rightarrow> 't \<Rightarrow> bool \<times> 't"
    and lookup :: "'k \<Rightarrow> 't \<Rightarrow> 'v option" and count :: "'t \<Rightarrow> nat"
    and entries :: "'t \<Rightarrow> ('k \<times> 'v) list"
  assumes new_inv: "inv new" and new_abs: "abs new = Map.empty"
    and put_inv: "inv t \<Longrightarrow> inv (snd (put k v t))"
    and put_abs: "inv t \<Longrightarrow> abs (snd (put k v t)) = (abs t)(k \<mapsto> v)"
    and put_fresh: "inv t \<Longrightarrow> fst (put k v t) = (abs t k = None)"
    and rem_inv: "inv t \<Longrightarrow> inv (snd (rem k t))"
    and rem_abs: "inv t \<Longrightarrow> abs (snd (rem k t)) = (abs t)(k := None)"
    and rem_hit: "inv t \<Longrightarrow> fst (rem k t) = (abs t k \<noteq> None)"
    and lookup_abs: "inv t \<Longrightarrow> lookup k t = abs t k"
    and count_card: "inv t \<Longrightarrow> count t = card (dom (abs t))"
    and entries_abs: "inv t \<Longrightarrow> map_of (entries t) = abs t"
    and entries_distinct: "inv t \<Longrightarrow> distinct (map fst (entries t))"
begin

lemma abs_finite: "inv t \<Longrightarrow> finite (dom (abs t))"
  by (metis entries_abs finite_dom_map_of)

lemma entries_length: "inv t \<Longrightarrow> length (entries t) = count t"
  by (metis count_card distinct_card dom_map_of_conv_image_fst entries_abs entries_distinct
      image_set length_map)

lemma lookup_put: "inv t \<Longrightarrow> lookup k' (snd (put k v t)) = (if k' = k then Some v else lookup k' t)"
  by (simp add: lookup_abs put_inv put_abs)

lemma lookup_rem: "inv t \<Longrightarrow> lookup k' (snd (rem k t)) = (if k' = k then None else lookup k' t)"
  by (simp add: lookup_abs rem_inv rem_abs)

lemma count_put: "inv t \<Longrightarrow> count (snd (put k v t)) = count t + (if fst (put k v t) then 1 else 0)"
  using card_insert_new [OF abs_finite, of t k]
  by (auto simp: count_card put_inv put_abs put_fresh)

lemma count_rem: "inv t \<Longrightarrow> count (snd (rem k t)) + (if fst (rem k t) then 1 else 0) = count t"
  using card_remove_old [OF abs_finite, of t k]
  by (simp add: count_card rem_inv rem_abs rem_hit domIff split: if_splits)

text \<open>A loop that stores pairs, and one that removes keys, with the counts they report.\<close>

lemma put_loop:
  "inv t \<Longrightarrow> inv (snd (countLoop (\<lambda>(k, v). put k v) ps t)) \<and>
     abs (snd (countLoop (\<lambda>(k, v). put k v) ps t)) = abs t ++ map_of (rev ps) \<and>
     count (snd (countLoop (\<lambda>(k, v). put k v) ps t)) =
       count t + fst (countLoop (\<lambda>(k, v). put k v) ps t)"
proof (induction ps arbitrary: t)
  case Nil
  then show ?case by simp
next
  case (Cons p ps)
  obtain k v where p: "p = (k, v)" by (cases p)
  let ?t = "snd (put k v t)" and ?f = "\<lambda>(k, v). put k v"
  note IH = Cons.IH [OF put_inv [OF Cons.prems, of k v]]
  have run: "countLoop ?f (p # ps) t = ((if fst (put k v t) then fst (countLoop ?f ps ?t) + 1
      else fst (countLoop ?f ps ?t)), snd (countLoop ?f ps ?t))"
    by (simp add: p Let_def split_beta)
  have "abs (snd (countLoop ?f ps ?t)) = abs t ++ map_of (rev (p # ps))"
    unfolding IH [THEN conjunct2, THEN conjunct1] put_abs [OF Cons.prems] by (simp add: p)
  with IH count_put [OF Cons.prems, of k v] show ?case unfolding run by simp
qed

lemma rem_loop:
  "inv t \<Longrightarrow> inv (snd (countLoop rem ks t)) \<and>
     abs (snd (countLoop rem ks t)) = abs t |` (- set ks) \<and>
     count (snd (countLoop rem ks t)) + fst (countLoop rem ks t) = count t"
proof (induction ks arbitrary: t)
  case Nil
  then show ?case by (simp add: restrict_map_def)
next
  case (Cons k ks)
  let ?t = "snd (rem k t)"
  note IH = Cons.IH [OF rem_inv [OF Cons.prems, of k]]
  have run: "countLoop rem (k # ks) t = ((if fst (rem k t) then fst (countLoop rem ks ?t) + 1
      else fst (countLoop rem ks ?t)), snd (countLoop rem ks ?t))"
    by (simp add: Let_def split_beta)
  have "abs (snd (countLoop rem ks ?t)) = abs t |` (- set (k # ks))"
    unfolding IH [THEN conjunct2, THEN conjunct1] rem_abs [OF Cons.prems]
    by (auto simp: restrict_map_def fun_eq_iff)
  with IH count_rem [OF Cons.prems, of k] show ?case unfolding run by (simp split: if_splits)
qed

end

interpretation ht: kv_table "ht_inv hasher" ht_abs newTable "ht_set hasher" "ht_del hasher"
    "ht_get hasher" ht_size ht_entries for hasher :: "'k::default \<Rightarrow> nat"
  using ht_entries_correct [OF ht_inv_ok, of hasher] ht_size_card [OF ht_inv_ok, of hasher]
  by unfold_locales
    (simp_all add: ht_set_correct ht_del_correct ht_get_correct ht_size_def)

end
