(* ===== verification/HashSet.thy ===== *)
theory HashSet
  imports HashTableSpec
begin

text \<open>
  The set of strings of \<^verbatim>\<open>storage/data_structures/hash_set.h\<close>: a hash table whose
  values carry no information (\<^verbatim>\<open>EmptyStruct\<close> is \<^typ>\<open>unit\<close>).
\<close>

type_synonym hash_set = "(string, unit) hash_table"

definition newSet :: hash_set where
  "newSet = newTable"

definition hs_clone :: "hash_set \<Rightarrow> hash_set" where
  "hs_clone s = ht_clone s"

definition hs_add :: "(string \<Rightarrow> nat) \<Rightarrow> string \<Rightarrow> hash_set \<Rightarrow> bool \<times> hash_set" where
  "hs_add hasher member s = ht_set hasher member () s"

definition hs_remove :: "(string \<Rightarrow> nat) \<Rightarrow> string \<Rightarrow> hash_set \<Rightarrow> bool \<times> hash_set" where
  "hs_remove hasher member s = ht_del hasher member s"

definition hs_contains :: "(string \<Rightarrow> nat) \<Rightarrow> string \<Rightarrow> hash_set \<Rightarrow> bool" where
  "hs_contains hasher member s = ht_exists hasher member s"

definition hs_size :: "hash_set \<Rightarrow> nat" where
  "hs_size s = ht_size s"

definition hs_empty :: "hash_set \<Rightarrow> bool" where
  "hs_empty s = ht_empty s"

definition hs_members :: "hash_set \<Rightarrow> string list" where
  "hs_members s = foldl (\<lambda>result kv. result @ [fst kv]) [] (ht_entries s)"

section \<open>The contract of a set\<close>

locale string_set =
  fixes inv :: "'t \<Rightarrow> bool" and elems :: "'t \<Rightarrow> 'a set" and new :: 't
    and add :: "'a \<Rightarrow> 't \<Rightarrow> bool \<times> 't" and remove :: "'a \<Rightarrow> 't \<Rightarrow> bool \<times> 't"
    and contains :: "'a \<Rightarrow> 't \<Rightarrow> bool" and count :: "'t \<Rightarrow> nat" and members :: "'t \<Rightarrow> 'a list"
  assumes new_inv: "inv new" and new_elems: "elems new = {}"
    and add_inv: "inv t \<Longrightarrow> inv (snd (add x t))"
    and add_elems: "inv t \<Longrightarrow> elems (snd (add x t)) = insert x (elems t)"
    and add_fresh: "inv t \<Longrightarrow> fst (add x t) = (x \<notin> elems t)"
    and remove_inv: "inv t \<Longrightarrow> inv (snd (remove x t))"
    and remove_elems: "inv t \<Longrightarrow> elems (snd (remove x t)) = elems t - {x}"
    and remove_hit: "inv t \<Longrightarrow> fst (remove x t) = (x \<in> elems t)"
    and contains_elems: "inv t \<Longrightarrow> contains x t = (x \<in> elems t)"
    and count_card: "inv t \<Longrightarrow> count t = card (elems t)"
    and members_elems: "inv t \<Longrightarrow> set (members t) = elems t"
    and members_distinct: "inv t \<Longrightarrow> distinct (members t)"
begin

lemma elems_finite: "inv t \<Longrightarrow> finite (elems t)"
  by (metis List.finite_set members_elems)

lemma members_length: "inv t \<Longrightarrow> length (members t) = count t"
  by (simp add: count_card members_elems [symmetric] members_distinct distinct_card)

lemma add_loop:
  "inv t \<Longrightarrow> inv (snd (countLoop add xs t)) \<and>
     elems (snd (countLoop add xs t)) = elems t \<union> set xs \<and>
     fst (countLoop add xs t) = card (set xs - elems t)"
proof (induction xs arbitrary: t)
  case Nil
  then show ?case by simp
next
  case (Cons x xs)
  have "card (set (x # xs) - elems t) =
      card (set xs - insert x (elems t)) + (if x \<in> elems t then 0 else 1)"
  proof (cases "x \<in> elems t")
    case True
    then show ?thesis by (simp add: insert_absorb)
  next
    case False
    then have "set (x # xs) - elems t = insert x (set xs - insert x (elems t))" by auto
    with False show ?thesis by simp
  qed
  with Cons.IH [OF add_inv [OF Cons.prems, of x]] show ?case
    by (auto simp: Let_def case_prod_beta add_elems [OF Cons.prems] add_fresh [OF Cons.prems])
qed

lemma remove_loop:
  "inv t \<Longrightarrow> inv (snd (countLoop remove xs t)) \<and>
     elems (snd (countLoop remove xs t)) = elems t - set xs \<and>
     fst (countLoop remove xs t) = card (set xs \<inter> elems t)"
proof (induction xs arbitrary: t)
  case Nil
  then show ?case by simp
next
  case (Cons x xs)
  have "card (set (x # xs) \<inter> elems t) =
      card (set xs \<inter> (elems t - {x})) + (if x \<in> elems t then 1 else 0)"
  proof (cases "x \<in> elems t")
    case True
    then have "set (x # xs) \<inter> elems t = insert x (set xs \<inter> (elems t - {x}))" by auto
    with True show ?thesis by simp
  next
    case False
    then have "set (x # xs) \<inter> elems t = set xs \<inter> (elems t - {x})" by auto
    with False show ?thesis by simp
  qed
  with Cons.IH [OF remove_inv [OF Cons.prems, of x]] show ?case
    by (auto simp: Let_def case_prod_beta remove_elems [OF Cons.prems] remove_hit [OF Cons.prems])
qed

end

definition hs_elems :: "hash_set \<Rightarrow> string set" where
  "hs_elems s = dom (ht_abs s)"

lemma hs_members_keys: "hs_members s = map fst (ht_entries s)"
  by (simp add: hs_members_def foldl_snoc_map)

interpretation hs: string_set "ht_inv hasher" hs_elems newSet "hs_add hasher" "hs_remove hasher"
    "hs_contains hasher" hs_size hs_members for hasher :: "string \<Rightarrow> nat"
proof
  fix t :: hash_set and x :: string
  assume inv: "ht_inv hasher t"
  show "hs_contains hasher x t = (x \<in> hs_elems t)"
    using inv by (auto simp: hs_contains_def hs_elems_def ht_get_correct)
  show "set (hs_members t) = hs_elems t"
    unfolding hs_members_keys hs_elems_def ht.entries_abs [OF inv, symmetric]
    by (simp add: dom_map_of_conv_image_fst)
qed (auto simp: hs_elems_def newSet_def hs_add_def hs_remove_def hs_size_def hs_members_keys
      ht.put_inv ht.put_abs ht.put_fresh ht.rem_inv ht.rem_abs ht.rem_hit ht.count_card
      ht.entries_distinct split: if_splits)

end
