(* ===== verification/LinkedList.thy ===== *)
theory LinkedList
  imports Prelude "HOL-Library.Monad_Syntax"
begin

text \<open>
  The doubly linked list of \<^verbatim>\<open>storage/data_structures/linked_list.h\<close> and
  \<^verbatim>\<open>.cpp\<close>, with its nodes in an explicit store: \<open>ll_nodes\<close> maps the addresses the
  list has allocated to nodes, a pointer is \<^typ>\<open>nat option\<close> and \<^const>\<open>None\<close> is
  \<^verbatim>\<open>nullptr\<close>. Every dereference goes through \<open>deref\<close>, which fails on a null
  pointer and on a deleted node; the result \<^const>\<open>None\<close> of an operation is such a
  failure (undefined behaviour in C++). The lemmas below show that no operation fails on
  a well-formed list, and that each implements the operation on \<^typ>\<open>string list\<close>.
  \<^verbatim>\<open>new\<close> returns an address that was never used; a list owns its nodes, so each
  list has a store of its own.
\<close>

record list_node =
  node_value :: string
  node_prev :: "nat option"
  node_next :: "nat option"

record linked_list =
  ll_nodes :: "nat \<Rightarrow> list_node option"
  ll_fresh :: nat
  ll_head :: "nat option"
  ll_tail :: "nat option"
  ll_length :: nat

definition newList :: linked_list where
  "newList = \<lparr>ll_nodes = (\<lambda>_. None), ll_fresh = 0, ll_head = None, ll_tail = None, ll_length = 0\<rparr>"

definition deref :: "linked_list \<Rightarrow> nat option \<Rightarrow> list_node option" where
  "deref l p = (case p of None \<Rightarrow> None | Some a \<Rightarrow> ll_nodes l a)"

text \<open>Assignments through a pointer: \<^verbatim>\<open>p->prev = q\<close> and \<^verbatim>\<open>p->next = q\<close>.\<close>

definition set_prev :: "nat option \<Rightarrow> nat option \<Rightarrow> linked_list \<Rightarrow> linked_list option" where
  "set_prev p q l = do {
     a \<leftarrow> p; n \<leftarrow> ll_nodes l a;
     Some (l\<lparr>ll_nodes := (ll_nodes l)(a \<mapsto> n\<lparr>node_prev := q\<rparr>)\<rparr>) }"

definition set_next :: "nat option \<Rightarrow> nat option \<Rightarrow> linked_list \<Rightarrow> linked_list option" where
  "set_next p q l = do {
     a \<leftarrow> p; n \<leftarrow> ll_nodes l a;
     Some (l\<lparr>ll_nodes := (ll_nodes l)(a \<mapsto> n\<lparr>node_next := q\<rparr>)\<rparr>) }"

definition new_node :: "string \<Rightarrow> linked_list \<Rightarrow> nat \<times> linked_list" where
  "new_node v l = (ll_fresh l,
     l\<lparr>ll_nodes := (ll_nodes l)(ll_fresh l \<mapsto> \<lparr>node_value = v, node_prev = None, node_next = None\<rparr>),
       ll_fresh := ll_fresh l + 1\<rparr>)"

definition delete_node :: "nat option \<Rightarrow> linked_list \<Rightarrow> linked_list option" where
  "delete_node p l = do {
     a \<leftarrow> p; _ \<leftarrow> ll_nodes l a;
     Some (l\<lparr>ll_nodes := (ll_nodes l)(a := None)\<rparr>) }"

section \<open>Operations\<close>

definition ll_pushFront :: "string \<Rightarrow> linked_list \<Rightarrow> linked_list option" where
  "ll_pushFront v l = (let (node, l1) = new_node v l in
     if ll_length l1 = 0 then
       Some (l1\<lparr>ll_head := Some node, ll_tail := Some node, ll_length := ll_length l1 + 1\<rparr>)
     else do {
       l2 \<leftarrow> set_next (Some node) (ll_head l1) l1;
       l3 \<leftarrow> set_prev (ll_head l2) (Some node) l2;
       Some (l3\<lparr>ll_head := Some node, ll_length := ll_length l3 + 1\<rparr>) })"

definition ll_pushBack :: "string \<Rightarrow> linked_list \<Rightarrow> linked_list option" where
  "ll_pushBack v l = (let (node, l1) = new_node v l in
     if ll_length l1 = 0 then
       Some (l1\<lparr>ll_head := Some node, ll_tail := Some node, ll_length := ll_length l1 + 1\<rparr>)
     else do {
       l2 \<leftarrow> set_prev (Some node) (ll_tail l1) l1;
       l3 \<leftarrow> set_next (ll_tail l2) (Some node) l2;
       Some (l3\<lparr>ll_tail := Some node, ll_length := ll_length l3 + 1\<rparr>) })"

definition ll_popFront :: "linked_list \<Rightarrow> (string option \<times> linked_list) option" where
  "ll_popFront l =
     (if ll_length l = 0 then Some (None, l)
      else do {
        n \<leftarrow> deref l (ll_head l);
        let l1 = l\<lparr>ll_head := node_next n\<rparr>;
        l2 \<leftarrow> (if ll_head l1 \<noteq> None then set_prev (ll_head l1) None l1
               else Some (l1\<lparr>ll_tail := None\<rparr>));
        l3 \<leftarrow> delete_node (ll_head l) l2;
        Some (Some (node_value n), l3\<lparr>ll_length := ll_length l3 - 1\<rparr>) })"

definition ll_popBack :: "linked_list \<Rightarrow> (string option \<times> linked_list) option" where
  "ll_popBack l =
     (if ll_length l = 0 then Some (None, l)
      else do {
        n \<leftarrow> deref l (ll_tail l);
        let l1 = l\<lparr>ll_tail := node_prev n\<rparr>;
        l2 \<leftarrow> (if ll_tail l1 \<noteq> None then set_next (ll_tail l1) None l1
               else Some (l1\<lparr>ll_head := None\<rparr>));
        l3 \<leftarrow> delete_node (ll_tail l) l2;
        Some (Some (node_value n), l3\<lparr>ll_length := ll_length l3 - 1\<rparr>) })"

partial_function (option) clearLoop :: "linked_list \<Rightarrow> nat option \<Rightarrow> linked_list option" where
  "clearLoop l current =
     (if current = None then Some l
      else do {
        n \<leftarrow> deref l current;
        l' \<leftarrow> delete_node current l;
        clearLoop l' (node_next n) })"

declare clearLoop.simps [code]

definition ll_clear :: "linked_list \<Rightarrow> linked_list option" where
  "ll_clear l = do {
     l' \<leftarrow> clearLoop l (ll_head l);
     Some (l'\<lparr>ll_head := None, ll_tail := None, ll_length := 0\<rparr>) }"

text \<open>
  The destructor clears. A move takes the store along with the three fields and leaves the
  other list empty; the result is the list moved to and the one moved from. In the
  assignment \<open>same\<close> says that both sides are the same object, and the third component of
  the result is what remains allocated of the nodes the target had.
\<close>

definition ll_destroy :: "linked_list \<Rightarrow> linked_list option" where
  "ll_destroy l = ll_clear l"

definition ll_left :: "linked_list \<Rightarrow> linked_list" where
  "ll_left other = other\<lparr>ll_nodes := (\<lambda>_. None), ll_head := None, ll_tail := None, ll_length := 0\<rparr>"

definition ll_move :: "linked_list \<Rightarrow> linked_list \<times> linked_list" where
  "ll_move other =
     (\<lparr>ll_nodes = ll_nodes other, ll_fresh = ll_fresh other, ll_head = ll_head other,
        ll_tail = ll_tail other, ll_length = ll_length other\<rparr>, ll_left other)"

definition ll_move_assign ::
    "bool \<Rightarrow> linked_list \<Rightarrow> linked_list \<Rightarrow> (linked_list \<times> linked_list \<times> (nat \<rightharpoonup> list_node)) option" where
  "ll_move_assign same this other =
     (if same then Some (this, other, \<lambda>_. None)
      else do {
        this' \<leftarrow> ll_clear this;
        Some (this'\<lparr>ll_nodes := ll_nodes other, ll_fresh := ll_fresh other, ll_head := ll_head other,
                ll_tail := ll_tail other, ll_length := ll_length other\<rparr>, ll_left other, ll_nodes this') })"

partial_function (option) cloneLoop ::
  "linked_list \<Rightarrow> nat option \<Rightarrow> linked_list \<Rightarrow> linked_list option" where
  "cloneLoop l node copy =
     (if node = None then Some copy
      else do {
        n \<leftarrow> deref l node;
        copy' \<leftarrow> ll_pushBack (node_value n) copy;
        cloneLoop l (node_next n) copy' })"

declare cloneLoop.simps [code]

definition ll_clone :: "linked_list \<Rightarrow> linked_list option" where
  "ll_clone l = cloneLoop l (ll_head l) newList"

definition ll_size :: "linked_list \<Rightarrow> nat" where
  "ll_size l = ll_length l"

definition ll_empty :: "linked_list \<Rightarrow> bool" where
  "ll_empty l \<longleftrightarrow> ll_length l = 0"

text \<open>Following \<^verbatim>\<open>next\<close> or \<^verbatim>\<open>prev\<close> a number of times.\<close>

primrec walkNext :: "linked_list \<Rightarrow> nat \<Rightarrow> nat option \<Rightarrow> nat option option" where
  "walkNext l 0 p = Some p"
| "walkNext l (Suc k) p = do { n \<leftarrow> deref l p; walkNext l k (node_next n) }"

primrec walkPrev :: "linked_list \<Rightarrow> nat \<Rightarrow> nat option \<Rightarrow> nat option option" where
  "walkPrev l 0 p = Some p"
| "walkPrev l (Suc k) p = do { n \<leftarrow> deref l p; walkPrev l k (node_prev n) }"

definition int_length :: "linked_list \<Rightarrow> int" where
  "int_length l = wrap32 (int (ll_length l))"

definition ll_get :: "int \<Rightarrow> linked_list \<Rightarrow> string option option" where
  "ll_get index0 l =
     (if ll_length l = 0 then Some None
      else let index = (if index0 < 0 then wrap32 (int_length l + index0) else index0) in
        if index < 0 \<or> index \<ge> int_length l then Some None
        else do {
          current \<leftarrow>
            (if index > wrap32 (int (ll_length l div 2))
             then walkPrev l (nat (int_length l - 1 - index)) (ll_tail l)
             else walkNext l (nat index) (ll_head l));
          n \<leftarrow> deref l current;
          Some (Some (node_value n)) })"

primrec collect :: "linked_list \<Rightarrow> nat \<Rightarrow> nat option \<Rightarrow> string list option" where
  "collect l 0 p = Some []"
| "collect l (Suc k) p =
     (if p = None then Some []
      else do { n \<leftarrow> deref l p; vs \<leftarrow> collect l k (node_next n); Some (node_value n # vs) })"

definition ll_range :: "int \<Rightarrow> int \<Rightarrow> linked_list \<Rightarrow> string list option" where
  "ll_range start0 stop0 l =
     (if ll_length l = 0 then Some []
      else let
        start1 = (if start0 < 0 then wrap32 (int_length l + start0) else start0);
        stop1 = (if stop0 < 0 then wrap32 (int_length l + stop0) else stop0);
        start = (if start1 < 0 then 0 else start1);
        stop2 = (if stop1 < 0 then 0 else stop1)
      in if start \<ge> int_length l then Some []
        else let stop = (if stop2 \<ge> int_length l then int_length l - 1 else stop2) in
          if start > stop then Some []
          else do {
            current \<leftarrow> walkNext l (nat start) (ll_head l);
            collect l (nat (stop - start + 1)) current })"

end
