(* ===== verification/LinkedListSpec.thy ===== *)
theory LinkedListSpec
  imports LinkedList
begin

text \<open>
  The linked list implements a sequence of strings: \<open>ll_rep l as xs\<close> says that the nodes
  of \<open>l\<close> are exactly those at the addresses \<open>as\<close>, doubly linked in this order and
  holding \<open>xs\<close>; \<open>ll_is l xs\<close> forgets the addresses. No operation on such a list
  dereferences a null or deleted pointer, and none leaks a node. The contract is the
  locale \<open>deque\<close>.
\<close>

definition addr_at :: "'a list \<Rightarrow> nat \<Rightarrow> 'a option" where
  "addr_at as i = (if i < length as then Some (as ! i) else None)"

definition linked_node :: "nat list \<Rightarrow> string list \<Rightarrow> nat \<Rightarrow> list_node" where
  "linked_node as xs i = \<lparr>node_value = xs ! i,
     node_prev = (if i = 0 then None else Some (as ! (i - 1))), node_next = addr_at as (i + 1)\<rparr>"

definition ll_rep :: "linked_list \<Rightarrow> nat list \<Rightarrow> string list \<Rightarrow> bool" where
  "ll_rep l as xs \<longleftrightarrow> distinct as \<and> length xs = length as \<and> ll_length l = length as \<and>
     ll_head l = addr_at as 0 \<and> ll_tail l = (if as = [] then None else Some (last as)) \<and>
     (\<forall>a \<in> set as. a < ll_fresh l) \<and> (\<forall>a. a \<notin> set as \<longrightarrow> ll_nodes l a = None) \<and>
     (\<forall>i < length as. ll_nodes l (as ! i) = Some (linked_node as xs i))"

definition ll_is :: "linked_list \<Rightarrow> string list \<Rightarrow> bool" where
  "ll_is l xs \<longleftrightarrow> (\<exists>as. ll_rep l as xs)"

lemma linked_node_sel [simp]:
  "node_value (linked_node as xs i) = xs ! i"
  "node_prev (linked_node as xs i) = (if i = 0 then None else Some (as ! (i - 1)))"
  "node_next (linked_node as xs i) = addr_at as (i + 1)"
  by (simp_all add: linked_node_def)

lemma ll_repD:
  assumes "ll_rep l as xs"
  shows "distinct as" "length xs = length as" "ll_length l = length as" "ll_head l = addr_at as 0"
    "ll_tail l = (if as = [] then None else Some (last as))" "\<And>a. a \<in> set as \<Longrightarrow> a < ll_fresh l"
    "\<And>a. a \<notin> set as \<Longrightarrow> ll_nodes l a = None"
    "\<And>i. i < length as \<Longrightarrow> ll_nodes l (as ! i) = Some (linked_node as xs i)"
  using assms by (auto simp: ll_rep_def)

lemma ll_repI:
  assumes "distinct as" "length xs = length as" "ll_length l = length as" "ll_head l = addr_at as 0"
    "ll_tail l = (if as = [] then None else Some (last as))" "\<And>a. a \<in> set as \<Longrightarrow> a < ll_fresh l"
    "\<And>a. a \<notin> set as \<Longrightarrow> ll_nodes l a = None"
    "\<And>i. i < length as \<Longrightarrow> ll_nodes l (as ! i) = Some (linked_node as xs i)"
  shows "ll_rep l as xs"
  using assms by (auto simp: ll_rep_def)

lemma ll_is_length: "ll_is l xs \<Longrightarrow> ll_length l = length xs"
  unfolding ll_is_def by (metis ll_repD(2,3))

lemma newList_is [simp]: "ll_is newList []"
  by (auto simp: ll_is_def ll_rep_def newList_def addr_at_def)

lemma fresh_not_in: "ll_rep l as xs \<Longrightarrow> ll_fresh l \<notin> set as"
  by (auto dest: ll_repD(6))

section \<open>Pushing\<close>

lemma pushBack_rep:
  assumes rep: "ll_rep l as xs"
  shows "\<exists>l'. ll_pushBack v l = Some l' \<and> ll_rep l' (as @ [ll_fresh l]) (xs @ [v])"
proof (cases "as = []")
  case True
  with rep show ?thesis
    by (auto simp: ll_rep_def ll_pushBack_def new_node_def addr_at_def linked_node_def)
next
  case False
  let ?f = "ll_fresh l" and ?n = "length as - 1"
  have n: "?n < length as" "last as = as ! ?n" using False by (simp_all add: last_conv_nth)
  have f: "?f \<notin> set as" and ne: "last as \<noteq> ?f" using fresh_not_in [OF rep] last_in_set [OF False] by auto
  have lastn: "ll_nodes l (last as) = Some (linked_node as xs ?n)"
    using ll_repD(8) [OF rep n(1)] n(2) by simp
  let ?new = "\<lparr>node_value = v, node_prev = Some (last as), node_next = None\<rparr>"
  let ?l = "l\<lparr>ll_nodes := (ll_nodes l)(?f \<mapsto> ?new, last as \<mapsto> (linked_node as xs ?n)\<lparr>node_next := Some ?f\<rparr>),
      ll_fresh := Suc ?f, ll_tail := Some ?f, ll_length := Suc (length as)\<rparr>"
  have run: "ll_pushBack v l = Some ?l"
    using False ne ll_repD(3,5) [OF rep] lastn
    by (simp add: ll_pushBack_def new_node_def set_prev_def set_next_def Let_def fun_upd_twist)
  have "ll_rep ?l (as @ [?f]) (xs @ [v])"
  proof (rule ll_repI)
    fix i
    assume "i < length (as @ [?f])"
    then consider "i = length as" | "i = ?n" | "i < ?n" by fastforce
    then show "ll_nodes ?l ((as @ [?f]) ! i) = Some (linked_node (as @ [?f]) (xs @ [v]) i)"
    proof cases
      case 1
      with False ne n ll_repD(2) [OF rep] show ?thesis by (simp add: linked_node_def addr_at_def nth_append)
    next
      case 2
      with False ne n ll_repD(2) [OF rep] show ?thesis by (simp add: linked_node_def addr_at_def nth_append)
    next
      case 3
      then have "as ! i \<noteq> last as" "as ! i \<noteq> ?f"
        using n nth_other [OF f, of i] ll_repD(1) [OF rep] by (auto simp: nth_eq_iff_index_eq)
      with 3 n ll_repD(2) [OF rep] ll_repD(8) [OF rep, of i] show ?thesis
        by (auto simp: linked_node_def addr_at_def nth_append)
    qed
  qed (use f False ll_repD [OF rep] in \<open>auto simp: addr_at_def less_SucI nth_append\<close>)
  with run show ?thesis by blast
qed

lemma pushFront_rep:
  assumes rep: "ll_rep l as xs"
  shows "\<exists>l'. ll_pushFront v l = Some l' \<and> ll_rep l' (ll_fresh l # as) (v # xs)"
proof (cases as)
  case Nil
  with rep show ?thesis
    by (auto simp: ll_rep_def ll_pushFront_def new_node_def addr_at_def linked_node_def)
next
  case (Cons a bs)
  let ?f = "ll_fresh l"
  have f: "?f \<notin> set as" and ne: "a \<noteq> ?f" using fresh_not_in [OF rep] Cons by auto
  have hd: "ll_nodes l a = Some (linked_node as xs 0)"
    using ll_repD(8) [OF rep, of 0] Cons by simp
  let ?new = "\<lparr>node_value = v, node_prev = None, node_next = Some a\<rparr>"
  let ?l = "l\<lparr>ll_nodes := (ll_nodes l)(?f \<mapsto> ?new, a \<mapsto> (linked_node as xs 0)\<lparr>node_prev := Some ?f\<rparr>),
      ll_fresh := Suc ?f, ll_head := Some ?f, ll_length := Suc (length as)\<rparr>"
  have run: "ll_pushFront v l = Some ?l"
    using Cons ne ll_repD(3,4) [OF rep] hd
    by (simp add: ll_pushFront_def new_node_def set_prev_def set_next_def Let_def addr_at_def)
  have "ll_rep ?l (?f # as) (v # xs)"
  proof (rule ll_repI)
    fix i
    assume i: "i < length (?f # as)"
    then consider "i = 0" | "i = 1" | j where "i = Suc (Suc j)" "Suc j < length as"
      by (cases i; cases "i - 1") auto
    then show "ll_nodes ?l ((?f # as) ! i) = Some (linked_node (?f # as) (v # xs) i)"
    proof cases
      case 1
      with Cons ne show ?thesis by (simp add: linked_node_def addr_at_def)
    next
      case 2
      with Cons ne show ?thesis by (simp add: linked_node_def addr_at_def)
    next
      case 3
      then have "as ! Suc j \<noteq> a" "as ! Suc j \<noteq> ?f"
        using nth_other [OF f 3(2)] ll_repD(1) [OF rep] Cons nth_other [of a bs j] by auto
      with 3 ll_repD(8) [OF rep, of "Suc j"] show ?thesis
        by (simp add: linked_node_def addr_at_def)
    qed
  qed (use f Cons ll_repD [OF rep] in \<open>auto simp: addr_at_def less_SucI\<close>)
  with run show ?thesis by blast
qed

section \<open>Popping\<close>

lemma popFront_rep:
  assumes rep: "ll_rep l (a # as) (x # xs)"
  shows "\<exists>l'. ll_popFront l = Some (Some x, l') \<and> ll_rep l' as xs"
proof (cases as)
  case Nil
  with rep show ?thesis
    by (auto simp: ll_rep_def ll_popFront_def deref_def delete_node_def addr_at_def linked_node_def Let_def fun_upd_def)
next
  case (Cons b bs)
  have a: "ll_nodes l a = Some (linked_node (a # as) (x # xs) 0)"
    using ll_repD(8) [OF rep, of 0] by simp
  have b: "ll_nodes l b = Some (linked_node (a # as) (x # xs) 1)"
    using ll_repD(8) [OF rep, of 1] Cons by simp
  have dist: "a \<notin> set as" "distinct as" "b \<noteq> a" using ll_repD(1) [OF rep] Cons by auto
  let ?l = "l\<lparr>ll_nodes := (ll_nodes l)(b \<mapsto> (linked_node (a # as) (x # xs) 1)\<lparr>node_prev := None\<rparr>, a := None),
      ll_head := Some b, ll_length := length as\<rparr>"
  have run: "ll_popFront l = Some (Some x, ?l)"
    using Cons dist ll_repD(3,4) [OF rep] a b
    by (simp add: ll_popFront_def deref_def delete_node_def set_prev_def addr_at_def)
  have "ll_rep ?l as xs"
  proof (rule ll_repI)
    fix i
    assume i: "i < length as"
    then have ne: "as ! i \<noteq> a" using dist by auto
    show "ll_nodes ?l (as ! i) = Some (linked_node as xs i)"
    proof (cases i)
      case 0
      with Cons dist show ?thesis by (simp add: linked_node_def addr_at_def)
    next
      case (Suc j)
      with i Cons dist have "as ! i \<noteq> b" by auto
      with ne i Suc ll_repD(8) [OF rep, of "Suc i"] show ?thesis
        by (simp add: linked_node_def addr_at_def)
    qed
  qed (use dist Cons ll_repD [OF rep] in \<open>auto simp: addr_at_def\<close>)
  with run show ?thesis by blast
qed

lemma popBack_rep:
  assumes rep: "ll_rep l (as @ [a]) (xs @ [x])"
  shows "\<exists>l'. ll_popBack l = Some (Some x, l') \<and> ll_rep l' as xs"
proof (cases "as = []")
  case True
  with rep show ?thesis
    by (auto simp: ll_rep_def ll_popBack_def deref_def delete_node_def addr_at_def linked_node_def Let_def fun_upd_def)
next
  case False
  let ?n = "length as - 1"
  have len: "length xs = length as" using ll_repD(2) [OF rep] by simp
  have n: "?n < length as" "last as = as ! ?n" using False by (simp_all add: last_conv_nth)
  have dist: "a \<notin> set as" "distinct as" "last as \<noteq> a" using ll_repD(1) [OF rep] False by auto
  have a: "ll_nodes l a = Some (linked_node (as @ [a]) (xs @ [x]) (length as))"
    using ll_repD(8) [OF rep, of "length as"] by simp
  have b: "ll_nodes l (last as) = Some (linked_node (as @ [a]) (xs @ [x]) ?n)"
    using ll_repD(8) [OF rep, of ?n] n by (simp add: nth_append)
  let ?l = "l\<lparr>ll_nodes := (ll_nodes l)(last as \<mapsto> (linked_node (as @ [a]) (xs @ [x]) ?n)\<lparr>node_next := None\<rparr>,
      a := None), ll_tail := Some (last as), ll_length := length as\<rparr>"
  have run: "ll_popBack l = Some (Some x, ?l)"
    using False dist ll_repD(3,5) [OF rep] a b n len
    by (simp add: ll_popBack_def deref_def delete_node_def set_next_def nth_append)
  have "ll_rep ?l as xs"
  proof (rule ll_repI)
    fix i
    assume i: "i < length as"
    then have ne: "as ! i \<noteq> a" using dist by auto
    show "ll_nodes ?l (as ! i) = Some (linked_node as xs i)"
    proof (cases "i = ?n")
      case True
      with n dist len show ?thesis by (auto simp: linked_node_def addr_at_def nth_append)
    next
      case other: False
      with i dist n have "as ! i \<noteq> last as" by (simp add: nth_eq_iff_index_eq)
      with ne i other len ll_repD(8) [OF rep, of i] show ?thesis
        by (auto simp: linked_node_def addr_at_def nth_append)
    qed
  qed (use dist False len ll_repD [OF rep] in \<open>auto simp: addr_at_def nth_append\<close>)
  with run show ?thesis by blast
qed

lemma pop_empty: "ll_is l [] \<Longrightarrow> ll_popFront l = Some (None, l) \<and> ll_popBack l = Some (None, l)"
  by (auto simp: ll_is_length ll_popFront_def ll_popBack_def)

text \<open>The four operations on sequences.\<close>

lemma ll_pushBack_is: "ll_is l xs \<Longrightarrow> \<exists>l'. ll_pushBack v l = Some l' \<and> ll_is l' (xs @ [v])"
  unfolding ll_is_def using pushBack_rep by blast

lemma ll_pushFront_is: "ll_is l xs \<Longrightarrow> \<exists>l'. ll_pushFront v l = Some l' \<and> ll_is l' (v # xs)"
  unfolding ll_is_def using pushFront_rep by blast

lemma ll_popFront_is: "ll_is l (x # xs) \<Longrightarrow> \<exists>l'. ll_popFront l = Some (Some x, l') \<and> ll_is l' xs"
proof -
  assume "ll_is l (x # xs)"
  then obtain as where rep: "ll_rep l as (x # xs)" by (auto simp: ll_is_def)
  then obtain a bs where "as = a # bs" using ll_repD(2) by (cases as) fastforce+
  with rep popFront_rep show ?thesis unfolding ll_is_def by blast
qed

lemma ll_popBack_is: "ll_is l (xs @ [x]) \<Longrightarrow> \<exists>l'. ll_popBack l = Some (Some x, l') \<and> ll_is l' xs"
proof -
  assume "ll_is l (xs @ [x])"
  then obtain as where rep: "ll_rep l as (xs @ [x])" by (auto simp: ll_is_def)
  then obtain bs a where "as = bs @ [a]" using ll_repD(2) by (cases as rule: rev_cases) fastforce+
  with rep popBack_rep show ?thesis unfolding ll_is_def by blast
qed

section \<open>Traversals\<close>

lemma deref_at:
  assumes "ll_rep l as xs" "i < length as"
  shows "deref l (addr_at as i) = Some (linked_node as xs i)" "deref l (Some (as ! i)) = Some (linked_node as xs i)"
  using ll_repD(8) [OF assms] assms(2) by (simp_all add: deref_def addr_at_def)

lemma addr_at_beyond [simp]: "length as \<le> i \<Longrightarrow> addr_at as i = None"
  and addr_at_in [simp]: "i < length as \<Longrightarrow> addr_at as i = Some (as ! i)"
  by (simp_all add: addr_at_def)

lemma walkNext_rep:
  "ll_rep l as xs \<Longrightarrow> i + k \<le> length as \<Longrightarrow> walkNext l k (addr_at as i) = Some (addr_at as (i + k))"
proof (induction k arbitrary: i)
  case (Suc k)
  then have "walkNext l k (addr_at as (Suc i)) = Some (addr_at as (Suc i + k))"
    by (intro Suc.IH) simp_all
  with Suc.prems deref_at(1) [OF Suc.prems(1), of i] show ?case by simp
qed simp

lemma walkPrev_rep:
  "ll_rep l as xs \<Longrightarrow> k \<le> i \<Longrightarrow> i < length as \<Longrightarrow>
    walkPrev l k (Some (as ! i)) = Some (Some (as ! (i - k)))"
proof (induction k arbitrary: i)
  case (Suc k)
  then have "walkPrev l k (Some (as ! (i - 1))) = Some (Some (as ! (i - 1 - k)))"
    by (intro Suc.IH) simp_all
  with Suc.prems deref_at(2) [OF Suc.prems(1), of i] show ?case by simp
qed simp

lemma collect_rep:
  "ll_rep l as xs \<Longrightarrow> i \<le> length as \<Longrightarrow> collect l k (addr_at as i) = Some (take k (drop i xs))"
proof (induction k arbitrary: i)
  case (Suc k)
  note len = ll_repD(2) [OF Suc.prems(1)]
  show ?case
  proof (cases "i < length as")
    case True
    with Suc have "collect l k (addr_at as (Suc i)) = Some (take k (drop (Suc i) xs))"
      by (intro Suc.IH) simp_all
    with True len deref_at(1) [OF Suc.prems(1), of i] show ?thesis
      by (simp add: Cons_nth_drop_Suc [symmetric])
  next
    case False
    with Suc.prems len show ?thesis by simp
  qed
qed simp

definition short :: "linked_list \<Rightarrow> bool" where
  "short l \<longleftrightarrow> ll_length l < 2 ^ 31"

lemma int_length_short: "short l \<Longrightarrow> int_length l = int (ll_length l)"
  by (simp add: int_length_def wrap_s_def short_def)

lemma wrap32_id: "- (2 ^ 31) \<le> n \<Longrightarrow> n < 2 ^ 31 \<Longrightarrow> wrap32 n = n"
  by (simp add: wrap_s_def)

text \<open>The position an index argument denotes: negative ones count from the end.\<close>

definition position :: "'a list \<Rightarrow> int \<Rightarrow> int" where
  "position xs i = (if i < 0 then int (length xs) + i else i)"

lemma ll_get_is:
  assumes "ll_is l xs" "length xs < 2 ^ 31" "- (2 ^ 31) \<le> index" "index < 2 ^ 31"
  shows "ll_get index l =
    Some (if 0 \<le> position xs index \<and> position xs index < int (length xs)
          then Some (xs ! nat (position xs index)) else None)"
proof -
  from assms(1) obtain as where rep: "ll_rep l as xs" by (auto simp: ll_is_def)
  note len = ll_repD(2,3) [OF rep]
  have small: "short l" using assms(2) len by (simp add: short_def)
  have idx: "(if index < 0 then wrap32 (int_length l + index) else index) = position xs index"
    using assms len small by (auto simp: position_def int_length_short wrap32_id)
  have half: "wrap32 (int (ll_length l div 2)) = int (ll_length l div 2)"
    using assms(2) len by (intro wrap32_id) simp_all
  show ?thesis
  proof (cases "0 \<le> position xs index \<and> position xs index < int (length xs)")
    case False
    with idx len small show ?thesis
      by (auto simp: ll_get_def int_length_short)
  next
    case True
    let ?i = "nat (position xs index)"
    have i: "?i < length as" "as \<noteq> []" using True len by auto
    have fwd: "walkNext l ?i (ll_head l) = Some (Some (as ! ?i))"
      using walkNext_rep [OF rep, of 0 ?i] ll_repD(4) [OF rep] i by simp
    have "nat (int_length l - 1 - position xs index) = length as - 1 - ?i"
      using True len small by (simp add: int_length_short nat_diff_distrib)
    then have bwd: "walkPrev l (nat (int_length l - 1 - position xs index)) (ll_tail l)
        = Some (Some (as ! ?i))"
      using walkPrev_rep [OF rep, of "length as - 1 - ?i" "length as - 1"] ll_repD(5) [OF rep] i
      by (simp add: last_conv_nth)
    have "deref l (Some (as ! ?i)) = Some (linked_node as xs ?i)" using deref_at(2) [OF rep i(1)] .
    with True fwd bwd len i small show ?thesis
      unfolding ll_get_def Let_def idx half by (auto simp: int_length_short)
  qed
qed

text \<open>The elements a pair of bounds selects.\<close>

definition slice :: "'a list \<Rightarrow> int \<Rightarrow> int \<Rightarrow> 'a list" where
  "slice xs start stop =
     (let a = max 0 (position xs start); b = max 0 (position xs stop)
      in take (nat (b + 1 - a)) (drop (nat a) xs))"

lemma ll_range_is:
  assumes "ll_is l xs" "length xs < 2 ^ 31" "- (2 ^ 31) \<le> start" "start < 2 ^ 31"
    "- (2 ^ 31) \<le> stop" "stop < 2 ^ 31"
  shows "ll_range start stop l = Some (slice xs start stop)"
proof -
  from assms(1) obtain as where rep: "ll_rep l as xs" by (auto simp: ll_is_def)
  note len = ll_repD(2,3) [OF rep]
  have small: "short l" using assms(2) len by (simp add: short_def)
  define a where "a = max 0 (position xs start)"
  define b where "b = max 0 (position xs stop)"
  have pos: "(if i < 0 then wrap32 (int_length l + i) else i) = position xs i"
    if "- (2 ^ 31) \<le> i" "i < 2 ^ 31" for i
    using that assms(2) len small by (auto simp: position_def int_length_short wrap32_id)
  have ab: "(if position xs start < 0 then 0 else position xs start) = a"
    "(if position xs stop < 0 then 0 else position xs stop) = b"
    by (auto simp: a_def b_def)
  have emp: "ll_length l = 0 \<longleftrightarrow> xs = []" "int_length l = int (length xs)"
    using len small by (auto simp: int_length_short)
  have "0 \<le> a" "0 \<le> b" by (auto simp: a_def b_def)
  have run: "ll_range start stop l =
    (if xs = [] \<or> a \<ge> int (length xs) then Some []
     else let s = (if b \<ge> int (length xs) then int (length xs) - 1 else b) in
       if a > s then Some []
       else do { current \<leftarrow> walkNext l (nat a) (ll_head l); collect l (nat (s - a + 1)) current })"
    unfolding ll_range_def pos [OF assms(3,4)] pos [OF assms(5,6)]
    unfolding Let_def ab unfolding emp by simp
  show ?thesis
  proof (cases "xs = [] \<or> a \<ge> int (length xs)")
    case True
    then show ?thesis
      unfolding run slice_def Let_def a_def [symmetric] b_def [symmetric] by auto
  next
    case False
    then have walk: "walkNext l (nat a) (ll_head l) = Some (addr_at as (nat a))"
      using walkNext_rep [OF rep, of 0 "nat a"] ll_repD(4) [OF rep] len \<open>0 \<le> a\<close>
      by (simp add: nat_le_iff)
    have "collect l k (addr_at as (nat a)) = Some (take k (drop (nat a) xs))" for k
      using False len by (intro collect_rep [OF rep]) (simp add: nat_le_iff)
    with False walk \<open>0 \<le> a\<close> \<open>0 \<le> b\<close> show ?thesis
      unfolding run slice_def Let_def a_def [symmetric] b_def [symmetric]
      by (auto simp: nat_diff_distrib algebra_simps intro!: arg_cong2 [of _ _ _ _ take])
  qed
qed

lemma cloneLoop_rep:
  "ll_rep l as xs \<Longrightarrow> ll_is copy ys \<Longrightarrow> i \<le> length as \<Longrightarrow>
    \<exists>c. cloneLoop l (addr_at as i) copy = Some c \<and> ll_is c (ys @ drop i xs)"
proof (induction "length as - i" arbitrary: i copy ys)
  case 0
  then show ?case by (subst cloneLoop.simps) (simp add: ll_repD)
next
  case (Suc m)
  then have i: "i < length as" "i < length xs" by (simp_all add: ll_repD)
  from ll_pushBack_is [OF Suc.prems(2), of "xs ! i"] obtain c1
    where c1: "ll_pushBack (xs ! i) copy = Some c1" "ll_is c1 (ys @ [xs ! i])" by blast
  have "m = length as - Suc i" using Suc.hyps(2) by simp
  from Suc.hyps(1) [OF this Suc.prems(1) c1(2)] i obtain c
    where "cloneLoop l (addr_at as (Suc i)) c1 = Some c" "ll_is c ((ys @ [xs ! i]) @ drop (Suc i) xs)"
    by auto
  with c1 i deref_at(1) [OF Suc.prems(1) i(1)] show ?case
    by (subst cloneLoop.simps) (simp add: Cons_nth_drop_Suc)
qed

lemma ll_clone_is: "ll_is l xs \<Longrightarrow> \<exists>c. ll_clone l = Some c \<and> ll_is c xs"
proof -
  assume "ll_is l xs"
  then obtain as where rep: "ll_rep l as xs" by (auto simp: ll_is_def)
  from cloneLoop_rep [OF rep newList_is, of 0] ll_repD(4) [OF rep] show ?thesis
    by (simp add: ll_clone_def)
qed

lemma clearLoop_rep:
  "distinct as \<Longrightarrow> (\<And>j. i \<le> j \<Longrightarrow> j < length as \<Longrightarrow> ll_nodes l (as ! j) = Some (linked_node as xs j)) \<Longrightarrow>
    i \<le> length as \<Longrightarrow> \<exists>l'. clearLoop l (addr_at as i) = Some l' \<and>
      (\<forall>a. ll_nodes l' a = (if a \<in> set (drop i as) then None else ll_nodes l a))"
proof (induction "length as - i" arbitrary: i l)
  case 0
  then show ?case by (subst clearLoop.simps) simp
next
  case (Suc m)
  then have i: "i < length as" by simp
  let ?l = "l\<lparr>ll_nodes := (ll_nodes l)(as ! i := None)\<rparr>"
  have "\<exists>l'. clearLoop ?l (addr_at as (Suc i)) = Some l' \<and>
      (\<forall>a. ll_nodes l' a = (if a \<in> set (drop (Suc i) as) then None else ll_nodes ?l a))"
    using Suc i by (intro Suc.hyps(1)) (auto simp: nth_eq_iff_index_eq)
  then obtain l' where l': "clearLoop ?l (addr_at as (Suc i)) = Some l'"
    "\<And>a. ll_nodes l' a = (if a \<in> set (drop (Suc i) as) then None else ll_nodes ?l a)" by blast
  have "clearLoop l (addr_at as i) = Some l'"
    using l'(1) i Suc.prems(2) [of i] by (subst clearLoop.simps) (simp add: deref_def delete_node_def)
  moreover have "set (drop i as) = insert (as ! i) (set (drop (Suc i) as))"
    using i by (metis Cons_nth_drop_Suc list.simps(15))
  ultimately show ?case using l'(2) by auto
qed

text \<open>Clearing frees every node.\<close>

lemma ll_clear_is:
  assumes "ll_is l xs"
  shows "\<exists>l'. ll_clear l = Some l' \<and> ll_is l' [] \<and> ll_nodes l' = (\<lambda>_. None)"
proof -
  from assms obtain as where rep: "ll_rep l as xs" by (auto simp: ll_is_def)
  from clearLoop_rep [OF ll_repD(1) [OF rep] ll_repD(8) [OF rep], of 0] obtain l'
    where l': "clearLoop l (addr_at as 0) = Some l'"
      "\<And>a. ll_nodes l' a = (if a \<in> set as then None else ll_nodes l a)" by auto
  then have "ll_nodes l' = (\<lambda>_. None)" using ll_repD(7) [OF rep] by auto
  with l'(1) ll_repD(4) [OF rep] show ?thesis
    by (auto simp: ll_clear_def ll_is_def ll_rep_def intro!: exI [of _ "[]"])
qed

text \<open>A move hands the sequence over, frees what the target held and leaves an empty list.\<close>

lemma ll_left_is: "ll_is (ll_left other) []"
  by (auto simp: ll_left_def ll_is_def ll_rep_def addr_at_def)

lemma ll_move_is:
  assumes "ll_is other xs"
  shows "ll_is (fst (ll_move other)) xs \<and> ll_is (snd (ll_move other)) []"
  using assms ll_left_is by (simp add: ll_move_def ll_is_def ll_rep_def)

lemma ll_move_assign_is:
  assumes "ll_is this ys" and "ll_is other xs"
  shows "\<exists>l left. ll_move_assign False this other = Some (l, left, \<lambda>_. None) \<and> ll_is l xs \<and> ll_is left []"
proof -
  from ll_clear_is [OF assms(1)] obtain l where "ll_clear this = Some l" "ll_nodes l = (\<lambda>_. None)" by blast
  with assms(2) ll_left_is show ?thesis by (simp add: ll_move_assign_def ll_is_def ll_rep_def)
qed

section \<open>The contract of a double-ended queue\<close>

locale deque =
  fixes rep :: "'t \<Rightarrow> 'a list \<Rightarrow> bool" and new :: 't
    and pushFront :: "'a \<Rightarrow> 't \<Rightarrow> 't option" and pushBack :: "'a \<Rightarrow> 't \<Rightarrow> 't option"
    and popFront :: "'t \<Rightarrow> ('a option \<times> 't) option" and popBack :: "'t \<Rightarrow> ('a option \<times> 't) option"
    and count :: "'t \<Rightarrow> nat" and clone :: "'t \<Rightarrow> 't option"
  assumes new_rep: "rep new []"
    and pushFront_ok: "rep t xs \<Longrightarrow> \<exists>t'. pushFront x t = Some t' \<and> rep t' (x # xs)"
    and pushBack_ok: "rep t xs \<Longrightarrow> \<exists>t'. pushBack x t = Some t' \<and> rep t' (xs @ [x])"
    and pop_empty: "rep t [] \<Longrightarrow> popFront t = Some (None, t) \<and> popBack t = Some (None, t)"
    and popFront_ok: "rep t (x # xs) \<Longrightarrow> \<exists>t'. popFront t = Some (Some x, t') \<and> rep t' xs"
    and popBack_ok: "rep t (xs @ [x]) \<Longrightarrow> \<exists>t'. popBack t = Some (Some x, t') \<and> rep t' xs"
    and count_ok: "rep t xs \<Longrightarrow> count t = length xs"
    and clone_ok: "rep t xs \<Longrightarrow> \<exists>t'. clone t = Some t' \<and> rep t' xs"
begin

text \<open>What is pushed at one end comes out there, and a clone shows the same sequence.\<close>

lemma pop_push_front:
  assumes "rep t xs"
  shows "\<exists>t1 t2. pushFront x t = Some t1 \<and> popFront t1 = Some (Some x, t2) \<and> rep t2 xs"
  using pushFront_ok [OF assms] popFront_ok by blast

lemma pop_push_back:
  assumes "rep t xs"
  shows "\<exists>t1 t2. pushBack x t = Some t1 \<and> popBack t1 = Some (Some x, t2) \<and> rep t2 xs"
  using pushBack_ok [OF assms] popBack_ok by blast

text \<open>A loop that pushes several values.\<close>

primrec pushAll :: "('a \<Rightarrow> 't \<Rightarrow> 't option) \<Rightarrow> 'a list \<Rightarrow> 't \<Rightarrow> 't option" where
  "pushAll f [] t = Some t"
| "pushAll f (x # xs) t = do { t' \<leftarrow> f x t; pushAll f xs t' }"

lemma pushAll_back: "rep t xs \<Longrightarrow> \<exists>t'. pushAll pushBack ys t = Some t' \<and> rep t' (xs @ ys)"
proof (induction ys arbitrary: t xs)
  case (Cons y ys)
  from pushBack_ok [OF Cons.prems] obtain t1 where "pushBack y t = Some t1" "rep t1 (xs @ [y])" by blast
  with Cons.IH [of t1 "xs @ [y]"] show ?case by auto
qed auto

lemma pushAll_front: "rep t xs \<Longrightarrow> \<exists>t'. pushAll pushFront ys t = Some t' \<and> rep t' (rev ys @ xs)"
proof (induction ys arbitrary: t xs)
  case (Cons y ys)
  from pushFront_ok [OF Cons.prems] obtain t1 where "pushFront y t = Some t1" "rep t1 (y # xs)" by blast
  with Cons.IH [of t1 "y # xs"] show ?case by auto
qed auto

end

interpretation ll: deque ll_is newList ll_pushFront ll_pushBack ll_popFront ll_popBack ll_size ll_clone
  by unfold_locales
    (use ll_pushFront_is ll_pushBack_is pop_empty ll_popFront_is ll_popBack_is ll_clone_is ll_is_length
      in \<open>auto simp: ll_size_def\<close>)

end
