(* ===== verification/Float64.thy ===== *)
theory Float64
  imports Prelude
begin

text \<open>
  \<^verbatim>\<open>double\<close> as its IEEE 754 bit pattern. The comparisons of C++ are ordinary
  comparisons of sign and magnitude, except that NaN compares false with everything and
  the two zeros are equal.
\<close>

type_synonym double = "64 word"

definition magnitude :: "double \<Rightarrow> int" where
  "magnitude d = uint d mod 2 ^ 63"

definition negative :: "double \<Rightarrow> bool" where
  "negative d \<longleftrightarrow> 2 ^ 63 \<le> uint d"

text \<open>All exponent bits set and a nonzero fraction.\<close>

definition is_nan :: "double \<Rightarrow> bool" where
  "is_nan d \<longleftrightarrow> 2047 * 2 ^ 52 < magnitude d"

definition float_key :: "double \<Rightarrow> int" where
  "float_key d = (if negative d then - magnitude d else magnitude d)"

definition float_lt :: "double \<Rightarrow> double \<Rightarrow> bool" where
  "float_lt a b \<longleftrightarrow> \<not> is_nan a \<and> \<not> is_nan b \<and> float_key a < float_key b"

definition float_eq :: "double \<Rightarrow> double \<Rightarrow> bool" where
  "float_eq a b \<longleftrightarrow> \<not> is_nan a \<and> \<not> is_nan b \<and> float_key a = float_key b"

definition float_le :: "double \<Rightarrow> double \<Rightarrow> bool" where
  "float_le a b \<longleftrightarrow> float_lt a b \<or> float_eq a b"

lemma float_lt_irrefl [simp]: "\<not> float_lt a a"
  by (simp add: float_lt_def)

lemma float_lt_trans: "float_lt a b \<Longrightarrow> float_lt b c \<Longrightarrow> float_lt a c"
  by (auto simp: float_lt_def)

lemma float_trichotomy:
  "\<not> is_nan a \<Longrightarrow> \<not> is_nan b \<Longrightarrow> float_lt a b \<or> float_eq a b \<or> float_lt b a"
  by (auto simp: float_lt_def float_eq_def)

lemma float_le_iff: "\<not> is_nan a \<Longrightarrow> \<not> is_nan b \<Longrightarrow> float_le a b \<longleftrightarrow> float_key a \<le> float_key b"
  by (auto simp: float_le_def float_lt_def float_eq_def)

lemma float_eq_refl: "float_eq a a \<longleftrightarrow> \<not> is_nan a"
  by (simp add: float_eq_def)

end
