(* ===== verification/SkipList.thy ===== *)
theory SkipList
  imports Float64 "HOL-Library.Monad_Syntax"
begin

text \<open>
  The skip list of \<^verbatim>\<open>storage/data_structures/skip_list.h\<close> and
  \<^verbatim>\<open>.cpp\<close>, with its nodes in an explicit store as in \<open>LinkedList\<close>:
  \<^const>\<open>None\<close> as the result of an operation is the use of a null or deleted pointer or
  of a level a node does not have. Spans are \<^verbatim>\<open>unsigned int\<close> and wrap;
  \<^verbatim>\<open>unsigned long\<close> lengths and ranks are natural numbers. The random engine of a
  list is the sequence of outcomes of \<^verbatim>\<open>dist_(rng_) < SKIPLIST_P\<close> that it will
  produce (\<open>sl_rng\<close>); every result holds for every such sequence. Loops over pointers are
  partial functions: a loop that does not end has the value \<^const>\<open>None\<close> as well.
\<close>

record sl_level =
  forward_to :: "nat option"
  span :: "32 word"

record sl_node =
  member :: string
  score :: double
  backward :: "nat option"
  levels :: "sl_level list"

record skip_list =
  sl_nodes :: "nat \<Rightarrow> sl_node option"
  sl_fresh :: nat
  sl_head :: nat
  sl_tail :: "nat option"
  sl_length :: nat
  sl_height :: nat
  sl_rng :: "nat \<Rightarrow> bool"

definition SKIPLIST_MAXLEVEL :: nat where "SKIPLIST_MAXLEVEL = 32"

definition emptyLevel :: sl_level where
  "emptyLevel = \<lparr>forward_to = None, span = 0\<rparr>"

definition newNode :: "nat \<Rightarrow> double \<Rightarrow> string \<Rightarrow> sl_node" where
  "newNode levelCount s m =
     \<lparr>member = m, score = s, backward = None, levels = replicate levelCount emptyLevel\<rparr>"

text \<open>The constructor; the engine is seeded from the environment.\<close>

definition newSkipList :: "(nat \<Rightarrow> bool) \<Rightarrow> skip_list" where
  "newSkipList rng = \<lparr>sl_nodes = (\<lambda>_. None)(0 \<mapsto> newNode SKIPLIST_MAXLEVEL 0 ''''), sl_fresh = 1,
     sl_head = 0, sl_tail = None, sl_length = 0, sl_height = 1, sl_rng = rng\<rparr>"

text \<open>Reading and writing \<^verbatim>\<open>x->level[i]\<close> and \<^verbatim>\<open>x->backward\<close>.\<close>

definition levelAt :: "skip_list \<Rightarrow> nat \<Rightarrow> nat \<Rightarrow> sl_level option" where
  "levelAt sl x i = do {
     n \<leftarrow> sl_nodes sl x;
     (if i < length (levels n) then Some (levels n ! i) else None) }"

definition setLevel :: "nat \<Rightarrow> nat \<Rightarrow> sl_level \<Rightarrow> skip_list \<Rightarrow> skip_list option" where
  "setLevel x i lv sl = do {
     n \<leftarrow> sl_nodes sl x;
     (if i < length (levels n)
      then Some (sl\<lparr>sl_nodes := (sl_nodes sl)(x \<mapsto> n\<lparr>levels := (levels n)[i := lv]\<rparr>)\<rparr>)
      else None) }"

definition setBackward :: "nat \<Rightarrow> nat option \<Rightarrow> skip_list \<Rightarrow> skip_list option" where
  "setBackward x p sl = do {
     n \<leftarrow> sl_nodes sl x;
     Some (sl\<lparr>sl_nodes := (sl_nodes sl)(x \<mapsto> n\<lparr>backward := p\<rparr>)\<rparr>) }"

text \<open>\<^verbatim>\<open>std::string::compare\<close> orders bytes as unsigned characters.\<close>

fun string_less :: "string \<Rightarrow> string \<Rightarrow> bool" where
  "string_less [] [] = False"
| "string_less [] (y # ys) = True"
| "string_less (x # xs) [] = False"
| "string_less (x # xs) (y # ys) =
     ((of_char x :: nat) < of_char y \<or> (x = y \<and> string_less xs ys))"

text \<open>The loop condition shared by insertion and deletion: the node sorts before \<open>(s, m)\<close>.\<close>

definition precedes :: "sl_node \<Rightarrow> double \<Rightarrow> string \<Rightarrow> bool" where
  "precedes n s m \<longleftrightarrow> float_lt (score n) s \<or> (float_eq (score n) s \<and> string_less (member n) m)"

text \<open>
  \<open>slWalk sl go i x r\<close>: on level \<open>i\<close> from node \<open>x\<close>, move forward as long as the next node
  satisfies \<open>go\<close>, adding up the spans.
\<close>

partial_function (option) slWalk ::
  "skip_list \<Rightarrow> (sl_node \<Rightarrow> bool) \<Rightarrow> nat \<Rightarrow> nat \<Rightarrow> 32 word \<Rightarrow> (nat \<times> 32 word) option" where
  "slWalk sl go i x r = do {
     lv \<leftarrow> levelAt sl x i;
     (case forward_to lv of
        None \<Rightarrow> Some (x, r)
      | Some y \<Rightarrow> do {
          n \<leftarrow> sl_nodes sl y;
          (if go n then slWalk sl go i y (r + span lv) else Some (x, r)) }) }"

declare slWalk.simps [code]

text \<open>
  The descent from the top level: \<open>update[i]\<close> and \<open>rank[i]\<close> of every level \<open>i < k\<close>, lowest
  level first.
\<close>

primrec findUpdate ::
  "skip_list \<Rightarrow> (sl_node \<Rightarrow> bool) \<Rightarrow> nat \<Rightarrow> nat \<Rightarrow> 32 word \<Rightarrow> (nat \<times> 32 word) list option" where
  "findUpdate sl go 0 x r = Some []"
| "findUpdate sl go (Suc i) x r = do {
     (x', r') \<leftarrow> slWalk sl go i x r;
     rest \<leftarrow> findUpdate sl go i x' r';
     Some (rest @ [(x', r')]) }"

fun randomLevelLoop :: "nat \<Rightarrow> (nat \<Rightarrow> bool) \<Rightarrow> nat \<Rightarrow> nat \<times> (nat \<Rightarrow> bool)" where
  "randomLevelLoop 0 rng level = (level, rng)"
| "randomLevelLoop (Suc k) rng level =
     (if rng 0 \<and> level < SKIPLIST_MAXLEVEL
      then randomLevelLoop k (\<lambda>n. rng (Suc n)) (level + 1)
      else (level, (\<lambda>n. rng (Suc n))))"

definition randomLevel :: "skip_list \<Rightarrow> nat \<times> skip_list" where
  "randomLevel sl = (let (level, rng) = randomLevelLoop SKIPLIST_MAXLEVEL (sl_rng sl) 1
     in (level, sl\<lparr>sl_rng := rng\<rparr>))"

section \<open>Insertion\<close>

text \<open>New levels start at the head, with a span over the whole list.\<close>

primrec raiseLevels :: "nat \<Rightarrow> nat \<Rightarrow> skip_list \<Rightarrow> skip_list option" where
  "raiseLevels 0 i sl = Some sl"
| "raiseLevels (Suc k) i sl = do {
     lv \<leftarrow> levelAt sl (sl_head sl) i;
     sl' \<leftarrow> setLevel (sl_head sl) i (lv\<lparr>span := of_nat (sl_length sl)\<rparr>) sl;
     raiseLevels k (i + 1) sl' }"

text \<open>Linking \<open>x\<close> on the levels \<open>i, i + 1, \<dots>\<close> after the nodes of \<open>upd\<close>; \<open>rank0\<close> is \<^verbatim>\<open>rank[0]\<close>.\<close>

fun linkLevels ::
  "nat \<Rightarrow> 32 word \<Rightarrow> nat \<Rightarrow> (nat \<times> 32 word) list \<Rightarrow> skip_list \<Rightarrow> skip_list option" where
  "linkLevels x rank0 i [] sl = Some sl"
| "linkLevels x rank0 i ((u, r) # upd) sl = do {
     lu \<leftarrow> levelAt sl u i;
     lx \<leftarrow> levelAt sl x i;
     sl1 \<leftarrow> setLevel x i (lx\<lparr>forward_to := forward_to lu, span := span lu - (rank0 - r)\<rparr>) sl;
     sl2 \<leftarrow> setLevel u i (lu\<lparr>forward_to := Some x, span := (rank0 - r) + 1\<rparr>) sl1;
     linkLevels x rank0 (i + 1) upd sl2 }"

fun bumpSpans :: "32 word \<Rightarrow> nat \<Rightarrow> (nat \<times> 32 word) list \<Rightarrow> skip_list \<Rightarrow> skip_list option" where
  "bumpSpans d i [] sl = Some sl"
| "bumpSpans d i ((u, r) # upd) sl = do {
     lu \<leftarrow> levelAt sl u i;
     sl' \<leftarrow> setLevel u i (lu\<lparr>span := span lu + d\<rparr>) sl;
     bumpSpans d (i + 1) upd sl' }"

definition sl_insert :: "double \<Rightarrow> string \<Rightarrow> skip_list \<Rightarrow> (nat \<times> skip_list) option" where
  "sl_insert s m sl = do {
     upd0 \<leftarrow> findUpdate sl (\<lambda>n. precedes n s m) (sl_height sl) (sl_head sl) 0;
     let (level, sl1) = randomLevel sl;
     (upd, sl2) \<leftarrow>
       (if level > sl_height sl1 then do {
          sl' \<leftarrow> raiseLevels (level - sl_height sl1) (sl_height sl1) sl1;
          Some (upd0 @ replicate (level - sl_height sl1) (sl_head sl1, 0), sl'\<lparr>sl_height := level\<rparr>) }
        else Some (upd0, sl1));
     (u0, r0) \<leftarrow> (case upd of [] \<Rightarrow> None | p # _ \<Rightarrow> Some p);
     let x = sl_fresh sl2;
     let sl3 = sl2\<lparr>sl_nodes := (sl_nodes sl2)(x \<mapsto> newNode level s m), sl_fresh := x + 1\<rparr>;
     sl4 \<leftarrow> linkLevels x r0 0 (take level upd) sl3;
     sl5 \<leftarrow> bumpSpans 1 level (drop level upd) sl4;
     sl6 \<leftarrow> setBackward x (if u0 = sl_head sl5 then None else Some u0) sl5;
     lx \<leftarrow> levelAt sl6 x 0;
     sl7 \<leftarrow> (case forward_to lx of
              Some y \<Rightarrow> setBackward y (Some x) sl6
            | None \<Rightarrow> Some (sl6\<lparr>sl_tail := Some x\<rparr>));
     Some (x, sl7\<lparr>sl_length := sl_length sl7 + 1\<rparr>) }"

section \<open>Deletion\<close>

fun unlinkLevels :: "nat \<Rightarrow> nat \<Rightarrow> nat list \<Rightarrow> skip_list \<Rightarrow> skip_list option" where
  "unlinkLevels x i [] sl = Some sl"
| "unlinkLevels x i (u # upd) sl = do {
     lu \<leftarrow> levelAt sl u i;
     sl' \<leftarrow> (if forward_to lu = Some x then do {
              lx \<leftarrow> levelAt sl x i;
              setLevel u i (lu\<lparr>span := span lu + (span lx - 1), forward_to := forward_to lx\<rparr>) sl }
            else setLevel u i (lu\<lparr>span := span lu - 1\<rparr>) sl);
     unlinkLevels x (i + 1) upd sl' }"

text \<open>\<^verbatim>\<open>while (level_ > 1 && head_->level[level_ - 1].forward == nullptr) level_--;\<close>\<close>

fun lowerHeight :: "skip_list \<Rightarrow> nat \<Rightarrow> nat option" where
  "lowerHeight sl 0 = Some 0"
| "lowerHeight sl (Suc 0) = Some (Suc 0)"
| "lowerHeight sl (Suc (Suc h)) = do {
     lv \<leftarrow> levelAt sl (sl_head sl) (Suc h);
     (if forward_to lv = None then lowerHeight sl (Suc h) else Some (Suc (Suc h))) }"

definition deleteNodeInternal :: "nat \<Rightarrow> nat list \<Rightarrow> skip_list \<Rightarrow> skip_list option" where
  "deleteNodeInternal x upd sl = do {
     sl1 \<leftarrow> unlinkLevels x 0 upd sl;
     lx \<leftarrow> levelAt sl1 x 0;
     n \<leftarrow> sl_nodes sl1 x;
     sl2 \<leftarrow> (case forward_to lx of
              Some y \<Rightarrow> setBackward y (backward n) sl1
            | None \<Rightarrow> Some (sl1\<lparr>sl_tail := backward n\<rparr>));
     h \<leftarrow> lowerHeight sl2 (sl_height sl2);
     Some (sl2\<lparr>sl_height := h, sl_length := sl_length sl2 - 1\<rparr>) }"

definition sl_deleteNode :: "double \<Rightarrow> string \<Rightarrow> skip_list \<Rightarrow> (bool \<times> skip_list) option" where
  "sl_deleteNode s m sl = do {
     upd \<leftarrow> findUpdate sl (\<lambda>n. precedes n s m) (sl_height sl) (sl_head sl) 0;
     (u0, _) \<leftarrow> (case upd of [] \<Rightarrow> None | p # _ \<Rightarrow> Some p);
     lv \<leftarrow> levelAt sl u0 0;
     (case forward_to lv of
        None \<Rightarrow> Some (False, sl)
      | Some x \<Rightarrow> do {
          n \<leftarrow> sl_nodes sl x;
          (if float_eq s (score n) \<and> member n = m then do {
             sl' \<leftarrow> deleteNodeInternal x (map fst upd) sl;
             Some (True, sl'\<lparr>sl_nodes := (sl_nodes sl')(x := None)\<rparr>) }
           else Some (False, sl)) }) }"

section \<open>Queries\<close>

text \<open>\<^verbatim>\<open>getRank\<close> moves past equal members too, and compares the member after each level.\<close>

definition precedesEq :: "sl_node \<Rightarrow> double \<Rightarrow> string \<Rightarrow> bool" where
  "precedesEq n s m \<longleftrightarrow>
     float_lt (score n) s \<or> (float_eq (score n) s \<and> (string_less (member n) m \<or> member n = m))"

partial_function (option) rankWalk ::
  "skip_list \<Rightarrow> (sl_node \<Rightarrow> nat \<Rightarrow> bool) \<Rightarrow> nat \<Rightarrow> nat \<Rightarrow> nat \<Rightarrow> (nat \<times> nat) option" where
  "rankWalk sl go i x r = do {
     lv \<leftarrow> levelAt sl x i;
     (case forward_to lv of
        None \<Rightarrow> Some (x, r)
      | Some y \<Rightarrow> do {
          n \<leftarrow> sl_nodes sl y;
          (if go n (r + unat (span lv)) then rankWalk sl go i y (r + unat (span lv))
           else Some (x, r)) }) }"

declare rankWalk.simps [code]

primrec getRankLoop :: "skip_list \<Rightarrow> double \<Rightarrow> string \<Rightarrow> nat \<Rightarrow> nat \<Rightarrow> nat \<Rightarrow> nat option" where
  "getRankLoop sl s m 0 x r = Some 0"
| "getRankLoop sl s m (Suc i) x r = do {
     (x', r') \<leftarrow> rankWalk sl (\<lambda>n _. precedesEq n s m) i x r;
     n \<leftarrow> sl_nodes sl x';
     (if member n = m then Some r' else getRankLoop sl s m i x' r') }"

definition sl_getRank :: "double \<Rightarrow> string \<Rightarrow> skip_list \<Rightarrow> nat option" where
  "sl_getRank s m sl = getRankLoop sl s m (sl_height sl) (sl_head sl) 0"

primrec byRankLoop :: "skip_list \<Rightarrow> nat \<Rightarrow> nat \<Rightarrow> nat \<Rightarrow> nat \<Rightarrow> nat option option" where
  "byRankLoop sl rank 0 x t = Some None"
| "byRankLoop sl rank (Suc i) x t = do {
     (x', t') \<leftarrow> rankWalk sl (\<lambda>_ t. t \<le> rank) i x t;
     (if t' = rank then Some (Some x') else byRankLoop sl rank i x' t') }"

definition sl_getElementByRank :: "nat \<Rightarrow> skip_list \<Rightarrow> nat option option" where
  "sl_getElementByRank rank sl = byRankLoop sl rank (sl_height sl) (sl_head sl) 0"

primrec descend :: "skip_list \<Rightarrow> (sl_node \<Rightarrow> bool) \<Rightarrow> nat \<Rightarrow> nat \<Rightarrow> nat option" where
  "descend sl go 0 x = Some x"
| "descend sl go (Suc i) x = do { (x', _) \<leftarrow> slWalk sl go i x 0; descend sl go i x' }"

definition sl_getFirstInRange :: "double \<Rightarrow> double \<Rightarrow> skip_list \<Rightarrow> nat option option" where
  "sl_getFirstInRange lo hi sl = do {
     x0 \<leftarrow> descend sl (\<lambda>n. float_lt (score n) lo) (sl_height sl) (sl_head sl);
     lv \<leftarrow> levelAt sl x0 0;
     (case forward_to lv of
        None \<Rightarrow> Some None
      | Some x \<Rightarrow> do {
          n \<leftarrow> sl_nodes sl x;
          Some (if float_lt hi (score n) then None else Some x) }) }"

definition sl_getLastInRange :: "double \<Rightarrow> double \<Rightarrow> skip_list \<Rightarrow> nat option option" where
  "sl_getLastInRange lo hi sl = do {
     x \<leftarrow> descend sl (\<lambda>n. float_le (score n) hi) (sl_height sl) (sl_head sl);
     n \<leftarrow> sl_nodes sl x;
     Some (if x = sl_head sl \<or> float_lt (score n) lo then None else Some x) }"

text \<open>The loop over the lowest level of \<^verbatim>\<open>clone\<close> and of the range queries.\<close>

primrec slCollect :: "skip_list \<Rightarrow> nat \<Rightarrow> nat option \<Rightarrow> (string \<times> double) list option" where
  "slCollect sl 0 p = Some []"
| "slCollect sl (Suc k) p = (case p of
      None \<Rightarrow> Some []
    | Some x \<Rightarrow> do {
        n \<leftarrow> sl_nodes sl x;
        lv \<leftarrow> levelAt sl x 0;
        rest \<leftarrow> slCollect sl k (forward_to lv);
        Some ((member n, score n) # rest) })"

partial_function (option) slCloneLoop ::
  "skip_list \<Rightarrow> nat option \<Rightarrow> skip_list \<Rightarrow> skip_list option" where
  "slCloneLoop sl p copy = (case p of
      None \<Rightarrow> Some copy
    | Some x \<Rightarrow> do {
        n \<leftarrow> sl_nodes sl x;
        lv \<leftarrow> levelAt sl x 0;
        (_, copy') \<leftarrow> sl_insert (score n) (member n) copy;
        slCloneLoop sl (forward_to lv) copy' })"

declare slCloneLoop.simps [code]

definition sl_clone :: "(nat \<Rightarrow> bool) \<Rightarrow> skip_list \<Rightarrow> skip_list option" where
  "sl_clone rng sl = do {
     lv \<leftarrow> levelAt sl (sl_head sl) 0;
     slCloneLoop sl (forward_to lv) (newSkipList rng) }"

section \<open>Destruction and moves\<close>

text \<open>
  Deleting the nodes of the lowest level one after the other. A list owns its nodes: a move
  takes the store along, and the list moved from gets a head of its own.
\<close>

partial_function (option) slFreeLoop :: "skip_list \<Rightarrow> nat option \<Rightarrow> skip_list option" where
  "slFreeLoop sl node = (case node of
      None \<Rightarrow> Some sl
    | Some x \<Rightarrow> do {
        lv \<leftarrow> levelAt sl x 0;
        slFreeLoop (sl\<lparr>sl_nodes := (sl_nodes sl)(x := None)\<rparr>) (forward_to lv) })"

declare slFreeLoop.simps [code]

definition sl_destroy :: "skip_list \<Rightarrow> skip_list option" where
  "sl_destroy sl = do {
     lv \<leftarrow> levelAt sl (sl_head sl) 0;
     slFreeLoop (sl\<lparr>sl_nodes := (sl_nodes sl)(sl_head sl := None)\<rparr>) (forward_to lv) }"

text \<open>The new list and the one moved from.\<close>

definition sl_move :: "skip_list \<Rightarrow> skip_list \<times> skip_list" where
  "sl_move other = (other, newSkipList (sl_rng other))"

text \<open>\<open>same\<close>: both sides are the same object. The third component of the result is what remains
  allocated of the nodes the target had.\<close>

definition sl_move_assign ::
    "bool \<Rightarrow> skip_list \<Rightarrow> skip_list \<Rightarrow> (skip_list \<times> skip_list \<times> (nat \<rightharpoonup> sl_node)) option" where
  "sl_move_assign same this other =
     (if same then Some (this, other, \<lambda>_. None)
      else do {
        lv \<leftarrow> levelAt this (sl_head this) 0;
        freed \<leftarrow> slFreeLoop this (forward_to lv);
        _ \<leftarrow> sl_nodes freed (sl_head freed);
        Some (other, newSkipList (sl_rng other), (sl_nodes freed)(sl_head freed := None)) })"

end
