(* ===== verification/SkipListLinks.thy ===== *)
theory SkipListLinks
  imports SkipList
begin

text \<open>
  The links of a skip list by position. A well-formed list has its nodes, the head first, at
  positions counted from zero; at level \<open>i\<close> a node points to the next position whose node is
  higher than \<open>i\<close>, and its span is the distance. First how these positions move when one is
  inserted or deleted, then the store, what a walk over the levels finds, and what the loops
  that write to the levels do.
\<close>

section \<open>Positions\<close>

text \<open>\<open>hs\<close> lists the heights of the nodes by position.\<close>

definition is_next :: "nat list \<Rightarrow> nat \<Rightarrow> nat \<Rightarrow> nat \<Rightarrow> bool" where
  "is_next hs i p q \<longleftrightarrow> p < q \<and> q \<le> length hs \<and> (\<forall>k. p < k \<and> k < q \<longrightarrow> hs ! k \<le> i) \<and>
     (q < length hs \<longrightarrow> i < hs ! q)"

definition is_last :: "nat list \<Rightarrow> nat \<Rightarrow> nat \<Rightarrow> nat \<Rightarrow> bool" where
  "is_last hs i P p \<longleftrightarrow> p \<le> P \<and> i < hs ! p \<and> (\<forall>k. p < k \<and> k \<le> P \<longrightarrow> hs ! k \<le> i)"

definition insertAt :: "nat \<Rightarrow> 'a \<Rightarrow> 'a list \<Rightarrow> 'a list" where
  "insertAt k x xs = take k xs @ x # drop k xs"

definition deleteAt :: "nat \<Rightarrow> 'a list \<Rightarrow> 'a list" where
  "deleteAt k xs = take k xs @ drop (Suc k) xs"

definition shift_at :: "nat \<Rightarrow> nat \<Rightarrow> nat" where
  "shift_at P p = (if p \<le> P then p else Suc p)"

lemma length_insertAt [simp]: "k \<le> length xs \<Longrightarrow> length (insertAt k x xs) = Suc (length xs)"
  by (simp add: insertAt_def)

lemma length_deleteAt [simp]: "k < length xs \<Longrightarrow> length (deleteAt k xs) = length xs - 1"
  by (auto simp: deleteAt_def)

lemma nth_insertAt:
  "k \<le> length xs \<Longrightarrow> insertAt k x xs ! j = (if j < k then xs ! j else if j = k then x else xs ! (j - 1))"
  by (auto simp: insertAt_def nth_append nth_Cons' min_def)

lemma nth_deleteAt: "k < length xs \<Longrightarrow> deleteAt k xs ! j = (if j < k then xs ! j else xs ! Suc j)"
  by (auto simp: deleteAt_def nth_append min_def)

lemma map_insertAt: "map f (insertAt k x xs) = insertAt k (f x) (map f xs)"
  by (simp add: insertAt_def take_map drop_map)

lemma map_deleteAt: "map f (deleteAt k xs) = deleteAt k (map f xs)"
  by (simp add: deleteAt_def take_map drop_map)

lemma set_insertAt [simp]: "set (insertAt k x xs) = insert x (set xs)"
  by (metis Un_insert_right append_take_drop_id insertAt_def list.simps(15) set_append)

lemma insertAt_not_Nil [simp]: "insertAt k x xs \<noteq> []"
  by (simp add: insertAt_def)

lemma insertAt_Suc_Cons [simp]: "insertAt (Suc k) x (y # xs) = y # insertAt k x xs"
  by (simp add: insertAt_def)

lemma deleteAt_Suc_Cons [simp]: "deleteAt (Suc k) (y # xs) = y # deleteAt k xs"
  by (simp add: deleteAt_def)

lemma distinct_insertAt: "distinct (insertAt k x xs) \<longleftrightarrow> x \<notin> set xs \<and> distinct xs"
proof -
  obtain ys zs where "take k xs = ys" "drop k xs = zs" "xs = ys @ zs"
    by (metis append_take_drop_id)
  then show ?thesis by (auto simp: insertAt_def)
qed

lemma insertAt_deleteAt: "k < length xs \<Longrightarrow> insertAt k (xs ! k) (deleteAt k xs) = xs"
  by (simp add: insertAt_def deleteAt_def id_take_nth_drop [symmetric] Cons_nth_drop_Suc min_def)

lemma nth_shift [simp]: "Suc P \<le> length xs \<Longrightarrow> insertAt (Suc P) x xs ! shift_at P p = xs ! p"
  by (simp add: nth_insertAt shift_at_def)

lemma nth_inserted [simp]: "k \<le> length xs \<Longrightarrow> insertAt k x xs ! k = x"
  by (simp add: nth_insertAt)

lemma sl_shift_simps [simp]:
  "shift_at P p \<noteq> Suc P" "shift_at P p < shift_at P q \<longleftrightarrow> p < q" "shift_at P p = shift_at P q \<longleftrightarrow> p = q"
  "n \<ge> Suc P \<Longrightarrow> shift_at P q \<le> Suc n \<longleftrightarrow> q \<le> n" "n \<ge> Suc P \<Longrightarrow> shift_at P q < Suc n \<longleftrightarrow> q < n"
  by (auto simp: shift_at_def)

lemma position_cases:
  obtains "p' = Suc P" | p where "p' = shift_at P p"
proof (cases "p' \<le> Suc P")
  case True
  then show thesis using that(1) that(2) [of p'] by (cases "p' = Suc P") (auto simp: shift_at_def)
next
  case False
  then show thesis using that(2) [of "p' - 1"] by (simp add: shift_at_def)
qed

lemma is_nextD:
  assumes "is_next hs i p q"
  shows "p < q" "q \<le> length hs" "\<And>k. p < k \<Longrightarrow> k < q \<Longrightarrow> hs ! k \<le> i" "q < length hs \<Longrightarrow> i < hs ! q"
  using assms by (auto simp: is_next_def)

lemma is_lastD:
  assumes "is_last hs i P p"
  shows "p \<le> P" "i < hs ! p" "\<And>k. p < k \<Longrightarrow> k \<le> P \<Longrightarrow> hs ! k \<le> i"
  using assms by (auto simp: is_last_def)

text \<open>The next position after one before \<open>u\<close> is at most \<open>u\<close>; after \<open>u\<close> it is beyond \<open>P\<close>.\<close>

lemma next_before_last:
  assumes nx: "is_next hs i p q" and u: "is_last hs i P u"
  shows "p < u \<Longrightarrow> q \<le> u" "u \<le> p \<Longrightarrow> i < hs ! p \<Longrightarrow> p = u \<or> P < p" "p = u \<Longrightarrow> P < length hs \<Longrightarrow> P < q"
proof -
  show "q \<le> u" if "p < u"
    using is_nextD(3) [OF nx that] is_lastD(2) [OF u] by (metis leD not_le)
  show "p = u \<or> P < p" if "u \<le> p" "i < hs ! p"
    using is_lastD(3) [OF u, of p] that by (metis le_neq_implies_less leD not_le)
  show "P < q" if "p = u" "P < length hs"
    using is_lastD(3) [OF u, of q] is_nextD [OF nx] that by (metis leD le_less_trans not_le)
qed

section \<open>Inserting and deleting a position\<close>

lemma next_insert_old:
  assumes P: "Suc P \<le> length hs" and nx: "is_next hs i p q" and p: "i < hs ! p"
    and u: "is_last hs i P u" and other: "L \<le> i \<or> p \<noteq> u"
  shows "is_next (insertAt (Suc P) L hs) i (shift_at P p) (shift_at P q)"
  unfolding is_next_def
proof (intro conjI allI impI)
  fix k' assume k': "shift_at P p < k' \<and> k' < shift_at P q"
  show "insertAt (Suc P) L hs ! k' \<le> i"
  proof (cases rule: position_cases [of k' P])
    case 1
    with k' have "p \<le> P" "P < q" by (auto simp: shift_at_def split: if_splits)
    moreover have "u \<le> p"
      using next_before_last(1) [OF nx u] \<open>P < q\<close> is_lastD(1) [OF u] by (meson leD le_less_trans not_le)
    ultimately have "p = u" using next_before_last(2) [OF nx u _ p] by auto
    with other 1 P show ?thesis by simp
  next
    case (2 k)
    with k' is_nextD(3) [OF nx, of k] P show ?thesis by simp
  qed
qed (use is_nextD [OF nx] P in auto)

lemma next_insert_new:
  assumes P: "Suc P \<le> length hs" and nx: "is_next hs i u q" and u: "is_last hs i P u"
  shows "is_next (insertAt (Suc P) L hs) i (Suc P) (shift_at P q)"
    "i < L \<Longrightarrow> is_next (insertAt (Suc P) L hs) i u (Suc P)"
proof -
  have q: "P < q" using next_before_last(3) [OF nx u] P by simp
  show "is_next (insertAt (Suc P) L hs) i (Suc P) (shift_at P q)"
    unfolding is_next_def
  proof (intro conjI allI impI)
    fix k' assume k': "Suc P < k' \<and> k' < shift_at P q"
    then obtain k where k: "k' = shift_at P k" "P < k" "k < q"
      by (cases rule: position_cases [of k' P]) (auto simp: shift_at_def split: if_splits)
    with is_nextD(3) [OF nx, of k] is_lastD(1) [OF u] P
    show "insertAt (Suc P) L hs ! k' \<le> i" by simp
  qed (use is_nextD [OF nx] P q in \<open>auto simp: shift_at_def [of P q] nth_insertAt\<close>)
  show "is_next (insertAt (Suc P) L hs) i u (Suc P)" if "i < L"
    using that is_lastD [OF u] P by (auto simp: is_next_def nth_insertAt)
qed

lemma next_delete:
  assumes P: "Suc P \<le> length hs" and nx: "is_next (insertAt (Suc P) L hs) i (shift_at P p) q'"
  shows "q' = shift_at P q \<Longrightarrow> is_next hs i p q"
    "q' = Suc P \<Longrightarrow> is_next (insertAt (Suc P) L hs) i (Suc P) (shift_at P q) \<Longrightarrow> is_next hs i p q"
proof -
  note nxD = is_nextD [OF nx]
  show "is_next hs i p q" if q: "q' = shift_at P q"
    unfolding is_next_def
  proof (intro conjI allI impI)
    fix k assume "p < k \<and> k < q"
    then show "hs ! k \<le> i" using nxD(3) [of "shift_at P k"] q P by simp
  qed (use nxD q P in auto)
  show "is_next hs i p q" if q: "q' = Suc P" and n2: "is_next (insertAt (Suc P) L hs) i (Suc P) (shift_at P q)"
    unfolding is_next_def
  proof (intro conjI allI impI)
    fix k assume k: "p < k \<and> k < q"
    consider "shift_at P k < Suc P" | "Suc P < shift_at P k" by (metis nat_neq_iff sl_shift_simps(1))
    then show "hs ! k \<le> i"
      using nxD(3) [of "shift_at P k"] is_nextD(3) [OF n2, of "shift_at P k"] k q P by cases auto
  next
    have "shift_at P p < shift_at P q" using nxD(1) is_nextD(1) [OF n2] q by linarith
    then show "p < q" by simp
  qed (use is_nextD [OF n2] P in auto)
qed

section \<open>The store\<close>

text \<open>The nodes without the contents of their levels.\<close>

definition sl_tall :: "skip_list \<Rightarrow> nat \<Rightarrow> nat" where
  "sl_tall sl x = (case sl_nodes sl x of None \<Rightarrow> 0 | Some n \<Rightarrow> length (levels n))"

definition sl_frame :: "skip_list \<Rightarrow> nat \<Rightarrow> (string \<times> double \<times> nat option \<times> nat) option" where
  "sl_frame sl x = map_option (\<lambda>n. (member n, score n, backward n, length (levels n))) (sl_nodes sl x)"

definition same_frame :: "skip_list \<Rightarrow> skip_list \<Rightarrow> bool" where
  "same_frame sl sl' \<longleftrightarrow> sl_frame sl' = sl_frame sl \<and> sl_fresh sl' = sl_fresh sl \<and> sl_head sl' = sl_head sl \<and>
     sl_tail sl' = sl_tail sl \<and> sl_length sl' = sl_length sl \<and> sl_height sl' = sl_height sl \<and>
     sl_rng sl' = sl_rng sl"

lemma same_frame_refl [simp]: "same_frame sl sl"
  by (simp add: same_frame_def)

lemma same_frame_trans [trans]: "same_frame a b \<Longrightarrow> same_frame b c \<Longrightarrow> same_frame a c"
  by (simp add: same_frame_def)

lemma tall_frame: "sl_tall sl x = (case sl_frame sl x of None \<Rightarrow> 0 | Some (_, _, _, h) \<Rightarrow> h)"
  by (simp add: sl_tall_def sl_frame_def split: option.split)

lemma same_frame_tall: "same_frame sl sl' \<Longrightarrow> sl_tall sl' = sl_tall sl"
  by (rule ext) (simp add: tall_frame same_frame_def)

lemma levelAt_None: "levelAt sl x i = None \<longleftrightarrow> sl_tall sl x \<le> i"
  by (auto simp: levelAt_def sl_tall_def split: option.split Option.bind_split)

lemma levelAt_Some: "i < sl_tall sl x \<Longrightarrow> \<exists>lv. levelAt sl x i = Some lv"
  by (metis leD levelAt_None not_None_eq)

lemma setLevel_ok:
  assumes "i < sl_tall sl x"
  shows "\<exists>sl'. setLevel x i lv sl = Some sl' \<and> same_frame sl sl' \<and>
    levelAt sl' = (\<lambda>y j. if y = x \<and> j = i then Some lv else levelAt sl y j)"
proof -
  from assms obtain n where "sl_nodes sl x = Some n" "i < length (levels n)"
    by (auto simp: sl_tall_def split: option.splits)
  then show ?thesis
    by (auto simp: setLevel_def same_frame_def sl_frame_def levelAt_def fun_eq_iff)
qed

definition sl_fields :: "skip_list \<Rightarrow> nat \<times> nat \<times> nat option \<times> nat \<times> nat" where
  "sl_fields sl = (sl_fresh sl, sl_head sl, sl_tail sl, sl_length sl, sl_height sl)"

lemma setBackward_ok:
  assumes "sl_frame sl x = Some (m, s, b, h)"
  shows "\<exists>sl'. setBackward x p sl = Some sl' \<and> sl_fields sl' = sl_fields sl \<and>
    sl_frame sl' = (sl_frame sl)(x \<mapsto> (m, s, p, h)) \<and> levelAt sl' = levelAt sl"
  using assms
  by (auto simp: setBackward_def sl_frame_def levelAt_def sl_fields_def fun_eq_iff split: Option.bind_split)

section \<open>Levels of a well-formed list\<close>

text \<open>
  \<open>ns\<close> is the head followed by the nodes of the lowest level. Below the height of the list
  a span is the distance to the next node, or to the last node where there is no next one.
\<close>

definition sl_links ::
  "(nat \<Rightarrow> nat \<Rightarrow> sl_level option) \<Rightarrow> nat list \<Rightarrow> nat list \<Rightarrow> nat \<Rightarrow> bool" where
  "sl_links lev hs ns h \<longleftrightarrow> (\<forall>p i. p < length ns \<longrightarrow> i < hs ! p \<longrightarrow>
     (\<exists>q lv. is_next hs i p q \<and> lev (ns ! p) i = Some lv \<and>
        forward_to lv = (if q < length ns then Some (ns ! q) else None) \<and>
        (i < h \<longrightarrow> span lv = of_nat (min q (length ns - 1) - p))))"

definition sl_spine :: "skip_list \<Rightarrow> nat list \<Rightarrow> bool" where
  "sl_spine sl ns \<longleftrightarrow> distinct ns \<and> (\<forall>x \<in> set ns. sl_nodes sl x \<noteq> None) \<and>
     sl_links (levelAt sl) (map (sl_tall sl) ns) ns (sl_height sl)"

definition node_at :: "skip_list \<Rightarrow> nat list \<Rightarrow> nat \<Rightarrow> sl_node" where
  "node_at sl ns p = the (sl_nodes sl (ns ! p))"

lemma spine_node: "sl_spine sl ns \<Longrightarrow> p < length ns \<Longrightarrow> sl_nodes sl (ns ! p) = Some (node_at sl ns p)"
  by (auto simp: sl_spine_def node_at_def)

lemma spine_level:
  assumes "sl_spine sl ns" "p < length ns" "i < sl_tall sl (ns ! p)"
  obtains q lv where "is_next (map (sl_tall sl) ns) i p q" "levelAt sl (ns ! p) i = Some lv"
    "forward_to lv = (if q < length ns then Some (ns ! q) else None)"
    "i < sl_height sl \<Longrightarrow> span lv = of_nat (min q (length ns - 1) - p)"
proof -
  from assms(1) have "sl_links (levelAt sl) (map (sl_tall sl) ns) ns (sl_height sl)" by (simp add: sl_spine_def)
  moreover have "i < map (sl_tall sl) ns ! p" using assms by simp
  ultimately show thesis using assms(2) that unfolding sl_links_def by blast
qed

text \<open>
  A walk on level \<open>i\<close> ends at a position \<open>p'\<close> it may enter and whose successor \<open>q\<close> it may
  not; the spans added up are the distance.
\<close>

definition sl_walked ::
  "skip_list \<Rightarrow> nat list \<Rightarrow> (nat \<Rightarrow> bool) \<Rightarrow> nat \<Rightarrow> nat \<Rightarrow> nat \<Rightarrow> nat \<Rightarrow> bool" where
  "sl_walked sl ns ok i p p' q \<longleftrightarrow> p \<le> p' \<and> p' < length ns \<and> i < sl_tall sl (ns ! p') \<and>
     is_next (map (sl_tall sl) ns) i p' q \<and>
     (\<forall>k. p < k \<and> k \<le> p' \<and> i < sl_tall sl (ns ! k) \<longrightarrow> ok k) \<and> (q < length ns \<longrightarrow> \<not> ok q)"

lemma walked_step:
  assumes w: "sl_walked sl ns ok i q p' q'" and q: "is_next (map (sl_tall sl) ns) i p q" "ok q"
  shows "sl_walked sl ns ok i p p' q'"
proof -
  have "ok k" if "p < k" "k \<le> p'" "i < sl_tall sl (ns ! k)" for k
  proof (cases k q rule: linorder_cases)
    case less
    with that w q have "map (sl_tall sl) ns ! k \<le> i" "k < length ns"
      by (auto simp: is_next_def sl_walked_def)
    with that show ?thesis by simp
  qed (use w q that in \<open>auto simp: sl_walked_def\<close>)
  with w is_nextD(1) [OF q(1)] show ?thesis by (auto simp: sl_walked_def)
qed

lemma walked_end: "sl_walked sl ns ok i p p' q \<Longrightarrow> p' = p \<or> ok p'"
  unfolding sl_walked_def by (metis le_neq_implies_less order_refl)

lemma walked_stops:
  assumes w: "sl_walked sl ns ok i p p' q" and B: "p < B" "B < length ns \<Longrightarrow> i < sl_tall sl (ns ! B) \<and> \<not> ok B"
  shows "p' < B \<and> q \<le> B"
proof (cases "B < length ns")
  case True
  with w B have "p' < B" by (auto simp: sl_walked_def not_le [symmetric])
  moreover have "q \<le> B"
    using is_nextD(3) [of "map (sl_tall sl) ns" i p' q B] w True B(2) \<open>p' < B\<close>
    by (force simp: sl_walked_def not_le [symmetric])
  ultimately show ?thesis by simp
next
  case False
  with w is_nextD(2) [of "map (sl_tall sl) ns" i p' q] show ?thesis by (auto simp: sl_walked_def)
qed

lemma slWalk_ok:
  assumes "sl_spine sl ns" "p < length ns" "i < sl_tall sl (ns ! p)" "i < sl_height sl"
  shows "\<exists>p' q. slWalk sl go i (ns ! p) r = Some (ns ! p', r + of_nat (p' - p)) \<and>
    sl_walked sl ns (\<lambda>j. go (node_at sl ns j)) i p p' q"
  using assms(2,3)
proof (induction "length ns - p" arbitrary: p r rule: less_induct)
  case less
  from spine_level [OF assms(1) less.prems] obtain q lv
    where q: "is_next (map (sl_tall sl) ns) i p q" and lv: "levelAt sl (ns ! p) i = Some lv"
      "forward_to lv = (if q < length ns then Some (ns ! q) else None)"
      "span lv = of_nat (min q (length ns - 1) - p)" using assms(4) by blast
  note pq = is_nextD(1) [OF q]
  have sp: "span lv = of_nat (q - p)" if "q < length ns"
    using that lv(3) by (simp add: min_def)
  show ?case
  proof (cases "q < length ns \<and> go (node_at sl ns q)")
    case True
    with is_nextD [OF q] have "length ns - q < length ns - p" "q < length ns" "i < sl_tall sl (ns ! q)"
      by auto
    from less.hyps [OF this, of "r + of_nat (q - p)"] obtain p' q'
      where w: "slWalk sl go i (ns ! q) (r + of_nat (q - p)) =
          Some (ns ! p', r + of_nat (q - p) + of_nat (p' - q))"
        "sl_walked sl ns (\<lambda>j. go (node_at sl ns j)) i q p' q'" by blast
    have "slWalk sl go i (ns ! p) r = Some (ns ! p', r + of_nat (p' - p))"
    proof -
      have "p' - p = (q - p) + (p' - q)" using w(2) pq by (simp add: sl_walked_def)
      then show ?thesis
        using w(1) True lv(1,2) sp spine_node [OF assms(1), of q]
        by (subst slWalk.simps) (simp add: add.assoc)
    qed
    with walked_step [OF w(2) q] True show ?thesis by blast
  next
    case False
    then have "slWalk sl go i (ns ! p) r = Some (ns ! p, r)"
      using lv spine_node [OF assms(1), of q] by (subst slWalk.simps) simp
    moreover have "sl_walked sl ns (\<lambda>j. go (node_at sl ns j)) i p p q"
      using False q less.prems by (auto simp: sl_walked_def)
    ultimately show ?thesis by (intro exI [of _ p] exI [of _ q]) simp
  qed
qed

lemma rankWalk_ok:
  assumes "sl_spine sl ns" "p < length ns" "i < sl_tall sl (ns ! p)" "i < sl_height sl" "length ns \<le> 2 ^ 32"
  shows "\<exists>p' q. rankWalk sl go i (ns ! p) p = Some (ns ! p', p') \<and>
    sl_walked sl ns (\<lambda>j. go (node_at sl ns j) j) i p p' q"
  using assms(2,3)
proof (induction "length ns - p" arbitrary: p rule: less_induct)
  case less
  from spine_level [OF assms(1) less.prems] obtain q lv
    where q: "is_next (map (sl_tall sl) ns) i p q" and lv: "levelAt sl (ns ! p) i = Some lv"
      "forward_to lv = (if q < length ns then Some (ns ! q) else None)"
      "span lv = of_nat (min q (length ns - 1) - p)" using assms(4) by blast
  note pq = is_nextD(1) [OF q]
  have sp: "p + unat (span lv) = q" if "q < length ns"
    using that lv(3) pq assms(5) by (simp add: unat_of_nat min_def)
  show ?case
  proof (cases "q < length ns \<and> go (node_at sl ns q) q")
    case True
    with is_nextD [OF q] have "length ns - q < length ns - p" "q < length ns" "i < sl_tall sl (ns ! q)"
      by auto
    from less.hyps [OF this] obtain p' q'
      where w: "rankWalk sl go i (ns ! q) q = Some (ns ! p', p')"
        "sl_walked sl ns (\<lambda>j. go (node_at sl ns j) j) i q p' q'" by blast
    then have "rankWalk sl go i (ns ! p) p = Some (ns ! p', p')"
      using True lv sp spine_node [OF assms(1), of q] by (subst rankWalk.simps) simp
    with walked_step [OF w(2) q] True show ?thesis by blast
  next
    case False
    then have "rankWalk sl go i (ns ! p) p = Some (ns ! p, p)"
      using lv sp spine_node [OF assms(1), of q] by (subst rankWalk.simps) simp
    moreover have "sl_walked sl ns (\<lambda>j. go (node_at sl ns j) j) i p p q"
      using False q less.prems by (auto simp: sl_walked_def)
    ultimately show ?thesis by (intro exI [of _ p] exI [of _ q]) simp
  qed
qed

text \<open>
  The descent of insertion and deletion: it ends on the lowest level at a position \<open>P\<close>, and
  \<^verbatim>\<open>update[i]\<close> is on each level the last node up to there.
\<close>

definition sl_found :: "skip_list \<Rightarrow> nat list \<Rightarrow> (nat \<Rightarrow> bool) \<Rightarrow> nat \<Rightarrow> nat \<Rightarrow> nat \<Rightarrow> nat list \<Rightarrow> bool" where
  "sl_found sl ns ok p B k ls \<longleftrightarrow> length ls = k \<and>
     (\<forall>i < k. p \<le> ls ! i \<and> ls ! i < B \<and> ls ! i < length ns \<and>
        is_last (map (sl_tall sl) ns) i (hd (ls @ [p])) (ls ! i)) \<and>
     (hd (ls @ [p]) = p \<or> ok (hd (ls @ [p]))) \<and>
     (0 < k \<longrightarrow> (\<exists>q. is_next (map (sl_tall sl) ns) 0 (hd (ls @ [p])) q \<and> (q < length ns \<longrightarrow> \<not> ok q)))"

lemma found_step:
  assumes w: "sl_walked sl ns ok k p p' q" and bounds: "p' < B" "q \<le> B" and rest: "sl_found sl ns ok p' q k ls"
  shows "sl_found sl ns ok p B (Suc k) (ls @ [p'])"
proof -
  let ?P = "hd (ls @ [p'])" and ?hs = "map (sl_tall sl) ns"
  have w': "p \<le> p'" "p' < length ns" "k < sl_tall sl (ns ! p')" "is_next ?hs k p' q" "q < length ns \<longrightarrow> \<not> ok q"
    using w by (auto simp: sl_walked_def)
  have len: "length ls = k" and P: "?P = p' \<or> ok ?P" using rest by (auto simp: sl_found_def)
  have ls: "p' \<le> ls ! i" "ls ! i < q" "ls ! i < length ns" "is_last ?hs i ?P (ls ! i)" if "i < k" for i
    using rest that by (auto simp: sl_found_def)
  have hd: "hd ((ls @ [p']) @ [p]) = ?P" by (cases ls) auto
  have "p' \<le> ?P \<and> ?P < q"
  proof (cases "k = 0")
    case True
    with len have "ls = []" by simp
    with is_nextD(1) [OF w'(4)] show ?thesis by simp
  next
    case False
    with len have "?P = ls ! 0" by (cases ls) auto
    with ls [of 0] False show ?thesis by simp
  qed
  then have top: "is_last ?hs k ?P p'"
    using is_nextD(3) [OF w'(4)] w'(2,3) by (auto simp: is_last_def)
  have "\<exists>q. is_next ?hs 0 ?P q \<and> (q < length ns \<longrightarrow> \<not> ok q)"
    using rest w'(4,5) len by (cases "k = 0") (auto simp: sl_found_def)
  moreover have "?P = p \<or> ok ?P" using P walked_end [OF w] by metis
  moreover have "p \<le> (ls @ [p']) ! i \<and> (ls @ [p']) ! i < B \<and> (ls @ [p']) ! i < length ns \<and>
      is_last ?hs i ?P ((ls @ [p']) ! i)" if "i < Suc k" for i
  proof (cases "i < k")
    case True
    with ls [OF True] len w'(1) bounds(2) show ?thesis by (simp add: nth_append)
  next
    case False
    with that have "i = k" by simp
    with len top w' bounds show ?thesis by (simp add: nth_append)
  qed
  ultimately show ?thesis unfolding sl_found_def hd using len by simp
qed

lemma findUpdate_ok:
  assumes sp: "sl_spine sl ns"
  shows "k \<le> sl_height sl \<Longrightarrow> p < length ns \<Longrightarrow> k \<le> sl_tall sl (ns ! p) \<Longrightarrow> p < B \<Longrightarrow>
    (B < length ns \<Longrightarrow> k \<le> sl_tall sl (ns ! B) \<and> \<not> go (node_at sl ns B)) \<Longrightarrow>
    \<exists>ls. findUpdate sl go k (ns ! p) r = Some (map (\<lambda>j. (ns ! j, r + of_nat (j - p))) ls) \<and>
      sl_found sl ns (\<lambda>j. go (node_at sl ns j)) p B k ls"
proof (induction k arbitrary: p B r)
  case 0
  then show ?case by (auto simp: sl_found_def)
next
  case (Suc k)
  let ?ok = "\<lambda>j. go (node_at sl ns j)"
  from slWalk_ok [OF sp, of p k go r] Suc.prems obtain p' q
    where walk: "slWalk sl go k (ns ! p) r = Some (ns ! p', r + of_nat (p' - p))"
      and w: "sl_walked sl ns ?ok k p p' q" by auto
  have "p' < B \<and> q \<le> B" by (rule walked_stops [OF w]) (use Suc.prems in auto)
  then have bounds: "p' < B" "q \<le> B" by auto
  have q: "p \<le> p'" "p' < length ns" "k < sl_tall sl (ns ! p')" "p' < q" "q < length ns \<longrightarrow> k < sl_tall sl (ns ! q) \<and> \<not> ?ok q"
    using w by (auto simp: sl_walked_def is_next_def)
  with Suc.IH [of p' q "r + of_nat (p' - p)"] Suc.prems(1) obtain ls
    where rest: "findUpdate sl go k (ns ! p') (r + of_nat (p' - p)) =
        Some (map (\<lambda>j. (ns ! j, r + of_nat (p' - p) + of_nat (j - p'))) ls)"
      and f: "sl_found sl ns ?ok p' q k ls" by auto
  have "r + of_nat (p' - p) + of_nat (j - p') = r + of_nat (j - p)" if "j \<in> set ls" for j
  proof -
    from that f have "p' \<le> j" by (auto simp: sl_found_def in_set_conv_nth)
    then have "j - p = (p' - p) + (j - p')" using q(1) by simp
    then show ?thesis by (simp add: add.assoc)
  qed
  with walk rest have "findUpdate sl go (Suc k) (ns ! p) r =
      Some (map (\<lambda>j. (ns ! j, r + of_nat (j - p))) (ls @ [p']))" by simp
  with found_step [OF w bounds f] show ?case by blast
qed

section \<open>Passes over the levels\<close>

text \<open>
  The loops over \<^verbatim>\<open>update\<close> change one node per level, at increasing levels: what they
  write on a level depends only on that level.
\<close>

definition on_levels ::
  "nat \<Rightarrow> nat \<Rightarrow> (nat \<Rightarrow> (nat \<Rightarrow> sl_level option) \<Rightarrow> nat \<Rightarrow> sl_level option) \<Rightarrow> skip_list \<Rightarrow> skip_list \<Rightarrow> bool" where
  "on_levels i k f sl sl' \<longleftrightarrow> same_frame sl sl' \<and> (\<forall>y l. levelAt sl' y l =
     (if i \<le> l \<and> l < i + k then f (l - i) (\<lambda>z. levelAt sl z l) y else levelAt sl y l))"

lemma on_levels_0: "on_levels i 0 f sl sl"
  by (auto simp: on_levels_def)

lemma on_levels_1: "on_levels i 1 f sl sl' \<longleftrightarrow> same_frame sl sl' \<and> (\<forall>y l. levelAt sl' y l =
     (if l = i then f 0 (\<lambda>z. levelAt sl z i) y else levelAt sl y l))"
proof -
  have "i \<le> l \<and> l < i + 1 \<longleftrightarrow> l = i" for l by auto
  then show ?thesis by (simp add: on_levels_def cong: if_cong)
qed

lemma on_levels_Suc:
  assumes "on_levels i 1 (\<lambda>_. f 0) sl sl1" "on_levels (Suc i) k (\<lambda>j. f (Suc j)) sl1 sl2"
  shows "on_levels i (Suc k) f sl sl2"
proof -
  have "levelAt sl2 y l = f (l - i) (\<lambda>z. levelAt sl z l) y" if "i \<le> l" "l < i + Suc k" for y l
  proof (cases "l = i")
    case False
    with that obtain j where "l - i = Suc j" "l - Suc i = j" by (metis Suc_diff_Suc le_neq_implies_less)
    with assms that False show ?thesis by (simp add: on_levels_def)
  qed (use assms that in \<open>simp add: on_levels_def\<close>)
  moreover have "levelAt sl2 y l = levelAt sl y l" if "\<not> (i \<le> l \<and> l < i + Suc k)" for y l
    using assms that by (auto simp: on_levels_def)
  moreover have "same_frame sl sl2" using assms by (auto simp: on_levels_def intro: same_frame_trans)
  ultimately show ?thesis by (simp add: on_levels_def)
qed

lemma on_levels_tall: "on_levels i k f sl sl' \<Longrightarrow> sl_tall sl' = sl_tall sl"
  by (simp add: on_levels_def same_frame_tall)

lemma setLevel_on:
  assumes "i < sl_tall sl x"
  shows "\<exists>sl'. setLevel x i lv sl = Some sl' \<and> on_levels i 1 (\<lambda>_ lev y. if y = x then Some lv else lev y) sl sl'"
proof -
  from setLevel_ok [OF assms, of lv] obtain sl' where "setLevel x i lv sl = Some sl'" "same_frame sl sl'"
    "levelAt sl' = (\<lambda>y j. if y = x \<and> j = i then Some lv else levelAt sl y j)" by blast
  then show ?thesis by (auto simp: on_levels_def)
qed

definition link_write ::
  "nat \<Rightarrow> 32 word \<Rightarrow> (nat \<times> 32 word) list \<Rightarrow> nat \<Rightarrow> (nat \<Rightarrow> sl_level option) \<Rightarrow> nat \<Rightarrow> sl_level option" where
  "link_write x r0 upd j lev y = (let (u, r) = upd ! j in
     if y = u then Some \<lparr>forward_to = Some x, span = (r0 - r) + 1\<rparr>
     else if y = x then Some \<lparr>forward_to = forward_to (the (lev u)), span = span (the (lev u)) - (r0 - r)\<rparr>
     else lev y)"

lemma linkLevels_ok:
  assumes "\<And>j. j < length upd \<Longrightarrow>
    fst (upd ! j) \<noteq> x \<and> i + j < sl_tall sl (fst (upd ! j)) \<and> i + j < sl_tall sl x"
  shows "\<exists>sl'. linkLevels x r0 i upd sl = Some sl' \<and> on_levels i (length upd) (link_write x r0 upd) sl sl'"
  using assms
proof (induction x r0 i upd sl rule: linkLevels.induct)
  case (1 x r0 i sl)
  then show ?case by (simp add: on_levels_0)
next
  case (2 x r0 i u r upd sl)
  from 2(2) [of 0] have u: "u \<noteq> x" "i < sl_tall sl u" "i < sl_tall sl x" by auto
  then obtain lu lx where lv: "levelAt sl u i = Some lu" "levelAt sl x i = Some lx"
    using levelAt_Some by meson
  let ?lx = "lx\<lparr>forward_to := forward_to lu, span := span lu - (r0 - r)\<rparr>"
  let ?lu = "lu\<lparr>forward_to := Some x, span := (r0 - r) + 1\<rparr>"
  from setLevel_on [OF u(3)] obtain sl1 where s1: "setLevel x i ?lx sl = Some sl1"
    "on_levels i 1 (\<lambda>_ lev y. if y = x then Some ?lx else lev y) sl sl1" by blast
  with u(2) have "i < sl_tall sl1 u" by (simp add: on_levels_tall)
  from setLevel_on [OF this] obtain sl2 where s2: "setLevel u i ?lu sl1 = Some sl2"
    "on_levels i 1 (\<lambda>_ lev y. if y = u then Some ?lu else lev y) sl1 sl2" by blast
  have t: "sl_tall sl2 = sl_tall sl" using s1(2) s2(2) by (simp add: on_levels_tall)
  have "on_levels i 1 (\<lambda>_. link_write x r0 ((u, r) # upd) 0) sl sl2"
    using s1(2) s2(2) lv u(1) unfolding on_levels_1
    by (auto simp: link_write_def intro: same_frame_trans)
  moreover have "\<exists>sl'. linkLevels x r0 (i + 1) upd sl2 = Some sl' \<and>
      on_levels (i + 1) (length upd) (link_write x r0 upd) sl2 sl'"
  proof (rule 2(1) [OF lv s1(1) s2(1)])
    fix j assume "j < length upd"
    with 2(2) [of "Suc j"] t show "fst (upd ! j) \<noteq> x \<and> i + 1 + j < sl_tall sl2 (fst (upd ! j)) \<and> i + 1 + j < sl_tall sl2 x"
      by simp
  qed
  moreover have "link_write x r0 upd = (\<lambda>j. link_write x r0 ((u, r) # upd) (Suc j))"
    by (simp add: link_write_def fun_eq_iff)
  ultimately show ?case
    using lv s1(1) s2(1) on_levels_Suc [of i "link_write x r0 ((u, r) # upd)" sl sl2 "length upd"] by auto
qed

definition bump_write ::
  "32 word \<Rightarrow> (nat \<times> 32 word) list \<Rightarrow> nat \<Rightarrow> (nat \<Rightarrow> sl_level option) \<Rightarrow> nat \<Rightarrow> sl_level option" where
  "bump_write d upd j lev y =
     (if y = fst (upd ! j) then map_option (\<lambda>lu. lu\<lparr>span := span lu + d\<rparr>) (lev y) else lev y)"

lemma bumpSpans_ok:
  assumes "\<And>j. j < length upd \<Longrightarrow> i + j < sl_tall sl (fst (upd ! j))"
  shows "\<exists>sl'. bumpSpans d i upd sl = Some sl' \<and> on_levels i (length upd) (bump_write d upd) sl sl'"
  using assms
proof (induction d i upd sl rule: bumpSpans.induct)
  case (1 d i sl)
  then show ?case by (simp add: on_levels_0)
next
  case (2 d i u r upd sl)
  from 2(2) [of 0] have u: "i < sl_tall sl u" by simp
  then obtain lu where lv: "levelAt sl u i = Some lu" using levelAt_Some by blast
  from setLevel_on [OF u] obtain sl1 where s1: "setLevel u i (lu\<lparr>span := span lu + d\<rparr>) sl = Some sl1"
    "on_levels i 1 (\<lambda>_ lev y. if y = u then Some (lu\<lparr>span := span lu + d\<rparr>) else lev y) sl sl1" by blast
  have "on_levels i 1 (\<lambda>_. bump_write d ((u, r) # upd) 0) sl sl1"
    using s1(2) lv unfolding on_levels_1 by (auto simp: bump_write_def)
  moreover have "\<exists>sl'. bumpSpans d (i + 1) upd sl1 = Some sl' \<and>
      on_levels (i + 1) (length upd) (bump_write d upd) sl1 sl'"
  proof (rule 2(1) [OF lv s1(1)])
    fix j assume "j < length upd"
    with 2(2) [of "Suc j"] s1(2) show "i + 1 + j < sl_tall sl1 (fst (upd ! j))" by (simp add: on_levels_tall)
  qed
  moreover have "bump_write d upd = (\<lambda>j. bump_write d ((u, r) # upd) (Suc j))"
    by (simp add: bump_write_def fun_eq_iff)
  ultimately show ?case
    using lv s1(1) on_levels_Suc [of i "bump_write d ((u, r) # upd)" sl sl1 "length upd"] by auto
qed

section \<open>Links under insertion\<close>

lemma linksE:
  assumes "sl_links lev hs ns h" "p < length ns" "i < hs ! p"
  obtains q lv where "is_next hs i p q" "lev (ns ! p) i = Some lv"
    "forward_to lv = (if q < length ns then Some (ns ! q) else None)"
    "i < h \<Longrightarrow> span lv = of_nat (min q (length ns - 1) - p)"
  using assms unfolding sl_links_def by blast

lemma linksI:
  assumes "\<And>p i. p < length ns \<Longrightarrow> i < hs ! p \<Longrightarrow>
     \<exists>q lv. is_next hs i p q \<and> lev (ns ! p) i = Some lv \<and>
        forward_to lv = (if q < length ns then Some (ns ! q) else None) \<and>
        (i < h \<longrightarrow> span lv = of_nat (min q (length ns - 1) - p))"
  shows "sl_links lev hs ns h"
  using assms unfolding sl_links_def by blast

text \<open>Distances before and after the insertion of position \<open>P + 1\<close>.\<close>

lemma distance_insert:
  assumes nx: "is_next hs i p q" and u: "is_last hs i P u" and p: "i < hs ! p" and n: "P < length hs"
  shows "p \<noteq> u \<Longrightarrow> min (shift_at P q) (length hs) - shift_at P p = min q (length hs - 1) - p"
    "p = u \<Longrightarrow> min (shift_at P q) (length hs) - shift_at P p = min q (length hs - 1) - p + 1"
    "p = u \<Longrightarrow> min (shift_at P q) (length hs) - Suc P = min q (length hs - 1) - P"
proof -
  note b = next_before_last [OF nx u] and uP = is_lastD(1) [OF u] and pq = is_nextD(1,2) [OF nx]
  show "min (shift_at P q) (length hs) - shift_at P p = min q (length hs - 1) - p" if ne: "p \<noteq> u"
  proof (cases "p < u")
    case True
    with b(1) uP n show ?thesis by (simp add: shift_at_def)
  next
    case False
    with b(2) p ne pq show ?thesis by (auto simp: shift_at_def min_def)
  qed
  assume eq: "p = u"
  with b(3) n have "P < q" by simp
  with eq uP n pq show "min (shift_at P q) (length hs) - shift_at P p = min q (length hs - 1) - p + 1"
    "min (shift_at P q) (length hs) - Suc P = min q (length hs - 1) - P"
    by (auto simp: shift_at_def min_def)
qed

text \<open>What insertion writes, level by level, next to a node \<open>x\<close> of height \<open>L\<close>.\<close>

definition sl_inserts ::
  "(nat \<Rightarrow> nat \<Rightarrow> sl_level option) \<Rightarrow> (nat \<Rightarrow> nat \<Rightarrow> sl_level option) \<Rightarrow> nat list \<Rightarrow> nat list \<Rightarrow>
    nat list \<Rightarrow> nat \<Rightarrow> nat \<Rightarrow> nat \<Rightarrow> nat \<Rightarrow> bool" where
  "sl_inserts lev lev' hs ns ls h L P x \<longleftrightarrow> sl_links lev hs ns h \<and> length hs = length ns \<and> length ls = h \<and>
     distinct ns \<and> x \<notin> set ns \<and> P < length ns \<and> L \<le> h \<and> (\<forall>i < h. is_last hs i P (ls ! i)) \<and>
     (\<forall>p. 0 < p \<and> p < length ns \<longrightarrow> hs ! p \<le> h) \<and>
     (\<forall>i < L. \<forall>y \<in> insert x (set ns).
        lev' y i = link_write x (of_nat P) (map (\<lambda>j. (ns ! j, of_nat j)) ls) i (\<lambda>z. lev z i) y) \<and>
     (\<forall>i y. L \<le> i \<and> i < h \<and> y \<in> set ns \<longrightarrow>
        lev' y i = bump_write 1 (map (\<lambda>j. (ns ! j, of_nat j)) ls) i (\<lambda>z. lev z i) y) \<and>
     (\<forall>i y. h \<le> i \<and> y \<in> set ns \<longrightarrow> lev' y i = lev y i)"

lemma insertsD:
  assumes "sl_inserts lev lev' hs ns ls h L P x"
  shows "sl_links lev hs ns h" "length hs = length ns" "length ls = h"
    "distinct ns" "x \<notin> set ns" "P < length ns" "L \<le> h"
    "\<And>i. i < h \<Longrightarrow> is_last hs i P (ls ! i)"
    "\<And>p. 0 < p \<Longrightarrow> p < length ns \<Longrightarrow> hs ! p \<le> h"
    "\<And>y i. i < L \<Longrightarrow> y \<in> insert x (set ns) \<Longrightarrow>
      lev' y i = link_write x (of_nat P) (map (\<lambda>j. (ns ! j, of_nat j)) ls) i (\<lambda>z. lev z i) y"
    "\<And>y i. L \<le> i \<Longrightarrow> i < h \<Longrightarrow> y \<in> set ns \<Longrightarrow>
      lev' y i = bump_write 1 (map (\<lambda>j. (ns ! j, of_nat j)) ls) i (\<lambda>z. lev z i) y"
    "\<And>y i. h \<le> i \<Longrightarrow> y \<in> set ns \<Longrightarrow> lev' y i = lev y i"
  using assms unfolding sl_inserts_def by blast+

lemma update_node:
  "sl_inserts lev lev' hs ns ls h L P x \<Longrightarrow> i < h \<Longrightarrow> ls ! i < length ns \<and> ls ! i \<le> P \<and> i < hs ! (ls ! i)"
  using is_lastD(1,2) [OF insertsD(8), of lev lev' hs ns ls h L P x i] insertsD(6) by fastforce

lemma new_node:
  assumes ins: "sl_inserts lev lev' hs ns ls h L P x" and i: "i < L"
  shows "\<exists>q lv. is_next (insertAt (Suc P) L hs) i (Suc P) q \<and> lev' x i = Some lv \<and>
    forward_to lv = (if q < Suc (length ns) then Some (insertAt (Suc P) x ns ! q) else None) \<and>
    span lv = of_nat (min q (length ns) - Suc P)"
proof -
  let ?u = "ls ! i"
  note old = insertsD(1) [OF ins] and len = insertsD(2,3) [OF ins] and dist = insertsD(4,5) [OF ins]
    and P = insertsD(6) [OF ins] and L = insertsD(7) [OF ins] and last = insertsD(8) [OF ins]
    and new_low = insertsD(10) [OF ins]
  from i L have ih: "i < h" by simp
  note u = update_node [OF ins ih]
  from linksE [OF old, of ?u i] u obtain q lv where q: "is_next hs i ?u q" "lev (ns ! ?u) i = Some lv"
    "forward_to lv = (if q < length ns then Some (ns ! q) else None)"
    "span lv = of_nat (min q (length ns - 1) - ?u)" using ih by blast
  have "P < q" using next_before_last(3) [OF q(1) last [OF ih] refl] P len by simp
  then have M: "?u \<le> P" "P \<le> min q (length ns - 1)" using u P by auto
  have "span lv - (of_nat P - of_nat ?u) = (of_nat (min q (length ns - 1) - P) :: 32 word)"
    using M q(4) by (simp add: of_nat_diff)
  moreover have "x \<noteq> ns ! ?u" using dist(2) u by auto
  ultimately have "lev' x i = Some \<lparr>forward_to = forward_to lv, span = of_nat (min q (length ns - 1) - P)\<rparr>"
    using new_low [OF i, of x] q(2) ih len(2) by (simp add: link_write_def)
  moreover have "min (shift_at P q) (length ns) - Suc P = min q (length ns - 1) - P"
    using distance_insert(3) [OF q(1) last [OF ih]] u P len by simp
  moreover have "is_next (insertAt (Suc P) L hs) i (Suc P) (shift_at P q)"
    using next_insert_new(1) [OF _ q(1) last [OF ih]] P len by simp
  ultimately show ?thesis using q(3) P
    by (intro exI [of _ "shift_at P q"] exI conjI) (assumption | simp)+
qed

lemma old_node:
  assumes ins: "sl_inserts lev lev' hs ns ls h L P x" and p: "p < length ns" and i: "i < hs ! p"
  shows "\<exists>q lv. is_next (insertAt (Suc P) L hs) i (shift_at P p) q \<and> lev' (ns ! p) i = Some lv \<and>
    forward_to lv = (if q < Suc (length ns) then Some (insertAt (Suc P) x ns ! q) else None) \<and>
    (i < h \<longrightarrow> span lv = of_nat (min q (length ns) - shift_at P p))"
proof -
  note old = insertsD(1) [OF ins] and len = insertsD(2,3) [OF ins] and dist = insertsD(4,5) [OF ins]
    and P = insertsD(6) [OF ins] and L = insertsD(7) [OF ins] and last = insertsD(8) [OF ins]
    and low = insertsD(9) [OF ins] and new_low = insertsD(10) [OF ins]
    and new_mid = insertsD(11) [OF ins] and new_high = insertsD(12) [OF ins]
  from linksE [OF old p i] obtain q lv where q: "is_next hs i p q" "lev (ns ! p) i = Some lv"
    "forward_to lv = (if q < length ns then Some (ns ! q) else None)"
    "i < h \<Longrightarrow> span lv = of_nat (min q (length ns - 1) - p)" by blast
  have P': "Suc P \<le> length hs" "P < length hs" using P len by auto
  have fwd: "forward_to lv = (if shift_at P q < Suc (length ns) then Some (insertAt (Suc P) x ns ! shift_at P q) else None)"
    using q(3) P by simp
  have px: "ns ! p \<noteq> x" using dist(2) p by auto
  show ?thesis
  proof (cases "i < h")
    case False
    with low [of p] p i have p0: "p = 0" by (metis le_less_trans less_le_not_le not_gr_zero not_less)
    have "hs ! k \<le> i" if "0 < k" "k \<le> P" for k
      using low [of k] that P False by linarith
    with i p0 have "is_last hs i P 0" by (simp add: is_last_def)
    from next_insert_old [OF P'(1) q(1) i this] L False
    have "is_next (insertAt (Suc P) L hs) i (shift_at P p) (shift_at P q)" by simp
    moreover have "lev' (ns ! p) i = Some lv" using new_high [of i "ns ! p"] False p q(2) by simp
    ultimately show ?thesis using fwd False by blast
  next
    case True
    note u = update_node [OF ins True] and last' = last [OF True]
    have same: "ns ! p = ns ! (ls ! i) \<longleftrightarrow> p = ls ! i" using dist(1) p u by (simp add: nth_eq_iff_index_eq)
    consider (linked) "p = ls ! i" "i < L" | (bumped) "p = ls ! i" "L \<le> i" | (other) "p \<noteq> ls ! i" by linarith
    then show ?thesis
    proof cases
      case linked
      then have "shift_at P p = p" using u by (simp add: shift_at_def)
      moreover have "lev' (ns ! p) i = Some \<lparr>forward_to = Some x, span = of_nat P - of_nat p + 1\<rparr>"
        using new_low [OF linked(2), of "ns ! p"] linked p True len(2) by (simp add: link_write_def)
      moreover have "of_nat P - of_nat p + 1 = (of_nat (Suc P - p) :: 32 word)"
        using linked u by (simp add: of_nat_diff Suc_diff_le)
      ultimately show ?thesis
        using next_insert_new(2) [OF P'(1) _ last' linked(2)] q(1) linked P
        by (intro exI [of _ "Suc P"] exI conjI) (assumption | simp)+
    next
      case bumped
      have "lev' (ns ! p) i = Some (lv\<lparr>span := span lv + 1\<rparr>)"
        using new_mid [OF bumped(2) True, of "ns ! p"] bumped p True len(2) q(2) by (simp add: bump_write_def)
      moreover have "span lv + 1 = of_nat (min (shift_at P q) (length ns) - shift_at P p)"
        using distance_insert(2) [OF q(1) last' i P'(2)] bumped(1) q(4) [OF True] len(1) by simp
      moreover have "is_next (insertAt (Suc P) L hs) i (shift_at P p) (shift_at P q)"
        by (rule next_insert_old [OF P'(1) q(1) i last']) (use bumped in simp)
      ultimately show ?thesis using fwd
        by (intro exI [of _ "shift_at P q"] exI conjI) (assumption | simp)+
    next
      case other
      have "lev' (ns ! p) i = Some lv"
      proof (cases "i < L")
        case True
        with new_low [OF True, of "ns ! p"] other same p px \<open>i < h\<close> len(2) q(2) show ?thesis
          by (simp add: link_write_def)
      next
        case False
        with new_mid [of i "ns ! p"] other same p True len(2) q(2) show ?thesis
          by (simp add: bump_write_def)
      qed
      moreover have "span lv = of_nat (min (shift_at P q) (length ns) - shift_at P p)"
        using distance_insert(1) [OF q(1) last' i P'(2) other] q(4) [OF True] len(1) by simp
      moreover have "is_next (insertAt (Suc P) L hs) i (shift_at P p) (shift_at P q)"
        by (rule next_insert_old [OF P'(1) q(1) i last']) (use other in simp)
      ultimately show ?thesis using fwd
        by (intro exI [of _ "shift_at P q"] exI conjI) (assumption | simp)+
    qed
  qed
qed

lemma links_inserted:
  assumes ins: "sl_inserts lev lev' hs ns ls h L P x"
  shows "sl_links lev' (insertAt (Suc P) L hs) (insertAt (Suc P) x ns) h"
proof (rule linksI)
  note len = insertsD(2) [OF ins] and P = insertsD(6) [OF ins]
  fix p' i assume p': "p' < length (insertAt (Suc P) x ns)" and i: "i < insertAt (Suc P) L hs ! p'"
  have n: "length (insertAt (Suc P) x ns) = Suc (length ns)" using P by simp
  show "\<exists>q lv. is_next (insertAt (Suc P) L hs) i p' q \<and> lev' (insertAt (Suc P) x ns ! p') i = Some lv \<and>
      forward_to lv = (if q < length (insertAt (Suc P) x ns) then Some (insertAt (Suc P) x ns ! q) else None) \<and>
      (i < h \<longrightarrow> span lv = of_nat (min q (length (insertAt (Suc P) x ns) - 1) - p'))"
  proof (cases rule: position_cases [of p' P])
    case 1
    with i P len have "i < L" by simp
    from new_node [OF ins this] obtain q lv where "is_next (insertAt (Suc P) L hs) i p' q" "lev' x i = Some lv"
      "forward_to lv = (if q < Suc (length ns) then Some (insertAt (Suc P) x ns ! q) else None)"
      "span lv = of_nat (min q (length ns) - p')" unfolding 1 by blast
    with 1 P show ?thesis unfolding n by (intro exI [of _ q] exI [of _ lv]) simp
  next
    case (2 p)
    with p' i P len have "p < length ns" "i < hs ! p" unfolding n by simp_all
    from old_node [OF ins this] obtain q lv where "is_next (insertAt (Suc P) L hs) i p' q" "lev' (ns ! p) i = Some lv"
      "forward_to lv = (if q < Suc (length ns) then Some (insertAt (Suc P) x ns ! q) else None)"
      "i < h \<longrightarrow> span lv = of_nat (min q (length ns) - p')" unfolding 2 by blast
    with 2 P show ?thesis unfolding n by (intro exI [of _ q] exI [of _ lv]) simp
  qed
qed

end
