(* ===== verification/SkipListInsert.thy ===== *)
theory SkipListInsert
  imports SkipListLinks
begin

text \<open>
  The shape of a skip list, \<open>sl_shape\<close>: links, spans, backward pointers, tail, length and
  heights are those of a list of addresses. A new list has it, and \<open>sl_insert\<close> inserts one
  address into this list, at the position the descent finds.
\<close>

section \<open>The invariant\<close>

definition sl_entry :: "skip_list \<Rightarrow> nat \<Rightarrow> string \<times> double" where
  "sl_entry sl x = (case sl_nodes sl x of None \<Rightarrow> ('''', 0) | Some n \<Rightarrow> (member n, score n))"

definition back_link :: "skip_list \<Rightarrow> nat \<Rightarrow> nat option" where
  "back_link sl x = (case sl_nodes sl x of None \<Rightarrow> None | Some n \<Rightarrow> backward n)"

definition back_links :: "(nat \<Rightarrow> nat option) \<Rightarrow> nat list \<Rightarrow> bool" where
  "back_links b xs \<longleftrightarrow> (\<forall>p < length xs. b (xs ! p) = (if p = 0 then None else Some (xs ! (p - 1))))"

definition sl_shape :: "skip_list \<Rightarrow> nat list \<Rightarrow> bool" where
  "sl_shape sl xs \<longleftrightarrow> sl_spine sl (sl_head sl # xs) \<and> sl_length sl = length xs \<and>
     1 \<le> sl_height sl \<and> sl_height sl \<le> SKIPLIST_MAXLEVEL \<and> sl_tall sl (sl_head sl) = SKIPLIST_MAXLEVEL \<and>
     (\<forall>x \<in> set xs. 1 \<le> sl_tall sl x \<and> sl_tall sl x \<le> sl_height sl) \<and>
     (\<forall>x \<in> set (sl_head sl # xs). x < sl_fresh sl) \<and>
     (\<forall>x. sl_nodes sl x \<noteq> None \<longrightarrow> x \<in> set (sl_head sl # xs)) \<and> back_links (back_link sl) xs \<and>
     sl_tail sl = (if xs = [] then None else Some (last xs)) \<and> fst (sl_entry sl (sl_head sl)) = ''''"

lemma shapeD:
  assumes "sl_shape sl xs"
  shows "sl_spine sl (sl_head sl # xs)" "sl_length sl = length xs" "1 \<le> sl_height sl"
    "sl_height sl \<le> 32" "sl_tall sl (sl_head sl) = 32"
    "\<And>x. x \<in> set xs \<Longrightarrow> 1 \<le> sl_tall sl x \<and> sl_tall sl x \<le> sl_height sl"
    "\<And>x. x \<in> set (sl_head sl # xs) \<Longrightarrow> x < sl_fresh sl" "back_links (back_link sl) xs"
    "sl_tail sl = (if xs = [] then None else Some (last xs))" "fst (sl_entry sl (sl_head sl)) = ''''"
    "distinct (sl_head sl # xs)" "\<And>x. sl_nodes sl x \<noteq> None \<Longrightarrow> x \<in> set (sl_head sl # xs)"
  using assms by (auto simp: sl_shape_def SKIPLIST_MAXLEVEL_def sl_spine_def)

lemma entry_frame: "sl_entry sl x = (case sl_frame sl x of None \<Rightarrow> ('''', 0) | Some (m, s, _) \<Rightarrow> (m, s))"
  by (simp add: sl_entry_def sl_frame_def split: option.split)

lemma back_link_frame: "back_link sl x = (case sl_frame sl x of None \<Rightarrow> None | Some (_, _, b, _) \<Rightarrow> b)"
  by (simp add: back_link_def sl_frame_def split: option.split)

lemma frame_node: "sl_nodes sl x \<noteq> None \<longleftrightarrow> sl_frame sl x \<noteq> None"
  by (simp add: sl_frame_def)

lemma same_frameD:
  assumes "same_frame sl sl'"
  shows "sl_fresh sl' = sl_fresh sl" "sl_head sl' = sl_head sl" "sl_tail sl' = sl_tail sl"
    "sl_length sl' = sl_length sl" "sl_height sl' = sl_height sl" "sl_rng sl' = sl_rng sl"
    "sl_entry sl' = sl_entry sl" "back_link sl' = back_link sl" "sl_tall sl' = sl_tall sl"
    "sl_nodes sl' x \<noteq> None \<longleftrightarrow> sl_nodes sl x \<noteq> None"
  using assms by (simp_all only: same_frame_def entry_frame [abs_def] back_link_frame [abs_def]
      tall_frame [abs_def] frame_node)

text \<open>Every reader of the store depends on the nodes only.\<close>

lemma store_cong:
  assumes "sl_nodes sl' = sl_nodes sl"
  shows "levelAt sl' = levelAt sl" "sl_tall sl' = sl_tall sl" "sl_frame sl' = sl_frame sl" "sl_entry sl' = sl_entry sl"
    "back_link sl' = back_link sl"
  using assms by (auto simp: levelAt_def sl_tall_def sl_frame_def sl_entry_def back_link_def fun_eq_iff)

lemma spine_cong:
  "sl_nodes sl' = sl_nodes sl \<Longrightarrow> sl_height sl' = sl_height sl \<Longrightarrow> sl_spine sl' ns = sl_spine sl ns"
  by (simp add: sl_spine_def store_cong [of sl' sl])

lemma shape_rng: "sl_shape (sl\<lparr>sl_rng := g\<rparr>) xs = sl_shape sl xs"
  by (simp add: sl_shape_def store_cong [of "sl\<lparr>sl_rng := g\<rparr>" sl] spine_cong [of "sl\<lparr>sl_rng := g\<rparr>" sl])

lemma newSkipList_shape: "sl_shape (newSkipList rng) []"
proof -
  let ?sl = "newSkipList rng"
  have t: "sl_tall ?sl 0 = 32" by (simp add: newSkipList_def sl_tall_def newNode_def SKIPLIST_MAXLEVEL_def)
  have l: "levelAt ?sl 0 i = Some emptyLevel" if "i < 32" for i
    using that by (simp add: levelAt_def newSkipList_def newNode_def SKIPLIST_MAXLEVEL_def)
  have "sl_links (levelAt ?sl) [32] [0] 1"
  proof (rule linksI)
    fix p i :: nat
    assume "p < length [0 :: nat]" "i < [32] ! p"
    then show "\<exists>q lv. is_next [32] i p q \<and> levelAt ?sl ([0] ! p) i = Some lv \<and>
        forward_to lv = (if q < length [0 :: nat] then Some ([0] ! q) else None) \<and>
        (i < 1 \<longrightarrow> span lv = of_nat (min q (length [0 :: nat] - 1) - p))"
      using l [of i] by (intro exI [of _ 1] exI [of _ emptyLevel]) (simp add: is_next_def emptyLevel_def)
  qed
  then have "sl_spine ?sl [0]" using t by (simp add: sl_spine_def newSkipList_def)
  with t show ?thesis
    by (simp add: sl_shape_def back_links_def SKIPLIST_MAXLEVEL_def)
      (simp add: newSkipList_def sl_entry_def newNode_def)
qed

section \<open>Insertion\<close>

lemma randomLevelLoop_bounds:
  "randomLevelLoop k rng l = (l', rng') \<Longrightarrow> l \<le> SKIPLIST_MAXLEVEL \<Longrightarrow> l \<le> l' \<and> l' \<le> SKIPLIST_MAXLEVEL"
proof (induction k arbitrary: rng l)
  case (Suc k)
  then show ?case by (auto split: if_splits dest!: Suc.IH)
qed simp

lemma randomLevel_bounds:
  assumes "randomLevel sl = (L, sl1)"
  shows "1 \<le> L" "L \<le> 32" "\<exists>g. sl1 = sl\<lparr>sl_rng := g\<rparr>"
  using assms randomLevelLoop_bounds [of SKIPLIST_MAXLEVEL "sl_rng sl" 1]
  by (auto simp: randomLevel_def SKIPLIST_MAXLEVEL_def split: prod.splits)

lemma raiseLevels_ok:
  assumes "i + k \<le> sl_tall sl (sl_head sl)"
  shows "\<exists>sl'. raiseLevels k i sl = Some sl' \<and> on_levels i k (\<lambda>_ lev y.
    if y = sl_head sl then map_option (\<lambda>lv. lv\<lparr>span := of_nat (sl_length sl)\<rparr>) (lev y) else lev y) sl sl'"
  using assms
proof (induction k arbitrary: i sl)
  case 0
  then show ?case by (auto simp: on_levels_0)
next
  case (Suc k)
  then have t: "i < sl_tall sl (sl_head sl)" by simp
  then obtain lv where lv: "levelAt sl (sl_head sl) i = Some lv" using levelAt_Some by blast
  let ?f = "\<lambda>_ lev y. if y = sl_head sl then map_option (\<lambda>lv. lv\<lparr>span := of_nat (sl_length sl)\<rparr>) (lev y) else lev y"
  from setLevel_on [OF t] obtain sl1
    where s1: "setLevel (sl_head sl) i (lv\<lparr>span := of_nat (sl_length sl)\<rparr>) sl = Some sl1"
      "on_levels i 1 (\<lambda>_ lev y. if y = sl_head sl then Some (lv\<lparr>span := of_nat (sl_length sl)\<rparr>) else lev y) sl sl1"
    by blast
  then have sf: "sl_head sl1 = sl_head sl" "sl_length sl1 = sl_length sl" "sl_tall sl1 = sl_tall sl"
    by (simp_all add: on_levels_def same_frameD)
  have "on_levels i 1 ?f sl sl1" using s1(2) lv unfolding on_levels_1 by auto
  moreover have "Suc i + k \<le> sl_tall sl1 (sl_head sl1)" using Suc.prems sf by simp
  from Suc.IH [OF this] obtain sl' where "raiseLevels k (Suc i) sl1 = Some sl'"
    "on_levels (Suc i) k ?f sl1 sl'" unfolding sf by blast
  ultimately show ?case using lv s1(1) on_levels_Suc [of i ?f sl sl1 k sl'] by auto
qed

lemma raise_shape:
  assumes sh: "sl_shape sl xs" and L: "sl_height sl < L" "L \<le> 32"
    and raised: "on_levels (sl_height sl) (L - sl_height sl) (\<lambda>_ lev y. if y = sl_head sl
      then map_option (\<lambda>lv. lv\<lparr>span := of_nat (sl_length sl)\<rparr>) (lev y) else lev y) sl sl1"
  shows "sl_shape (sl1\<lparr>sl_height := L\<rparr>) xs" "same_frame sl sl1"
proof -
  let ?ns = "sl_head sl # xs" and ?h = "sl_height sl" and ?hs = "map (sl_tall sl) (sl_head sl # xs)"
  note shD = shapeD [OF sh]
  show sf: "same_frame sl sl1" using raised by (simp add: on_levels_def)
  have lev: "levelAt sl1 y i = (if ?h \<le> i \<and> i < L \<and> y = sl_head sl
      then map_option (\<lambda>lv. lv\<lparr>span := of_nat (sl_length sl)\<rparr>) (levelAt sl y i) else levelAt sl y i)" for y i
    using raised L by (auto simp: on_levels_def)
  have "sl_links (levelAt sl1) ?hs ?ns L"
  proof (rule linksI)
    fix p i assume p: "p < length ?ns" and i: "i < ?hs ! p"
    have "sl_links (levelAt sl) ?hs ?ns ?h" using shD(1) by (simp add: sl_spine_def)
    with p i obtain q lv where q: "is_next ?hs i p q" "levelAt sl (?ns ! p) i = Some lv"
      "forward_to lv = (if q < length ?ns then Some (?ns ! q) else None)"
      "i < ?h \<Longrightarrow> span lv = of_nat (min q (length ?ns - 1) - p)" by (blast elim: linksE)
    have above: "q = length ?ns" "p = 0" if "?h \<le> i"
    proof -
      have "hs \<le> i" if "hs \<in> sl_tall sl ` set xs" for hs using shD(6) that \<open>?h \<le> i\<close> by fastforce
      then have low: "?hs ! k \<le> i" if "0 < k" "k < length ?ns" for k using that by (cases k) auto
      then show "p = 0" using p i by (metis gr0I leD)
      show "q = length ?ns" using low [of q] is_nextD [OF q(1)] by (metis gr_implies_not0 gr0I leD le_neq_implies_less length_map)
    qed
    show "\<exists>q lv. is_next ?hs i p q \<and> levelAt sl1 (?ns ! p) i = Some lv \<and>
        forward_to lv = (if q < length ?ns then Some (?ns ! q) else None) \<and>
        (i < L \<longrightarrow> span lv = of_nat (min q (length ?ns - 1) - p))"
    proof (cases "?h \<le> i \<and> i < L")
      case True
      with above q lev [of "?ns ! p" i] have "levelAt sl1 (?ns ! p) i = Some (lv\<lparr>span := of_nat (sl_length sl)\<rparr>)"
        by simp
      with q(1,3) above True shD(2) show ?thesis
        by (intro exI [of _ q] exI [of _ "lv\<lparr>span := of_nat (sl_length sl)\<rparr>"]) simp
    next
      case False
      with lev [of "?ns ! p" i] q(2) have "levelAt sl1 (?ns ! p) i = Some lv" by auto
      with q False L show ?thesis by (intro exI [of _ q] exI [of _ lv]) auto
    qed
  qed
  moreover have "\<forall>x \<in> set xs. sl_tall sl x \<le> L" using shD(6) L(1) by fastforce
  ultimately show "sl_shape (sl1\<lparr>sl_height := L\<rparr>) xs"
    using shD L same_frameD [OF sf]
    by (simp add: sl_shape_def sl_spine_def SKIPLIST_MAXLEVEL_def store_cong [of "sl1\<lparr>sl_height := L\<rparr>" sl1])
qed

definition add_node :: "nat \<Rightarrow> double \<Rightarrow> string \<Rightarrow> skip_list \<Rightarrow> skip_list" where
  "add_node L s m sl = sl\<lparr>sl_nodes := (sl_nodes sl)(sl_fresh sl \<mapsto> newNode L s m), sl_fresh := sl_fresh sl + 1\<rparr>"

lemma add_node_reads:
  "levelAt (add_node L s m sl) y i =
     (if y = sl_fresh sl then if i < L then Some emptyLevel else None else levelAt sl y i)"
  "sl_tall (add_node L s m sl) = (sl_tall sl)(sl_fresh sl := L)"
  "sl_frame (add_node L s m sl) = (sl_frame sl)(sl_fresh sl \<mapsto> (m, s, None, L))"
  "sl_fields (add_node L s m sl) = (sl_fresh sl + 1, sl_head sl, sl_tail sl, sl_length sl, sl_height sl)"
  by (auto simp: add_node_def levelAt_def sl_tall_def sl_frame_def newNode_def sl_fields_def fun_eq_iff)

lemma splice_links:
  assumes sh: "sl_shape sl xs" and L: "1 \<le> L" "L \<le> sl_height sl" and P: "P \<le> length xs"
    and ls: "length ls = sl_height sl"
      "\<And>i. i < sl_height sl \<Longrightarrow> is_last (map (sl_tall sl) (sl_head sl # xs)) i P (ls ! i)"
    and upd: "upd = map (\<lambda>j. ((sl_head sl # xs) ! j, of_nat j)) ls"
  shows "\<exists>sl4 sl5. linkLevels (sl_fresh sl) (of_nat P) 0 (take L upd) (add_node L s m sl) = Some sl4 \<and>
    bumpSpans 1 L (drop L upd) sl4 = Some sl5 \<and> same_frame (add_node L s m sl) sl5 \<and>
    sl_spine sl5 (insertAt (Suc P) (sl_fresh sl) (sl_head sl # xs))"
proof -
  let ?ns = "sl_head sl # xs" and ?h = "sl_height sl" and ?hs = "map (sl_tall sl) (sl_head sl # xs)"
  let ?x = "sl_fresh sl" and ?sl3 = "add_node L s m sl"
  note shD = shapeD [OF sh]
  have x: "?x \<notin> set ?ns" using shD(7) by blast
  have u: "ls ! j < length ?ns" "j < sl_tall sl (?ns ! (ls ! j))" "?ns ! (ls ! j) \<noteq> ?x" if "j < ?h" for j
  proof -
    show b: "ls ! j < length ?ns" using is_lastD(1) [OF ls(2) [OF that]] P by simp
    show "j < sl_tall sl (?ns ! (ls ! j))" using is_lastD(2) [OF ls(2) [OF that]] b by (simp only: nth_map)
    show "?ns ! (ls ! j) \<noteq> ?x" using x nth_mem [OF b] by metis
  qed
  have nth: "fst (upd ! j) = ?ns ! (ls ! j)" if "j < ?h" for j using that upd ls(1) by simp
  have "\<exists>sl4. linkLevels ?x (of_nat P) 0 (take L upd) ?sl3 = Some sl4 \<and>
      on_levels 0 (length (take L upd)) (link_write ?x (of_nat P) (take L upd)) ?sl3 sl4"
    by (rule linkLevels_ok) (use u nth L upd ls(1) in \<open>auto simp: add_node_reads\<close>)
  then obtain sl4 where s4: "linkLevels ?x (of_nat P) 0 (take L upd) ?sl3 = Some sl4"
    "on_levels 0 L (link_write ?x (of_nat P) (take L upd)) ?sl3 sl4" using upd ls(1) L by auto
  have t4: "sl_tall sl4 = (sl_tall sl)(?x := L)" using s4(2) by (simp add: on_levels_tall add_node_reads)
  have "\<exists>sl5. bumpSpans 1 L (drop L upd) sl4 = Some sl5 \<and>
      on_levels L (length (drop L upd)) (bump_write 1 (drop L upd)) sl4 sl5"
    by (rule bumpSpans_ok) (use u nth L upd ls(1) t4 in auto)
  then obtain sl5 where s5: "bumpSpans 1 L (drop L upd) sl4 = Some sl5"
    "on_levels L (?h - L) (bump_write 1 (drop L upd)) sl4 sl5" using upd ls(1) by auto
  have sf: "same_frame ?sl3 sl5" using s4(2) s5(2) by (auto simp: on_levels_def intro: same_frame_trans)
  have low: "levelAt sl5 y i = link_write ?x (of_nat P) (take L upd) i (\<lambda>z. levelAt ?sl3 z i) y" if "i < L" for y i
    using s4(2) s5(2) that by (auto simp: on_levels_def)
  have mid: "levelAt sl5 y i = bump_write 1 (drop L upd) (i - L) (\<lambda>z. levelAt ?sl3 z i) y"
    if "L \<le> i" "i < ?h" for y i
    using s4(2) s5(2) that by (auto simp: on_levels_def bump_write_def)
  have high: "levelAt sl5 y i = levelAt ?sl3 y i" if "?h \<le> i" for y i
    using s4(2) s5(2) that L by (auto simp: on_levels_def)
  have "sl_inserts (levelAt sl) (levelAt sl5) ?hs ?ns ls ?h L P ?x"
    unfolding sl_inserts_def
  proof (intro conjI allI impI ballI)
    show "sl_links (levelAt sl) ?hs ?ns ?h" using shD(1) by (simp add: sl_spine_def)
    show "?hs ! p \<le> ?h" if "0 < p \<and> p < length ?ns" for p using that shD(6) by (cases p) auto
  next
    fix i y assume i: "i < L" and y: "y \<in> insert ?x (set ?ns)"
    then have "take L upd ! i = upd ! i" "i < ?h" using L by auto
    with low [OF i, of y] nth [of i] u(3) [of i] show "levelAt sl5 y i =
        link_write ?x (of_nat P) (map (\<lambda>j. (?ns ! j, of_nat j)) ls) i (\<lambda>z. levelAt sl z i) y"
      using ls(1) unfolding link_write_def upd by (simp add: add_node_reads)
  next
    fix i y assume i: "L \<le> i \<and> i < ?h \<and> y \<in> set ?ns"
    with x have "y \<noteq> ?x" by metis
    with i mid [of i y] upd ls(1) show "levelAt sl5 y i =
        bump_write 1 (map (\<lambda>j. (?ns ! j, of_nat j)) ls) i (\<lambda>z. levelAt sl z i) y"
      by (simp add: bump_write_def add_node_reads)
  next
    fix i y assume i: "?h \<le> i \<and> y \<in> set ?ns"
    with x have "y \<noteq> ?x" by metis
    with i high [of i y] show "levelAt sl5 y i = levelAt sl y i" by (simp add: add_node_reads)
  qed (use shD P x L ls in auto)
  from links_inserted [OF this]
  have "sl_links (levelAt sl5) (insertAt (Suc P) L ?hs) (insertAt (Suc P) ?x ?ns) ?h" .
  moreover have "map (sl_tall sl5) (insertAt (Suc P) ?x ?ns) = insertAt (Suc P) L ?hs"
  proof -
    have "map (sl_tall sl5) ?ns = ?hs" using same_frameD(9) [OF sf] x by (auto simp: add_node_reads)
    moreover have "sl_tall sl5 ?x = L" using same_frameD(9) [OF sf] by (simp add: add_node_reads)
    ultimately show ?thesis by (simp only: map_insertAt)
  qed
  moreover have "sl_nodes sl5 y \<noteq> None" if "y \<in> insert ?x (set ?ns)" for y
    using that shD(1) same_frameD(10) [OF sf, of y] by (auto simp: sl_spine_def add_node_def)
  moreover have "sl_height sl5 = ?h" using same_frameD(5) [OF sf] by (simp add: add_node_def)
  ultimately have "sl_spine sl5 (insertAt (Suc P) ?x ?ns)"
    using x shD(11) unfolding sl_spine_def set_insertAt distinct_insertAt by simp
  with s4(1) s5(1) sf show ?thesis by blast
qed

lemma level0:
  assumes "sl_spine sl ns" "p < length ns" "\<And>x. x \<in> set ns \<Longrightarrow> 1 \<le> sl_tall sl x"
  shows "\<exists>lv. levelAt sl (ns ! p) 0 = Some lv \<and>
    forward_to lv = (if Suc p < length ns then Some (ns ! Suc p) else None)"
proof -
  have pos: "0 < sl_tall sl (ns ! k)" if "k < length ns" for k using assms(3) [OF nth_mem [OF that]] by simp
  from spine_level [OF assms(1,2) pos [OF assms(2)]] obtain q lv
    where q: "is_next (map (sl_tall sl) ns) 0 p q" and lv: "levelAt sl (ns ! p) 0 = Some lv"
      "forward_to lv = (if q < length ns then Some (ns ! q) else None)" by blast
  have "\<not> Suc p < q" using is_nextD(2) [OF q] is_nextD(3) [OF q, of "Suc p"] pos [of "Suc p"] by auto
  with is_nextD(1) [OF q] have "q = Suc p" by simp
  with lv show ?thesis by simp
qed

lemma back_links_insert:
  assumes old: "back_links b xs" and P: "P \<le> length xs" and dist: "x \<notin> set xs" "distinct xs"
    and new: "b' x = (if P = 0 then None else Some (xs ! (P - 1)))"
      "P < length xs \<Longrightarrow> b' (xs ! P) = Some x"
      "\<And>p. p < length xs \<Longrightarrow> p \<noteq> P \<Longrightarrow> b' (xs ! p) = b (xs ! p)"
  shows "back_links b' (insertAt P x xs)"
  unfolding back_links_def
proof (intro allI impI)
  fix p assume p: "p < length (insertAt P x xs)"
  have ob: "b (xs ! k) = (if k = 0 then None else Some (xs ! (k - 1)))" if "k < length xs" for k
    using old that by (simp add: back_links_def)
  consider "p < P" | "p = P" | "p = Suc P" | "Suc P < p" by linarith
  then show "b' (insertAt P x xs ! p) = (if p = 0 then None else Some (insertAt P x xs ! (p - 1)))"
  proof cases
    case 1
    with new(3) [of p] ob [of p] P show ?thesis by (simp add: nth_insertAt)
  next
    case 2
    with new(1) P show ?thesis by (simp add: nth_insertAt)
  next
    case 3
    with new(2) p P show ?thesis by (simp add: nth_insertAt)
  next
    case 4
    with p P have "p - 1 < length xs" "p - 1 \<noteq> P" by auto
    with new(3) [of "p - 1"] ob [of "p - 1"] 4 P show ?thesis by (simp add: nth_insertAt)
  qed
qed

text \<open>The end of the insertion: the backward pointers, the tail and the length.\<close>

definition insert_tail :: "nat \<Rightarrow> nat \<Rightarrow> skip_list \<Rightarrow> (nat \<times> skip_list) option" where
  "insert_tail x u0 sl5 = do {
     sl6 \<leftarrow> setBackward x (if u0 = sl_head sl5 then None else Some u0) sl5;
     lx \<leftarrow> levelAt sl6 x 0;
     sl7 \<leftarrow> (case forward_to lx of
              Some y \<Rightarrow> setBackward y (Some x) sl6
            | None \<Rightarrow> Some (sl6\<lparr>sl_tail := Some x\<rparr>));
     Some (x, sl7\<lparr>sl_length := sl_length sl7 + 1\<rparr>) }"

lemma last_insertAt: "P \<le> length xs \<Longrightarrow> last (insertAt P x xs) = (if P < length xs then last xs else x)"
  by (simp add: insertAt_def)

lemma insert_tail_ok:
  assumes sh: "sl_shape sl xs" and L: "1 \<le> L" "L \<le> sl_height sl" and P: "P \<le> length xs"
    and sf: "same_frame (add_node L s m sl) sl5"
    and sp: "sl_spine sl5 (insertAt (Suc P) (sl_fresh sl) (sl_head sl # xs))"
  shows "\<exists>sl'. insert_tail (sl_fresh sl) ((sl_head sl # xs) ! P) sl5 = Some (sl_fresh sl, sl') \<and>
    sl_shape sl' (insertAt P (sl_fresh sl) xs) \<and> sl_head sl' = sl_head sl \<and>
    sl_entry sl' = (sl_entry sl)(sl_fresh sl := (m, s))"
proof -
  let ?x = "sl_fresh sl" and ?ns = "sl_head sl # xs"
  let ?b = "if P = 0 then None else Some (xs ! (P - 1))"
  note shD = shapeD [OF sh]
  have x: "?x \<notin> set ?ns" using shD(7) by blast
  have f5: "sl_frame sl5 = (sl_frame sl)(?x \<mapsto> (m, s, None, L))"
    "sl_fields sl5 = (?x + 1, sl_head sl, sl_tail sl, length xs, sl_height sl)"
    using sf shD(2) add_node_reads(4) [of L s m sl]
    by (simp_all add: same_frame_def add_node_reads(3) sl_fields_def)
  have b: "(if ?ns ! P = sl_head sl5 then None else Some (?ns ! P)) = ?b"
  proof (cases P)
    case (Suc k)
    with P have "xs ! k \<in> set xs" by simp
    with shD(11) Suc f5(2) show ?thesis by (auto simp: sl_fields_def)
  qed (use f5(2) in \<open>simp add: sl_fields_def\<close>)
  from setBackward_ok [of sl5 ?x m s None L ?b] f5(1) obtain sl6
    where s6: "setBackward ?x ?b sl5 = Some sl6" "sl_fields sl6 = sl_fields sl5"
      "sl_frame sl6 = (sl_frame sl)(?x \<mapsto> (m, s, ?b, L))" "levelAt sl6 = levelAt sl5" by auto
  have t5: "sl_tall sl5 = (sl_tall sl)(?x := L)" using f5(1) by (simp add: tall_frame [abs_def] fun_eq_iff)
  have pos: "1 \<le> sl_tall sl5 y" if "y \<in> set (insertAt (Suc P) ?x ?ns)" for y
    using that shD(5,6) L(1) t5 by auto
  have "\<exists>lv. levelAt sl5 (insertAt (Suc P) ?x ?ns ! Suc P) 0 = Some lv \<and> forward_to lv =
      (if Suc (Suc P) < length (insertAt (Suc P) ?x ?ns) then Some (insertAt (Suc P) ?x ?ns ! Suc (Suc P)) else None)"
    by (rule level0 [OF sp _ pos]) (use P in auto)
  then obtain lx where lx: "levelAt sl5 ?x 0 = Some lx"
    "forward_to lx = (if P < length xs then Some (xs ! P) else None)"
    using P by (auto simp: nth_insertAt)
  let ?after = "\<lambda>sl7. levelAt sl7 = levelAt sl5 \<and>
      sl_fields sl7 = (?x + 1, sl_head sl, if P < length xs then sl_tail sl else Some ?x, length xs, sl_height sl) \<and>
      (\<exists>b'. sl_frame sl7 = (\<lambda>y. if y = ?x then Some (m, s, ?b, L)
         else map_option (\<lambda>(m, s, b, h). (m, s, b' y, h)) (sl_frame sl y)) \<and>
        (\<forall>y. b' y = (if P < length xs \<and> y = xs ! P then Some ?x else back_link sl y)))"
  have "\<exists>sl7. (case forward_to lx of Some y \<Rightarrow> setBackward y (Some ?x) sl6
      | None \<Rightarrow> Some (sl6\<lparr>sl_tail := Some ?x\<rparr>)) = Some sl7 \<and> ?after sl7"
  proof (cases "P < length xs")
    case True
    then have y: "xs ! P \<in> set xs" by simp
    then have yx: "xs ! P \<noteq> ?x" using x by (metis list.set_intros(2))
    from y shD(1) have "sl_nodes sl (xs ! P) \<noteq> None" by (simp add: sl_spine_def)
    then obtain m1 s1 b1 h1 where f: "sl_frame sl (xs ! P) = Some (m1, s1, b1, h1)"
      unfolding frame_node by (metis not_None_eq prod_cases4)
    with s6(3) yx have "sl_frame sl6 (xs ! P) = Some (m1, s1, b1, h1)" by simp
    from setBackward_ok [OF this, of "Some ?x"] obtain sl7 where s7: "setBackward (xs ! P) (Some ?x) sl6 = Some sl7"
      "sl_fields sl7 = sl_fields sl6" "levelAt sl7 = levelAt sl6"
      "sl_frame sl7 = (sl_frame sl)(?x \<mapsto> (m, s, ?b, L), xs ! P \<mapsto> (m1, s1, Some ?x, h1))"
      using s6(3) by auto
    have "?after sl7"
    proof (intro conjI exI allI)
      show "sl_frame sl7 = (\<lambda>y. if y = ?x then Some (m, s, ?b, L) else map_option (\<lambda>(m, s, b, h).
          (m, s, if P < length xs \<and> y = xs ! P then Some ?x else back_link sl y, h)) (sl_frame sl y))"
        using s7(4) f yx True by (auto simp: fun_eq_iff back_link_frame split: option.splits)
    qed (use s7 s6 f5 True in auto)
    with s7(1) lx(2) True show ?thesis by simp
  next
    case False
    let ?sl7 = "sl6\<lparr>sl_tail := Some ?x\<rparr>"
    have "?after ?sl7"
    proof (intro conjI exI allI)
      show "sl_frame ?sl7 = (\<lambda>y. if y = ?x then Some (m, s, ?b, L) else map_option (\<lambda>(m, s, b, h).
          (m, s, if P < length xs \<and> y = xs ! P then Some ?x else back_link sl y, h)) (sl_frame sl y))"
        using s6(3) False store_cong(3) [of ?sl7 sl6] by (auto simp: fun_eq_iff back_link_frame split: option.splits)
    qed (use s6 f5 False store_cong(1) [of ?sl7 sl6] in \<open>auto simp: sl_fields_def\<close>)
    with lx(2) False show ?thesis by simp
  qed
  then obtain sl7 b' where s7: "(case forward_to lx of Some y \<Rightarrow> setBackward y (Some ?x) sl6
      | None \<Rightarrow> Some (sl6\<lparr>sl_tail := Some ?x\<rparr>)) = Some sl7" "levelAt sl7 = levelAt sl5"
      "sl_fields sl7 = (?x + 1, sl_head sl, if P < length xs then sl_tail sl else Some ?x, length xs, sl_height sl)"
      "sl_frame sl7 = (\<lambda>y. if y = ?x then Some (m, s, ?b, L)
         else map_option (\<lambda>(m, s, b, h). (m, s, b' y, h)) (sl_frame sl y))"
      "\<And>y. b' y = (if P < length xs \<and> y = xs ! P then Some ?x else back_link sl y)"
    by blast
  define sl' where "sl' = sl7\<lparr>sl_length := sl_length sl7 + 1\<rparr>"
  have fin: "levelAt sl' = levelAt sl5" "sl_frame sl' = sl_frame sl7"
    "sl_fields sl' = (?x + 1, sl_head sl, if P < length xs then sl_tail sl else Some ?x, length xs + 1, sl_height sl)"
    using s7(2,3) store_cong [of sl' sl7] by (auto simp: sl'_def sl_fields_def)
  have reads: "sl_tall sl' = (sl_tall sl)(?x := L)" "sl_entry sl' = (sl_entry sl)(?x := (m, s))"
    "\<And>y. sl_frame sl y \<noteq> None \<Longrightarrow> y \<noteq> ?x \<Longrightarrow> back_link sl' y = b' y" "back_link sl' ?x = ?b"
    by (auto simp: fin(2) s7(4) tall_frame [abs_def] entry_frame [abs_def] back_link_frame fun_eq_iff
        split: option.splits)
  have nodes: "sl_frame sl y \<noteq> None" if "y \<in> set ?ns" for y
    using shD(1) that frame_node [of sl y] unfolding sl_spine_def by blast
  have "back_links (back_link sl') (insertAt P ?x xs)"
  proof (rule back_links_insert [OF shD(8) P])
    show "back_link sl' (xs ! p) = back_link sl (xs ! p)" if "p < length xs" "p \<noteq> P" for p
    proof -
      have "xs ! p \<noteq> xs ! P \<or> \<not> P < length xs" using shD(11) that by (auto simp: nth_eq_iff_index_eq)
      with that x nodes reads(3) s7(5) show ?thesis by (metis list.set_intros(2) nth_mem)
    qed
    show "back_link sl' (xs ! P) = Some ?x" if "P < length xs"
      using that x nodes reads(3) s7(5) by (metis list.set_intros(2) nth_mem)
  qed (use x shD(11) reads(4) in auto)
  moreover have "sl_spine sl' (insertAt (Suc P) ?x ?ns)"
  proof -
    have "sl_tall sl' = sl_tall sl5" using reads(1) t5 by simp
    moreover have "sl_nodes sl' y \<noteq> None" if "y \<in> insert ?x (set ?ns)" for y
      unfolding frame_node fin(2) s7(4) using that nodes [of y] by (cases "y = ?x") simp_all
    moreover have "sl_height sl' = sl_height sl5" using fin(3) f5(2) by (simp add: sl_fields_def)
    ultimately show ?thesis using sp fin(1) by (simp add: sl_spine_def del: insertAt_Suc_Cons)
  qed
  moreover have "x < ?x + 1" if "x \<in> insert ?x (set ?ns)" for x using that shD(7) [of x] by auto
  moreover have "y = ?x \<or> y \<in> set ?ns" if "sl_nodes sl' y \<noteq> None" for y
  proof (cases "y = ?x")
    case False
    with that have "sl_nodes sl y \<noteq> None" unfolding frame_node fin(2) s7(4) by simp
    then show ?thesis using shD(12) by blast
  qed simp
  then have "\<forall>y. sl_nodes sl' y \<noteq> None \<longrightarrow> y = ?x \<or> y \<in> set ?ns" by blast
  ultimately have "sl_shape sl' (insertAt P ?x xs)"
    using fin(3) reads(1,2) shD(1-11) x P L
    by (auto simp: sl_shape_def sl_fields_def SKIPLIST_MAXLEVEL_def last_insertAt)
  moreover have "insert_tail ?x (?ns ! P) sl5 = Some (?x, sl')"
    using b s6(1,4) lx(1) s7(1) by (simp add: insert_tail_def sl'_def)
  ultimately show ?thesis using reads(2) fin(3) by (simp add: sl_fields_def)
qed

text \<open>The order of the nodes: by score, equal scores by member.\<close>

definition zless :: "string \<times> double \<Rightarrow> string \<times> double \<Rightarrow> bool" where
  "zless e f \<longleftrightarrow> float_lt (snd e) (snd f) \<or> (float_eq (snd e) (snd f) \<and> string_less (fst e) (fst f))"

lemma node_entry:
  "sl_spine sl ns \<Longrightarrow> p < length ns \<Longrightarrow> (member (node_at sl ns p), score (node_at sl ns p)) = sl_entry sl (ns ! p)"
  by (simp add: spine_node sl_entry_def)

lemma precedes_entry:
  assumes "sl_spine sl ns" "p < length ns"
  shows "precedes (node_at sl ns p) s m = zless (sl_entry sl (ns ! p)) (m, s)"
  unfolding node_entry [OF assms, symmetric] by (simp add: precedes_def zless_def)

text \<open>What the descent finds from the head of a well-formed list.\<close>

lemma findUpdate_head:
  assumes sh: "sl_shape sl xs"
  obtains ls P where "findUpdate sl go (sl_height sl) (sl_head sl) 0 =
      Some (map (\<lambda>j. ((sl_head sl # xs) ! j, of_nat j)) ls)"
    "length ls = sl_height sl" "P \<le> length xs" "ls ! 0 = P"
    "\<forall>i < sl_height sl. is_last (map (sl_tall sl) (sl_head sl # xs)) i P (ls ! i)"
    "0 < P \<longrightarrow> go (node_at sl (sl_head sl # xs) P)"
    "P < length xs \<longrightarrow> \<not> go (node_at sl (sl_head sl # xs) (Suc P))"
proof -
  let ?ns = "sl_head sl # xs" and ?hs = "map (sl_tall sl) (sl_head sl # xs)"
  note shD = shapeD [OF sh]
  from findUpdate_ok [OF shD(1), of "sl_height sl" 0 "length ?ns" go 0] shD(4,5) obtain ls
    where f: "findUpdate sl go (sl_height sl) (sl_head sl) 0 = Some (map (\<lambda>j. (?ns ! j, of_nat j)) ls)"
      "sl_found sl ?ns (\<lambda>j. go (node_at sl ?ns j)) 0 (length ?ns) (sl_height sl) ls" by auto
  then have len: "length ls = sl_height sl" by (simp add: sl_found_def)
  with shD(3) have hd: "hd (ls @ [0]) = ls ! 0" by (cases ls) auto
  from f(2) shD(3) obtain q where q: "is_next ?hs 0 (ls ! 0) q" "q < length ?ns \<longrightarrow> \<not> go (node_at sl ?ns q)"
    unfolding sl_found_def hd by auto
  have P: "ls ! 0 \<le> length xs" using f(2) shD(3) unfolding sl_found_def by (cases "sl_height sl") auto
  have "q = Suc (ls ! 0)"
  proof (rule ccontr)
    assume "q \<noteq> Suc (ls ! 0)"
    with is_nextD(1,2) [OF q(1)] have "Suc (ls ! 0) < q" "ls ! 0 < length xs" by auto
    with is_nextD(3) [OF q(1), of "Suc (ls ! 0)"] shD(6) [of "xs ! (ls ! 0)"] show False by simp
  qed
  with f(2) q(2) have *: "\<forall>i < sl_height sl. is_last ?hs i (ls ! 0) (ls ! i)"
    "0 < ls ! 0 \<longrightarrow> go (node_at sl ?ns (ls ! 0))"
    "ls ! 0 < length xs \<longrightarrow> \<not> go (node_at sl ?ns (Suc (ls ! 0)))"
    unfolding sl_found_def hd by auto
  show thesis by (rule that [OF f(1) len P refl *])
qed

lemma sl_insert_shape:
  assumes sh: "sl_shape sl xs"
  shows "\<exists>P x sl'. sl_insert s m sl = Some (x, sl') \<and> P \<le> length xs \<and> x \<notin> set (sl_head sl # xs) \<and>
    sl_shape sl' (insertAt P x xs) \<and> sl_head sl' = sl_head sl \<and> sl_entry sl' = (sl_entry sl)(x := (m, s)) \<and>
    (0 < P \<longrightarrow> zless (sl_entry sl (xs ! (P - 1))) (m, s)) \<and>
    (P < length xs \<longrightarrow> \<not> zless (sl_entry sl (xs ! P)) (m, s))"
proof -
  let ?ns = "sl_head sl # xs" and ?upd = "\<lambda>ls. map (\<lambda>j. ((sl_head sl # xs) ! j, of_nat j :: 32 word)) ls"
  note shD = shapeD [OF sh]
  obtain ls P
    where f: "findUpdate sl (\<lambda>n. precedes n s m) (sl_height sl) (sl_head sl) 0 = Some (?upd ls)"
      "length ls = sl_height sl" "P \<le> length xs" "ls ! 0 = P"
      "\<forall>i < sl_height sl. is_last (map (sl_tall sl) ?ns) i P (ls ! i)"
      "0 < P \<longrightarrow> precedes (node_at sl ?ns P) s m"
      "P < length xs \<longrightarrow> \<not> precedes (node_at sl ?ns (Suc P)) s m"
    by (rule findUpdate_head [OF sh, of "\<lambda>n. precedes n s m"])
  have order: "0 < P \<longrightarrow> zless (sl_entry sl (xs ! (P - 1))) (m, s)" "P < length xs \<longrightarrow> \<not> zless (sl_entry sl (xs ! P)) (m, s)"
    using f(3,6,7) precedes_entry [OF shD(1), of P s m] precedes_entry [OF shD(1), of "Suc P" s m] by auto
  obtain L sl1 where rl: "randomLevel sl = (L, sl1)" by fastforce
  from randomLevel_bounds [OF rl] obtain g where L: "1 \<le> L" "L \<le> 32" and sl1: "sl1 = sl\<lparr>sl_rng := g\<rparr>" by blast
  have sh1: "sl_shape sl1 xs" and e1: "sl_entry sl1 = sl_entry sl" and t1: "sl_tall sl1 = sl_tall sl"
    unfolding sl1 by (simp_all add: sh shape_rng store_cong [of "sl\<lparr>sl_rng := g\<rparr>" sl])
  have h1: "sl_height sl1 = sl_height sl" "sl_head sl1 = sl_head sl" "sl_fresh sl1 = sl_fresh sl" by (simp_all add: sl1)
  have "\<exists>ls' sl2. (if L > sl_height sl1 then do {
          sl' \<leftarrow> raiseLevels (L - sl_height sl1) (sl_height sl1) sl1;
          Some (?upd ls @ replicate (L - sl_height sl1) (sl_head sl1, 0), sl'\<lparr>sl_height := L\<rparr>) }
        else Some (?upd ls, sl1)) = Some (?upd ls', sl2) \<and> sl_shape sl2 xs \<and> L \<le> sl_height sl2 \<and>
      sl_head sl2 = sl_head sl \<and> sl_fresh sl2 = sl_fresh sl \<and> sl_entry sl2 = sl_entry sl \<and> ls' ! 0 = P \<and>
      length ls' = sl_height sl2 \<and> (\<forall>i < sl_height sl2. is_last (map (sl_tall sl2) ?ns) i P (ls' ! i))"
  proof (cases "L > sl_height sl1")
    case True
    have "sl_height sl1 + (L - sl_height sl1) \<le> sl_tall sl1 (sl_head sl1)"
      using True L(2) shapeD(5) [OF sh1] by simp
    from raiseLevels_ok [OF this] obtain sl'
      where r: "raiseLevels (L - sl_height sl1) (sl_height sl1) sl1 = Some sl'"
        "on_levels (sl_height sl1) (L - sl_height sl1) (\<lambda>_ lev y. if y = sl_head sl1
          then map_option (\<lambda>lv. lv\<lparr>span := of_nat (sl_length sl1)\<rparr>) (lev y) else lev y) sl1 sl'"
      by blast
    let ?sl2 = "sl'\<lparr>sl_height := L\<rparr>" and ?ls = "ls @ replicate (L - sl_height sl1) 0"
    from raise_shape [OF sh1 True L(2) r(2)] have sh2: "sl_shape ?sl2 xs" and sf: "same_frame sl1 sl'" by auto
    have t2: "sl_tall ?sl2 = sl_tall sl" "sl_entry ?sl2 = sl_entry sl"
      using same_frameD(7,9) [OF sf] t1 e1 by (simp_all add: store_cong [of ?sl2 sl'])
    have "is_last (map (sl_tall ?sl2) ?ns) i P (?ls ! i)" if i: "i < L" for i
    proof (cases "i < sl_height sl")
      case True
      with f(2,5) show ?thesis unfolding t2 by (simp add: nth_append del: list.map)
    next
      case False
      have "map (sl_tall sl) ?ns ! k \<le> i" if "0 < k" "k \<le> P" for k
        using that f(3) shD(6) [of "xs ! (k - 1)"] False by (cases k) auto
      with f(2) False i h1 shD(5) L(2) show ?thesis unfolding t2 by (simp add: nth_append is_last_def)
    qed
    moreover have "?ls ! 0 = P" using f(2,4) shD(3) by (simp add: nth_append)
    ultimately show ?thesis
      using True r(1) sh2 t2 h1 same_frameD(1,2) [OF sf] f(2)
      by (intro exI [of _ ?ls] exI [of _ ?sl2]) (simp add: map_replicate_const)
  next
    case False
    with f sh1 e1 t1 h1 show ?thesis by (intro exI [of _ ls] exI [of _ sl1]) (simp del: list.map)
  qed
  then obtain ls' sl2 where raise: "(if L > sl_height sl1 then do {
          sl' \<leftarrow> raiseLevels (L - sl_height sl1) (sl_height sl1) sl1;
          Some (?upd ls @ replicate (L - sl_height sl1) (sl_head sl1, 0), sl'\<lparr>sl_height := L\<rparr>) }
        else Some (?upd ls, sl1)) = Some (?upd ls', sl2)"
    and s2: "sl_shape sl2 xs" "L \<le> sl_height sl2" "sl_head sl2 = sl_head sl" "sl_fresh sl2 = sl_fresh sl"
      "sl_entry sl2 = sl_entry sl" "ls' ! 0 = P" "length ls' = sl_height sl2"
      "\<And>i. i < sl_height sl2 \<Longrightarrow> is_last (map (sl_tall sl2) ?ns) i P (ls' ! i)" by blast
  obtain ls1 where ls1: "ls' = P # ls1"
    using s2(6,7) shapeD(3) [OF s2(1)] by (cases ls') auto
  from splice_links [OF s2(1) L(1) s2(2) f(3) s2(7), of "?upd ls'" s m] s2(3,8) obtain sl4 sl5
    where sp: "linkLevels (sl_fresh sl2) (of_nat P) 0 (take L (?upd ls')) (add_node L s m sl2) = Some sl4"
      "bumpSpans 1 L (drop L (?upd ls')) sl4 = Some sl5" "same_frame (add_node L s m sl2) sl5"
      "sl_spine sl5 (insertAt (Suc P) (sl_fresh sl2) (sl_head sl2 # xs))" by auto
  from insert_tail_ok [OF s2(1) L(1) s2(2) f(3) sp(3,4)] obtain sl'
    where fin: "insert_tail (sl_fresh sl2) ((sl_head sl2 # xs) ! P) sl5 = Some (sl_fresh sl2, sl')"
      "sl_shape sl' (insertAt P (sl_fresh sl2) xs)" "sl_head sl' = sl_head sl2"
      "sl_entry sl' = (sl_entry sl2)(sl_fresh sl2 := (m, s))" by blast
  have "sl_insert s m sl = Some (sl_fresh sl2, sl')"
    unfolding sl_insert_def f(1) rl
    using raise sp(1,2) fin(1) s2(3) by (simp add: ls1 insert_tail_def add_node_def Let_def)
  with fin order f(3) s2 show ?thesis
    using shD(7) by (intro exI [of _ P] exI [of _ "sl_fresh sl2"] exI [of _ sl']) auto
qed

end
