(* ===== verification/SkipListSpec.thy ===== *)
theory SkipListSpec
  imports SkipListInsert
begin

text \<open>
  Deletion keeps the shape of a skip list and takes one address out; the destructor and the
  move operations free every node they should.
\<close>

section \<open>Deletion\<close>

definition unlink_write ::
  "nat \<Rightarrow> nat list \<Rightarrow> nat \<Rightarrow> (nat \<Rightarrow> sl_level option) \<Rightarrow> nat \<Rightarrow> sl_level option" where
  "unlink_write x us j lev y = (if y = us ! j then
     (let lu = the (lev y) in Some (if forward_to lu = Some x
        then \<lparr>forward_to = forward_to (the (lev x)), span = span lu + (span (the (lev x)) - 1)\<rparr>
        else lu\<lparr>span := span lu - 1\<rparr>))
     else lev y)"

lemma unlinkLevels_ok:
  assumes "\<And>j. j < length us \<Longrightarrow> i + j < sl_tall sl (us ! j) \<and> us ! j \<noteq> x \<and>
    (\<forall>lu. levelAt sl (us ! j) (i + j) = Some lu \<and> forward_to lu = Some x \<longrightarrow> i + j < sl_tall sl x)"
  shows "\<exists>sl'. unlinkLevels x i us sl = Some sl' \<and> on_levels i (length us) (unlink_write x us) sl sl'"
  using assms
proof (induction x i us sl rule: unlinkLevels.induct)
  case (1 x i sl)
  then show ?case by (simp add: on_levels_0)
next
  case (2 x i u us sl)
  from 2(2) [of 0] have u: "i < sl_tall sl u" "u \<noteq> x"
    and xt: "\<And>lu. levelAt sl u i = Some lu \<Longrightarrow> forward_to lu = Some x \<Longrightarrow> i < sl_tall sl x" by auto
  then obtain lu where lv: "levelAt sl u i = Some lu" using levelAt_Some by blast
  let ?lu = "if forward_to lu = Some x
    then lu\<lparr>span := span lu + (span (the (levelAt sl x i)) - 1), forward_to := forward_to (the (levelAt sl x i))\<rparr>
    else lu\<lparr>span := span lu - 1\<rparr>"
  from setLevel_on [OF u(1)] obtain sl1 where s1: "setLevel u i ?lu sl = Some sl1"
    "on_levels i 1 (\<lambda>_ lev y. if y = u then Some ?lu else lev y) sl sl1" by blast
  have step: "(if forward_to lu = Some x then do {
              lx \<leftarrow> levelAt sl x i;
              setLevel u i (lu\<lparr>span := span lu + (span lx - 1), forward_to := forward_to lx\<rparr>) sl }
            else setLevel u i (lu\<lparr>span := span lu - 1\<rparr>) sl) = Some sl1"
    using s1(1) xt [OF lv] levelAt_Some [of i sl x] by (cases "forward_to lu = Some x") auto
  have "on_levels i 1 (\<lambda>_. unlink_write x (u # us) 0) sl sl1"
    using s1(2) lv unfolding on_levels_1 by (auto simp: unlink_write_def)
  moreover have "\<exists>sl'. unlinkLevels x (i + 1) us sl1 = Some sl' \<and>
      on_levels (i + 1) (length us) (unlink_write x us) sl1 sl'"
  proof (rule 2(1) [OF lv step])
    fix j assume "j < length us"
    moreover have "sl_tall sl1 = sl_tall sl" "levelAt sl1 y (i + 1 + j) = levelAt sl y (i + 1 + j)" for y
      using s1(2) by (simp_all add: on_levels_tall, simp add: on_levels_def)
    ultimately show "i + 1 + j < sl_tall sl1 (us ! j) \<and> us ! j \<noteq> x \<and>
        (\<forall>lu. levelAt sl1 (us ! j) (i + 1 + j) = Some lu \<and> forward_to lu = Some x \<longrightarrow> i + 1 + j < sl_tall sl1 x)"
      using 2(2) [of "Suc j"] by simp
  qed
  moreover have "unlink_write x us = (\<lambda>j. unlink_write x (u # us) (Suc j))"
    by (simp add: unlink_write_def fun_eq_iff)
  ultimately show ?case
    using lv step on_levels_Suc [of i "unlink_write x (u # us)" sl sl1 "length us"] by auto
qed

text \<open>Distances before and after the deletion of position \<open>P + 1\<close>, where \<open>n\<close> nodes remain.\<close>

lemma distance_delete:
  assumes u: "u \<le> P" and n: "Suc P \<le> n" and q: "Suc P \<le> q"
  shows "of_nat (min (Suc P) n - u) + (of_nat (min (Suc q) n - Suc P) - 1) = (of_nat (min q (n - 1) - u) :: 32 word)"
    "of_nat (min (Suc q) n - u) - 1 = (of_nat (min q (n - 1) - u) :: 32 word)"
proof -
  define M where "M = min q (n - 1)"
  have M: "P \<le> M" "min (Suc q) n = Suc M" "min (Suc P) n = Suc P" using n q by (auto simp: M_def min_def)
  show "of_nat (min (Suc P) n - u) + (of_nat (min (Suc q) n - Suc P) - 1) = (of_nat (min q (n - 1) - u) :: 32 word)"
    unfolding M_def [symmetric] using M u by (simp add: of_nat_diff)
  show "of_nat (min (Suc q) n - u) - 1 = (of_nat (min q (n - 1) - u) :: 32 word)"
    unfolding M_def [symmetric] using M u by (simp add: of_nat_diff)
qed

lemma distance_delete_other:
  assumes "Suc P \<le> n" "p \<le> P \<Longrightarrow> q \<le> P" "p < q"
  shows "min (shift_at P q) n - shift_at P p = min q (n - 1) - p"
  using assms by (auto simp: shift_at_def min_def)

definition sl_deletes ::
  "(nat \<Rightarrow> nat \<Rightarrow> sl_level option) \<Rightarrow> (nat \<Rightarrow> nat \<Rightarrow> sl_level option) \<Rightarrow> nat list \<Rightarrow> nat list \<Rightarrow>
    nat list \<Rightarrow> nat \<Rightarrow> nat \<Rightarrow> nat \<Rightarrow> nat \<Rightarrow> bool" where
  "sl_deletes lev lev' hs ns ls h L P x \<longleftrightarrow>
     sl_links lev (insertAt (Suc P) L hs) (insertAt (Suc P) x ns) h \<and> length hs = length ns \<and> length ls = h \<and>
     distinct ns \<and> x \<notin> set ns \<and> P < length ns \<and> L \<le> h \<and>
     (\<forall>i < h. is_last (insertAt (Suc P) L hs) i P (ls ! i)) \<and>
     (\<forall>p. 0 < p \<and> p < length ns \<longrightarrow> hs ! p \<le> h) \<and>
     (\<forall>i < h. \<forall>y \<in> set ns. lev' y i = unlink_write x (map ((!) ns) ls) i (\<lambda>z. lev z i) y) \<and>
     (\<forall>i y. h \<le> i \<and> y \<in> set ns \<longrightarrow> lev' y i = lev y i)"

lemma deletesD:
  assumes "sl_deletes lev lev' hs ns ls h L P x"
  shows "sl_links lev (insertAt (Suc P) L hs) (insertAt (Suc P) x ns) h" "length hs = length ns"
    "length ls = h" "distinct ns" "x \<notin> set ns" "P < length ns" "L \<le> h"
    "\<And>i. i < h \<Longrightarrow> is_last (insertAt (Suc P) L hs) i P (ls ! i)"
    "\<And>p. 0 < p \<Longrightarrow> p < length ns \<Longrightarrow> hs ! p \<le> h"
    "\<And>y i. i < h \<Longrightarrow> y \<in> set ns \<Longrightarrow> lev' y i = unlink_write x (map ((!) ns) ls) i (\<lambda>z. lev z i) y"
    "\<And>y i. h \<le> i \<Longrightarrow> y \<in> set ns \<Longrightarrow> lev' y i = lev y i"
  using assms unfolding sl_deletes_def by blast+

lemma nth_insertAt_low: "p \<le> P \<Longrightarrow> Suc P \<le> length xs \<Longrightarrow> insertAt (Suc P) x xs ! p = xs ! p"
  by (simp add: nth_insertAt)

lemma beyond_shift: "P < q \<Longrightarrow> q \<noteq> Suc P \<Longrightarrow> \<exists>r. q = shift_at P r \<and> q = Suc r \<and> Suc P \<le> r"
  by (cases q) (auto simp: shift_at_def)

lemma deleted_node:
  assumes del: "sl_deletes lev lev' hs ns ls h L P x" and p: "p < length ns" and i: "i < hs ! p"
  shows "\<exists>q lv. is_next hs i p q \<and> lev' (ns ! p) i = Some lv \<and>
    forward_to lv = (if q < length ns then Some (ns ! q) else None) \<and>
    (i < h \<longrightarrow> span lv = of_nat (min q (length ns - 1) - p))"
proof -
  let ?hs = "insertAt (Suc P) L hs" and ?ns = "insertAt (Suc P) x ns" and ?u = "ls ! i"
  note old = deletesD(1) [OF del] and len = deletesD(2,3) [OF del] and dist = deletesD(4,5) [OF del]
    and P = deletesD(6) [OF del] and L = deletesD(7) [OF del] and last = deletesD(8) [OF del]
    and low = deletesD(9) [OF del] and new = deletesD(10) [OF del] and new_high = deletesD(11) [OF del]
  have P': "Suc P \<le> length hs" "Suc P \<le> length ns" using P len by auto
  have bounds: "shift_at P p < length ?ns" "i < ?hs ! shift_at P p" using p i P' by auto
  have sp: "?ns ! shift_at P p = ns ! p" using P' by simp
  from linksE [OF old bounds] obtain q' lv where q': "is_next ?hs i (shift_at P p) q'"
    and lv: "lev (ns ! p) i = Some lv"
    and fwd: "forward_to lv = (if q' < length ?ns then Some (?ns ! q') else None)"
    and spn: "i < h \<Longrightarrow> span lv = of_nat (min q' (length ?ns - 1) - shift_at P p)" unfolding sp by blast
  have n: "length ?ns = Suc (length ns)" using P' by simp
  have shifted: "forward_to lv = (if q < length ns then Some (ns ! q) else None)" if "q' = shift_at P q" for q
    using fwd that P' by simp
  have isx: "forward_to lv = Some x \<longleftrightarrow> q' = Suc P"
  proof (cases "q' = Suc P")
    case False
    then obtain q where "q' = shift_at P q" using position_cases [of q' P] by metis
    with shifted [OF this] False dist(2) show ?thesis by (auto dest: nth_mem)
  qed (use fwd P' in simp)
  show ?thesis
  proof (cases "i < h")
    case False
    have high: "?hs ! k \<le> i" if "0 < k" "k < length ?hs" for k
    proof (cases rule: position_cases [of k P])
      case 1
      with P' L False show ?thesis by simp
    next
      case (2 k')
      then have "?hs ! k = hs ! k'" using P' by simp
      moreover have "0 < k'" "k' < length ns" using that 2 P' len by (auto simp: shift_at_def split: if_splits)
      ultimately show ?thesis using low [of k'] False by simp
    qed
    have p0: "p = 0" using low [of p] p i False by (metis le_trans not_gr_zero not_le)
    have "q' = length ?hs" using high [of q'] is_nextD [OF q'] by (metis gr_implies_not0 gr0I leD le_neq_implies_less)
    then have q: "q' = shift_at P (length ns)" using P' len by (simp add: shift_at_def)
    have "is_next hs i p (length ns)" by (rule next_delete(1) [OF P'(1) q' q])
    moreover have "lev' (ns ! p) i = Some lv" using new_high [of i "ns ! p"] False p lv by simp
    ultimately show ?thesis using shifted [OF q] False by blast
  next
    case True
    note u = is_lastD [OF last [OF True]]
    have u_len: "?u < length ns" using u(1) P by simp
    have us: "map ((!) ns) ls ! i = ns ! ?u" using True len(2) by simp
    have new': "lev' (ns ! p) i = (if p = ?u then Some (if q' = Suc P
        then \<lparr>forward_to = forward_to (the (lev x i)), span = span lv + (span (the (lev x i)) - 1)\<rparr>
        else lv\<lparr>span := span lv - 1\<rparr>) else Some lv)"
    proof -
      have "ns ! p = ns ! ?u \<longleftrightarrow> p = ?u" using dist(1) p u_len by (simp add: nth_eq_iff_index_eq)
      with new [OF True, of "ns ! p"] p lv isx us show ?thesis
        by (cases "p = ?u") (simp_all add: unlink_write_def Let_def)
    qed
    have sid: "shift_at P ?u = ?u" using u(1) by (simp add: shift_at_def)
    note before = next_before_last [OF q' last [OF True]]
    show ?thesis
    proof (cases "p = ?u")
      case pu: True
      have "P < q'" using before(3) pu sid P' by simp
      show ?thesis
      proof (cases "q' = Suc P")
        case True
        have xi: "i < ?hs ! Suc P" using is_nextD(4) [OF q'] True P' by simp
        have "Suc P < length ?ns" "?ns ! Suc P = x" using P' by simp_all
        with linksE [OF old _ xi] obtain q2 lx where q2: "is_next ?hs i (Suc P) q2" "lev x i = Some lx"
          "forward_to lx = (if q2 < length ?ns then Some (?ns ! q2) else None)"
          "span lx = of_nat (min q2 (length ?ns - 1) - Suc P)" using \<open>i < h\<close> by metis
        have "P < q2" "q2 \<noteq> Suc P" using is_nextD(1) [OF q2(1)] by auto
        from beyond_shift [OF this] obtain q
          where q: "q2 = shift_at P q" "q2 = Suc q" "Suc P \<le> q" by blast
        have "is_next hs i p q" using next_delete(2) [OF P'(1) q' True] q2(1) q(1) by simp
        moreover have "forward_to lx = (if q < length ns then Some (ns ! q) else None)"
          using q2(3) q(1) P' by simp
        moreover have "span lv + (span lx - 1) = of_nat (min q (length ns - 1) - p)"
          using distance_delete(1) [OF u(1) P'(2) q(3)] spn [OF \<open>i < h\<close>] q2(4) q(2) True pu sid n by simp
        ultimately show ?thesis using new' pu True q2(2) by auto
      next
        case False
        from beyond_shift [OF \<open>P < q'\<close> False] obtain q where q: "q' = shift_at P q" "q' = Suc q" "Suc P \<le> q" by blast
        have "is_next hs i p q" by (rule next_delete(1) [OF P'(1) q' q(1)])
        moreover have "span lv - 1 = of_nat (min q (length ns - 1) - p)"
          using distance_delete(2) [OF u(1) P'(2) q(3)] spn [OF \<open>i < h\<close>] q(2) pu sid n by simp
        ultimately show ?thesis using new' pu False shifted [OF q(1)] by auto
      qed
    next
      case pu: False
      then have "shift_at P p \<noteq> ?u" using sid by (metis sl_shift_simps(3))
      then have cases: "p \<le> P \<and> q' \<le> P \<or> P < p"
        using before(1,2) bounds(2) u(1) by (metis le_trans linorder_le_less_linear nat_less_le not_less shift_at_def)
      then obtain q where q: "q' = shift_at P q" "p \<le> P \<Longrightarrow> q \<le> P"
      proof
        assume "p \<le> P \<and> q' \<le> P"
        then show thesis using that [of q'] by (simp add: shift_at_def)
      next
        assume "P < p"
        with is_nextD(1) [OF q'] have "P < q'" "q' \<noteq> Suc P" by (auto simp: shift_at_def)
        with beyond_shift [of P q'] \<open>P < p\<close> show thesis using that by (metis leD)
      qed
      have nx: "is_next hs i p q" by (rule next_delete(1) [OF P'(1) q' q(1)])
      have "span lv = of_nat (min q (length ns - 1) - p)"
        using distance_delete_other [OF P'(2) q(2) is_nextD(1) [OF nx]] spn [OF \<open>i < h\<close>] q(1) n by simp
      with nx new' pu shifted [OF q(1)] show ?thesis by auto
    qed
  qed
qed

lemma links_deleted:
  assumes "sl_deletes lev lev' hs ns ls h L P x"
  shows "sl_links lev' hs ns h"
  by (rule linksI) (rule deleted_node [OF assms])

lemma links_lower: "sl_links lev hs ns h \<Longrightarrow> h' \<le> h \<Longrightarrow> sl_links lev hs ns h'"
  unfolding sl_links_def by (meson less_le_trans)

lemma lowerHeight_ok:
  "1 \<le> h \<Longrightarrow> h \<le> sl_tall sl (sl_head sl) \<Longrightarrow> \<exists>h'. lowerHeight sl h = Some h' \<and> 1 \<le> h' \<and> h' \<le> h \<and>
     (\<forall>i. h' \<le> i \<and> i < h \<longrightarrow> (\<exists>lv. levelAt sl (sl_head sl) i = Some lv \<and> forward_to lv = None))"
proof (induction sl h rule: lowerHeight.induct)
  case (3 sl h)
  from 3(3) levelAt_Some [of "Suc h" sl "sl_head sl"] obtain lv
    where lv: "levelAt sl (sl_head sl) (Suc h) = Some lv" by auto
  show ?case
  proof (cases "forward_to lv = None")
    case True
    with 3 lv obtain h' where h': "lowerHeight sl (Suc h) = Some h'" "1 \<le> h'" "h' \<le> Suc h"
      "\<forall>i. h' \<le> i \<and> i < Suc h \<longrightarrow> (\<exists>lv. levelAt sl (sl_head sl) i = Some lv \<and> forward_to lv = None)"
      by auto
    have "\<exists>lv. levelAt sl (sl_head sl) i = Some lv \<and> forward_to lv = None" if "h' \<le> i" "i < Suc (Suc h)" for i
      using h'(4) that lv True by (cases "i = Suc h") auto
    with h' lv True show ?thesis by auto
  qed (use lv in auto)
qed auto

lemma back_links_delete:
  assumes old: "back_links b (insertAt P x xs)" and P: "P \<le> length xs"
    and new: "P < length xs \<Longrightarrow> b' (xs ! P) = b x"
      "\<And>p. p < length xs \<Longrightarrow> p \<noteq> P \<Longrightarrow> b' (xs ! p) = b (xs ! p)"
  shows "back_links b' xs"
  unfolding back_links_def
proof (intro allI impI)
  let ?ys = "insertAt P x xs"
  have ob: "b (?ys ! k) = (if k = 0 then None else Some (?ys ! (k - 1)))" if "k < length ?ys" for k
    using old that by (simp add: back_links_def)
  fix p assume p: "p < length xs"
  consider "p < P" | "p = P" | "P < p" by linarith
  then show "b' (xs ! p) = (if p = 0 then None else Some (xs ! (p - 1)))"
  proof cases
    case 1
    with new(2) [of p] ob [of p] p P show ?thesis by (auto simp: nth_insertAt)
  next
    case 2
    with new(1) ob [of P] p P show ?thesis by (auto simp: nth_insertAt)
  next
    case 3
    with new(2) [of p] ob [of "Suc p"] p P show ?thesis by (auto simp: nth_insertAt)
  qed
qed

text \<open>The deletion up to the pointers of the levels.\<close>

lemma unlink_links:
  assumes sh: "sl_shape sl (insertAt P x xs)" and P: "P \<le> length xs"
    and ls: "length ls = sl_height sl"
      "\<forall>i < sl_height sl. is_last (map (sl_tall sl) (sl_head sl # insertAt P x xs)) i P (ls ! i)"
  shows "\<exists>sl1. unlinkLevels x 0 (map (\<lambda>j. (sl_head sl # insertAt P x xs) ! j) ls) sl = Some sl1 \<and>
    same_frame sl sl1 \<and> (\<forall>i. levelAt sl1 x i = levelAt sl x i) \<and>
    sl_links (levelAt sl1) (map (sl_tall sl) (sl_head sl # xs)) (sl_head sl # xs) (sl_height sl)"
proof -
  let ?ns = "sl_head sl # xs" and ?os = "sl_head sl # insertAt P x xs" and ?h = "sl_height sl"
  let ?us = "map (\<lambda>j. ?os ! j) ls"
  note shD = shapeD [OF sh]
  have os: "?os = insertAt (Suc P) x ?ns" by simp
  have hs: "map (sl_tall sl) ?os = insertAt (Suc P) (sl_tall sl x) (map (sl_tall sl) ?ns)" by (simp add: map_insertAt)
  have x: "x \<notin> set ?ns" "distinct ?ns" using shD(11) unfolding os distinct_insertAt by auto
  have us: "?us ! j = ?ns ! (ls ! j)" "ls ! j < length ?ns" "j < sl_tall sl (?ns ! (ls ! j))" if "j < ?h" for j
  proof -
    note l = is_lastD(1,2) [OF ls(2) [rule_format, OF that]]
    show b: "ls ! j < length ?ns" using l P by simp
    show e: "?us ! j = ?ns ! (ls ! j)" using that ls(1) l P by (simp add: nth_insertAt_low os del: insertAt_Suc_Cons)
    have "ls ! j < length ?os" using b P by simp
    then have "j < sl_tall sl (?os ! (ls ! j))" using l(2) by (simp only: nth_map)
    then show "j < sl_tall sl (?ns ! (ls ! j))" using e that ls(1) by simp
  qed
  have "\<exists>sl1. unlinkLevels x 0 ?us sl = Some sl1 \<and> on_levels 0 (length ?us) (unlink_write x ?us) sl sl1"
  proof (rule unlinkLevels_ok)
    fix j assume j: "j < length ?us"
    then have jh: "j < ?h" using ls(1) by simp
    have ne: "?us ! j \<noteq> x" using us(1,2) [OF jh] x(1) nth_mem by metis
    have fx: "j < sl_tall sl x" if lu: "levelAt sl (?us ! j) j = Some lu" "forward_to lu = Some x" for lu
    proof -
      have "?us ! j = ?os ! (ls ! j)" using j by simp
      moreover have "ls ! j < length ?os" using us(2) [OF jh] P by simp
      moreover have "j < sl_tall sl (?os ! (ls ! j))" using us(1,3) [OF jh] j by simp
      ultimately obtain q lv where q: "is_next (map (sl_tall sl) ?os) j (ls ! j) q" "levelAt sl (?us ! j) j = Some lv"
        "forward_to lv = (if q < length ?os then Some (?os ! q) else None)"
        using spine_level [OF shD(1), of "ls ! j" j] by metis
      with lu have "q < length ?os" "?os ! q = x" by (auto split: if_splits)
      with is_nextD(4) [OF q(1)] show ?thesis by (metis length_map nth_map)
    qed
    with us [OF jh] ne show "0 + j < sl_tall sl (?us ! j) \<and> ?us ! j \<noteq> x \<and>
        (\<forall>lu. levelAt sl (?us ! j) (0 + j) = Some lu \<and> forward_to lu = Some x \<longrightarrow> 0 + j < sl_tall sl x)" by simp
  qed
  then obtain sl1 where s1: "unlinkLevels x 0 ?us sl = Some sl1" "on_levels 0 ?h (unlink_write x ?us) sl sl1"
    using ls(1) by auto
  have lev1: "levelAt sl1 y i = (if i < ?h then unlink_write x ?us i (\<lambda>z. levelAt sl z i) y else levelAt sl y i)" for y i
    using s1(2) by (simp add: on_levels_def)
  have "levelAt sl1 x i = levelAt sl x i" for i
    using us(1,2) [of i] x(1) nth_mem [of "ls ! i" ?ns] by (auto simp: lev1 unlink_write_def)
  moreover have "sl_deletes (levelAt sl) (levelAt sl1) (map (sl_tall sl) ?ns) ?ns ls ?h (sl_tall sl x) P x"
    unfolding sl_deletes_def
  proof (intro conjI allI impI ballI)
    show "sl_links (levelAt sl) (insertAt (Suc P) (sl_tall sl x) (map (sl_tall sl) ?ns)) (insertAt (Suc P) x ?ns) ?h"
      using shD(1) unfolding sl_spine_def hs [symmetric] os [symmetric] by (simp only:)
    show "is_last (insertAt (Suc P) (sl_tall sl x) (map (sl_tall sl) ?ns)) i P (ls ! i)" if "i < ?h" for i
      using ls(2) that unfolding hs by simp
    show "map (sl_tall sl) ?ns ! p \<le> ?h" if "0 < p \<and> p < length ?ns" for p
      using that shD(6) [of "xs ! (p - 1)"] by (cases p) auto
    show "levelAt sl1 y i = unlink_write x (map ((!) ?ns) ls) i (\<lambda>z. levelAt sl z i) y"
      if "i < ?h" "y \<in> set ?ns" for i y
      using that us(1) [OF that(1)] ls(1) by (simp add: lev1 unlink_write_def)
  qed (use x P ls(1) lev1 shD(6) [of x] in auto)
  ultimately show ?thesis
    using s1 links_deleted [of "levelAt sl" "levelAt sl1" "map (sl_tall sl) ?ns" ?ns ls ?h "sl_tall sl x" P x]
    by (auto simp: on_levels_def)
qed

lemma sl_delete_shape:
  assumes sh: "sl_shape sl (insertAt P x xs)" and P: "P \<le> length xs"
    and ls: "length ls = sl_height sl"
      "\<forall>i < sl_height sl. is_last (map (sl_tall sl) (sl_head sl # insertAt P x xs)) i P (ls ! i)"
  shows "\<exists>sl2. deleteNodeInternal x (map (\<lambda>j. (sl_head sl # insertAt P x xs) ! j) ls) sl = Some sl2 \<and>
    (let sl' = sl2\<lparr>sl_nodes := (sl_nodes sl2)(x := None)\<rparr> in
      sl_shape sl' xs \<and> sl_head sl' = sl_head sl \<and> (\<forall>y \<in> set (sl_head sl # xs). sl_entry sl' y = sl_entry sl y))"
proof -
  let ?ns = "sl_head sl # xs" and ?os = "sl_head sl # insertAt P x xs" and ?h = "sl_height sl"
  let ?us = "map (\<lambda>j. ?os ! j) ls"
  note shD = shapeD [OF sh]
  have os: "?os = insertAt (Suc P) x ?ns" by simp
  have x: "x \<notin> set ?ns" "distinct ?ns" using shD(11) unfolding os distinct_insertAt by auto
  have len: "sl_length sl = Suc (length xs)" using shD(2) P by simp
  from unlink_links [OF sh P ls] obtain sl1 where s1: "unlinkLevels x 0 ?us sl = Some sl1"
    "same_frame sl sl1" "\<And>i. levelAt sl1 x i = levelAt sl x i"
    "sl_links (levelAt sl1) (map (sl_tall sl) ?ns) ?ns ?h" by blast
  have nodes: "sl_frame sl y \<noteq> None" if "y \<in> insert x (set ?ns)" for y
    using shD(1) that frame_node [of sl y] unfolding sl_spine_def os set_insertAt by blast
  have f1: "sl_frame sl1 = sl_frame sl" "sl_fields sl1 = sl_fields sl" using s1(2) by (simp_all add: same_frame_def sl_fields_def)
  have pos: "1 \<le> sl_tall sl y" if "y \<in> set ?os" for y using that shD(5,6) by auto
  have "\<exists>lv. levelAt sl (?os ! Suc P) 0 = Some lv \<and>
      forward_to lv = (if Suc (Suc P) < length ?os then Some (?os ! Suc (Suc P)) else None)"
    by (rule level0 [OF shD(1) _ pos]) (use P in auto)
  then obtain lx where lx: "levelAt sl1 x 0 = Some lx"
    "forward_to lx = (if P < length xs then Some (xs ! P) else None)"
    using P s1(3) by (auto simp: nth_insertAt)
  obtain n where n: "sl_nodes sl1 x = Some n" using nodes [of x] f1(1) frame_node [of sl1 x] by auto
  have bn: "backward n = back_link sl x"
    using n s1(2) same_frameD(8) [OF s1(2)] by (metis back_link_def option.simps(5))
  let ?after = "\<lambda>sl2. levelAt sl2 = levelAt sl1 \<and>
      sl_fields sl2 = (sl_fresh sl, sl_head sl, if P < length xs then sl_tail sl else back_link sl x, Suc (length xs), ?h) \<and>
      (\<exists>b'. sl_frame sl2 = (\<lambda>y. map_option (\<lambda>(m, s, b, h). (m, s, b' y, h)) (sl_frame sl y)) \<and>
        (\<forall>y. b' y = (if P < length xs \<and> y = xs ! P then back_link sl x else back_link sl y)))"
  have "\<exists>sl2. (case forward_to lx of Some y \<Rightarrow> setBackward y (backward n) sl1
      | None \<Rightarrow> Some (sl1\<lparr>sl_tail := backward n\<rparr>)) = Some sl2 \<and> ?after sl2"
  proof (cases "P < length xs")
    case True
    then have "xs ! P \<in> insert x (set ?ns)" by simp
    from nodes [OF this] obtain m1 s1' b1 h1 where f: "sl_frame sl (xs ! P) = Some (m1, s1', b1, h1)"
      by (metis not_None_eq prod_cases4)
    with f1(1) have "sl_frame sl1 (xs ! P) = Some (m1, s1', b1, h1)" by simp
    from setBackward_ok [OF this, of "back_link sl x"] obtain sl2
      where s2: "setBackward (xs ! P) (back_link sl x) sl1 = Some sl2" "sl_fields sl2 = sl_fields sl1"
        "levelAt sl2 = levelAt sl1" "sl_frame sl2 = (sl_frame sl)(xs ! P \<mapsto> (m1, s1', back_link sl x, h1))"
      using f1(1) by auto
    have "?after sl2"
    proof (intro conjI exI allI)
      show "sl_frame sl2 = (\<lambda>y. map_option (\<lambda>(m, s, b, h).
          (m, s, if P < length xs \<and> y = xs ! P then back_link sl x else back_link sl y, h)) (sl_frame sl y))"
        using s2(4) f True by (auto simp: fun_eq_iff back_link_frame split: option.splits)
    qed (use s2 f1 True len in \<open>auto simp: sl_fields_def\<close>)
    with s2(1) lx(2) True bn show ?thesis by simp
  next
    case False
    let ?sl2 = "sl1\<lparr>sl_tail := back_link sl x\<rparr>"
    have "?after ?sl2"
    proof (intro conjI exI allI)
      show "sl_frame ?sl2 = (\<lambda>y. map_option (\<lambda>(m, s, b, h).
          (m, s, if P < length xs \<and> y = xs ! P then back_link sl x else back_link sl y, h)) (sl_frame sl y))"
        using f1(1) False store_cong(3) [of ?sl2 sl1]
        by (auto simp: fun_eq_iff back_link_frame split: option.splits)
    qed (use f1 False len store_cong(1) [of ?sl2 sl1] in \<open>auto simp: sl_fields_def\<close>)
    with lx(2) False bn show ?thesis by simp
  qed
  then obtain sl2 b' where s2: "(case forward_to lx of Some y \<Rightarrow> setBackward y (backward n) sl1
      | None \<Rightarrow> Some (sl1\<lparr>sl_tail := backward n\<rparr>)) = Some sl2" "levelAt sl2 = levelAt sl1"
      "sl_fields sl2 = (sl_fresh sl, sl_head sl, if P < length xs then sl_tail sl else back_link sl x, Suc (length xs), ?h)"
      "sl_frame sl2 = (\<lambda>y. map_option (\<lambda>(m, s, b, h). (m, s, b' y, h)) (sl_frame sl y))"
      "\<And>y. b' y = (if P < length xs \<and> y = xs ! P then back_link sl x else back_link sl y)"
    by blast
  have t2: "sl_tall sl2 = sl_tall sl" by (auto simp: s2(4) tall_frame [abs_def] fun_eq_iff split: option.splits)
  have hd2: "sl_head sl2 = sl_head sl" "sl_height sl2 = ?h" using s2(3) by (simp_all add: sl_fields_def)
  have "?h \<le> sl_tall sl2 (sl_head sl2)" using t2 hd2 shD(4,5) by simp
  from lowerHeight_ok [OF shD(3) this] obtain h' where h': "lowerHeight sl2 ?h = Some h'" "1 \<le> h'" "h' \<le> ?h"
    "\<And>i. h' \<le> i \<Longrightarrow> i < ?h \<Longrightarrow> \<exists>lv. levelAt sl2 (sl_head sl) i = Some lv \<and> forward_to lv = None"
    unfolding hd2 by blast
  have low: "sl_tall sl y \<le> h'" if y: "y \<in> set xs" for y
  proof (rule ccontr)
    assume "\<not> sl_tall sl y \<le> h'"
    with shD(6) [of y] y have hy: "h' < sl_tall sl y" "h' < ?h" by auto
    from y obtain k where k: "k < length xs" "xs ! k = y" by (auto simp: in_set_conv_nth)
    have "0 < length ?ns" "h' < map (sl_tall sl) ?ns ! 0" using hy(2) shD(4,5) by simp_all
    from linksE [OF s1(4) this] obtain q lv where q: "is_next (map (sl_tall sl) ?ns) h' 0 q"
      "levelAt sl1 (?ns ! 0) h' = Some lv"
      "forward_to lv = (if q < length ?ns then Some (?ns ! q) else None)" by blast
    with h'(4) [of h'] hy(2) s2(2) have "q = length ?ns"
      using is_nextD(2) [OF q(1)] by (auto split: if_splits)
    with is_nextD(3) [OF q(1), of "Suc k"] k hy(1) show False by simp
  qed
  define sl3 where "sl3 = sl2\<lparr>sl_height := h', sl_length := sl_length sl2 - 1\<rparr>"
  define sl' where "sl' = sl3\<lparr>sl_nodes := (sl_nodes sl3)(x := None)\<rparr>"
  have run: "deleteNodeInternal x ?us sl = Some sl3"
    using s1(1) lx(1) n s2(1) h'(1) hd2 by (simp add: deleteNodeInternal_def sl3_def)
  have fr: "sl_frame sl' y = (if y = x then None else sl_frame sl2 y)" for y
    by (simp add: sl'_def sl3_def sl_frame_def)
  have lev': "levelAt sl' y i = levelAt sl1 y i" if "y \<noteq> x" for y i
    using that s2(2) store_cong(1) [of sl3 sl2] by (simp add: sl'_def sl3_def levelAt_def fun_eq_iff)
  have fl: "sl_fields sl' = (sl_fresh sl, sl_head sl, if P < length xs then sl_tail sl else back_link sl x, length xs, h')"
    using s2(3) by (simp add: sl'_def sl3_def sl_fields_def)
  have reads: "sl_tall sl' y = sl_tall sl y" "sl_entry sl' y = sl_entry sl y" "back_link sl' y = b' y" "sl_nodes sl' y \<noteq> None"
    if "y \<in> set ?ns" for y
    using that x(1) nodes [of y] unfolding tall_frame entry_frame back_link_frame frame_node fr s2(4)
    by (auto split: option.splits)
  have "back_links (back_link sl') xs"
  proof (rule back_links_delete [OF shD(8) P])
    show "back_link sl' (xs ! P) = back_link sl x" if "P < length xs"
      using that reads(3) [of "xs ! P"] s2(5) [of "xs ! P"] by simp
    show "back_link sl' (xs ! p) = back_link sl (xs ! p)" if "p < length xs" "p \<noteq> P" for p
    proof -
      have "xs ! p \<noteq> xs ! P \<or> \<not> P < length xs" using x(2) that by (auto simp: nth_eq_iff_index_eq)
      with that reads(3) [of "xs ! p"] s2(5) [of "xs ! p"] show ?thesis by auto
    qed
  qed
  moreover have "sl_spine sl' ?ns"
  proof -
    have hs: "map (sl_tall sl') ?ns = map (sl_tall sl) ?ns" using reads(1) by simp
    have "sl_links (levelAt sl') (map (sl_tall sl) ?ns) ?ns h'"
    proof (rule linksI)
      fix p i assume p: "p < length ?ns" and i: "i < map (sl_tall sl) ?ns ! p"
      have "?ns ! p \<noteq> x" using x(1) nth_mem [OF p] by metis
      with linksE [OF links_lower [OF s1(4) h'(3)] p i] lev' show "\<exists>q lv. is_next (map (sl_tall sl) ?ns) i p q \<and>
          levelAt sl' (?ns ! p) i = Some lv \<and> forward_to lv = (if q < length ?ns then Some (?ns ! q) else None) \<and>
          (i < h' \<longrightarrow> span lv = of_nat (min q (length ?ns - 1) - p))" by metis
    qed
    moreover have "sl_height sl' = h'" using fl by (simp add: sl_fields_def)
    ultimately show ?thesis unfolding sl_spine_def hs using x(2) reads(4) by simp
  qed
  moreover have "sl_tail sl' = (if xs = [] then None else Some (last xs))"
  proof (cases "P < length xs")
    case True
    with fl shD(9) show ?thesis by (auto simp: sl_fields_def last_insertAt)
  next
    case False
    with P have "P = length xs" by simp
    moreover have "back_link sl x = (if P = 0 then None else Some (insertAt P x xs ! (P - 1)))"
      using shD(8) P unfolding back_links_def by (metis length_insertAt less_Suc_eq_le nth_inserted)
    ultimately show ?thesis using fl by (auto simp: sl_fields_def nth_insertAt last_conv_nth)
  qed
  moreover have "y \<in> set ?ns" if "sl_nodes sl' y \<noteq> None" for y
    using that shD(12) [of y] unfolding frame_node fr s2(4) os set_insertAt by (auto split: if_splits)
  ultimately have "sl_shape sl' xs"
    using fl reads(1,2) shD(4,5,6,7,10) low h'
    by (auto simp: sl_shape_def sl_fields_def SKIPLIST_MAXLEVEL_def)
  with run reads(2) fl show ?thesis by (auto simp: sl'_def sl_fields_def Let_def)
qed

section \<open>Destruction\<close>

text \<open>
  The loop frees exactly the nodes of the lowest level, also after the head is gone: each node
  is read before it is deleted, and never again.
\<close>

lemma slFreeLoop_ok:
  assumes sh: "sl_shape sl xs" and gone: "G \<subseteq> {sl_head sl}"
  shows "p \<le> length xs \<Longrightarrow> (\<And>y. sl_nodes this y = (if y \<in> G \<union> set (take p xs) then None else sl_nodes sl y)) \<Longrightarrow>
    \<exists>this'. slFreeLoop this (if p < length xs then Some (xs ! p) else None) = Some this' \<and>
      sl_head this' = sl_head this \<and> sl_nodes this' = (\<lambda>y. if y \<in> G \<union> set xs then None else sl_nodes sl y)"
proof (induction "length xs - p" arbitrary: p this)
  case 0
  then show ?case by (subst slFreeLoop.simps) auto
next
  case (Suc d)
  note shD = shapeD [OF sh]
  have p: "p < length xs" using Suc.hyps(2) by simp
  have new: "xs ! p \<notin> G \<union> set (take p xs)"
  proof -
    have "distinct (take p xs @ xs ! p # drop (Suc p) xs)"
      using shD(11) unfolding id_take_nth_drop [OF p, symmetric] by simp
    then have "xs ! p \<notin> set (take p xs)" by simp
    moreover have "xs ! p \<in> set xs" "sl_head sl \<notin> set xs" using shD(11) p by simp_all
    then have "xs ! p \<noteq> sl_head sl" by metis
    ultimately show ?thesis using gone by auto
  qed
  have pos: "1 \<le> sl_tall sl y" if "y \<in> set (sl_head sl # xs)" for y using that shD(5,6) by auto
  have "\<exists>lv. levelAt sl ((sl_head sl # xs) ! Suc p) 0 = Some lv \<and> forward_to lv =
      (if Suc (Suc p) < length (sl_head sl # xs) then Some ((sl_head sl # xs) ! Suc (Suc p)) else None)"
    by (rule level0 [OF shD(1) _ pos]) (use p in auto)
  then obtain lv where lv: "levelAt sl (xs ! p) 0 = Some lv"
    "forward_to lv = (if Suc p < length xs then Some (xs ! Suc p) else None)" by auto
  have "levelAt this (xs ! p) 0 = Some lv" using lv(1) new Suc.prems(2) by (simp add: levelAt_def)
  moreover have "set (take (Suc p) xs) = insert (xs ! p) (set (take p xs))"
    using p by (simp add: take_Suc_conv_app_nth)
  then have "sl_nodes (this\<lparr>sl_nodes := (sl_nodes this)(xs ! p := None)\<rparr>) y =
      (if y \<in> G \<union> set (take (Suc p) xs) then None else sl_nodes sl y)" for y
    using Suc.prems(2) by auto
  moreover have "d = length xs - Suc p" "Suc p \<le> length xs" using Suc.hyps(2) p by simp_all
  ultimately obtain this' where "slFreeLoop (this\<lparr>sl_nodes := (sl_nodes this)(xs ! p := None)\<rparr>) (forward_to lv) = Some this'"
    "sl_head this' = sl_head this" "sl_nodes this' = (\<lambda>y. if y \<in> G \<union> set xs then None else sl_nodes sl y)"
    using Suc.hyps(1) [of "Suc p" "this\<lparr>sl_nodes := (sl_nodes this)(xs ! p := None)\<rparr>"] unfolding lv(2) by auto
  with p \<open>levelAt this (xs ! p) 0 = Some lv\<close> show ?case by (subst slFreeLoop.simps) simp
qed

text \<open>The destructor leaks nothing, and a move hands the contents over.\<close>

lemma sl_destroy_frees:
  assumes sh: "sl_shape sl xs"
  shows "\<exists>sl'. sl_destroy sl = Some sl' \<and> sl_nodes sl' = (\<lambda>_. None)"
proof -
  note shD = shapeD [OF sh]
  have pos: "1 \<le> sl_tall sl y" if "y \<in> set (sl_head sl # xs)" for y using that shD(5,6) by auto
  have "\<exists>lv. levelAt sl ((sl_head sl # xs) ! 0) 0 = Some lv \<and> forward_to lv =
      (if Suc 0 < length (sl_head sl # xs) then Some ((sl_head sl # xs) ! Suc 0) else None)"
    by (rule level0 [OF shD(1) _ pos]) auto
  then obtain lv where lv: "levelAt sl (sl_head sl) 0 = Some lv"
    "forward_to lv = (if 0 < length xs then Some (xs ! 0) else None)" by auto
  from slFreeLoop_ok [OF sh, of "{sl_head sl}" 0 "sl\<lparr>sl_nodes := (sl_nodes sl)(sl_head sl := None)\<rparr>"] obtain sl'
    where "slFreeLoop (sl\<lparr>sl_nodes := (sl_nodes sl)(sl_head sl := None)\<rparr>) (forward_to lv) = Some sl'"
      "sl_nodes sl' = (\<lambda>y. if y \<in> {sl_head sl} \<union> set xs then None else sl_nodes sl y)" unfolding lv(2) by auto
  moreover have "(if y \<in> {sl_head sl} \<union> set xs then None else sl_nodes sl y) = None" for y
    using shD(12) [of y] by (cases "sl_nodes sl y") auto
  ultimately show ?thesis using lv(1) by (simp add: sl_destroy_def)
qed

lemma sl_move_ok:
  assumes "sl_shape other xs"
  shows "fst (sl_move other) = other" "sl_shape (snd (sl_move other)) []"
  using newSkipList_shape by (simp_all add: sl_move_def)

lemma sl_move_assign_ok:
  assumes sh: "sl_shape this ys"
  shows "\<exists>left. sl_move_assign False this other = Some (other, left, \<lambda>_. None) \<and> sl_shape left []"
proof -
  note shD = shapeD [OF sh]
  have pos: "1 \<le> sl_tall this y" if "y \<in> set (sl_head this # ys)" for y using that shD(5,6) by auto
  have "\<exists>lv. levelAt this ((sl_head this # ys) ! 0) 0 = Some lv \<and> forward_to lv =
      (if Suc 0 < length (sl_head this # ys) then Some ((sl_head this # ys) ! Suc 0) else None)"
    by (rule level0 [OF shD(1) _ pos]) auto
  then obtain lv where lv: "levelAt this (sl_head this) 0 = Some lv"
    "forward_to lv = (if 0 < length ys then Some (ys ! 0) else None)" by auto
  from slFreeLoop_ok [OF sh, of "{}" 0 this] obtain freed
    where freed: "slFreeLoop this (forward_to lv) = Some freed" "sl_head freed = sl_head this"
      "sl_nodes freed = (\<lambda>y. if y \<in> set ys then None else sl_nodes this y)" unfolding lv(2) by auto
  have head: "sl_nodes this (sl_head this) \<noteq> None" "sl_head this \<notin> set ys"
    using shD(1,11) unfolding sl_spine_def by auto
  have "((sl_nodes freed)(sl_head freed := None)) y = None" for y
    using shD(12) [of y] freed(2,3) by (cases "sl_nodes this y") auto
  then have "(sl_nodes freed)(sl_head freed := None) = (\<lambda>_. None)" by blast
  with lv(1) freed(1,2) freed(3) head newSkipList_shape show ?thesis
    by (auto simp: sl_move_assign_def simp del: fun_upd_apply)
qed

end
