(* ===== verification/Containers.thy ===== *)
theory Containers
  imports HashSet LinkedListSpec SkipListSpec
begin

text \<open>
  The containers as their clients see them: any sequence of calls on a hash table answers
  as a finite map does, any sequence on a linked list as a sequence of strings does. The
  runs are defined for any implementation of the operations, the induction is done in the
  locales \<open>kv_table\<close> and \<open>deque\<close>, and the theorems are their interpretations on
  the code's table and list.
\<close>

section \<open>Runs of a table\<close>

datatype ('k, 'v) table_call = Put 'k 'v | Remove 'k | Find 'k | Count

datatype 'v table_answer = Changed bool | Found "'v option" | Total nat

primrec tableCall ::
  "('k \<Rightarrow> 'v \<Rightarrow> 't \<Rightarrow> bool \<times> 't) \<Rightarrow> ('k \<Rightarrow> 't \<Rightarrow> bool \<times> 't) \<Rightarrow> ('k \<Rightarrow> 't \<Rightarrow> 'v option) \<Rightarrow> ('t \<Rightarrow> nat)
     \<Rightarrow> ('k, 'v) table_call \<Rightarrow> 't \<Rightarrow> 'v table_answer \<times> 't" where
  "tableCall put rem lookup count (Put k v) t = apfst Changed (put k v t)"
| "tableCall put rem lookup count (Remove k) t = apfst Changed (rem k t)"
| "tableCall put rem lookup count (Find k) t = (Found (lookup k t), t)"
| "tableCall put rem lookup count Count t = (Total (count t), t)"

primrec runCalls :: "('c \<Rightarrow> 't \<Rightarrow> 'a \<times> 't) \<Rightarrow> 'c list \<Rightarrow> 't \<Rightarrow> 'a list \<times> 't" where
  "runCalls step [] t = ([], t)"
| "runCalls step (c # cs) t =
     (let (a, t1) = step c t; (as, t2) = runCalls step cs t1 in (a # as, t2))"

text \<open>The reference: the same calls on a map.\<close>

definition mapCall :: "('k, 'v) table_call \<Rightarrow> ('k \<rightharpoonup> 'v) \<Rightarrow> 'v table_answer \<times> ('k \<rightharpoonup> 'v)" where
  "mapCall = tableCall (\<lambda>k v m. (m k = None, m(k \<mapsto> v))) (\<lambda>k m. (m k \<noteq> None, m(k := None)))
     (\<lambda>k m. m k) (\<lambda>m. card (dom m))"

context kv_table
begin

lemma call_simulates:
  assumes "inv t"
  shows "inv (snd (tableCall put rem lookup count c t))"
    "apsnd abs (tableCall put rem lookup count c t) = mapCall c (abs t)"
  using assms
  by (cases c; simp add: mapCall_def prod_eq_iff put_inv put_abs put_fresh rem_inv rem_abs rem_hit
      lookup_abs count_card)+

lemma run_simulates:
  "inv t \<Longrightarrow> inv (snd (runCalls (tableCall put rem lookup count) cs t)) \<and>
     apsnd abs (runCalls (tableCall put rem lookup count) cs t) = runCalls mapCall cs (abs t)"
proof (induction cs arbitrary: t)
  case Nil
  then show ?case by simp
next
  case (Cons c cs)
  obtain a t1 where call: "tableCall put rem lookup count c t = (a, t1)" by fastforce
  with call_simulates [OF Cons.prems, of c] have "inv t1" "mapCall c (abs t) = (a, abs t1)" by simp_all
  with call Cons.IH [of t1] show ?case
    by (simp add: split_beta prod_eq_iff)
qed

end

section \<open>Runs of a list\<close>

datatype 'a deque_call = PushFront 'a | PushBack 'a | PopFront | PopBack | Size

datatype 'a deque_answer = Done | Popped "'a option" | Length nat

primrec dequeCall ::
  "('a \<Rightarrow> 't \<Rightarrow> 't option) \<Rightarrow> ('a \<Rightarrow> 't \<Rightarrow> 't option) \<Rightarrow> ('t \<Rightarrow> ('a option \<times> 't) option)
     \<Rightarrow> ('t \<Rightarrow> ('a option \<times> 't) option) \<Rightarrow> ('t \<Rightarrow> nat) \<Rightarrow> 'a deque_call \<Rightarrow> 't \<Rightarrow> ('a deque_answer \<times> 't) option" where
  "dequeCall pushF pushB popF popB count (PushFront x) t = map_option (Pair Done) (pushF x t)"
| "dequeCall pushF pushB popF popB count (PushBack x) t = map_option (Pair Done) (pushB x t)"
| "dequeCall pushF pushB popF popB count PopFront t = map_option (apfst Popped) (popF t)"
| "dequeCall pushF pushB popF popB count PopBack t = map_option (apfst Popped) (popB t)"
| "dequeCall pushF pushB popF popB count Size t = Some (Length (count t), t)"

primrec runPartial :: "('c \<Rightarrow> 't \<Rightarrow> ('a \<times> 't) option) \<Rightarrow> 'c list \<Rightarrow> 't \<Rightarrow> ('a list \<times> 't) option" where
  "runPartial step [] t = Some ([], t)"
| "runPartial step (c # cs) t = do {
     (a, t1) \<leftarrow> step c t;
     (as, t2) \<leftarrow> runPartial step cs t1;
     Some (a # as, t2) }"

text \<open>The reference: the same calls on a sequence.\<close>

primrec seqCall :: "'a deque_call \<Rightarrow> 'a list \<Rightarrow> 'a deque_answer \<times> 'a list" where
  "seqCall (PushFront x) xs = (Done, x # xs)"
| "seqCall (PushBack x) xs = (Done, xs @ [x])"
| "seqCall PopFront xs = (case xs of [] \<Rightarrow> (Popped None, []) | x # ys \<Rightarrow> (Popped (Some x), ys))"
| "seqCall PopBack xs = (if xs = [] then (Popped None, []) else (Popped (Some (last xs)), butlast xs))"
| "seqCall Size xs = (Length (length xs), xs)"

context deque
begin

lemma call_simulates:
  assumes "rep t xs"
  shows "\<exists>t'. dequeCall pushFront pushBack popFront popBack count c t = Some (fst (seqCall c xs), t') \<and>
    rep t' (snd (seqCall c xs))"
proof (cases c)
  case PopFront
  with assms pop_empty popFront_ok [of t "hd xs" "tl xs"] show ?thesis by (cases xs) auto
next
  case PopBack
  with assms pop_empty popBack_ok [of t "butlast xs" "last xs"] show ?thesis by (cases "xs = []") auto
qed (use assms pushFront_ok [of t xs] pushBack_ok [of t xs] count_ok [of t xs] in auto)

lemma run_simulates:
  "rep t xs \<Longrightarrow> \<exists>t'. runPartial (dequeCall pushFront pushBack popFront popBack count) cs t =
       Some (fst (runCalls seqCall cs xs), t') \<and> rep t' (snd (runCalls seqCall cs xs))"
proof (induction cs arbitrary: t xs)
  case Nil
  then show ?case by simp
next
  case (Cons c cs)
  from call_simulates [OF Cons.prems, of c] obtain t1
    where "dequeCall pushFront pushBack popFront popBack count c t = Some (fst (seqCall c xs), t1)"
      "rep t1 (snd (seqCall c xs))" by blast
  with Cons.IH [of t1 "snd (seqCall c xs)"] show ?case by (auto simp: split_beta)
qed

end

section \<open>Ranges\<close>

text \<open>
  \<^verbatim>\<open>LRANGE\<close> as Redis documents it: negative indices count from the end, a start before
  the first element is the first, a stop before it selects nothing.
\<close>

definition redis_range :: "'a list \<Rightarrow> int \<Rightarrow> int \<Rightarrow> 'a list" where
  "redis_range xs start stop =
     (let n = int (length xs);
          a = max 0 (if start < 0 then n + start else start);
          b = (if stop < 0 then n + stop else stop)
      in map (nth xs) (filter (\<lambda>i. a \<le> int i \<and> int i \<le> b) [0..<length xs]))"

lemma take_drop_filter:
  "take n (drop m xs) = map (nth xs) (filter (\<lambda>i. m \<le> i \<and> i < m + n) [0..<length xs])"
proof (cases "m \<le> length xs")
  case True
  have "filter (\<lambda>i. m \<le> i \<and> i < m + n) [0..<length xs] = [m..<min (length xs) (m + n)]"
  proof (rule sorted_distinct_set_unique)
    show "set (filter (\<lambda>i. m \<le> i \<and> i < m + n) [0..<length xs]) = set [m..<min (length xs) (m + n)]"
      by auto
  qed (simp_all add: sorted_wrt_filter)
  then show ?thesis
    using True by (intro nth_equalityI) auto
next
  case False
  then show ?thesis by (auto simp: filter_empty_conv)
qed

lemma slice_redis:
  "slice xs start stop =
     (if stop < - int (length xs) then redis_range xs start (- int (length xs)) else redis_range xs start stop)"
proof -
  have *: "slice xs a b = map (nth xs) (filter (\<lambda>i. max 0 (position xs a) \<le> int i \<and> int i \<le> max 0 (position xs b))
      [0..<length xs])" for a b
    unfolding slice_def Let_def take_drop_filter
    by (intro arg_cong [where f = "map (nth xs)"] filter_cong) auto
  show ?thesis unfolding * redis_range_def Let_def position_def
    by (auto intro!: filter_cong arg_cong [where f = "map (nth xs)"])
qed

section \<open>Properties\<close>

text \<open>C6: A hash table is a finite map. For every hash function and every sequence of \<open>set\<close>,
  \<open>del\<close>, \<open>get\<close> and \<open>size\<close> calls on a new table, through collisions, tombstones and
  rehashes, each call answers what a map answers, and the table ends as that map.\<close>

theorem hash_table_is_a_map:
  "fst (runCalls (tableCall (ht_set hasher) (ht_del hasher) (ht_get hasher) ht_size) cs newTable) =
     fst (runCalls mapCall cs Map.empty)
   \<and> ht_abs (snd (runCalls (tableCall (ht_set hasher) (ht_del hasher) (ht_get hasher) ht_size) cs newTable)) =
     snd (runCalls mapCall cs Map.empty)"
  using ht.run_simulates [OF ht.new_inv, of hasher cs] by (auto simp: prod_eq_iff ht.new_abs)

text \<open>C30: Probing always ends: on a table with at least one bucket the loops of \<open>findIndex\<close> and
  \<open>insertInternal\<close> return within one round over the buckets, even when every bucket is in use.\<close>

theorem probing_terminates:
  assumes "bs \<noteq> []"
  shows "findLoop (length bs) k bs (h mod length bs) (h mod length bs) \<noteq> None \<and>
    insertLoop (length bs) k v bs sz (h mod length bs) (h mod length bs) \<noteq> None"
  using findLoop_complete [OF assms] insertLoop_complete [OF assms] by blast

theorem probing_terminates_witness:
  "findLoop 16 ''a'' (buckets (newTable :: (string, string) hash_table)) (35 mod 16) (35 mod 16) \<noteq> None"
  using probing_terminates [of "buckets (newTable :: (string, string) hash_table)" "''a''" 35]
  by (simp add: newTable_def)

text \<open>C31: Iterating over a table visits each entry of its map exactly once.\<close>

theorem iteration_is_exact:
  fixes hasher :: "'k::default \<Rightarrow> nat" and t :: "('k, 'v::default) hash_table"
  assumes "ht_inv hasher t"
  shows "distinct (map fst (ht_entries t)) \<and> set (ht_entries t) = {(k, v). ht_abs t k = Some v} \<and>
    length (ht_entries t) = ht_size t"
  using ht.entries_distinct [OF assms] ht.entries_abs [OF assms] ht.entries_length [OF assms]
  by (auto simp: map_of_eq_Some_iff [symmetric])

theorem iteration_is_exact_witness:
  "set (ht_entries (snd (ht_set length ''k'' ''v'' newTable))) =
     {(k, v). ht_abs (snd (ht_set length ''k'' ''v'' newTable)) k = Some v}"
  using iteration_is_exact [OF ht.put_inv [OF ht.new_inv], of length "''k''" "''v''"] by blast

text \<open>C18: A linked list is a sequence. Every sequence of pushes and pops at either end of a new
  list runs without touching a null or deleted node and answers as a sequence of strings does.\<close>

theorem linked_list_is_a_sequence:
  "\<exists>l. runPartial (dequeCall ll_pushFront ll_pushBack ll_popFront ll_popBack ll_size) cs newList =
      Some (fst (runCalls seqCall cs []), l) \<and> ll_is l (snd (runCalls seqCall cs []))"
  by (rule ll.run_simulates [OF ll.new_rep])

text \<open>C33: \<open>range\<close> returns what Redis documents for \<open>LRANGE\<close>, except when the stop index lies
  before the first element: then it is moved to the first element, where Redis selects nothing.\<close>

theorem range_is_redis_range:
  assumes "ll_is l xs" "length xs < 2 ^ 31" "- (2 ^ 31) \<le> start" "start < 2 ^ 31"
    and "- (2 ^ 31) \<le> stop" "stop < 2 ^ 31"
  shows "ll_range start stop l = Some (if stop < - int (length xs)
      then redis_range xs start (- int (length xs)) else redis_range xs start stop)"
  by (simp add: ll_range_is [OF assms] slice_redis)

theorem range_is_redis_range_witness:
  "\<exists>l. ll_is l [''a'', ''b''] \<and> ll_range 0 (-100) l = Some [''a''] \<and> redis_range [''a'', ''b''] 0 (-100) = []"
proof -
  obtain l where l: "ll_is l [''a'', ''b'']" using ll.pushAll_back [OF ll.new_rep, of "[''a'', ''b'']"] by auto
  from range_is_redis_range [OF l, of 0 "-100"] l show ?thesis
    by (auto simp: redis_range_def upt_rec)
qed

text \<open>C34: The life of a list and of a skip list: destroying it frees every node, so nothing leaks,
  a clone of a list is a fresh list with the same elements, a move hands the elements over and
  leaves an empty list, and so does a move assignment, after which no node its target held
  remains allocated.\<close>

theorem clear_frees_and_clone_copies:
  assumes "ll_is l xs" "ll_is this ys" "sl_shape sl as" "sl_shape other bs"
  shows "(\<exists>l'. ll_destroy l = Some l' \<and> ll_is l' [] \<and> ll_nodes l' = (\<lambda>_. None)) \<and>
    (\<exists>c. ll_clone l = Some c \<and> ll_is c xs) \<and>
    ll_is (fst (ll_move l)) xs \<and> ll_is (snd (ll_move l)) [] \<and>
    (\<exists>l' left. ll_move_assign False this l = Some (l', left, \<lambda>_. None) \<and> ll_is l' xs \<and> ll_is left []) \<and>
    (\<exists>sl'. sl_destroy sl = Some sl' \<and> sl_nodes sl' = (\<lambda>_. None)) \<and>
    sl_shape (fst (sl_move sl)) as \<and> sl_shape (snd (sl_move sl)) [] \<and>
    (\<exists>sl' left. sl_move_assign False other sl = Some (sl', left, \<lambda>_. None) \<and> sl_shape sl' as \<and> sl_shape left [])"
proof -
  have "ll_is (fst (ll_move l)) xs" "ll_is (snd (ll_move l)) []" "sl_shape (fst (sl_move sl)) as"
    "sl_shape (snd (sl_move sl)) []"
    using ll_move_is [OF assms(1)] sl_move_ok [OF assms(3)] assms(3) by simp_all
  moreover obtain left where "sl_move_assign False other sl = Some (sl, left, \<lambda>_. None)" "sl_shape left []"
    using sl_move_assign_ok [OF assms(4)] by blast
  ultimately show ?thesis
    using ll_clear_is [OF assms(1)] ll_clone_is [OF assms(1)] ll_move_assign_is [OF assms(2,1)]
      sl_destroy_frees [OF assms(3)] assms(3) unfolding ll_destroy_def by blast
qed

theorem clear_frees_and_clone_copies_witness:
  "\<exists>l c. ll_is l [''a''] \<and> ll_clone l = Some c \<and> ll_is c [''a''] \<and>
    (\<exists>l' left. ll_move_assign False c l = Some (l', left, \<lambda>_. None) \<and> ll_is l' [''a''])"
proof -
  obtain l where l: "ll_is l [''a'']" using ll.pushAll_back [OF ll.new_rep, of "[''a'']"] by auto
  note skip = newSkipList_shape newSkipList_shape
  from clear_frees_and_clone_copies [OF l l skip] obtain c where c: "ll_clone l = Some c" "ll_is c [''a'']" by blast
  from clear_frees_and_clone_copies [OF l c(2) skip] l c show ?thesis by blast
qed

end
