(* ===== verification/SortedSet.thy ===== *)
theory SortedSet
  imports HashTableSpec SkipList
begin

text \<open>
  The sorted set of \<^verbatim>\<open>storage/data_structures/sorted_set.h\<close> and
  \<^verbatim>\<open>.cpp\<close>: a table from members to scores beside a skip list ordered by score.
  \<^verbatim>\<open>long\<close> has 32 bits on Windows and 64 on Linux: the argument \<open>long_bits\<close>.
\<close>

record sorted_set =
  ss_dict :: "(string, double) hash_table"
  ss_zsl :: skip_list

definition newSortedSet :: "(nat \<Rightarrow> bool) \<Rightarrow> sorted_set" where
  "newSortedSet rng = \<lparr>ss_dict = newTable, ss_zsl = newSkipList rng\<rparr>"

definition ss_clone :: "(nat \<Rightarrow> bool) \<Rightarrow> sorted_set \<Rightarrow> sorted_set option" where
  "ss_clone rng z = do {
     sl \<leftarrow> sl_clone rng (ss_zsl z);
     Some \<lparr>ss_dict = ht_clone (ss_dict z), ss_zsl = sl\<rparr> }"

definition ss_add ::
  "(string \<Rightarrow> nat) \<Rightarrow> string \<Rightarrow> double \<Rightarrow> sorted_set \<Rightarrow> (int \<times> sorted_set) option" where
  "ss_add hasher m s z = (case ht_get hasher m (ss_dict z) of
      Some oldScore \<Rightarrow>
        (if float_eq oldScore s then Some (0, z)
         else do {
           (_, sl1) \<leftarrow> sl_deleteNode oldScore m (ss_zsl z);
           (_, sl2) \<leftarrow> sl_insert s m sl1;
           Some (0, \<lparr>ss_dict = snd (ht_set hasher m s (ss_dict z)), ss_zsl = sl2\<rparr>) })
    | None \<Rightarrow> do {
        (_, sl1) \<leftarrow> sl_insert s m (ss_zsl z);
        Some (1, \<lparr>ss_dict = snd (ht_set hasher m s (ss_dict z)), ss_zsl = sl1\<rparr>) })"

definition ss_remove ::
  "(string \<Rightarrow> nat) \<Rightarrow> string \<Rightarrow> sorted_set \<Rightarrow> (int \<times> sorted_set) option" where
  "ss_remove hasher m z = (case ht_get hasher m (ss_dict z) of
      None \<Rightarrow> Some (0, z)
    | Some s \<Rightarrow> do {
        (_, sl1) \<leftarrow> sl_deleteNode s m (ss_zsl z);
        Some (1, \<lparr>ss_dict = snd (ht_del hasher m (ss_dict z)), ss_zsl = sl1\<rparr>) })"

definition ss_getScore :: "(string \<Rightarrow> nat) \<Rightarrow> string \<Rightarrow> sorted_set \<Rightarrow> double option" where
  "ss_getScore hasher m z = ht_get hasher m (ss_dict z)"

definition ss_getRank :: "(string \<Rightarrow> nat) \<Rightarrow> string \<Rightarrow> sorted_set \<Rightarrow> nat option" where
  "ss_getRank hasher m z = (case ht_get hasher m (ss_dict z) of
      None \<Rightarrow> Some 0
    | Some s \<Rightarrow> do {
        rank \<leftarrow> sl_getRank s m (ss_zsl z);
        Some (if rank > 0 then rank - 1 else 0) })"

definition ss_size :: "sorted_set \<Rightarrow> nat" where
  "ss_size z = ht_size (ss_dict z)"

definition ss_empty :: "sorted_set \<Rightarrow> bool" where
  "ss_empty z \<longleftrightarrow> ht_empty (ss_dict z)"

definition ss_rangeByRank ::
  "nat \<Rightarrow> int \<Rightarrow> int \<Rightarrow> sorted_set \<Rightarrow> (string \<times> double) list option" where
  "ss_rangeByRank long_bits start0 stop0 z =
     (let len = wrap_s long_bits (int (ss_size z));
          start1 = (if start0 < 0 then wrap_s long_bits (len + start0) else start0);
          stop1 = (if stop0 < 0 then wrap_s long_bits (len + stop0) else stop0);
          start = (if start1 < 0 then 0 else start1)
      in if start > stop1 \<or> start \<ge> len then Some []
         else let stop = (if stop1 \<ge> len then len - 1 else stop1);
                  rangeLen = stop - start + 1
           in do {
             node \<leftarrow> sl_getElementByRank (nat (start + 1)) (ss_zsl z);
             slCollect (ss_zsl z) (nat rangeLen) node })"

end
