(* ===== verification/SkipListOrder.thy ===== *)
theory SkipListOrder
  imports SkipListSpec
begin

text \<open>
  The skip list as a sorted sequence of entries (member, score): insertion and deletion, the
  queries by rank and by score, and cloning, each against its reference on lists. Insertion
  and deletion return for arbitrary scores; the order needs scores that are numbers.
\<close>

section \<open>Contents\<close>

definition sl_rep :: "skip_list \<Rightarrow> (string \<times> double) list \<Rightarrow> bool" where
  "sl_rep sl es \<longleftrightarrow> (\<exists>xs. sl_shape sl xs \<and> map (sl_entry sl) xs = es)"

definition same_entry :: "string \<times> double \<Rightarrow> string \<times> double \<Rightarrow> bool" where
  "same_entry e f \<longleftrightarrow> float_eq (snd e) (snd f) \<and> fst e = fst f"

text \<open>Where the descent to \<open>f\<close> stops.\<close>

definition zlands :: "(string \<times> double) list \<Rightarrow> string \<times> double \<Rightarrow> nat \<Rightarrow> bool" where
  "zlands es f P \<longleftrightarrow> P \<le> length es \<and> (0 < P \<longrightarrow> zless (es ! (P - 1)) f) \<and>
     (P < length es \<longrightarrow> \<not> zless (es ! P) f)"

lemma newSkipList_rep: "sl_rep (newSkipList rng) []"
  using newSkipList_shape by (auto simp: sl_rep_def)

lemma rep_length: "sl_rep sl es \<Longrightarrow> sl_length sl = length es"
  by (auto simp: sl_rep_def shapeD(2))

lemma sl_insert_rep:
  assumes "sl_rep sl es"
  shows "\<exists>x sl' P. sl_insert s m sl = Some (x, sl') \<and> zlands es (m, s) P \<and>
    sl_rep sl' (insertAt P (m, s) es)"
proof -
  from assms obtain xs where xs: "sl_shape sl xs" "map (sl_entry sl) xs = es" by (auto simp: sl_rep_def)
  from sl_insert_shape [OF xs(1), of s m] obtain P x sl'
    where *: "sl_insert s m sl = Some (x, sl')" "P \<le> length xs" "x \<notin> set (sl_head sl # xs)"
      "sl_shape sl' (insertAt P x xs)" "sl_entry sl' = (sl_entry sl)(x := (m, s))"
      "0 < P \<longrightarrow> zless (sl_entry sl (xs ! (P - 1))) (m, s)" "P < length xs \<longrightarrow> \<not> zless (sl_entry sl (xs ! P)) (m, s)"
    by blast
  have "map (sl_entry sl') xs = es" using *(3,5) xs(2) by auto
  then have "map (sl_entry sl') (insertAt P x xs) = insertAt P (m, s) es"
    using *(5) by (simp add: map_insertAt)
  moreover have "zlands es (m, s) P" using *(2,6,7) by (auto simp: zlands_def xs(2) [symmetric])
  ultimately show ?thesis using *(1,4) by (auto simp: sl_rep_def)
qed

lemma sl_deleteNode_rep:
  assumes "sl_rep sl es"
  shows "\<exists>P. zlands es (m, s) P \<and>
    (if P < length es \<and> same_entry (m, s) (es ! P)
     then \<exists>sl'. sl_deleteNode s m sl = Some (True, sl') \<and> sl_rep sl' (deleteAt P es)
     else sl_deleteNode s m sl = Some (False, sl))"
proof -
  from assms obtain xs where sh: "sl_shape sl xs" and es: "map (sl_entry sl) xs = es" by (auto simp: sl_rep_def)
  let ?ns = "sl_head sl # xs" and ?upd = "\<lambda>ls. map (\<lambda>j. ((sl_head sl # xs) ! j, of_nat j :: 32 word)) ls"
  note shD = shapeD [OF sh]
  obtain ls P where f: "findUpdate sl (\<lambda>n. precedes n s m) (sl_height sl) (sl_head sl) 0 = Some (?upd ls)"
      "length ls = sl_height sl" "P \<le> length xs" "ls ! 0 = P"
      "\<forall>i < sl_height sl. is_last (map (sl_tall sl) ?ns) i P (ls ! i)"
      "0 < P \<longrightarrow> precedes (node_at sl ?ns P) s m"
      "P < length xs \<longrightarrow> \<not> precedes (node_at sl ?ns (Suc P)) s m"
    by (rule findUpdate_head [OF sh, of "\<lambda>n. precedes n s m"])
  have zlands: "zlands es (m, s) P"
    using f(3,6,7) precedes_entry [OF shD(1), of P s m] precedes_entry [OF shD(1), of "Suc P" s m]
    by (auto simp: zlands_def es [symmetric])
  obtain ls1 where ls1: "ls = P # ls1" using f(2,4) shD(3) by (cases ls) auto
  have pos: "1 \<le> sl_tall sl y" if "y \<in> set ?ns" for y using that shD(5,6) by auto
  have "\<exists>lv. levelAt sl (?ns ! P) 0 = Some lv \<and>
      forward_to lv = (if Suc P < length ?ns then Some (?ns ! Suc P) else None)"
    by (rule level0 [OF shD(1) _ pos]) (use f(3) in auto)
  then obtain lv where lv: "levelAt sl (?ns ! P) 0 = Some lv"
    "forward_to lv = (if P < length xs then Some (xs ! P) else None)" by auto
  have run: "sl_deleteNode s m sl = (case forward_to lv of
        None \<Rightarrow> Some (False, sl)
      | Some x \<Rightarrow> do {
          n \<leftarrow> sl_nodes sl x;
          (if float_eq s (score n) \<and> member n = m then do {
             sl' \<leftarrow> deleteNodeInternal x (map fst (?upd ls)) sl;
             Some (True, sl'\<lparr>sl_nodes := (sl_nodes sl')(x := None)\<rparr>) }
           else Some (False, sl)) })"
    unfolding sl_deleteNode_def f(1) using lv(1) by (simp add: ls1 cong: if_cong option.case_cong)
  have len: "length es = length xs" using es by auto
  show ?thesis
  proof (cases "P < length xs")
    case False
    with run lv(2) have "sl_deleteNode s m sl = Some (False, sl)" by simp
    with False zlands len show ?thesis by (intro exI [of _ P]) simp
  next
    case True
    then have n: "sl_nodes sl (xs ! P) = Some (node_at sl ?ns (Suc P))"
      using spine_node [OF shD(1), of "Suc P"] by simp
    have hit: "same_entry (m, s) (es ! P) \<longleftrightarrow>
        float_eq s (score (node_at sl ?ns (Suc P))) \<and> member (node_at sl ?ns (Suc P)) = m"
    proof -
      have "es ! P = (member (node_at sl ?ns (Suc P)), score (node_at sl ?ns (Suc P)))"
        using True node_entry [OF shD(1), of "Suc P"] by (simp add: es [symmetric])
      then show ?thesis by (auto simp: same_entry_def)
    qed
    show ?thesis
    proof (cases "same_entry (m, s) (es ! P)")
      case False
      with hit have no: "(float_eq s (score (node_at sl ?ns (Suc P))) \<and> member (node_at sl ?ns (Suc P)) = m) = False"
        by blast
      have "sl_deleteNode s m sl = Some (False, sl)"
        by (subst run) (simp only: lv(2) True n if_True option.case Option.bind.bind_lunit no if_False)
      with False zlands show ?thesis by (intro exI [of _ P]) simp
    next
      case same: True
      have xs: "xs = insertAt P (xs ! P) (deleteAt P xs)" using insertAt_deleteAt [OF True] by simp
      have "sl_shape sl (insertAt P (xs ! P) (deleteAt P xs))" using sh xs by simp
      moreover have "P \<le> length (deleteAt P xs)" using True by simp
      moreover have "\<forall>i < sl_height sl. is_last (map (sl_tall sl)
          (sl_head sl # insertAt P (xs ! P) (deleteAt P xs))) i P (ls ! i)" using f(5) xs by simp
      ultimately obtain sl2 where d: "deleteNodeInternal (xs ! P) (map (\<lambda>j. ?ns ! j) ls) sl = Some sl2"
        "sl_shape (sl2\<lparr>sl_nodes := (sl_nodes sl2)(xs ! P := None)\<rparr>) (deleteAt P xs)"
        "\<forall>y \<in> set (sl_head sl # deleteAt P xs). sl_entry (sl2\<lparr>sl_nodes := (sl_nodes sl2)(xs ! P := None)\<rparr>) y = sl_entry sl y"
        using sl_delete_shape [of sl P "xs ! P" "deleteAt P xs" ls, OF _ _ f(2)] xs by (auto simp: Let_def)
      let ?sl' = "sl2\<lparr>sl_nodes := (sl_nodes sl2)(xs ! P := None)\<rparr>"
      have "map (sl_entry ?sl') (deleteAt P xs) = deleteAt P es"
        using d(3) by (simp add: map_deleteAt [symmetric] es [symmetric])
      then have "sl_rep ?sl' (deleteAt P es)" using d(2) by (auto simp: sl_rep_def)
      moreover have "map fst (?upd ls) = map (\<lambda>j. ?ns ! j) ls" by simp
      moreover have "sl_deleteNode s m sl = Some (True, ?sl')"
        using run lv(2) True n hit same d(1) by (simp add: comp_def)
      ultimately show ?thesis using True same zlands len by (intro exI [of _ P]) simp
    qed
  qed
qed

section \<open>The order\<close>

lemma string_less_irrefl [simp]: "\<not> string_less a a"
  by (induction a) auto

lemma string_less_trans: "string_less a b \<Longrightarrow> string_less b c \<Longrightarrow> string_less a c"
proof (induction a b arbitrary: c rule: string_less.induct)
  case (4 x xs y ys)
  then show ?case by (cases c) auto
qed (auto elim: string_less.elims)

lemma string_less_total: "string_less a b \<or> a = b \<or> string_less b a"
proof (induction a b rule: string_less.induct)
  case (4 x xs y ys)
  have "(of_char x :: nat) = of_char y \<Longrightarrow> x = y" by simp
  with 4 show ?case by (metis linorder_neqE_nat string_less.simps(4))
qed simp_all

lemma zless_irrefl [simp]: "\<not> zless e e"
  by (simp add: zless_def)

lemma zless_trans: "zless e f \<Longrightarrow> zless f g \<Longrightarrow> zless e g"
  by (auto simp: zless_def float_lt_def float_eq_def intro: string_less_trans)

lemma zless_total:
  "\<not> is_nan (snd e) \<Longrightarrow> \<not> is_nan (snd f) \<Longrightarrow> zless e f \<or> same_entry e f \<or> zless f e"
  using string_less_total [of "fst e" "fst f"]
  by (auto simp: zless_def same_entry_def float_lt_def float_eq_def)

lemma zless_same: "same_entry e f \<Longrightarrow> \<not> zless e f \<and> \<not> zless f e"
  by (auto simp: zless_def same_entry_def float_lt_def float_eq_def)

lemma zless_same_left: "same_entry f g \<Longrightarrow> zless g e \<Longrightarrow> zless f e"
  by (auto simp: zless_def same_entry_def float_lt_def float_eq_def)

lemma zless_same_right: "same_entry f g \<Longrightarrow> zless e f \<longleftrightarrow> zless e g"
  by (auto simp: zless_def same_entry_def float_lt_def float_eq_def)

lemma same_entry_sym: "same_entry f g \<longleftrightarrow> same_entry g f"
  by (auto simp: same_entry_def float_eq_def)

definition zsorted :: "(string \<times> double) list \<Rightarrow> bool" where
  "zsorted es \<longleftrightarrow> sorted_wrt zless es \<and> (\<forall>e \<in> set es. \<not> is_nan (snd e))"

text \<open>The references: insertion into a sorted list, and removal of an entry.\<close>

definition zinsert :: "string \<times> double \<Rightarrow> (string \<times> double) list \<Rightarrow> (string \<times> double) list" where
  "zinsert f es = takeWhile (\<lambda>e. zless e f) es @ f # dropWhile (\<lambda>e. zless e f) es"

definition zdelete :: "string \<times> double \<Rightarrow> (string \<times> double) list \<Rightarrow> (string \<times> double) list" where
  "zdelete f es = filter (\<lambda>e. \<not> same_entry f e) es"

text \<open>In a sorted list the entries before a position form an initial segment.\<close>

lemma lands_less:
  assumes "zsorted es" "zlands es f P" "k < length es"
  shows "zless (es ! k) f \<longleftrightarrow> k < P"
proof
  have sorted: "zless (es ! i) (es ! j)" if "i < j" "j < length es" for i j
    using assms(1) that by (simp add: zsorted_def sorted_wrt_iff_nth_less)
  show "zless (es ! k) f" if "k < P"
  proof (cases "k = P - 1")
    case True
    with that assms(2) show ?thesis by (auto simp: zlands_def)
  next
    case False
    with that assms(2) have "zless (es ! k) (es ! (P - 1))" "zless (es ! (P - 1)) f"
      by (auto simp: zlands_def intro!: sorted)
    then show ?thesis by (rule zless_trans)
  qed
  show "k < P" if "zless (es ! k) f"
  proof (rule ccontr)
    assume "\<not> k < P"
    then consider "k = P" | "P < k" by linarith
    then have "zless (es ! P) f"
    proof cases
      case 2
      from sorted [OF 2 assms(3)] that show ?thesis by (rule zless_trans)
    qed (use that in simp)
    with \<open>\<not> k < P\<close> assms(2,3) show False by (simp add: zlands_def)
  qed
qed

lemma lands_split:
  assumes "zsorted es" "zlands es f P"
  shows "takeWhile (\<lambda>e. zless e f) es = take P es" "dropWhile (\<lambda>e. zless e f) es = drop P es"
proof -
  have P: "P \<le> length es" using assms(2) by (simp add: zlands_def)
  show t: "takeWhile (\<lambda>e. zless e f) es = take P es"
    using lands_less [OF assms] P assms(2) by (intro takeWhile_eq_take_P_nth) (auto simp: zlands_def)
  show "dropWhile (\<lambda>e. zless e f) es = drop P es" using P t by (simp add: dropWhile_eq_drop)
qed

lemma insertAt_zinsert: "zsorted es \<Longrightarrow> zlands es f P \<Longrightarrow> insertAt P f es = zinsert f es"
  by (simp add: insertAt_def zinsert_def lands_split)

lemma lands_present:
  assumes es: "zsorted es" "zlands es f P" and k: "k < length es" "same_entry f (es ! k)"
  shows "k = P"
proof (rule ccontr)
  assume "k \<noteq> P"
  then consider "k < P" | "P < k" by linarith
  then show False
  proof cases
    case 1
    with lands_less [OF es k(1)] zless_same [OF k(2)] show False by simp
  next
    case 2
    have nan: "\<not> is_nan (snd (es ! P))" "\<not> is_nan (snd f)" and "P < length es"
      using es(1) k 2 by (auto simp: zsorted_def same_entry_def float_eq_def)
    have "zless (es ! P) (es ! k)" using es(1) 2 k(1) by (simp add: zsorted_def sorted_wrt_iff_nth_less)
    moreover have "zless f (es ! P) \<or> same_entry f (es ! P)"
      using lands_less [OF es \<open>P < length es\<close>] zless_total [OF nan] same_entry_sym by blast
    ultimately have "zless f (es ! k)" using zless_trans zless_same_left by blast
    with zless_same [OF k(2)] show False by simp
  qed
qed

lemma deleteAt_zdelete:
  assumes es: "zsorted es" "zlands es f P" and P: "P < length es" "same_entry f (es ! P)"
  shows "deleteAt P es = zdelete f es"
proof -
  have other: "\<not> same_entry f e" if e: "e \<in> set (take P es) \<union> set (drop (Suc P) es)" for e
  proof -
    from e obtain k where "k < length es" "es ! k = e" "k \<noteq> P"
    proof (elim UnE)
      assume "e \<in> set (take P es)"
      then obtain i where "i < P" "es ! i = e" by (auto simp: in_set_conv_nth)
      with P(1) show thesis by (intro that [of i]) simp_all
    next
      assume "e \<in> set (drop (Suc P) es)"
      then obtain i where "i < length (drop (Suc P) es)" "drop (Suc P) es ! i = e"
        unfolding in_set_conv_nth by blast
      then show thesis by (intro that [of "Suc P + i"]) auto
    qed
    with lands_present [OF es, of k] show ?thesis by blast
  qed
  have "zdelete f es = filter (\<lambda>e. \<not> same_entry f e) (take P es @ es ! P # drop (Suc P) es)"
    unfolding zdelete_def using id_take_nth_drop [OF P(1)] by simp
  also have "\<dots> = deleteAt P es"
    using P(2) other by (simp add: deleteAt_def filter_id_conv)
  finally show ?thesis by simp
qed

lemma zdelete_absent:
  assumes es: "zsorted es" "zlands es f P" and P: "\<not> (P < length es \<and> same_entry f (es ! P))"
  shows "zdelete f es = es"
  unfolding zdelete_def filter_id_conv using lands_present [OF es] P by (metis in_set_conv_nth)

lemma set_zinsert [simp]: "set (zinsert f es) = insert f (set es)"
  unfolding zinsert_def by (metis Un_insert_right list.simps(15) set_append takeWhile_dropWhile_id)

lemma zsorted_zinsert:
  assumes "zsorted es" "\<not> is_nan (snd f)" "\<And>e. e \<in> set es \<Longrightarrow> \<not> same_entry e f"
  shows "zsorted (zinsert f es)"
proof -
  let ?l = "takeWhile (\<lambda>e. zless e f) es" and ?r = "dropWhile (\<lambda>e. zless e f) es"
  have s: "sorted_wrt zless (?l @ ?r)" using assms(1) by (simp add: zsorted_def)
  have l: "zless e f" if "e \<in> set ?l" for e using set_takeWhileD that by metis
  have r: "zless f e" if e: "e \<in> set ?r" for e
  proof (cases "?r")
    case (Cons e0 r)
    with hd_dropWhile [of "\<lambda>e. zless e f" es] have "\<not> zless e0 f" by simp
    moreover have "e0 \<in> set es" "e \<in> set es" using Cons e by (metis list.set_intros(1) set_dropWhileD)+
    ultimately have "zless f e0" using zless_total [of e0 f] assms by (auto simp: zsorted_def)
    with e Cons s show ?thesis by (auto simp: sorted_wrt_append intro: zless_trans)
  next
    case Nil
    from e show ?thesis unfolding Nil by simp
  qed
  have lr: "zless d e" if "d \<in> set ?l" "e \<in> set ?r" for d e
    using l [OF that(1)] r [OF that(2)] by (rule zless_trans)
  have "sorted_wrt zless (zinsert f es)"
    using s l r lr unfolding zinsert_def sorted_wrt_append sorted_wrt.simps list.set by blast
  then show ?thesis using assms(1,2) by (simp add: zsorted_def)
qed

lemma zsorted_filter: "zsorted es \<Longrightarrow> zsorted (filter P es)"
  by (simp add: zsorted_def sorted_wrt_filter)

theorem sl_insert_sorted:
  assumes "sl_rep sl es" "zsorted es"
  shows "\<exists>x sl'. sl_insert s m sl = Some (x, sl') \<and> sl_rep sl' (zinsert (m, s) es)"
  using sl_insert_rep [OF assms(1), of s m] insertAt_zinsert [OF assms(2)] by metis

theorem sl_deleteNode_sorted:
  assumes "sl_rep sl es" "zsorted es"
  shows "\<exists>sl'. sl_deleteNode s m sl = Some (\<exists>e \<in> set es. same_entry (m, s) e, sl') \<and>
    sl_rep sl' (zdelete (m, s) es)"
proof -
  from sl_deleteNode_rep [OF assms(1), of m s] obtain P where P: "zlands es (m, s) P"
    "if P < length es \<and> same_entry (m, s) (es ! P)
     then \<exists>sl'. sl_deleteNode s m sl = Some (True, sl') \<and> sl_rep sl' (deleteAt P es)
     else sl_deleteNode s m sl = Some (False, sl)" by blast
  show ?thesis
  proof (cases "P < length es \<and> same_entry (m, s) (es ! P)")
    case True
    then have "\<exists>e \<in> set es. same_entry (m, s) e" by (meson nth_mem)
    with True P deleteAt_zdelete [OF assms(2) P(1)] show ?thesis by auto
  next
    case False
    then have z: "zdelete (m, s) es = es" by (rule zdelete_absent [OF assms(2) P(1)])
    then have "\<not> (\<exists>e \<in> set es. same_entry (m, s) e)" unfolding zdelete_def filter_id_conv by blast
    with z False P(2) assms(1) show ?thesis by simp
  qed
qed

section \<open>Queries\<close>

text \<open>
  A descent whose condition holds exactly up to position \<open>K\<close> stays at or before \<open>K\<close>, and is
  at \<open>K\<close> after the lowest level.
\<close>

definition sl_up_to :: "nat list \<Rightarrow> (nat \<Rightarrow> bool) \<Rightarrow> nat \<Rightarrow> bool" where
  "sl_up_to ns ok K \<longleftrightarrow> (\<forall>j. 0 < j \<and> j < length ns \<longrightarrow> ok j = (j \<le> K))"

lemma walked_up_to:
  assumes "sl_walked sl ns ok i p p' q" "sl_up_to ns ok K" "p \<le> K"
  shows "p' \<le> K" "p' < length ns" "i < sl_tall sl (ns ! p')"
    "(\<And>x. x \<in> set ns \<Longrightarrow> 1 \<le> sl_tall sl x) \<Longrightarrow> K < length ns \<Longrightarrow> i = 0 \<Longrightarrow> p' = K"
proof -
  note w = assms(1) [unfolded sl_walked_def]
  show "p' < length ns" "i < sl_tall sl (ns ! p')" using w by auto
  show le: "p' \<le> K"
  proof (cases "p' = p")
    case False
    with w have "0 < p'" "p' < length ns" "ok p'" by auto
    with assms(2) show ?thesis by (simp add: sl_up_to_def)
  qed (use assms(3) in simp)
  show "p' = K" if pos: "\<And>x. x \<in> set ns \<Longrightarrow> 1 \<le> sl_tall sl x" and K: "K < length ns" and i: "i = 0"
  proof (rule ccontr)
    assume "p' \<noteq> K"
    with le have less: "p' < K" by simp
    have q: "is_next (map (sl_tall sl) ns) 0 p' q" using w i by simp
    have "\<not> Suc p' < q"
    proof
      assume "Suc p' < q"
      with is_nextD(3) [OF q, of "Suc p'"] less K have "sl_tall sl (ns ! Suc p') \<le> 0" by simp
      with pos [OF nth_mem, of "Suc p'"] less K show False by simp
    qed
    with is_nextD(1) [OF q] have "q = Suc p'" by simp
    with w less K assms(2) show False by (simp add: sl_up_to_def)
  qed
qed

lemma descend_ok:
  assumes sp: "sl_spine sl ns" and pos: "\<And>x. x \<in> set ns \<Longrightarrow> 1 \<le> sl_tall sl x"
    and up: "sl_up_to ns (\<lambda>j. go (node_at sl ns j)) K" and K: "K < length ns"
  shows "0 < k \<Longrightarrow> k \<le> sl_height sl \<Longrightarrow> p < length ns \<Longrightarrow> k \<le> sl_tall sl (ns ! p) \<Longrightarrow> p \<le> K \<Longrightarrow>
    descend sl go k (ns ! p) = Some (ns ! K)"
proof (induction k arbitrary: p)
  case (Suc k)
  from slWalk_ok [OF sp, of p k go 0] Suc.prems obtain p' q
    where walk: "slWalk sl go k (ns ! p) 0 = Some (ns ! p', 0 + of_nat (p' - p))"
      and w: "sl_walked sl ns (\<lambda>j. go (node_at sl ns j)) k p p' q" by auto
  note w' = walked_up_to [OF w up Suc.prems(5)]
  show ?case
  proof (cases "k = 0")
    case True
    with w'(4) [OF pos K] walk show ?thesis by simp
  next
    case False
    with Suc.IH [of p'] w'(1-3) Suc.prems(2) have "descend sl go k (ns ! p') = Some (ns ! K)" by simp
    with walk show ?thesis by simp
  qed
qed simp

lemma getRankLoop_ok:
  assumes sp: "sl_spine sl ns" and pos: "\<And>x. x \<in> set ns \<Longrightarrow> 1 \<le> sl_tall sl x" and len: "length ns \<le> 2 ^ 32"
    and up: "sl_up_to ns (\<lambda>j. precedesEq (node_at sl ns j) s m) K" and K: "K < length ns"
    and name: "\<And>j. j < length ns \<Longrightarrow> member (node_at sl ns j) = m \<longleftrightarrow> j = K"
  shows "0 < k \<Longrightarrow> k \<le> sl_height sl \<Longrightarrow> p < length ns \<Longrightarrow> k \<le> sl_tall sl (ns ! p) \<Longrightarrow> p \<le> K \<Longrightarrow>
    getRankLoop sl s m k (ns ! p) p = Some K"
proof (induction k arbitrary: p)
  case (Suc k)
  from rankWalk_ok [OF sp, of p k "\<lambda>n _. precedesEq n s m"] Suc.prems len obtain p' q
    where walk: "rankWalk sl (\<lambda>n _. precedesEq n s m) k (ns ! p) p = Some (ns ! p', p')"
      and w: "sl_walked sl ns (\<lambda>j. precedesEq (node_at sl ns j) s m) k p p' q" by auto
  note w' = walked_up_to [OF w up Suc.prems(5)]
  show ?case
  proof (cases "p' = K")
    case True
    with walk name [OF K] spine_node [OF sp K] show ?thesis by simp
  next
    case False
    with w'(4) [OF pos K] have "0 < k" by auto
    with Suc.IH [of p'] w'(1-3) Suc.prems(2) have "getRankLoop sl s m k (ns ! p') p' = Some K" by simp
    with walk name [OF w'(2)] spine_node [OF sp w'(2)] False show ?thesis by simp
  qed
qed simp

lemma byRankLoop_ok:
  assumes sp: "sl_spine sl ns" and pos: "\<And>x. x \<in> set ns \<Longrightarrow> 1 \<le> sl_tall sl x" and len: "length ns \<le> 2 ^ 32"
    and K: "K < length ns"
  shows "0 < k \<Longrightarrow> k \<le> sl_height sl \<Longrightarrow> p < length ns \<Longrightarrow> k \<le> sl_tall sl (ns ! p) \<Longrightarrow> p \<le> K \<Longrightarrow>
    byRankLoop sl K k (ns ! p) p = Some (Some (ns ! K))"
proof (induction k arbitrary: p)
  case (Suc k)
  from rankWalk_ok [OF sp, of p k "\<lambda>_ t. t \<le> K"] Suc.prems len obtain p' q
    where walk: "rankWalk sl (\<lambda>_ t. t \<le> K) k (ns ! p) p = Some (ns ! p', p')"
      and w: "sl_walked sl ns (\<lambda>j. j \<le> K) k p p' q" by auto
  have "sl_up_to ns (\<lambda>j. j \<le> K) K" by (simp add: sl_up_to_def)
  note w' = walked_up_to [OF w this Suc.prems(5)]
  show ?case
  proof (cases "p' = K")
    case False
    with w'(4) [OF pos K] have "0 < k" by auto
    with Suc.IH [of p'] w'(1-3) Suc.prems(2) have "byRankLoop sl K k (ns ! p') p' = Some (Some (ns ! K))" by simp
    with walk False show ?thesis by simp
  qed (use walk in simp)
qed simp

lemma byRankLoop_beyond:
  assumes sp: "sl_spine sl ns" and len: "length ns \<le> 2 ^ 32" and K: "length ns \<le> K"
  shows "k \<le> sl_height sl \<Longrightarrow> p < length ns \<Longrightarrow> k \<le> sl_tall sl (ns ! p) \<Longrightarrow>
    byRankLoop sl K k (ns ! p) p = Some None"
proof (induction k arbitrary: p)
  case (Suc k)
  from rankWalk_ok [OF sp, of p k "\<lambda>_ t. t \<le> K"] Suc.prems len obtain p' q
    where walk: "rankWalk sl (\<lambda>_ t. t \<le> K) k (ns ! p) p = Some (ns ! p', p')"
      and w: "sl_walked sl ns (\<lambda>j. j \<le> K) k p p' q" by auto
  then have "p' < length ns" "k < sl_tall sl (ns ! p')" by (auto simp: sl_walked_def)
  with Suc.IH [of p'] Suc.prems(1) walk K show ?case by simp
qed simp

text \<open>The queries on the whole list.\<close>

lemma shape_pos: "sl_shape sl xs \<Longrightarrow> x \<in> set (sl_head sl # xs) \<Longrightarrow> 1 \<le> sl_tall sl x"
  using shapeD(5,6) by fastforce

lemma zsorted_less: "zsorted es \<Longrightarrow> i < j \<Longrightarrow> j < length es \<Longrightarrow> zless (es ! i) (es ! j)"
  by (simp add: zsorted_def sorted_wrt_iff_nth_less)

lemma node_member: "sl_spine sl ns \<Longrightarrow> p < length ns \<Longrightarrow> member (node_at sl ns p) = fst (sl_entry sl (ns ! p))"
  using node_entry by (metis fst_conv)

lemma precedesEq_entry:
  assumes "sl_spine sl ns" "p < length ns"
  shows "precedesEq (node_at sl ns p) s m \<longleftrightarrow>
    zless (sl_entry sl (ns ! p)) (m, s) \<or> same_entry (sl_entry sl (ns ! p)) (m, s)"
  unfolding node_entry [OF assms, symmetric]
  by (auto simp: precedesEq_def zless_def same_entry_def)

text \<open>
  The rank of a present entry is its position. The empty member is excluded: the head's
  member is empty too, and the search may stop there.
\<close>

theorem sl_getRank_rep:
  assumes rep: "sl_rep sl es" "zsorted es" "distinct (map fst es)" "length es < 2 ^ 32"
    and k: "k < length es" "same_entry (m, s) (es ! k)" and m: "m \<noteq> ''''"
  shows "sl_getRank s m sl = Some (Suc k)"
proof -
  from rep(1) obtain xs where sh: "sl_shape sl xs" and es: "map (sl_entry sl) xs = es" by (auto simp: sl_rep_def)
  let ?ns = "sl_head sl # xs"
  note shD = shapeD [OF sh]
  have len: "length es = length xs" using es by auto
  have nth: "sl_entry sl (?ns ! Suc j) = es ! j" if "j < length xs" for j using that es by auto
  have ek: "same_entry (es ! k) (m, s)" using k(2) same_entry_sym by metis
  have up: "sl_up_to ?ns (\<lambda>j. precedesEq (node_at sl ?ns j) s m) (Suc k)"
    unfolding sl_up_to_def
  proof (intro allI impI)
    fix j assume j: "0 < j \<and> j < length ?ns"
    then obtain i where i: "j = Suc i" "i < length xs" by (cases j) auto
    consider "i < k" | "i = k" | "k < i" by linarith
    then show "precedesEq (node_at sl ?ns j) s m = (j \<le> Suc k)"
    proof cases
      case 1
      with zsorted_less [OF rep(2) 1 k(1)] zless_same_right [OF ek] i j precedesEq_entry [OF shD(1), of j s m] nth [of i]
      show ?thesis by simp
    next
      case 2
      with ek i j precedesEq_entry [OF shD(1), of j s m] nth [of i] show ?thesis by simp
    next
      case 3
      with zsorted_less [OF rep(2) 3] i len have "zless (es ! k) (es ! i)" by simp
      with k(2) have f: "zless (m, s) (es ! i)" by (rule zless_same_left)
      have "\<not> zless (es ! i) (m, s)" using zless_trans [OF f] zless_irrefl by metis
      moreover have "\<not> same_entry (es ! i) (m, s)" using zless_same f same_entry_sym by metis
      ultimately show ?thesis using 3 i j precedesEq_entry [OF shD(1), of j s m] nth [of i] by simp
    qed
  qed
  have name: "member (node_at sl ?ns j) = m \<longleftrightarrow> j = Suc k" if j: "j < length ?ns" for j
  proof (cases j)
    case 0
    with node_member [OF shD(1), of 0] shD(10) m show ?thesis by simp
  next
    case (Suc i)
    with j have i: "i < length es" using len by simp
    have "fst (es ! i) = m \<longleftrightarrow> fst (es ! i) = fst (es ! k)" using k(2) by (simp add: same_entry_def)
    also have "\<dots> \<longleftrightarrow> i = k" using nth_eq_iff_index_eq [OF rep(3), of i k] i k(1) by simp
    finally show ?thesis using node_member [OF shD(1) j] nth [of i] Suc i len by simp
  qed
  have "getRankLoop sl s m (sl_height sl) (?ns ! 0) 0 = Some (Suc k)"
    by (rule getRankLoop_ok [OF shD(1) shape_pos [OF sh] _ up _ name]) (use rep(4) len k(1) shD(3,4,5) in auto)
  then show ?thesis by (simp add: sl_getRank_def)
qed

theorem sl_getElementByRank_rep:
  assumes "sl_shape sl xs" "length xs < 2 ^ 32" "0 < rank"
  shows "sl_getElementByRank rank sl = Some (if rank \<le> length xs then Some (xs ! (rank - 1)) else None)"
proof (cases "rank \<le> length xs")
  case True
  have "byRankLoop sl rank (sl_height sl) ((sl_head sl # xs) ! 0) 0 = Some (Some ((sl_head sl # xs) ! rank))"
    by (rule byRankLoop_ok [OF shapeD(1) [OF assms(1)] shape_pos [OF assms(1)]])
      (use assms True shapeD(3,4,5) [OF assms(1)] in auto)
  with True assms(3) show ?thesis by (simp add: sl_getElementByRank_def nth_Cons')
next
  case False
  have "byRankLoop sl rank (sl_height sl) ((sl_head sl # xs) ! 0) 0 = Some None"
    by (rule byRankLoop_beyond [OF shapeD(1) [OF assms(1)]])
      (use assms False shapeD(3,4,5) [OF assms(1)] in auto)
  with False show ?thesis by (simp add: sl_getElementByRank_def)
qed

text \<open>One step along the lowest level.\<close>

lemma lowest_step:
  assumes sh: "sl_shape sl xs" and p: "p < length xs"
  obtains lv n where "levelAt sl (xs ! p) 0 = Some lv"
    "forward_to lv = (if Suc p < length xs then Some (xs ! Suc p) else None)"
    "sl_nodes sl (xs ! p) = Some n" "sl_entry sl (xs ! p) = (member n, score n)"
proof -
  note shD = shapeD [OF sh]
  have "\<exists>lv. levelAt sl ((sl_head sl # xs) ! Suc p) 0 = Some lv \<and> forward_to lv =
      (if Suc (Suc p) < length (sl_head sl # xs) then Some ((sl_head sl # xs) ! Suc (Suc p)) else None)"
    by (rule level0 [OF shD(1) _ shape_pos [OF sh]]) (use p in auto)
  moreover from spine_node [OF shD(1), of "Suc p"] p obtain n where n: "sl_nodes sl (xs ! p) = Some n" by simp
  moreover from n have "sl_entry sl (xs ! p) = (member n, score n)" by (simp add: sl_entry_def)
  ultimately show thesis using that by auto
qed

lemma slCollect_ok:
  assumes sh: "sl_shape sl xs"
  shows "p \<le> length xs \<Longrightarrow> slCollect sl n (if p < length xs then Some (xs ! p) else None) =
    Some (map (sl_entry sl) (take n (drop p xs)))"
proof (induction n arbitrary: p)
  case (Suc n)
  show ?case
  proof (cases "p < length xs")
    case True
    then obtain lv n' where lv: "levelAt sl (xs ! p) 0 = Some lv"
      "forward_to lv = (if Suc p < length xs then Some (xs ! Suc p) else None)"
      "sl_nodes sl (xs ! p) = Some n'" "sl_entry sl (xs ! p) = (member n', score n')"
      by (rule lowest_step [OF sh])
    have "drop p xs = xs ! p # drop (Suc p) xs" using True by (simp add: Cons_nth_drop_Suc)
    with True Suc.IH [of "Suc p"] lv show ?thesis by simp
  qed simp
qed simp

lemma takeWhile_nth_True: "i < length (takeWhile R xs) \<Longrightarrow> R (xs ! i)"
  by (metis nth_mem set_takeWhileD takeWhile_nth)

lemma find_none:
  assumes "\<And>i. i < length xs \<Longrightarrow> \<not> P (xs ! i)"
  shows "find P xs = None" "find P (rev xs) = None"
  using assms unfolding find_None_iff set_rev in_set_conv_nth by blast+

text \<open>Queries by score: the descent passes the entries that satisfy a condition closed downwards.\<close>

lemma descend_takeWhile:
  assumes sh: "sl_shape sl xs" and es: "map (sl_entry sl) xs = es"
    and R: "\<And>n. go n = R (member n, score n)"
    and down: "\<And>i j. i < j \<Longrightarrow> j < length es \<Longrightarrow> R (es ! j) \<Longrightarrow> R (es ! i)"
  shows "descend sl go (sl_height sl) (sl_head sl) =
    Some ((sl_head sl # xs) ! length (takeWhile R es))"
proof -
  let ?ns = "sl_head sl # xs" and ?K = "length (takeWhile R es)"
  note shD = shapeD [OF sh]
  have len: "length es = length xs" using es by auto
  have KL: "?K \<le> length xs" using length_takeWhile_le [of R es] len by simp
  have R_nth: "R (es ! i) \<longleftrightarrow> i < ?K" if i: "i < length es" for i
  proof
    assume "R (es ! i)"
    show "i < ?K"
    proof (rule ccontr)
      assume "\<not> i < ?K"
      with i have "\<not> R (es ! ?K)" "?K \<le> i" using nth_length_takeWhile [of R es] by auto
      with down [of ?K i] i \<open>R (es ! i)\<close> show False by (cases "?K = i") auto
    qed
  next
    assume "i < ?K"
    then show "R (es ! i)" by (rule takeWhile_nth_True)
  qed
  have "sl_up_to ?ns (\<lambda>j. go (node_at sl ?ns j)) ?K"
    unfolding sl_up_to_def
  proof (intro allI impI)
    fix j assume j: "0 < j \<and> j < length ?ns"
    then obtain i where i: "j = Suc i" "i < length es" using len by (cases j) auto
    have "sl_entry sl (?ns ! j) = es ! i" using i es by auto
    with node_entry [OF shD(1), of j] j R_nth [OF i(2)] i(1) R show "go (node_at sl ?ns j) = (j \<le> ?K)" by auto
  qed
  then have "descend sl go (sl_height sl) (?ns ! 0) = Some (?ns ! ?K)"
    using descend_ok [OF shD(1) shape_pos [OF sh], of go ?K "sl_height sl" 0] KL shD(3,4,5) by auto
  then show ?thesis by simp
qed

lemma zsorted_score: "zsorted es \<Longrightarrow> i < j \<Longrightarrow> j < length es \<Longrightarrow> float_le (snd (es ! i)) (snd (es ! j))"
  using zsorted_less by (fastforce simp: zless_def float_le_def)

lemma float_le_less_trans: "float_le a b \<Longrightarrow> float_lt b c \<Longrightarrow> float_lt a c"
  and float_le_trans: "float_le a b \<Longrightarrow> float_le b c \<Longrightarrow> float_le a c"
  by (auto simp: float_le_def float_lt_def float_eq_def)

theorem sl_getFirstInRange_rep:
  assumes sh: "sl_shape sl xs" and es: "map (sl_entry sl) xs = es" "zsorted es" and nan: "\<not> is_nan lo" "\<not> is_nan hi"
  shows "\<exists>r. sl_getFirstInRange lo hi sl = Some r \<and>
    map_option (sl_entry sl) r = find (\<lambda>e. float_le lo (snd e) \<and> float_le (snd e) hi) es"
proof -
  let ?R = "\<lambda>e. float_lt (snd e) lo" and ?ns = "sl_head sl # xs"
  let ?in = "\<lambda>e. float_le lo (snd e) \<and> float_le (snd e) hi"
  note shD = shapeD [OF sh]
  have len: "length es = length xs" using es(1) by auto
  have down: "float_lt (snd (es ! i)) lo" if "i < j" "j < length es" "float_lt (snd (es ! j)) lo" for i j
    using zsorted_score [OF es(2) that(1,2)] that(3) by (rule float_le_less_trans)
  have d: "descend sl (\<lambda>n. float_lt (score n) lo) (sl_height sl) (sl_head sl) =
      Some (?ns ! length (takeWhile ?R es))"
    by (rule descend_takeWhile [OF sh es(1), where R = ?R]) (rule refl prod.sel | erule (2) down | simp only: prod.sel)+
  define K where "K = length (takeWhile ?R es)"
  have K: "K \<le> length xs" using length_takeWhile_le [of ?R es] len by (simp add: K_def)
  have num: "\<not> is_nan (snd (es ! i))" if "i < length es" for i using es(2) that by (simp add: zsorted_def)
  have below: "\<not> ?in (es ! i)" if "i < K" for i
  proof -
    have "?R (es ! i)" by (rule takeWhile_nth_True) (use that in \<open>simp add: K_def\<close>)
    then show ?thesis by (auto simp: float_lt_def float_le_def float_eq_def)
  qed
  have "\<exists>lv. levelAt sl (?ns ! K) 0 = Some lv \<and>
      forward_to lv = (if Suc K < length ?ns then Some (?ns ! Suc K) else None)"
    by (rule level0 [OF shD(1) _ shape_pos [OF sh]]) (use K in auto)
  then obtain lv where lv: "levelAt sl (?ns ! K) 0 = Some lv"
    "forward_to lv = (if K < length xs then Some (xs ! K) else None)" by auto
  show ?thesis
  proof (cases "K < length xs")
    case False
    have "find ?in es = None" by (rule find_none(1), rule below) (use False K len in simp)
    with d lv False show ?thesis by (simp add: sl_getFirstInRange_def K_def [symmetric])
  next
    case True
    then obtain n where n: "sl_nodes sl (xs ! K) = Some n" using spine_node [OF shD(1), of "Suc K"] by auto
    then have e: "sl_entry sl (xs ! K) = es ! K" "score n = snd (es ! K)"
      using True es(1) by (auto simp: sl_entry_def)
    have run: "sl_getFirstInRange lo hi sl = Some (if float_lt hi (snd (es ! K)) then None else Some (xs ! K))"
      using d lv True n e(2) by (simp add: sl_getFirstInRange_def K_def [symmetric])
    have "\<not> ?R (es ! K)" using nth_length_takeWhile [of ?R es] True len by (simp add: K_def)
    then have low: "float_le lo (snd (es ! K))"
      using True len num [of K] nan by (auto simp: float_lt_def float_le_def float_eq_def)
    have "find ?in es = (if float_lt hi (snd (es ! K)) then None else Some (es ! K))"
    proof (cases "float_lt hi (snd (es ! K))")
      case above: True
      have "\<not> ?in (es ! i)" if i: "i < length es" for i
      proof (cases "i < K")
        case False
        then have "float_le (snd (es ! K)) (snd (es ! i))"
          using zsorted_score [OF es(2), of K i] i num [OF i] by (cases "i = K") (auto simp: float_le_def float_eq_refl)
        with above show ?thesis by (auto simp: float_lt_def float_le_def float_eq_def)
      qed (use below in simp)
      from find_none(1) [of es ?in, OF this] above show ?thesis by simp
    next
      case False
      with low nan num [of K] True len have "?in (es ! K)"
        by (auto simp: float_lt_def float_le_def float_eq_def)
      with False below True len show ?thesis by (auto simp: find_Some_iff intro!: exI [of _ K])
    qed
    with run e(1) show ?thesis by simp
  qed
qed

theorem sl_getLastInRange_rep:
  assumes sh: "sl_shape sl xs" and es: "map (sl_entry sl) xs = es" "zsorted es" and nan: "\<not> is_nan lo" "\<not> is_nan hi"
  shows "\<exists>r. sl_getLastInRange lo hi sl = Some r \<and>
    map_option (sl_entry sl) r = find (\<lambda>e. float_le lo (snd e) \<and> float_le (snd e) hi) (rev es)"
proof -
  let ?R = "\<lambda>e. float_le (snd e) hi" and ?ns = "sl_head sl # xs"
  let ?in = "\<lambda>e. float_le lo (snd e) \<and> float_le (snd e) hi"
  note shD = shapeD [OF sh]
  have len: "length es = length xs" using es(1) by auto
  have down: "float_le (snd (es ! i)) hi" if "i < j" "j < length es" "float_le (snd (es ! j)) hi" for i j
    using zsorted_score [OF es(2) that(1,2)] that(3) by (rule float_le_trans)
  have d: "descend sl (\<lambda>n. float_le (score n) hi) (sl_height sl) (sl_head sl) =
      Some (?ns ! length (takeWhile ?R es))"
    by (rule descend_takeWhile [OF sh es(1), where R = ?R]) (rule refl prod.sel | erule (2) down | simp only: prod.sel)+
  define K where "K = length (takeWhile ?R es)"
  have K: "K \<le> length es" using length_takeWhile_le [of ?R es] by (simp add: K_def)
  have num: "\<not> is_nan (snd (es ! i))" if "i < length es" for i using es(2) that by (simp add: zsorted_def)
  have above: "\<not> ?in (es ! i)" if i: "K \<le> i" "i < length es" for i
  proof -
    have "\<not> ?R (es ! K)" using nth_length_takeWhile [of ?R es] i by (simp add: K_def)
    then show ?thesis
      using zsorted_score [OF es(2), of K i] i num [of K] num [of i] nan(2)
      by (cases "i = K") (auto simp: float_lt_def float_le_def float_eq_def)
  qed
  obtain n where n: "sl_nodes sl (?ns ! K) = Some n" using spine_node [OF shD(1), of K] K len by auto
  have head: "?ns ! K = sl_head sl \<longleftrightarrow> K = 0" using shD(11) K len by (cases K) (auto simp: in_set_conv_nth)
  show ?thesis
  proof (cases K)
    case 0
    have "find ?in (rev es) = None" by (rule find_none(2), rule above) (use 0 in simp_all)
    with d n head 0 show ?thesis by (simp add: sl_getLastInRange_def K_def [symmetric])
  next
    case (Suc i)
    then have i: "i < length es" "sl_entry sl (?ns ! K) = es ! i" using K es(1) by auto
    have sc: "score n = snd (es ! i)" unfolding i(2) [symmetric] using n by (simp add: sl_entry_def)
    have run: "sl_getLastInRange lo hi sl = Some (if float_lt (snd (es ! i)) lo then None else Some (?ns ! K))"
      using d n head Suc sc by (simp add: sl_getLastInRange_def K_def [symmetric] del: nth_Cons_Suc)
    have hi: "?R (es ! i)" by (rule takeWhile_nth_True) (use Suc in \<open>simp add: K_def [symmetric]\<close>)
    have "find ?in (rev es) = (if float_lt (snd (es ! i)) lo then None else Some (es ! i))"
    proof (cases "float_lt (snd (es ! i)) lo")
      case low: True
      have "\<not> ?in (es ! j)" if j: "j < length es" for j
      proof (cases "K \<le> j")
        case False
        then have "float_le (snd (es ! j)) (snd (es ! i))"
          using zsorted_score [OF es(2), of j i] i j num [OF j] Suc by (cases "j = i") (auto simp: float_le_def float_eq_refl)
        with low show ?thesis by (auto simp: float_lt_def float_le_def float_eq_def)
      qed (use above j in simp)
      from find_none(2) [of es ?in, OF this] low show ?thesis by simp
    next
      case False
      with hi nan num [OF i(1)] have "?in (es ! i)" by (auto simp: float_lt_def float_le_def float_eq_def)
      moreover have "\<not> ?in (rev es ! j)" if "j < length es - Suc i" for j
        using above [of "length es - Suc j"] that Suc by (simp add: rev_nth)
      ultimately show ?thesis
        using False i by (auto simp: find_Some_iff rev_nth intro!: exI [of _ "length es - Suc i"])
    qed
    with run i(2) show ?thesis by simp
  qed
qed

section \<open>Cloning\<close>

lemma zinsert_last:
  assumes "zsorted (es @ [f])"
  shows "zinsert f es = es @ [f]"
proof -
  have "zless e f" if "e \<in> set es" for e using assms that by (simp add: zsorted_def sorted_wrt_append)
  then show ?thesis by (simp add: zinsert_def)
qed

lemma slCloneLoop_ok:
  assumes sh: "sl_shape sl xs" and es: "map (sl_entry sl) xs = es" "zsorted es"
  shows "p \<le> length xs \<Longrightarrow> sl_rep copy (take p es) \<Longrightarrow>
    \<exists>copy'. slCloneLoop sl (if p < length xs then Some (xs ! p) else None) copy = Some copy' \<and> sl_rep copy' es"
proof (induction "length xs - p" arbitrary: p copy)
  case 0
  then show ?case using es(1) by (subst slCloneLoop.simps) auto
next
  case (Suc d)
  have p: "p < length xs" using Suc.hyps(2) by simp
  then obtain lv n where lv: "levelAt sl (xs ! p) 0 = Some lv"
    "forward_to lv = (if Suc p < length xs then Some (xs ! Suc p) else None)"
    and n: "sl_nodes sl (xs ! p) = Some n" "sl_entry sl (xs ! p) = (member n, score n)"
    by (rule lowest_step [OF sh])
  have len: "length es = length xs" using es(1) by auto
  have e: "es ! p = (member n, score n)" using p n(2) unfolding es(1) [symmetric] by simp
  have next_take: "take (Suc p) es = take p es @ [es ! p]" using p len by (simp add: take_Suc_conv_app_nth)
  have sorted: "zsorted (take q es)" for q
    using es(2) set_take_subset [of q es] by (auto simp: zsorted_def intro: sorted_wrt_take)
  have "zinsert (es ! p) (take p es) = take (Suc p) es"
    using zinsert_last sorted [of "Suc p"] unfolding next_take by blast
  with sl_insert_sorted [OF Suc.prems(2) sorted, of "score n" "member n"] e obtain y copy1
    where ins: "sl_insert (score n) (member n) copy = Some (y, copy1)" "sl_rep copy1 (take (Suc p) es)" by auto
  have "d = length xs - Suc p" "Suc p \<le> length xs" using Suc.hyps(2) p by simp_all
  from Suc.hyps(1) [OF this ins(2)] obtain copy'
    where "slCloneLoop sl (forward_to lv) copy1 = Some copy'" "sl_rep copy' es"
    unfolding lv(2) by blast
  with p n(1) lv(1) ins(1) show ?case by (subst slCloneLoop.simps) simp
qed

theorem sl_clone_rep:
  assumes "sl_rep sl es" "zsorted es"
  shows "\<exists>copy. sl_clone rng sl = Some copy \<and> sl_rep copy es"
proof -
  from assms(1) obtain xs where sh: "sl_shape sl xs" and es: "map (sl_entry sl) xs = es" by (auto simp: sl_rep_def)
  have "\<exists>lv. levelAt sl ((sl_head sl # xs) ! 0) 0 = Some lv \<and> forward_to lv =
      (if Suc 0 < length (sl_head sl # xs) then Some ((sl_head sl # xs) ! Suc 0) else None)"
    by (rule level0 [OF shapeD(1) [OF sh] _ shape_pos [OF sh]]) auto
  then obtain lv where lv: "levelAt sl (sl_head sl) 0 = Some lv"
    "forward_to lv = (if 0 < length xs then Some (xs ! 0) else None)" by auto
  from slCloneLoop_ok [OF sh es assms(2), of 0 "newSkipList rng"] newSkipList_rep lv show ?thesis
    by (simp add: sl_clone_def)
qed

text \<open>Without an order on the scores a clone still returns a well-formed list.\<close>

lemma slCloneLoop_returns:
  assumes sh: "sl_shape sl xs"
  shows "p \<le> length xs \<Longrightarrow> sl_rep copy fs \<Longrightarrow>
    \<exists>copy' es'. slCloneLoop sl (if p < length xs then Some (xs ! p) else None) copy = Some copy' \<and> sl_rep copy' es'"
proof (induction "length xs - p" arbitrary: p copy fs)
  case 0
  then show ?case by (subst slCloneLoop.simps) auto
next
  case (Suc d)
  have p: "p < length xs" using Suc.hyps(2) by simp
  then obtain lv n where lv: "levelAt sl (xs ! p) 0 = Some lv"
    "forward_to lv = (if Suc p < length xs then Some (xs ! Suc p) else None)"
    and n: "sl_nodes sl (xs ! p) = Some n" "sl_entry sl (xs ! p) = (member n, score n)"
    by (rule lowest_step [OF sh])
  from sl_insert_rep [OF Suc.prems(2), of "score n" "member n"] obtain y copy1 fs1
    where ins: "sl_insert (score n) (member n) copy = Some (y, copy1)" "sl_rep copy1 fs1" by blast
  have "d = length xs - Suc p" "Suc p \<le> length xs" using Suc.hyps(2) p by simp_all
  from Suc.hyps(1) [OF this ins(2)] obtain copy' es'
    where "slCloneLoop sl (forward_to lv) copy1 = Some copy'" "sl_rep copy' es'"
    unfolding lv(2) by blast
  with p n(1) lv(1) ins(1) show ?case by (subst slCloneLoop.simps) auto
qed

lemma sl_clone_returns:
  assumes "sl_rep sl es"
  shows "\<exists>copy es'. sl_clone rng sl = Some copy \<and> sl_rep copy es'"
proof -
  from assms obtain xs where sh: "sl_shape sl xs" by (auto simp: sl_rep_def)
  have "\<exists>lv. levelAt sl ((sl_head sl # xs) ! 0) 0 = Some lv \<and> forward_to lv =
      (if Suc 0 < length (sl_head sl # xs) then Some ((sl_head sl # xs) ! Suc 0) else None)"
    by (rule level0 [OF shapeD(1) [OF sh] _ shape_pos [OF sh]]) auto
  then obtain lv where lv: "levelAt sl (sl_head sl) 0 = Some lv"
    "forward_to lv = (if 0 < length xs then Some (xs ! 0) else None)" by auto
  from slCloneLoop_returns [OF sh, of 0 "newSkipList rng" "[]"] newSkipList_rep lv show ?thesis
    by (simp add: sl_clone_def)
qed

end
