(* ===== verification/SortedSetSpec.thy ===== *)
theory SortedSetSpec
  imports SortedSet SkipListOrder
begin

text \<open>
  Correctness of the sorted set. Whatever the scores are, every operation returns and keeps
  the table and the skip list intact. With scores that are numbers the two agree, and a
  sorted set is a list of entries in order: the reference operations of the locale
  \<open>ordered_set\<close>, which the code's operations implement.
\<close>

section \<open>Well-formedness\<close>

definition ss_ok :: "(string \<Rightarrow> nat) \<Rightarrow> sorted_set \<Rightarrow> bool" where
  "ss_ok hasher z \<longleftrightarrow> ht_inv hasher (ss_dict z) \<and> (\<exists>es. sl_rep (ss_zsl z) es)"

lemma newSortedSet_ok [simp]: "ss_ok hasher (newSortedSet rng)"
  using newSkipList_rep by (auto simp: ss_ok_def newSortedSet_def)

lemma sl_insert_returns: "sl_rep sl es \<Longrightarrow> \<exists>x sl' es'. sl_insert s m sl = Some (x, sl') \<and> sl_rep sl' es'"
  using sl_insert_rep by blast

lemma sl_deleteNode_returns:
  "sl_rep sl es \<Longrightarrow> \<exists>b sl' es'. sl_deleteNode s m sl = Some (b, sl') \<and> sl_rep sl' es'"
  using sl_deleteNode_rep [of sl es m s] by (metis (full_types))

theorem ss_add_returns:
  assumes "ss_ok hasher z"
  shows "\<exists>n z'. ss_add hasher m s z = Some (n, z') \<and> ss_ok hasher z'"
proof -
  from assms obtain es where inv: "ht_inv hasher (ss_dict z)" and es: "sl_rep (ss_zsl z) es"
    by (auto simp: ss_ok_def)
  show ?thesis
  proof (cases "ht_get hasher m (ss_dict z)")
    case None
    from sl_insert_returns [OF es, of s m] obtain x sl' es'
      where "sl_insert s m (ss_zsl z) = Some (x, sl')" "sl_rep sl' es'" by blast
    with None inv show ?thesis by (auto simp: ss_add_def ss_ok_def ht.put_inv)
  next
    case (Some old)
    from sl_deleteNode_returns [OF es, of old m] obtain b sl1 es1
      where d: "sl_deleteNode old m (ss_zsl z) = Some (b, sl1)" "sl_rep sl1 es1" by blast
    from sl_insert_returns [OF d(2), of s m] obtain x sl' es'
      where "sl_insert s m sl1 = Some (x, sl')" "sl_rep sl' es'" by blast
    with Some inv d(1) assms show ?thesis by (auto simp: ss_add_def ss_ok_def ht.put_inv)
  qed
qed

theorem ss_remove_returns:
  assumes "ss_ok hasher z"
  shows "\<exists>n z'. ss_remove hasher m z = Some (n, z') \<and> ss_ok hasher z'"
proof -
  from assms obtain es where inv: "ht_inv hasher (ss_dict z)" and es: "sl_rep (ss_zsl z) es"
    by (auto simp: ss_ok_def)
  show ?thesis
  proof (cases "ht_get hasher m (ss_dict z)")
    case (Some old)
    from sl_deleteNode_returns [OF es, of old m] obtain b sl1 es1
      where d: "sl_deleteNode old m (ss_zsl z) = Some (b, sl1)" "sl_rep sl1 es1" by blast
    with Some inv show ?thesis by (auto simp: ss_remove_def ss_ok_def ht.rem_inv)
  qed (use assms in \<open>simp add: ss_remove_def\<close>)
qed

theorem ss_clone_returns:
  assumes "ss_ok hasher z"
  shows "\<exists>z'. ss_clone rng z = Some z'"
proof -
  from assms obtain es where "sl_rep (ss_zsl z) es" by (auto simp: ss_ok_def)
  from sl_clone_returns [OF this, of rng] show ?thesis by (auto simp: ss_clone_def)
qed

text \<open>The ranks may be wrong when spans or scores are, but the searches end inside the list.\<close>

lemma rankWalk_returns:
  assumes "sl_spine sl ns" "p < length ns" "i < sl_tall sl (ns ! p)"
  shows "\<exists>p' r'. rankWalk sl go i (ns ! p) r = Some (ns ! p', r') \<and> p' < length ns \<and> i < sl_tall sl (ns ! p')"
  using assms(2,3)
proof (induction "length ns - p" arbitrary: p r rule: less_induct)
  case less
  from spine_level [OF assms(1) less.prems] obtain q lv
    where q: "is_next (map (sl_tall sl) ns) i p q" and lv: "levelAt sl (ns ! p) i = Some lv"
      "forward_to lv = (if q < length ns then Some (ns ! q) else None)" by blast
  show ?case
  proof (cases "q < length ns \<and> go (node_at sl ns q) (r + unat (span lv))")
    case True
    with is_nextD [OF q] have "length ns - q < length ns - p" "q < length ns" "i < sl_tall sl (ns ! q)"
      by auto
    from less.hyps [OF this, of "r + unat (span lv)"] True lv spine_node [OF assms(1), of q] show ?thesis
      by (subst rankWalk.simps) simp
  next
    case False
    then have "rankWalk sl go i (ns ! p) r = Some (ns ! p, r)"
      using lv spine_node [OF assms(1), of q] by (subst rankWalk.simps) simp
    with less.prems show ?thesis by blast
  qed
qed

lemma rankLoops_return:
  assumes "sl_spine sl ns"
  shows "p < length ns \<Longrightarrow> k \<le> sl_tall sl (ns ! p) \<Longrightarrow> \<exists>rank. getRankLoop sl s m k (ns ! p) r = Some rank"
    "p < length ns \<Longrightarrow> k \<le> sl_tall sl (ns ! p) \<Longrightarrow>
      \<exists>res. byRankLoop sl rank k (ns ! p) r = Some res \<and> (\<forall>x. res = Some x \<longrightarrow> x \<in> set ns)"
proof (induction k arbitrary: p r)
  case (Suc k)
  {
    case 1
    with rankWalk_returns [OF assms, of p k "\<lambda>n _. precedesEq n s m" r] obtain p' r'
      where w: "rankWalk sl (\<lambda>n _. precedesEq n s m) k (ns ! p) r = Some (ns ! p', r')"
        "p' < length ns" "k < sl_tall sl (ns ! p')" by auto
    with Suc.IH(1) [of p' r'] spine_node [OF assms w(2)] show ?case by simp
  next
    case 2
    with rankWalk_returns [OF assms, of p k "\<lambda>_ t. t \<le> rank" r] obtain p' r'
      where w: "rankWalk sl (\<lambda>_ t. t \<le> rank) k (ns ! p) r = Some (ns ! p', r')"
        "p' < length ns" "k < sl_tall sl (ns ! p')" by auto
    with Suc.IH(2) [of p' r'] show ?case by simp
  }
qed simp_all

lemma slCollect_returns:
  assumes sp: "sl_spine sl ns" and pos: "\<And>x. x \<in> set ns \<Longrightarrow> 1 \<le> sl_tall sl x"
  shows "(\<forall>x. node = Some x \<longrightarrow> x \<in> set ns) \<Longrightarrow> \<exists>es. slCollect sl n node = Some es"
proof (induction n arbitrary: node)
  case (Suc n)
  show ?case
  proof (cases node)
    case (Some x)
    with Suc.prems obtain p where p: "p < length ns" "ns ! p = x" by (auto simp: in_set_conv_nth)
    from level0 [OF sp p(1) pos] obtain lv where lv: "levelAt sl x 0 = Some lv"
      "forward_to lv = (if Suc p < length ns then Some (ns ! Suc p) else None)" unfolding p(2) by auto
    with Suc.IH [of "forward_to lv"] spine_node [OF sp p(1)] p(2) Some show ?thesis by auto
  qed simp
qed simp

theorem ss_queries_return:
  assumes "ss_ok hasher z"
  shows "\<exists>rank. ss_getRank hasher m z = Some rank" "\<exists>es. ss_rangeByRank lb start stop z = Some es"
proof -
  from assms obtain xs where sh: "sl_shape (ss_zsl z) xs" by (auto simp: ss_ok_def sl_rep_def)
  let ?sl = "ss_zsl z" and ?ns = "sl_head (ss_zsl z) # xs"
  note shD = shapeD [OF sh]
  have h: "0 < length ?ns" "sl_height ?sl \<le> sl_tall ?sl (?ns ! 0)" using shD(4,5) by auto
  show "\<exists>rank. ss_getRank hasher m z = Some rank"
  proof (cases "ht_get hasher m (ss_dict z)")
    case (Some s)
    from rankLoops_return(1) [OF shD(1) h, of s m 0] Some show ?thesis
      by (auto simp: ss_getRank_def sl_getRank_def)
  qed (simp add: ss_getRank_def)
  have collect: "\<exists>es. (do { node \<leftarrow> sl_getElementByRank rank ?sl; slCollect ?sl n node }) = Some es" for rank n
  proof -
    from rankLoops_return(2) [OF shD(1) h, of rank 0] obtain node
      where "sl_getElementByRank rank ?sl = Some node" "\<forall>x. node = Some x \<longrightarrow> x \<in> set ?ns"
      by (auto simp: sl_getElementByRank_def)
    with slCollect_returns [OF shD(1) shape_pos [OF sh], of node n] show ?thesis by simp
  qed
  show "\<exists>es. ss_rangeByRank lb start stop z = Some es"
    unfolding ss_rangeByRank_def Let_def by (simp only: split: if_split) (use collect in auto)
qed

text \<open>No operation on an intact sorted set fails.\<close>

definition ss_safe :: "(string \<Rightarrow> nat) \<Rightarrow> sorted_set \<Rightarrow> bool" where
  "ss_safe hasher z \<longleftrightarrow>
     (\<forall>m s. \<exists>n z'. ss_add hasher m s z = Some (n, z')) \<and> (\<forall>m. \<exists>n z'. ss_remove hasher m z = Some (n, z')) \<and>
     (\<forall>m. \<exists>rank. ss_getRank hasher m z = Some rank) \<and>
     (\<forall>lb start stop. \<exists>es. ss_rangeByRank lb start stop z = Some es) \<and> (\<forall>rng. \<exists>z'. ss_clone rng z = Some z')"

lemma ss_ok_safe: "ss_ok hasher z \<Longrightarrow> ss_safe hasher z"
  unfolding ss_safe_def
  using ss_add_returns [of hasher z] ss_remove_returns [of hasher z] ss_queries_return [of hasher z]
    ss_clone_returns [of hasher z]
  by (intro conjI allI) metis+

end
