(* ===== verification/OrderedSet.thy ===== *)
theory OrderedSet
  imports SortedSetSpec Containers
begin

text \<open>
  A sorted set is a list of entries in order. The reference operations work on lists; the
  contract is the locale \<open>ordered_set\<close>, in which any sequence of calls is shown to answer
  as the references do, and its interpretation is the code's sorted set.
\<close>

section \<open>The reference\<close>

definition zremove :: "string \<Rightarrow> (string \<times> double) list \<Rightarrow> (string \<times> double) list" where
  "zremove m es = filter (\<lambda>e. fst e \<noteq> m) es"

definition zadd :: "string \<Rightarrow> double \<Rightarrow> (string \<times> double) list \<Rightarrow> int \<times> (string \<times> double) list" where
  "zadd m s es = (case map_of es m of
      None \<Rightarrow> (1, zinsert (m, s) es)
    | Some old \<Rightarrow> (0, if float_eq old s then es else zinsert (m, s) (zremove m es)))"

definition zrank :: "string \<Rightarrow> (string \<times> double) list \<Rightarrow> nat" where
  "zrank m es = (if map_of es m = None then 0 else length (takeWhile (\<lambda>e. fst e \<noteq> m) es))"

datatype zset_call = AddScore string double | RemoveMember string | ScoreOf string | RankOf string
  | RangeOf int int | CountAll

datatype zset_answer = Amount int | Scored "double option" | Listed "(string \<times> double) list"

primrec zsetCall ::
  "(string \<Rightarrow> double \<Rightarrow> 't \<Rightarrow> (int \<times> 't) option) \<Rightarrow> (string \<Rightarrow> 't \<Rightarrow> (int \<times> 't) option) \<Rightarrow>
   (string \<Rightarrow> 't \<Rightarrow> double option) \<Rightarrow> (string \<Rightarrow> 't \<Rightarrow> nat option) \<Rightarrow>
   (int \<Rightarrow> int \<Rightarrow> 't \<Rightarrow> (string \<times> double) list option) \<Rightarrow> ('t \<Rightarrow> nat) \<Rightarrow>
   zset_call \<Rightarrow> 't \<Rightarrow> (zset_answer \<times> 't) option" where
  "zsetCall add rem look rank ranged count (AddScore m s) t = map_option (apfst Amount) (add m s t)"
| "zsetCall add rem look rank ranged count (RemoveMember m) t = map_option (apfst Amount) (rem m t)"
| "zsetCall add rem look rank ranged count (ScoreOf m) t = Some (Scored (look m t), t)"
| "zsetCall add rem look rank ranged count (RankOf m) t = map_option (\<lambda>r. (Amount (int r), t)) (rank m t)"
| "zsetCall add rem look rank ranged count (RangeOf a b) t = map_option (\<lambda>es. (Listed es, t)) (ranged a b t)"
| "zsetCall add rem look rank ranged count CountAll t = Some (Amount (int (count t)), t)"

primrec entriesCall :: "zset_call \<Rightarrow> (string \<times> double) list \<Rightarrow> zset_answer \<times> (string \<times> double) list" where
  "entriesCall (AddScore m s) es = apfst Amount (zadd m s es)"
| "entriesCall (RemoveMember m) es = (Amount (if map_of es m = None then 0 else 1), zremove m es)"
| "entriesCall (ScoreOf m) es = (Scored (map_of es m), es)"
| "entriesCall (RankOf m) es = (Amount (int (zrank m es)), es)"
| "entriesCall (RangeOf a b) es = (Listed (redis_range es a b), es)"
| "entriesCall CountAll es = (Amount (int (length es)), es)"

text \<open>
  What a caller must respect: scores are numbers, bounds fit in a 32-bit \<^verbatim>\<open>long\<close>, and the
  rank is asked of a member that is not empty.
\<close>

primrec proper_call :: "zset_call \<Rightarrow> bool" where
  "proper_call (AddScore m s) = (\<not> is_nan s)"
| "proper_call (RemoveMember m) = True"
| "proper_call (ScoreOf m) = True"
| "proper_call (RankOf m) = (m \<noteq> '''')"
| "proper_call (RangeOf a b) = (- (2 ^ 31) \<le> a \<and> a < 2 ^ 31 \<and> - (2 ^ 31) \<le> b \<and> b < 2 ^ 31)"
| "proper_call CountAll = True"

lemma length_zinsert [simp]: "length (zinsert f es) = Suc (length es)"
  unfolding zinsert_def by (metis add_Suc_right length_Cons length_append takeWhile_dropWhile_id)

lemma length_zadd: "length (snd (zadd m s es)) \<le> Suc (length es)"
  using length_filter_le [of "\<lambda>e. fst e \<noteq> m" es] by (auto simp: zadd_def zremove_def split: option.splits)

lemma length_entriesCall: "length (snd (entriesCall c es)) \<le> Suc (length es)"
proof (cases c)
  case (AddScore m s)
  with length_zadd show ?thesis by simp
qed (auto simp: zremove_def le_Suc_eq intro: le_SucI)

section \<open>The contract\<close>

locale ordered_set =
  fixes rep :: "'t \<Rightarrow> (string \<times> double) list \<Rightarrow> bool"
    and add :: "string \<Rightarrow> double \<Rightarrow> 't \<Rightarrow> (int \<times> 't) option" and rem :: "string \<Rightarrow> 't \<Rightarrow> (int \<times> 't) option"
    and look :: "string \<Rightarrow> 't \<Rightarrow> double option" and rank :: "string \<Rightarrow> 't \<Rightarrow> nat option"
    and ranged :: "int \<Rightarrow> int \<Rightarrow> 't \<Rightarrow> (string \<times> double) list option" and count :: "'t \<Rightarrow> nat"
  assumes add_ok: "rep t es \<Longrightarrow> \<not> is_nan s \<Longrightarrow>
      \<exists>t'. add m s t = Some (fst (zadd m s es), t') \<and> rep t' (snd (zadd m s es))"
    and rem_ok: "rep t es \<Longrightarrow>
      \<exists>t'. rem m t = Some (if map_of es m = None then 0 else 1, t') \<and> rep t' (zremove m es)"
    and score_ok: "rep t es \<Longrightarrow> look m t = map_of es m"
    and rank_ok: "rep t es \<Longrightarrow> length es < 2 ^ 31 \<Longrightarrow> m \<noteq> '''' \<Longrightarrow> rank m t = Some (zrank m es)"
    and range_ok: "rep t es \<Longrightarrow> length es < 2 ^ 31 \<Longrightarrow> proper_call (RangeOf a b) \<Longrightarrow>
      ranged a b t = Some (redis_range es a b)"
    and count_ok: "rep t es \<Longrightarrow> count t = length es"
begin

lemma call_simulates:
  assumes "rep t es" "proper_call c" "length es < 2 ^ 31"
  shows "\<exists>t'. zsetCall add rem look rank ranged count c t = Some (fst (entriesCall c es), t') \<and>
    rep t' (snd (entriesCall c es))"
proof (cases c)
  case (AddScore m s)
  with assms add_ok [of t es s m] show ?thesis by auto
next
  case (RemoveMember m)
  with assms rem_ok [of t es m] show ?thesis by auto
qed (use assms score_ok rank_ok range_ok count_ok in auto)

lemma run_simulates:
  "rep t es \<Longrightarrow> \<forall>c \<in> set cs. proper_call c \<Longrightarrow> length es + length cs < 2 ^ 31 \<Longrightarrow>
    \<exists>t'. runPartial (zsetCall add rem look rank ranged count) cs t = Some (fst (runCalls entriesCall cs es), t') \<and>
      rep t' (snd (runCalls entriesCall cs es))"
proof (induction cs arbitrary: t es)
  case (Cons c cs)
  from call_simulates [OF Cons.prems(1), of c] Cons.prems obtain t1
    where c: "zsetCall add rem look rank ranged count c t = Some (fst (entriesCall c es), t1)"
      "rep t1 (snd (entriesCall c es))" by auto
  have "length (snd (entriesCall c es)) + length cs < 2 ^ 31"
    using length_entriesCall [of c es] Cons.prems(3) by simp
  from Cons.IH [OF c(2) _ this] Cons.prems(2) c(1) show ?case by (auto simp: split_beta)
qed simp

end

section \<open>The sorted set of the code\<close>

text \<open>\<open>ss_lists z es\<close>: table and skip list of \<open>z\<close> both hold the entries \<open>es\<close>.\<close>

definition ss_lists :: "sorted_set \<Rightarrow> (string \<times> double) list \<Rightarrow> bool" where
  "ss_lists z es \<longleftrightarrow> ht_abs (ss_dict z) = map_of es \<and> sl_rep (ss_zsl z) es \<and> zsorted es \<and> distinct (map fst es)"

definition ss_rep :: "(string \<Rightarrow> nat) \<Rightarrow> sorted_set \<Rightarrow> (string \<times> double) list \<Rightarrow> bool" where
  "ss_rep hasher z es \<longleftrightarrow> ht_inv hasher (ss_dict z) \<and> ht_abs (ss_dict z) = map_of es \<and>
     sl_rep (ss_zsl z) es \<and> zsorted es \<and> distinct (map fst es)"

lemma ss_rep_lists: "ss_rep hasher z es \<longleftrightarrow> ht_inv hasher (ss_dict z) \<and> ss_lists z es"
  by (simp add: ss_rep_def ss_lists_def)

lemma ss_repD:
  assumes "ss_rep hasher z es"
  shows "ht_inv hasher (ss_dict z)" "ht_abs (ss_dict z) = map_of es" "sl_rep (ss_zsl z) es" "zsorted es"
    "distinct (map fst es)" "ht_get hasher m (ss_dict z) = map_of es m"
  using assms by (simp_all add: ss_rep_def ht.lookup_abs)

lemma ss_rep_ok: "ss_rep hasher z es \<Longrightarrow> ss_ok hasher z"
  by (auto simp: ss_rep_def ss_ok_def)

lemma ss_rep_new: "ss_rep hasher (newSortedSet rng) []"
  using newSkipList_rep by (simp add: ss_rep_def newSortedSet_def ht.new_abs zsorted_def)

lemma map_of_zinsert:
  assumes "map_of es m = None"
  shows "map_of (zinsert (m, s) es) = (map_of es)(m \<mapsto> s)"
proof -
  let ?l = "takeWhile (\<lambda>e. zless e (m, s)) es" and ?r = "dropWhile (\<lambda>e. zless e (m, s)) es"
  have "es = ?l @ ?r" by simp
  then have "map_of es = map_of ?r ++ map_of ?l" by (metis map_of_append)
  moreover from this assms have "map_of ?l m = None" by (metis map_add_None)
  ultimately show ?thesis by (auto simp: zinsert_def fun_eq_iff map_add_def split: option.splits)
qed

lemma distinct_zinsert:
  assumes "map_of es m = None" "distinct (map fst es)"
  shows "distinct (map fst (zinsert (m, s) es))"
proof -
  obtain l r where lr: "takeWhile (\<lambda>e. zless e (m, s)) es = l" "dropWhile (\<lambda>e. zless e (m, s)) es = r" "es = l @ r"
    by (metis takeWhile_dropWhile_id)
  with assms show ?thesis by (auto simp: zinsert_def map_of_eq_None_iff)
qed

lemma map_of_zremove: "map_of (zremove m es) = (map_of es)(m := None)"
  unfolding zremove_def by (induction es) (auto simp: fun_eq_iff)

lemma zremove_facts:
  "zsorted es \<Longrightarrow> zsorted (zremove m es)"
  "distinct (map fst es) \<Longrightarrow> distinct (map fst (zremove m es))"
  by (simp_all add: zremove_def zsorted_filter distinct_map_filter)

lemma zdelete_zremove:
  assumes "zsorted es" "distinct (map fst es)" "map_of es m = Some s"
  shows "zdelete (m, s) es = zremove m es"
  unfolding zdelete_def zremove_def
proof (rule filter_cong [OF refl])
  fix e assume e: "e \<in> set es"
  have "(m, s) \<in> set es" using assms(2,3) by (simp add: map_of_eq_Some_iff)
  moreover have "snd e = s" if "fst e = m" using e that assms(2,3)
    by (metis map_of_eq_Some_iff option.inject prod.collapse)
  ultimately show "(\<not> same_entry (m, s) e) = (fst e \<noteq> m)"
    using assms(1) by (auto simp: same_entry_def zsorted_def float_eq_refl)
qed

lemma absent_differs: "map_of es m = None \<Longrightarrow> e \<in> set es \<Longrightarrow> \<not> same_entry e (m, s)"
  by (auto simp: same_entry_def map_of_eq_None_iff)

text \<open>Adding to a skip list a member it does not hold.\<close>

lemma insert_absent_rep:
  assumes "sl_rep sl es" "zsorted es" "distinct (map fst es)" "map_of es m = None" "\<not> is_nan s"
  shows "\<exists>x sl'. sl_insert s m sl = Some (x, sl') \<and> sl_rep sl' (zinsert (m, s) es) \<and>
    zsorted (zinsert (m, s) es) \<and> distinct (map fst (zinsert (m, s) es))"
  using sl_insert_sorted [OF assms(1,2), of s m] zsorted_zinsert [OF assms(2), of "(m, s)"]
    distinct_zinsert [OF assms(4,3)] absent_differs [OF assms(4)] assms(5) by fastforce

lemma ss_add_rep:
  assumes rep: "ss_rep hasher z es" and s: "\<not> is_nan s"
  shows "\<exists>z'. ss_add hasher m s z = Some (fst (zadd m s es), z') \<and> ss_rep hasher z' (snd (zadd m s es))"
proof (cases "map_of es m")
  case None
  from insert_absent_rep [OF ss_repD(3,4,5) [OF rep] None s] obtain x sl'
    where sl': "sl_insert s m (ss_zsl z) = Some (x, sl')" "sl_rep sl' (zinsert (m, s) es)"
      "zsorted (zinsert (m, s) es)" "distinct (map fst (zinsert (m, s) es))" by blast
  then show ?thesis
    using None ss_repD(1,2) [OF rep] ss_repD(6) [OF rep, of m]
    by (simp add: ss_add_def zadd_def ss_rep_def ht.put_inv ht.put_abs map_of_zinsert)
next
  case (Some old)
  show ?thesis
  proof (cases "float_eq old s")
    case True
    with Some rep ss_repD(6) [OF rep, of m] show ?thesis by (simp add: ss_add_def zadd_def)
  next
    case False
    let ?es = "zremove m es"
    from sl_deleteNode_sorted [OF ss_repD(3,4) [OF rep], of old m] zdelete_zremove [OF ss_repD(4,5) [OF rep] Some]
    obtain b sl1 where d: "sl_deleteNode old m (ss_zsl z) = Some (b, sl1)" "sl_rep sl1 ?es" by auto
    have absent: "map_of ?es m = None" by (simp add: map_of_zremove)
    from insert_absent_rep [OF d(2) zremove_facts(1) [OF ss_repD(4) [OF rep]]
        zremove_facts(2) [OF ss_repD(5) [OF rep]] absent s] obtain x sl'
      where sl': "sl_insert s m sl1 = Some (x, sl')" "sl_rep sl' (zinsert (m, s) ?es)"
        "zsorted (zinsert (m, s) ?es)" "distinct (map fst (zinsert (m, s) ?es))" by blast
    then show ?thesis
      using Some False d(1) ss_repD(1,2) [OF rep] ss_repD(6) [OF rep, of m] map_of_zinsert [OF absent, of s]
      by (simp add: ss_add_def zadd_def ss_rep_def ht.put_inv ht.put_abs map_of_zremove)
  qed
qed

lemma ss_remove_rep:
  assumes rep: "ss_rep hasher z es"
  shows "\<exists>z'. ss_remove hasher m z = Some (if map_of es m = None then 0 else 1, z') \<and>
    ss_rep hasher z' (zremove m es)"
proof (cases "map_of es m")
  case None
  then have "zremove m es = es" unfolding zremove_def filter_id_conv by (auto simp: map_of_eq_None_iff)
  with None rep ss_repD(6) [OF rep, of m] show ?thesis by (simp add: ss_remove_def)
next
  case (Some old)
  from sl_deleteNode_sorted [OF ss_repD(3,4) [OF rep], of old m] zdelete_zremove [OF ss_repD(4,5) [OF rep] Some]
  obtain b sl1 where d: "sl_deleteNode old m (ss_zsl z) = Some (b, sl1)" "sl_rep sl1 (zremove m es)" by auto
  then show ?thesis
    using Some ss_repD(1,2) [OF rep] ss_repD(6) [OF rep, of m] zremove_facts [of es m] ss_repD(4,5) [OF rep]
    by (simp add: ss_remove_def ss_rep_def ht.rem_inv ht.rem_abs map_of_zremove)
qed

lemma ss_size_rep: "ss_rep hasher z es \<Longrightarrow> ss_size z = length es"
  using ht.count_card [of hasher "ss_dict z"] ss_repD(1,2,5) [of hasher z es]
  by (simp add: ss_size_def dom_map_of_conv_image_fst) (metis distinct_card image_set length_map)

lemma zrank_nth:
  assumes "distinct (map fst es)" "k < length es" "fst (es ! k) = m"
  shows "zrank m es = k"
proof -
  have "takeWhile (\<lambda>e. fst e \<noteq> m) es = take k es"
  proof (rule takeWhile_eq_take_P_nth)
    fix i assume "i < k" "i < length es"
    with assms nth_eq_iff_index_eq [OF assms(1), of i k] show "fst (es ! i) \<noteq> m" by auto
  qed (use assms in simp)
  moreover have "map_of es m \<noteq> None" using assms(2,3) nth_mem [OF assms(2)] by (auto simp: map_of_eq_None_iff)
  ultimately show ?thesis using assms(2) by (auto simp: zrank_def)
qed

lemma ss_getRank_rep:
  assumes rep: "ss_rep hasher z es" and len: "length es < 2 ^ 31" and m: "m \<noteq> ''''"
  shows "ss_getRank hasher m z = Some (zrank m es)"
proof (cases "map_of es m")
  case None
  with ss_repD(6) [OF rep, of m] show ?thesis by (simp add: ss_getRank_def zrank_def)
next
  case (Some s)
  with ss_repD(5) [OF rep] have "(m, s) \<in> set es" by (simp add: map_of_eq_Some_iff)
  then obtain k where k: "k < length es" "es ! k = (m, s)" by (auto simp: in_set_conv_nth)
  have "\<not> is_nan s" using ss_repD(4) [OF rep] \<open>(m, s) \<in> set es\<close> by (auto simp: zsorted_def)
  then have "same_entry (m, s) (es ! k)" using k(2) by (simp add: same_entry_def float_eq_refl)
  from sl_getRank_rep [OF ss_repD(3,4,5) [OF rep] _ k(1) this m] len
  have "sl_getRank s m (ss_zsl z) = Some (Suc k)" by simp
  with Some ss_repD(6) [OF rep, of m] zrank_nth [OF ss_repD(5) [OF rep] k(1)] k(2) show ?thesis
    by (simp add: ss_getRank_def)
qed

lemma wrap_small:
  assumes "- (2 ^ 31) \<le> (x :: int)" "x < 2 ^ 31"
  shows "wrap_s (if wide then 64 else 32) x = x"
  using assms by (simp add: wrap_s_def)

lemma ss_rangeByRank_rep:
  assumes rep: "ss_rep hasher z es" and len: "length es < 2 ^ 31" and b: "proper_call (RangeOf start stop)"
  shows "ss_rangeByRank (if wide then 64 else 32) start stop z = Some (redis_range es start stop)"
proof -
  let ?n = "int (length es)"
  define a where "a = max 0 (if start < 0 then ?n + start else start)"
  define c where "c = (if stop < 0 then ?n + stop else stop)"
  from rep obtain xs where sh: "sl_shape (ss_zsl z) xs" and es: "map (sl_entry (ss_zsl z)) xs = es"
    by (auto simp: ss_rep_def sl_rep_def)
  then have lx: "length xs = length es" by auto
  have wraps: "wrap_s (if wide then 64 else 32) (int (ss_size z)) = ?n"
    "start < 0 \<Longrightarrow> wrap_s (if wide then 64 else 32) (?n + start) = ?n + start"
    "stop < 0 \<Longrightarrow> wrap_s (if wide then 64 else 32) (?n + stop) = ?n + stop"
  proof -
    have small: "- (2 ^ 31) \<le> ?n" "?n < 2 ^ 31" using len by simp_all
    show "wrap_s (if wide then 64 else 32) (int (ss_size z)) = ?n"
      unfolding ss_size_rep [OF rep] by (rule wrap_small [OF small])
    show "wrap_s (if wide then 64 else 32) (?n + start) = ?n + start" if "start < 0"
      by (rule wrap_small) (use that small b in simp_all)
    show "wrap_s (if wide then 64 else 32) (?n + stop) = ?n + stop" if "stop < 0"
      by (rule wrap_small) (use that small b in simp_all)
  qed
  have run: "ss_rangeByRank (if wide then 64 else 32) start stop z =
      (if a > c \<or> a \<ge> ?n then Some []
       else do {
         node \<leftarrow> sl_getElementByRank (nat (a + 1)) (ss_zsl z);
         slCollect (ss_zsl z) (nat ((if c \<ge> ?n then ?n - 1 else c) - a + 1)) node })"
  proof -
    have e3: "(if (if start < 0 then ?n + start else start) < 0 then 0
        else (if start < 0 then ?n + start else start)) = a" by (simp add: a_def)
    have e1: "(if start < 0 then wrap_s (if wide then 64 else 32) (?n + start) else start) =
        (if start < 0 then ?n + start else start)" using wraps(2) by simp
    have e2: "(if stop < 0 then wrap_s (if wide then 64 else 32) (?n + stop) else stop) = c"
      using wraps(3) by (simp add: c_def)
    show ?thesis unfolding ss_rangeByRank_def Let_def wraps(1) e1 e2 e3 by (rule refl)
  qed
  have ref: "redis_range es start stop =
      map (nth es) (filter (\<lambda>i. a \<le> int i \<and> int i \<le> c) [0..<length es])"
    by (simp add: redis_range_def a_def c_def Let_def)
  show ?thesis
  proof (cases "a > c \<or> a \<ge> ?n")
    case True
    then have "filter (\<lambda>i. a \<le> int i \<and> int i \<le> c) [0..<length es] = []" by (auto simp: filter_empty_conv)
    with True run ref show ?thesis by simp
  next
    case False
    let ?k = "nat (a + 1)" and ?l = "nat ((if c \<ge> ?n then ?n - 1 else c) - a + 1)"
    have a0: "0 \<le> a" by (simp add: a_def)
    then have k: "0 < ?k" "?k \<le> length xs" "?k - 1 = nat a" "nat a < length xs" using False lx by auto
    from sl_getElementByRank_rep [OF sh _ k(1)] len lx k
    have g: "sl_getElementByRank ?k (ss_zsl z) = Some (Some (xs ! nat a))" by simp
    from slCollect_ok [OF sh, of "nat a" ?l] k(4)
    have "slCollect (ss_zsl z) ?l (Some (xs ! nat a)) = Some (take ?l (drop (nat a) es))"
      by (simp add: es [symmetric] take_map drop_map)
    moreover have "take ?l (drop (nat a) es) = redis_range es start stop"
      unfolding ref take_drop_filter using False a0
      by (intro arg_cong [where f = "map (nth es)"] filter_cong) auto
    ultimately show ?thesis using False run g by simp
  qed
qed

interpretation zs: ordered_set "ss_rep hasher" "ss_add hasher" "ss_remove hasher" "ss_getScore hasher"
    "ss_getRank hasher" "ss_rangeByRank (if wide then 64 else 32)" ss_size
  for hasher :: "string \<Rightarrow> nat" and wide :: bool
proof unfold_locales
  fix t es m and s :: double
  assume rep: "ss_rep hasher t es"
  show "\<exists>t'. ss_add hasher m s t = Some (fst (zadd m s es), t') \<and> ss_rep hasher t' (snd (zadd m s es))"
    if "\<not> is_nan s" using ss_add_rep [OF rep that] .
  show "\<exists>t'. ss_remove hasher m t = Some (if map_of es m = None then 0 else 1, t') \<and> ss_rep hasher t' (zremove m es)"
    by (rule ss_remove_rep [OF rep])
  show "ss_getScore hasher m t = map_of es m" using ss_repD(6) [OF rep] by (simp add: ss_getScore_def)
  show "ss_getRank hasher m t = Some (zrank m es)" if "length es < 2 ^ 31" "m \<noteq> ''''"
    by (rule ss_getRank_rep [OF rep that])
  show "ss_size t = length es" by (rule ss_size_rep [OF rep])
next
  fix t es a b
  assume "ss_rep hasher t es" "length es < 2 ^ 31" "proper_call (RangeOf a b)"
  then show "ss_rangeByRank (if wide then 64 else 32) a b t = Some (redis_range es a b)"
    by (rule ss_rangeByRank_rep)
qed

text \<open>Adding sorted entries one after the other, as loading a file does, lists them.\<close>

lemma zsorted_append: "zsorted (ds @ es) \<Longrightarrow> zsorted ds"
  by (simp add: zsorted_def sorted_wrt_append)

lemma ss_add_last:
  assumes "ss_rep hasher z ds" "zsorted (ds @ [(m, s)])" "m \<notin> fst ` set ds"
  shows "\<exists>z'. map_option snd (ss_add hasher m s z) = Some z' \<and> ss_rep hasher z' (ds @ [(m, s)])"
proof -
  have "map_of ds m = None" using assms(3) by (simp add: map_of_eq_None_iff)
  then have "zadd m s ds = (1, ds @ [(m, s)])" using zinsert_last [OF assms(2)] by (simp add: zadd_def)
  moreover have "\<not> is_nan s" using assms(2) by (simp add: zsorted_def)
  ultimately show ?thesis using ss_add_rep [OF assms(1), of s m] by auto
qed

text \<open>A clone lists the same entries.\<close>

lemma ss_clone_lists:
  assumes "ss_lists z es"
  shows "\<exists>z'. ss_clone rng z = Some z' \<and> ss_lists z' es \<and> ht_entries (ss_dict z') = ht_entries (ss_dict z)"
proof -
  from assms sl_clone_rep [of "ss_zsl z" es rng] obtain sl where "sl_clone rng (ss_zsl z) = Some sl" "sl_rep sl es"
    by (auto simp: ss_lists_def)
  with assms show ?thesis by (simp add: ss_clone_def ss_lists_def ht_clone_def ht_abs_def ht_entries_def)
qed

section \<open>Properties\<close>

text \<open>C7: A sorted set is an ordered list of entries. On a new sorted set every sequence of calls that
  add and remove members, change scores and ask for scores, ranks, ranges and the size runs without
  touching a null or deleted node, whatever heights the random engine draws, and answers as a
  list does that is kept sorted by score and then by member: ranks are positions, ranges are
  those Redis documents, and the number of members added or removed is exact. Excluded by
  \<open>proper_call\<close> are scores that are no number, the rank of the empty member and range bounds
  beyond 32 bits; the next section shows what the first two lead to.\<close>

theorem sorted_set_is_ordered_list:
  assumes "\<forall>c \<in> set cs. proper_call c" "length cs < 2 ^ 31"
  shows "\<exists>z. runPartial (zsetCall (ss_add hasher) (ss_remove hasher) (ss_getScore hasher) (ss_getRank hasher)
      (ss_rangeByRank (if wide then 64 else 32)) ss_size) cs (newSortedSet rng) =
        Some (fst (runCalls entriesCall cs []), z) \<and>
    ss_rep hasher z (snd (runCalls entriesCall cs []))"
  using zs.run_simulates [OF ss_rep_new, of cs hasher wide rng] assms by simp

text \<open>Scores 1 and 2 as bit patterns.\<close>

theorem sorted_set_is_ordered_list_witness:
  "\<exists>z. runPartial (zsetCall (ss_add length) (ss_remove length) (ss_getScore length) (ss_getRank length)
      (ss_rangeByRank (if True then 64 else 32)) ss_size)
      [AddScore ''b'' 0x3FF0000000000000, AddScore ''a'' 0x4000000000000000, RankOf ''a'', RangeOf 0 (-1)]
      (newSortedSet (\<lambda>n. even n)) =
    Some ([Amount 1, Amount 1, Amount 1,
      Listed [(''b'', 0x3FF0000000000000), (''a'', 0x4000000000000000)]], z)"
proof -
  let ?cs = "[AddScore ''b'' 0x3FF0000000000000, AddScore ''a'' 0x4000000000000000, RankOf ''a'', RangeOf 0 (-1)]"
  have "fst (runCalls entriesCall ?cs []) = [Amount 1, Amount 1, Amount 1,
      Listed [(''b'', 0x3FF0000000000000), (''a'', 0x4000000000000000)]]"
    by code_simp
  moreover have "\<forall>c \<in> set ?cs. proper_call c" by code_simp
  ultimately show ?thesis
    using sorted_set_is_ordered_list [of ?cs length True "\<lambda>n. even n"] by auto
qed

section \<open>Where the code leaves the reference\<close>

text \<open>
  The two kinds of call excluded above. The head of the skip list has the empty member, so
  the rank of the empty member can be that of the head; and a score that is no number is never
  found again, so its node stays in the list when the member is removed, and is listed in
  place of the member that remains.
\<close>

theorem empty_member_rank:
  "map_option fst (runPartial (zsetCall (ss_add length) (ss_remove length) (ss_getScore length) (ss_getRank length)
      (ss_rangeByRank 64) ss_size)
      [AddScore ''x'' 0x3FF0000000000000, AddScore '''' 0x4000000000000000, AddScore ''y'' 0x4008000000000000, RankOf '''']
      (newSortedSet (\<lambda>n. n = 2))) = Some [Amount 1, Amount 1, Amount 1, Amount 0] \<and>
   fst (entriesCall (RankOf '''') [(''x'', 0x3FF0000000000000), ('''', 0x4000000000000000), (''y'', 0x4008000000000000)]) =
     Amount 1"
  by code_simp

theorem nan_member_stays:
  "map_option fst (runPartial (zsetCall (ss_add length) (ss_remove length) (ss_getScore length) (ss_getRank length)
      (ss_rangeByRank 64) ss_size)
      [AddScore ''b'' 0x3FF0000000000000, AddScore ''a'' 0x7FF8000000000000, RemoveMember ''a'', RangeOf 0 (-1)]
      (newSortedSet (\<lambda>n. False))) = Some [Amount 1, Amount 1, Amount 1, Listed [(''a'', 0x7FF8000000000000)]]"
  by code_simp

end
