(* ===== verification/RedisObject.thy ===== *)
theory RedisObject
  imports LinkedListSpec HashSet SortedSetSpec
begin

text \<open>
  Values of the key space, \<^verbatim>\<open>storage/redis_object.h\<close> and \<^verbatim>\<open>.cpp\<close>, the
  memory accounting of \<^verbatim>\<open>server/memory_manager.h\<close> and \<^verbatim>\<open>.cpp\<close>, and what
  the environment supplies to both. \<^verbatim>\<open>RedisObject\<close> pairs a type tag with a variant
  that its constructors keep in step, so the model has one datatype \<open>contents\<close> with a
  constructor per C++ constructor and reads the tag off it.
\<close>

section \<open>The platform\<close>

text \<open>
  Everything the language, the machine or the clock decides: the standard hash function,
  sizes of the C++ objects, the capacity a string was given (a function of its
  characters here), the width of \<^verbatim>\<open>long\<close>, the clocks (\<open>system_ms\<close> is read once per
  operation; saving reads the clock a second time for each key with a deadline, \<open>stamp_ms\<close>), the
  random devices, the text
  of \<^verbatim>\<open>std::exception::what\<close>, which sizes can be allocated, which files can be opened
  for writing, and how the address of the object under a key is printed.
\<close>

record platform =
  hasher :: "string \<Rightarrow> nat"
  capacity :: "string \<Rightarrow> nat"
  sizeof_RedisObject :: nat
  sizeof_LinkedList :: nat
  sizeof_HashTable :: nat
  sizeof_HashSet :: nat
  sizeof_SortedSet :: nat
  sizeof_pointer :: nat
  long_bits :: nat
  system_ms :: int
  stamp_ms :: "string \<Rightarrow> int"
  steady_ms :: int
  uptime_seconds :: int
  rng_seed :: "nat \<Rightarrow> nat \<Rightarrow> bool"
  draw :: "nat \<Rightarrow> nat"
  what :: "exn \<Rightarrow> string"
  reserve_ok :: "nat \<Rightarrow> bool"
  write_ok :: "string \<Rightarrow> bool"
  address_text :: "string \<Rightarrow> string"

section \<open>Objects\<close>

datatype ObjectType = TString | TList | THash | TSet | TSortedSet | TNone

datatype contents =
    StringObject string
  | ListObject linked_list
  | HashObject "(string, string) hash_table"
  | SetObject hash_set
  | SortedSetObject sorted_set
  | NoObject

record redis_object =
  obj_value :: contents
  lruClock :: "32 word"

definition newObject :: "contents \<Rightarrow> redis_object" where
  "newObject v = \<lparr>obj_value = v, lruClock = 0\<rparr>"

fun contents_type :: "contents \<Rightarrow> ObjectType" where
  "contents_type (StringObject s) = TString"
| "contents_type (ListObject l) = TList"
| "contents_type (HashObject h) = THash"
| "contents_type (SetObject s) = TSet"
| "contents_type (SortedSetObject z) = TSortedSet"
| "contents_type NoObject = TNone"

definition obj_type :: "redis_object \<Rightarrow> ObjectType" where
  "obj_type ob = contents_type (obj_value ob)"

fun typeString :: "ObjectType \<Rightarrow> string" where
  "typeString TString = ''string''"
| "typeString TList = ''list''"
| "typeString THash = ''hash''"
| "typeString TSet = ''set''"
| "typeString TSortedSet = ''zset''"
| "typeString TNone = ''none''"

definition updateLruClock :: "32 word \<Rightarrow> redis_object \<Rightarrow> redis_object" where
  "updateLruClock clock ob = ob\<lparr>lruClock := clock\<rparr>"

text \<open>\<^verbatim>\<open>asString\<close> and its siblings: \<^verbatim>\<open>std::get\<close> on the variant.\<close>

definition obj_asString :: "redis_object \<Rightarrow> string result" where
  "obj_asString ob = (case obj_value ob of StringObject s \<Rightarrow> Inr s | _ \<Rightarrow> Inl BadVariantAccess)"

definition obj_asList :: "redis_object \<Rightarrow> linked_list result" where
  "obj_asList ob = (case obj_value ob of ListObject l \<Rightarrow> Inr l | _ \<Rightarrow> Inl BadVariantAccess)"

definition obj_asHash :: "redis_object \<Rightarrow> (string, string) hash_table result" where
  "obj_asHash ob = (case obj_value ob of HashObject h \<Rightarrow> Inr h | _ \<Rightarrow> Inl BadVariantAccess)"

definition obj_asSet :: "redis_object \<Rightarrow> hash_set result" where
  "obj_asSet ob = (case obj_value ob of SetObject s \<Rightarrow> Inr s | _ \<Rightarrow> Inl BadVariantAccess)"

definition obj_asSortedSet :: "redis_object \<Rightarrow> sorted_set result" where
  "obj_asSortedSet ob = (case obj_value ob of SortedSetObject z \<Rightarrow> Inr z | _ \<Rightarrow> Inl BadVariantAccess)"

text \<open>A clone is a fresh object: its clock starts at zero.\<close>

definition obj_clone :: "(nat \<Rightarrow> bool) \<Rightarrow> redis_object \<Rightarrow> redis_object option" where
  "obj_clone rng ob = (case obj_value ob of
      StringObject s \<Rightarrow> Some (newObject (StringObject s))
    | ListObject l \<Rightarrow> map_option (\<lambda>l'. newObject (ListObject l')) (ll_clone l)
    | HashObject h \<Rightarrow> Some (newObject (HashObject (ht_clone h)))
    | SetObject s \<Rightarrow> Some (newObject (SetObject (hs_clone s)))
    | SortedSetObject z \<Rightarrow> map_option (\<lambda>z'. newObject (SortedSetObject z')) (ss_clone rng z)
    | NoObject \<Rightarrow> Some (newObject NoObject))"

section \<open>Memory accounting\<close>

record memory_manager =
  usedMemory :: "64 word"
  lruNow :: "32 word"

definition addMemory :: "nat \<Rightarrow> memory_manager \<Rightarrow> memory_manager" where
  "addMemory bytes m = m\<lparr>usedMemory := usedMemory m + of_nat bytes\<rparr>"

definition freeMemory :: "nat \<Rightarrow> memory_manager \<Rightarrow> memory_manager" where
  "freeMemory bytes m =
     (let b = (of_nat bytes :: 64 word)
      in if b > usedMemory m then m\<lparr>usedMemory := 0\<rparr>
         else m\<lparr>usedMemory := usedMemory m - b\<rparr>)"

definition setLruClock :: "32 word \<Rightarrow> memory_manager \<Rightarrow> memory_manager" where
  "setLruClock clock m = m\<lparr>lruNow := clock\<rparr>"

definition estimateStringSize :: "platform \<Rightarrow> string \<Rightarrow> nat" where
  "estimateStringSize pf s = 32 + capacity pf s"

definition estimateObjectSize :: "platform \<Rightarrow> redis_object \<Rightarrow> nat" where
  "estimateObjectSize pf ob = sizeof_RedisObject pf + (case obj_value ob of
      StringObject s \<Rightarrow> estimateStringSize pf s
    | ListObject l \<Rightarrow> sizeof_LinkedList pf + ll_size l * (sizeof_pointer pf * 2 + 32)
    | HashObject h \<Rightarrow> sizeof_HashTable pf + ht_size h * 64
    | SetObject s \<Rightarrow> sizeof_HashSet pf + hs_size s * 48
    | SortedSetObject z \<Rightarrow> sizeof_SortedSet pf + ss_size z * 128
    | NoObject \<Rightarrow> 0)"

text \<open>
  The saturating subtraction: the account never wraps below zero, and freeing what was
  just added restores it.
\<close>

lemma freeMemory_bound: "usedMemory (freeMemory n m) \<le> usedMemory m"
  by (auto simp: freeMemory_def Let_def word_le_nat_alt word_less_nat_alt unat_sub)

lemma freeMemory_addMemory:
  assumes "unat (usedMemory m) + n < 2 ^ 64"
  shows "freeMemory n (addMemory n m) = m"
proof -
  let ?b = "of_nat n :: 64 word"
  have b: "unat ?b = n" using assms by (simp add: unat_of_nat take_bit_nat_eq_self)
  have "unat (usedMemory m + ?b) = unat (usedMemory m) + n"
    using assms b by (subst unat_add_lem [THEN iffD1]) simp_all
  then have "\<not> ?b > usedMemory m + ?b" using b by (simp add: word_less_nat_alt)
  then show ?thesis by (simp add: freeMemory_def addMemory_def Let_def)
qed

lemma lruNow_memory [simp]:
  "lruNow (addMemory n m) = lruNow m" "lruNow (freeMemory n m) = lruNow m"
  by (simp_all add: addMemory_def freeMemory_def Let_def)

section \<open>Well-formed objects\<close>

text \<open>
  What the operations keep true of a value: intact tables, lists and skip lists.
\<close>

definition contents_ok :: "(string \<Rightarrow> nat) \<Rightarrow> contents \<Rightarrow> bool" where
  "contents_ok hf v = (case v of
      StringObject s \<Rightarrow> True
    | ListObject l \<Rightarrow> (\<exists>xs. ll_is l xs)
    | HashObject h \<Rightarrow> ht_inv hf h
    | SetObject s \<Rightarrow> ht_inv hf s
    | SortedSetObject z \<Rightarrow> ss_ok hf z
    | NoObject \<Rightarrow> False)"

lemma contents_ok_simps [simp]:
  "contents_ok hf (StringObject s)" "contents_ok hf (ListObject l) = (\<exists>xs. ll_is l xs)"
  "contents_ok hf (HashObject h) = ht_inv hf h" "contents_ok hf (SetObject t) = ht_inv hf t"
  "contents_ok hf (SortedSetObject z) = ss_ok hf z" "\<not> contents_ok hf NoObject"
  by (simp_all add: contents_ok_def)

lemma updateLruClock_value [simp]: "obj_value (updateLruClock c ob) = obj_value ob"
  by (simp add: updateLruClock_def)

lemma newObject_value [simp]: "obj_value (newObject v) = v"
  by (simp add: newObject_def)

lemma obj_type_cases:
  "(obj_type ob = TString) = (\<exists>s. obj_value ob = StringObject s)"
  "(obj_type ob = TList) = (\<exists>l. obj_value ob = ListObject l)"
  "(obj_type ob = THash) = (\<exists>h. obj_value ob = HashObject h)"
  "(obj_type ob = TSet) = (\<exists>t. obj_value ob = SetObject t)"
  "(obj_type ob = TSortedSet) = (\<exists>z. obj_value ob = SortedSetObject z)"
  by (cases "obj_value ob"; simp add: obj_type_def)+

end
