(* ===== verification/Database.thy ===== *)
theory Database
  imports RedisObject Client
begin

text \<open>
  The key space of \<^verbatim>\<open>storage/db.h\<close> and \<^verbatim>\<open>.cpp\<close>. A record \<open>database\<close> holds the
  members of the class; a \<open>keyspace\<close> adds what its methods reach beyond the class: the
  memory manager (a singleton) and the connected clients, to which \<open>watchedKeys\<close> points.
  Hash maps are association lists in iteration order. A method that returns a pointer to
  an object returns the object; what the caller writes through the pointer is
  \<open>writeObject\<close>. The clock \<open>system_ms\<close> of the platform is read once per operation.
\<close>

record database =
  data :: "(string \<times> redis_object) list"
  expires :: "(string \<times> int) list"
  watchedKeys :: "(string \<times> nat list) list"
  hits :: nat
  misses :: nat
  dirty :: int

record keyspace = database +
  mem :: memory_manager
  clients :: "nat \<Rightarrow> client option"

definition emptyDatabase :: database where
  "emptyDatabase = \<lparr>data = [], expires = [], watchedKeys = [], hits = 0, misses = 0, dirty = 0\<rparr>"

text \<open>
  A write through a client pointer. The pointers stored in the program are those of live
  clients (part of the invariant), so the case of a dangling pointer does not arise.
\<close>

definition onClient ::
  "nat \<Rightarrow> (client \<Rightarrow> client) \<Rightarrow> (nat \<Rightarrow> client option) \<Rightarrow> nat \<Rightarrow> client option" where
  "onClient p f cs = (case cs p of None \<Rightarrow> cs | Some c \<Rightarrow> cs(p \<mapsto> f c))"

definition flagClients ::
  "nat list \<Rightarrow> (nat \<Rightarrow> client option) \<Rightarrow> nat \<Rightarrow> client option" where
  "flagClients ps cs = foldl (\<lambda>cs p. onClient p (setFlag CLIENT_DIRTY_EXEC) cs) cs ps"

definition touchWatchedKey :: "string \<Rightarrow> keyspace \<Rightarrow> keyspace" where
  "touchWatchedKey key ks = (case map_of (watchedKeys ks) key of
      None \<Rightarrow> ks
    | Some ps \<Rightarrow> ks\<lparr>clients := flagClients ps (clients ks)\<rparr>)"

definition charge :: "nat \<Rightarrow> keyspace \<Rightarrow> keyspace" where
  "charge bytes ks = ks\<lparr>mem := addMemory bytes (mem ks)\<rparr>"

definition refund :: "nat \<Rightarrow> keyspace \<Rightarrow> keyspace" where
  "refund bytes ks = ks\<lparr>mem := freeMemory bytes (mem ks)\<rparr>"

definition stamp :: "redis_object \<Rightarrow> keyspace \<Rightarrow> redis_object" where
  "stamp ob ks = updateLruClock (lruNow (mem ks)) ob"

definition writeObject :: "string \<Rightarrow> contents \<Rightarrow> keyspace \<Rightarrow> keyspace" where
  "writeObject key v ks = (case map_of (data ks) key of
      None \<Rightarrow> ks
    | Some ob \<Rightarrow> ks\<lparr>data := AList.update key (ob\<lparr>obj_value := v\<rparr>) (data ks)\<rparr>)"

section \<open>Storing\<close>

definition db_set :: "platform \<Rightarrow> string \<Rightarrow> string \<Rightarrow> keyspace \<Rightarrow> keyspace" where
  "db_set pf key v ks =
     (let ks1 = (case map_of (data ks) key of
            Some old \<Rightarrow> refund (estimateObjectSize pf old) ks
          | None \<Rightarrow> charge (estimateStringSize pf key) ks);
          ob = stamp (newObject (StringObject v)) ks1;
          ks2 = charge (estimateObjectSize pf ob) ks1;
          ks3 = ks2\<lparr>data := AList.update key ob (data ks2)\<rparr>;
          ks4 = ks3\<lparr>expires := AList.delete key (expires ks3)\<rparr>;
          ks5 = touchWatchedKey key ks4
      in ks5\<lparr>dirty := dirty ks5 + 1\<rparr>)"

definition db_setObject :: "platform \<Rightarrow> string \<Rightarrow> redis_object \<Rightarrow> keyspace \<Rightarrow> keyspace" where
  "db_setObject pf key ob0 ks =
     (let ks1 = (case map_of (data ks) key of
            Some old \<Rightarrow> refund (estimateObjectSize pf old) ks
          | None \<Rightarrow> charge (estimateStringSize pf key) ks);
          ob = stamp ob0 ks1;
          ks2 = charge (estimateObjectSize pf ob) ks1;
          ks3 = ks2\<lparr>data := AList.update key ob (data ks2)\<rparr>;
          ks4 = ks3\<lparr>expires := AList.delete key (expires ks3)\<rparr>;
          ks5 = touchWatchedKey key ks4
      in ks5\<lparr>dirty := dirty ks5 + 1\<rparr>)"

section \<open>Expiry\<close>

definition isExpired :: "platform \<Rightarrow> string \<Rightarrow> keyspace \<Rightarrow> bool" where
  "isExpired pf key ks \<longleftrightarrow> (case map_of (expires ks) key of
      None \<Rightarrow> False
    | Some t \<Rightarrow> system_ms pf \<ge> t)"

text \<open>The removal of a key's object with its memory, shared by deletion and expiry.\<close>

definition dropObject :: "platform \<Rightarrow> string \<Rightarrow> redis_object \<Rightarrow> keyspace \<Rightarrow> keyspace" where
  "dropObject pf key ob ks =
     (let ks1 = refund (estimateObjectSize pf ob) ks;
          ks2 = refund (estimateStringSize pf key) ks1;
          ks3 = ks2\<lparr>data := AList.delete key (data ks2)\<rparr>
      in touchWatchedKey key ks3)"

definition checkAndExpire :: "platform \<Rightarrow> string \<Rightarrow> keyspace \<Rightarrow> bool \<times> keyspace" where
  "checkAndExpire pf key ks =
     (if isExpired pf key ks then
        (let ks1 = (case map_of (data ks) key of
               None \<Rightarrow> ks
             | Some ob \<Rightarrow> dropObject pf key ob ks);
             ks2 = ks1\<lparr>expires := AList.delete key (expires ks1)\<rparr>
         in (True, ks2\<lparr>dirty := dirty ks2 + 1\<rparr>))
      else (False, ks))"

text \<open>The milliseconds since the epoch are an \<^verbatim>\<open>int64_t\<close>; sums and differences wrap.\<close>

definition db_setExpiry :: "platform \<Rightarrow> string \<Rightarrow> int \<Rightarrow> keyspace \<Rightarrow> bool \<times> keyspace" where
  "db_setExpiry pf key milliseconds ks = (case map_of (data ks) key of
      None \<Rightarrow> (False, ks)
    | Some _ \<Rightarrow> (True,
        ks\<lparr>expires := AList.update key (wrap64 (system_ms pf + milliseconds)) (expires ks)\<rparr>))"

definition db_setExpiryAt :: "string \<Rightarrow> int \<Rightarrow> keyspace \<Rightarrow> bool \<times> keyspace" where
  "db_setExpiryAt key timestampMs ks = (case map_of (data ks) key of
      None \<Rightarrow> (False, ks)
    | Some _ \<Rightarrow> (True, ks\<lparr>expires := AList.update key timestampMs (expires ks)\<rparr>))"

definition db_pttl :: "platform \<Rightarrow> string \<Rightarrow> keyspace \<Rightarrow> int" where
  "db_pttl pf key ks = (case map_of (data ks) key of
      None \<Rightarrow> -2
    | Some _ \<Rightarrow> (case map_of (expires ks) key of
          None \<Rightarrow> -1
        | Some t \<Rightarrow> (let remaining = wrap64 (t - system_ms pf)
                    in if remaining \<le> 0 then -2 else remaining)))"

definition db_persist :: "string \<Rightarrow> keyspace \<Rightarrow> bool \<times> keyspace" where
  "db_persist key ks =
     (map_of (expires ks) key \<noteq> None, ks\<lparr>expires := AList.delete key (expires ks)\<rparr>)"

section \<open>Reading\<close>

definition db_get :: "platform \<Rightarrow> string \<Rightarrow> keyspace \<Rightarrow> string option \<times> keyspace" where
  "db_get pf key ks = (case checkAndExpire pf key ks of
      (True, ks1) \<Rightarrow> (None, ks1)
    | (False, ks1) \<Rightarrow> (case map_of (data ks1) key of
          None \<Rightarrow> (None, ks1\<lparr>misses := misses ks1 + 1\<rparr>)
        | Some ob \<Rightarrow>
            (let ks2 = ks1\<lparr>hits := hits ks1 + 1\<rparr>;
                 ob' = stamp ob ks2;
                 ks3 = ks2\<lparr>data := AList.update key ob' (data ks2)\<rparr>
             in (case obj_value ob' of StringObject s \<Rightarrow> Some s | _ \<Rightarrow> None, ks3))))"

definition db_getObject :: "platform \<Rightarrow> string \<Rightarrow> keyspace \<Rightarrow> redis_object option \<times> keyspace" where
  "db_getObject pf key ks = (case checkAndExpire pf key ks of
      (True, ks1) \<Rightarrow> (None, ks1)
    | (False, ks1) \<Rightarrow> (case map_of (data ks1) key of
          None \<Rightarrow> (None, ks1\<lparr>misses := misses ks1 + 1\<rparr>)
        | Some ob \<Rightarrow>
            (let ks2 = ks1\<lparr>hits := hits ks1 + 1\<rparr>;
                 ob' = stamp ob ks2
             in (Some ob', ks2\<lparr>data := AList.update key ob' (data ks2)\<rparr>))))"

definition db_getObjectForWrite ::
  "platform \<Rightarrow> string \<Rightarrow> keyspace \<Rightarrow> redis_object option \<times> keyspace" where
  "db_getObjectForWrite pf key ks = (case checkAndExpire pf key ks of
      (True, ks1) \<Rightarrow> (None, ks1)
    | (False, ks1) \<Rightarrow> (case map_of (data ks1) key of
          None \<Rightarrow> (None, ks1\<lparr>misses := misses ks1 + 1\<rparr>)
        | Some ob \<Rightarrow>
            (let ks2 = ks1\<lparr>hits := hits ks1 + 1\<rparr>;
                 ob' = stamp ob ks2
             in (Some ob', ks2\<lparr>data := AList.update key ob' (data ks2)\<rparr>))))"

definition db_exists :: "platform \<Rightarrow> string \<Rightarrow> keyspace \<Rightarrow> bool \<times> keyspace" where
  "db_exists pf key ks = (case checkAndExpire pf key ks of
      (True, ks1) \<Rightarrow> (False, ks1)
    | (False, ks1) \<Rightarrow> (map_of (data ks1) key \<noteq> None, ks1))"

definition db_type :: "platform \<Rightarrow> string \<Rightarrow> keyspace \<Rightarrow> string \<times> keyspace" where
  "db_type pf key ks = (case checkAndExpire pf key ks of
      (True, ks1) \<Rightarrow> (''none'', ks1)
    | (False, ks1) \<Rightarrow> (case map_of (data ks1) key of
          Some ob \<Rightarrow> (typeString (obj_type ob), ks1)
        | None \<Rightarrow> (''none'', ks1)))"

section \<open>Deleting and renaming\<close>

definition db_del :: "platform \<Rightarrow> string \<Rightarrow> keyspace \<Rightarrow> bool \<times> keyspace" where
  "db_del pf key ks =
     (let ks1 = ks\<lparr>expires := AList.delete key (expires ks)\<rparr>
      in case map_of (data ks1) key of
           Some ob \<Rightarrow> (let ks2 = dropObject pf key ob ks1 in (True, ks2\<lparr>dirty := dirty ks2 + 1\<rparr>))
         | None \<Rightarrow> (False, ks1))"

definition db_rename :: "platform \<Rightarrow> string \<Rightarrow> string \<Rightarrow> keyspace \<Rightarrow> bool \<times> keyspace" where
  "db_rename pf oldKey newKey ks = (case map_of (data ks) oldKey of
      None \<Rightarrow> (False, ks)
    | Some ob \<Rightarrow>
        (let ks1 = refund (estimateObjectSize pf ob) ks;
             ks2 = refund (estimateStringSize pf oldKey) ks1;
             ks3 = ks2\<lparr>data := AList.delete oldKey (data ks2)\<rparr>;
             (expiry, ks4) = (case map_of (expires ks3) oldKey of
                 None \<Rightarrow> (-1, ks3)
               | Some t \<Rightarrow> (t, ks3\<lparr>expires := AList.delete oldKey (expires ks3)\<rparr>));
             ks5 = (if expiry \<ge> 0 then ks4\<lparr>expires := AList.update newKey expiry (expires ks4)\<rparr>
                    else ks4);
             ks6 = touchWatchedKey oldKey ks5
         in (True, db_setObject pf newKey ob ks6)))"

section \<open>Numbers and strings in place\<close>

definition db_incrby :: "platform \<Rightarrow> string \<Rightarrow> int \<Rightarrow> keyspace \<Rightarrow> int option \<times> keyspace" where
  "db_incrby pf key increment ks =
     (let current = (case map_of (data ks) key of
            None \<Rightarrow> Some 0
          | Some ob \<Rightarrow> (case obj_value ob of
                StringObject s \<Rightarrow> (case from_chars_i64 s of
                    Some (v, n) \<Rightarrow> if n = length s then Some v else None
                  | None \<Rightarrow> None)
              | _ \<Rightarrow> None))
      in case current of
           None \<Rightarrow> (None, ks)
         | Some current \<Rightarrow>
             (if (increment > 0 \<and> current > wrap64 (i64_max - increment)) \<or>
                 (increment < 0 \<and> current < wrap64 (i64_min - increment))
              then (None, ks)
              else (let newValue = wrap64 (current + increment)
                    in (Some newValue, db_set pf key (int_to_dec newValue) ks))))"

definition db_append :: "platform \<Rightarrow> string \<Rightarrow> string \<Rightarrow> keyspace \<Rightarrow> nat option \<times> keyspace" where
  "db_append pf key v ks = (case map_of (data ks) key of
      Some ob \<Rightarrow> (case obj_value ob of
          StringObject s \<Rightarrow>
            (let ks1 = refund (estimateObjectSize pf ob) ks;
                 ob' = stamp (ob\<lparr>obj_value := StringObject (s @ v)\<rparr>) ks1;
                 ks2 = ks1\<lparr>data := AList.update key ob' (data ks1)\<rparr>;
                 ks3 = charge (estimateObjectSize pf ob') ks2
             in (Some (length (s @ v)), ks3\<lparr>dirty := dirty ks3 + 1\<rparr>))
        | _ \<Rightarrow> (None, ks))
    | None \<Rightarrow> (Some (length v), db_set pf key v ks))"

section \<open>The whole key space\<close>

definition db_size :: "keyspace \<Rightarrow> nat" where
  "db_size ks = length (data ks)"

definition db_expiresSize :: "keyspace \<Rightarrow> nat" where
  "db_expiresSize ks = length (expires ks)"

definition db_flushDb :: "platform \<Rightarrow> keyspace \<Rightarrow> keyspace" where
  "db_flushDb pf ks =
     (let ks1 = foldl (\<lambda>ks (key, ob).
            refund (estimateStringSize pf key) (refund (estimateObjectSize pf ob) ks)) ks (data ks);
          ks2 = foldl (\<lambda>ks (key, ps). ks\<lparr>clients := flagClients ps (clients ks)\<rparr>) ks1
                  (watchedKeys ks1)
      in ks2\<lparr>data := [], expires := [], dirty := dirty ks2 + 1\<rparr>)"

text \<open>
  \<open>globLoop\<close> is the \<^verbatim>\<open>while\<close> loop of \<^verbatim>\<open>globMatch\<close> with its four variables;
  \<^verbatim>\<open>npos\<close> is \<^const>\<open>None\<close>.
\<close>

function globLoop ::
  "string \<Rightarrow> string \<Rightarrow> nat \<Rightarrow> nat \<Rightarrow> nat option \<Rightarrow> nat \<Rightarrow> bool" where
  "globLoop pattern str i s starP starS =
     (if s < length str then
        (if i < length pattern \<and> (pattern ! i = CHR ''?'' \<or> pattern ! i = str ! s)
         then globLoop pattern str (i + 1) (s + 1) starP starS
         else if i < length pattern \<and> pattern ! i = CHR ''*''
         then globLoop pattern str (i + 1) s (Some i) s
         else (case starP of
             Some p \<Rightarrow> globLoop pattern str (p + 1) (starS + 1) starP (starS + 1)
           | None \<Rightarrow> False))
      else i + length (takeWhile (\<lambda>c. c = CHR ''*'') (drop i pattern)) = length pattern)"
  by pat_completeness auto
termination
  by (relation "measures [\<lambda>(pattern, str, i, s, starP, starS). length str - min starS s,
        \<lambda>(pattern, str, i, s, starP, starS). length str - s,
        \<lambda>(pattern, str, i, s, starP, starS). length pattern - i]") auto

declare globLoop.simps [simp del]

definition globMatch :: "string \<Rightarrow> string \<Rightarrow> bool" where
  "globMatch pattern str = globLoop pattern str 0 0 None 0"

definition db_keys :: "platform \<Rightarrow> string \<Rightarrow> keyspace \<Rightarrow> string list" where
  "db_keys pf pattern ks =
     foldl (\<lambda>result (key, ob).
       if isExpired pf key ks then result
       else if pattern = ''*'' \<or> globMatch pattern key then result @ [key]
       else result) [] (data ks)"

fun expireLoop ::
  "platform \<Rightarrow> int \<Rightarrow> (string \<times> int) list \<Rightarrow> keyspace \<Rightarrow> int \<times> keyspace" where
  "expireLoop pf n [] ks = (0, ks)"
| "expireLoop pf n ((key, t) # rest) ks =
     (if n \<le> 0 then (0, ks)
      else if system_ms pf \<ge> t then
        (let ks1 = (case map_of (data ks) key of
               None \<Rightarrow> ks
             | Some ob \<Rightarrow> dropObject pf key ob ks);
             ks2 = ks1\<lparr>expires := AList.delete key (expires ks1)\<rparr>;
             (expired, ks3) = expireLoop pf (n - 1) rest ks2
         in (expired + 1, ks3))
      else expireLoop pf (n - 1) rest ks)"

definition activeExpireCycle :: "platform \<Rightarrow> int \<Rightarrow> keyspace \<Rightarrow> int \<times> keyspace" where
  "activeExpireCycle pf maxSamples ks =
     (if expires ks = [] then (0, ks) else expireLoop pf maxSamples (expires ks) ks)"

primrec sampleLoop :: "platform \<Rightarrow> string list \<Rightarrow> nat \<Rightarrow> nat \<Rightarrow> string list" where
  "sampleLoop pf ks i 0 = []"
| "sampleLoop pf ks i (Suc n) =
     (if ks = [] then [] else ks ! (draw pf i mod length ks) # sampleLoop pf ks (i + 1) n)"

definition randomSample :: "platform \<Rightarrow> int \<Rightarrow> bool \<Rightarrow> keyspace \<Rightarrow> string list" where
  "randomSample pf cnt volatileOnly ks =
     (if cnt \<le> 0 then []
      else if volatileOnly then sampleLoop pf (keys_of (expires ks)) 0 (nat cnt)
      else sampleLoop pf (keys_of (data ks)) 0 (nat cnt))"

text \<open>The copy a background save works on: objects and expiry times, nothing else.\<close>

primrec cloneData ::
  "platform \<Rightarrow> nat \<Rightarrow> (string \<times> redis_object) list \<Rightarrow> (string \<times> redis_object) list option" where
  "cloneData pf i [] = Some []"
| "cloneData pf i (p # ps) = do {
     ob \<leftarrow> obj_clone (rng_seed pf i) (snd p);
     rest \<leftarrow> cloneData pf (i + 1) ps;
     Some ((fst p, ob) # rest) }"

definition db_clone :: "platform \<Rightarrow> database \<Rightarrow> database option" where
  "db_clone pf db = do {
     copied \<leftarrow> cloneData pf 0 (data db);
     Some (emptyDatabase\<lparr>data := copied, expires := expires db\<rparr>) }"

section \<open>Watched keys\<close>

definition addWatchedKey :: "string \<Rightarrow> nat \<Rightarrow> keyspace \<Rightarrow> keyspace" where
  "addWatchedKey key client ks = ks\<lparr>watchedKeys := AList.update key
     ((case map_of (watchedKeys ks) key of None \<Rightarrow> [] | Some ps \<Rightarrow> ps) @ [client])
     (watchedKeys ks)\<rparr>"

definition removeWatchedKey :: "string \<Rightarrow> nat \<Rightarrow> keyspace \<Rightarrow> keyspace" where
  "removeWatchedKey key client ks = (case map_of (watchedKeys ks) key of
      None \<Rightarrow> ks
    | Some ps \<Rightarrow>
        (let rest = filter (\<lambda>p. p \<noteq> client) ps
         in if rest = [] then ks\<lparr>watchedKeys := AList.delete key (watchedKeys ks)\<rparr>
            else ks\<lparr>watchedKeys := AList.update key rest (watchedKeys ks)\<rparr>))"

end
