(* ===== verification/DatabaseSpec.thy ===== *)
theory DatabaseSpec
  imports Database
begin

text \<open>
  The invariant of the key space and the meaning of its operations. \<open>ks_ok\<close> says that the
  maps have distinct keys, that only existing keys carry an expiry time, that every value
  is well formed and that watched keys point to live clients; every operation keeps it.
  \<open>view\<close> maps a key to its value and expiry time; the operations are map updates on it.
\<close>

section \<open>The effect of the helpers on each field\<close>

lemma onClient_dom [simp]: "dom (onClient p f cs) = dom cs"
  by (auto simp: onClient_def split: option.splits)

lemma flagClients_dom [simp]: "dom (flagClients ps cs) = dom cs"
  unfolding flagClients_def by (induction ps arbitrary: cs) simp_all

lemma touch_sel [simp]:
  "data (touchWatchedKey k ks) = data ks" "expires (touchWatchedKey k ks) = expires ks"
  "watchedKeys (touchWatchedKey k ks) = watchedKeys ks" "hits (touchWatchedKey k ks) = hits ks"
  "misses (touchWatchedKey k ks) = misses ks" "dirty (touchWatchedKey k ks) = dirty ks"
  "mem (touchWatchedKey k ks) = mem ks" "dom (clients (touchWatchedKey k ks)) = dom (clients ks)"
  by (simp_all add: touchWatchedKey_def split: option.splits)

lemma charge_sel [simp]:
  "data (charge n ks) = data ks" "expires (charge n ks) = expires ks"
  "watchedKeys (charge n ks) = watchedKeys ks" "hits (charge n ks) = hits ks"
  "misses (charge n ks) = misses ks" "dirty (charge n ks) = dirty ks"
  "clients (charge n ks) = clients ks" "lruNow (mem (charge n ks)) = lruNow (mem ks)"
  by (simp_all add: charge_def)

lemma refund_sel [simp]:
  "data (refund n ks) = data ks" "expires (refund n ks) = expires ks"
  "watchedKeys (refund n ks) = watchedKeys ks" "hits (refund n ks) = hits ks"
  "misses (refund n ks) = misses ks" "dirty (refund n ks) = dirty ks"
  "clients (refund n ks) = clients ks" "lruNow (mem (refund n ks)) = lruNow (mem ks)"
  by (simp_all add: refund_def)

lemma dropObject_sel [simp]:
  "data (dropObject pf k ob ks) = AList.delete k (data ks)"
  "expires (dropObject pf k ob ks) = expires ks"
  "watchedKeys (dropObject pf k ob ks) = watchedKeys ks" "hits (dropObject pf k ob ks) = hits ks"
  "misses (dropObject pf k ob ks) = misses ks" "dirty (dropObject pf k ob ks) = dirty ks"
  "dom (clients (dropObject pf k ob ks)) = dom (clients ks)"
  by (simp_all add: dropObject_def Let_def)

lemma stamp_value [simp]: "obj_value (stamp ob ks) = obj_value ob"
  by (simp add: stamp_def)

text \<open>\<^verbatim>\<open>set\<close> is \<^verbatim>\<open>setObject\<close> of a string.\<close>

lemma db_set_setObject: "db_set pf k v ks = db_setObject pf k (newObject (StringObject v)) ks"
  by (simp add: db_set_def db_setObject_def)

lemma setObject_sel [simp]:
  "data (db_setObject pf k ob ks) = AList.update k (stamp ob ks) (data ks)"
  "expires (db_setObject pf k ob ks) = AList.delete k (expires ks)"
  "watchedKeys (db_setObject pf k ob ks) = watchedKeys ks"
  "hits (db_setObject pf k ob ks) = hits ks" "misses (db_setObject pf k ob ks) = misses ks"
  "dirty (db_setObject pf k ob ks) = dirty ks + 1"
  "dom (clients (db_setObject pf k ob ks)) = dom (clients ks)"
  by (auto simp: db_setObject_def Let_def stamp_def split: option.splits)

section \<open>The invariant\<close>

definition ks_ok :: "platform \<Rightarrow> keyspace \<Rightarrow> bool" where
  "ks_ok pf ks \<longleftrightarrow>
     distinct (keys_of (data ks)) \<and> distinct (keys_of (expires ks)) \<and>
     distinct (keys_of (watchedKeys ks)) \<and>
     set (keys_of (expires ks)) \<subseteq> set (keys_of (data ks)) \<and>
     (\<forall>k ob. map_of (data ks) k = Some ob \<longrightarrow> contents_ok (hasher pf) (obj_value ob)) \<and>
     (\<forall>k ps. map_of (watchedKeys ks) k = Some ps \<longrightarrow> ps \<noteq> [] \<and> set ps \<subseteq> dom (clients ks))"

lemma ks_okI:
  assumes "distinct (keys_of (data ks))" "distinct (keys_of (expires ks))"
    "distinct (keys_of (watchedKeys ks))"
    "set (keys_of (expires ks)) \<subseteq> set (keys_of (data ks))"
    "\<And>k ob. map_of (data ks) k = Some ob \<Longrightarrow> contents_ok (hasher pf) (obj_value ob)"
    "\<And>k ps. map_of (watchedKeys ks) k = Some ps \<Longrightarrow> ps \<noteq> [] \<and> set ps \<subseteq> dom (clients ks)"
  shows "ks_ok pf ks"
  using assms by (simp add: ks_ok_def)

lemma ks_okD:
  assumes "ks_ok pf ks"
  shows "distinct (keys_of (data ks))" "distinct (keys_of (expires ks))"
    "distinct (keys_of (watchedKeys ks))"
    "set (keys_of (expires ks)) \<subseteq> set (keys_of (data ks))"
    "map_of (data ks) k = Some ob \<Longrightarrow> contents_ok (hasher pf) (obj_value ob)"
    "map_of (watchedKeys ks) k = Some ps \<Longrightarrow> ps \<noteq> [] \<and> set ps \<subseteq> dom (clients ks)"
  using assms by (auto simp: ks_ok_def)

text \<open>An expiry time without a value does not occur.\<close>

lemma ks_ok_no_orphan: "ks_ok pf ks \<Longrightarrow> map_of (data ks) k = None \<Longrightarrow> map_of (expires ks) k = None"
  using ks_okD(4) [of pf ks] by (auto simp: map_of_None_iff)

text \<open>
  Only the fields the invariant speaks of matter; three ways in which operations change
  them: nothing, one value stored, one key removed.
\<close>

lemma ks_ok_same:
  assumes "ks_ok pf ks" "data ks' = data ks" "expires ks' = expires ks"
    "watchedKeys ks' = watchedKeys ks" "dom (clients ks') = dom (clients ks)"
  shows "ks_ok pf ks'"
  using assms by (simp add: ks_ok_def)

lemma ks_ok_store:
  assumes "ks_ok pf ks" "data ks' = AList.update k ob (data ks)"
    "expires ks' = expires ks \<or> expires ks' = AList.delete k (expires ks)"
    "watchedKeys ks' = watchedKeys ks" "dom (clients ks') = dom (clients ks)"
    "contents_ok (hasher pf) (obj_value ob)"
  shows "ks_ok pf ks'"
proof (rule ks_okI)
  fix k' ob'
  assume "map_of (data ks') k' = Some ob'"
  with assms(2,6) ks_okD(5) [OF assms(1)] show "contents_ok (hasher pf) (obj_value ob')"
    by (auto split: if_splits)
qed (use assms ks_okD [OF assms(1)] in \<open>auto simp: keys_update keys_delete distinct_keys_update
      distinct_keys_delete simp del: set_map\<close>)

lemma ks_ok_remove:
  assumes "ks_ok pf ks" "data ks' = AList.delete k (data ks)"
    "expires ks' = AList.delete k (expires ks)"
    "watchedKeys ks' = watchedKeys ks" "dom (clients ks') = dom (clients ks)"
  shows "ks_ok pf ks'"
proof (rule ks_okI)
  fix k' ob'
  assume "map_of (data ks') k' = Some ob'"
  with assms(2) ks_okD(5) [OF assms(1)] show "contents_ok (hasher pf) (obj_value ob')"
    by (auto split: if_splits)
qed (use assms ks_okD [OF assms(1)] in \<open>auto simp: keys_delete distinct_keys_delete
      simp del: set_map\<close>)

lemma setObject_ok [inv_intros]:
  "ks_ok pf ks \<Longrightarrow> contents_ok (hasher pf) (obj_value ob) \<Longrightarrow> ks_ok pf (db_setObject pf k ob ks)"
  by (rule ks_ok_store [where k = k and ob = "stamp ob ks" and ks = ks]) simp_all

lemma set_ok [inv_intros]: "ks_ok pf ks \<Longrightarrow> ks_ok pf (db_set pf k v ks)"
  by (simp add: db_set_setObject setObject_ok)

lemma checkAndExpire_ok [inv_intros]:
  assumes "ks_ok pf ks"
  shows "ks_ok pf (snd (checkAndExpire pf k ks))"
proof (cases "map_of (data ks) k")
  case None
  with ks_ok_no_orphan [OF assms] show ?thesis
    using assms by (simp add: checkAndExpire_def isExpired_def)
next
  case (Some ob)
  then show ?thesis
    using assms ks_ok_remove [OF assms, where k = k]
    by (simp add: checkAndExpire_def Let_def)
qed

text \<open>The three readers share one shape.\<close>

definition readKey :: "platform \<Rightarrow> string \<Rightarrow> keyspace \<Rightarrow> redis_object option \<times> keyspace" where
  "readKey pf key ks = db_getObject pf key ks"

lemma getObjectForWrite_getObject: "db_getObjectForWrite pf k ks = db_getObject pf k ks"
  by (simp add: db_getObjectForWrite_def db_getObject_def)

lemma get_getObject:
  "db_get pf k ks = (case db_getObject pf k ks of (r, ks') \<Rightarrow>
     (case r of None \<Rightarrow> None | Some ob \<Rightarrow> (case obj_value ob of StringObject s \<Rightarrow> Some s | _ \<Rightarrow> None), ks'))"
  by (simp add: db_get_def db_getObject_def Let_def split: prod.splits bool.splits option.splits)

lemma getObject_ok [inv_intros]:
  assumes "ks_ok pf ks"
  shows "ks_ok pf (snd (db_getObject pf k ks))"
proof -
  obtain gone ks1 where ce: "checkAndExpire pf k ks = (gone, ks1)" by fastforce
  then have ok: "ks_ok pf ks1" using checkAndExpire_ok [OF assms, of k] by simp
  show ?thesis
  proof (cases "gone \<or> map_of (data ks1) k = None")
    case True
    then show ?thesis
      using ok ce by (cases gone) (auto simp: db_getObject_def intro: ks_ok_same [OF ok])
  next
    case False
    then obtain ob where "map_of (data ks1) k = Some ob" "\<not> gone" by auto
    with ce ks_okD(5) [OF ok] show ?thesis
      by (auto simp: db_getObject_def Let_def
          intro!: ks_ok_store [OF ok, where k = k and ob = "stamp ob (ks1\<lparr>hits := hits ks1 + 1\<rparr>)"])
  qed
qed

lemma get_ok [inv_intros]: "ks_ok pf ks \<Longrightarrow> ks_ok pf (snd (db_get pf k ks))"
  using getObject_ok [of pf ks k]
  by (cases "db_getObject pf k ks") (simp add: get_getObject)

lemma getObjectForWrite_ok [inv_intros]:
  "ks_ok pf ks \<Longrightarrow> ks_ok pf (snd (db_getObjectForWrite pf k ks))"
  by (simp add: getObjectForWrite_getObject getObject_ok)

lemma writeObject_ok [inv_intros]:
  "ks_ok pf ks \<Longrightarrow> contents_ok (hasher pf) v \<Longrightarrow> ks_ok pf (writeObject k v ks)"
  by (auto simp: writeObject_def split: option.splits
      intro!: ks_ok_store [where k = k and ks = ks])

lemma exists_ok [inv_intros]: "ks_ok pf ks \<Longrightarrow> ks_ok pf (snd (db_exists pf k ks))"
  using checkAndExpire_ok [of pf ks k]
  by (cases "checkAndExpire pf k ks") (simp add: db_exists_def split: bool.splits)

lemma type_ok [inv_intros]: "ks_ok pf ks \<Longrightarrow> ks_ok pf (snd (db_type pf k ks))"
  using checkAndExpire_ok [of pf ks k]
  by (cases "checkAndExpire pf k ks") (simp add: db_type_def split: bool.splits option.splits)

lemma del_ok [inv_intros]:
  assumes "ks_ok pf ks"
  shows "ks_ok pf (snd (db_del pf k ks))"
proof (cases "map_of (data ks) k")
  case None
  with ks_ok_no_orphan [OF assms] assms show ?thesis by (simp add: db_del_def)
next
  case (Some ob)
  with assms show ?thesis
    using ks_ok_remove [OF assms, where k = k] by (simp add: db_del_def Let_def)
qed

lemma rename_ok [inv_intros]:
  assumes "ks_ok pf ks"
  shows "ks_ok pf (snd (db_rename pf old new ks))"
proof (cases "map_of (data ks) old")
  case None
  with assms show ?thesis by (simp add: db_rename_def)
next
  case (Some ob)
  have val: "contents_ok (hasher pf) (obj_value ob)" using ks_okD(5) [OF assms Some] .
  define ks3 where "ks3 = (let ks2 = refund (estimateStringSize pf old)
      (refund (estimateObjectSize pf ob) ks) in ks2\<lparr>data := AList.delete old (data ks2)\<rparr>)"
  have f3: "data ks3 = AList.delete old (data ks)" "expires ks3 = expires ks"
    "watchedKeys ks3 = watchedKeys ks" "dom (clients ks3) = dom (clients ks)"
    by (simp_all add: ks3_def Let_def)
  define ks4 where "ks4 = ks3\<lparr>expires := AList.delete old (expires ks3)\<rparr>"
  have ok4: "ks_ok pf ks4"
    by (rule ks_ok_remove [OF assms, where k = old]) (simp_all add: ks4_def f3)
  have final: "ks_ok pf (db_setObject pf new ob (touchWatchedKey old ks5))"
    if "data ks5 = data ks4" "AList.delete new (expires ks5) = AList.delete new (expires ks4)"
      "watchedKeys ks5 = watchedKeys ks4" "dom (clients ks5) = dom (clients ks4)" for ks5
    by (rule ks_ok_store [OF ok4, where k = new and ob = "stamp ob (touchWatchedKey old ks5)"])
      (use that val in simp_all)
  show ?thesis
  proof (cases "map_of (expires ks) old")
    case None
    then have "ks4 = ks3" using f3 by (simp add: ks4_def)
    then have "db_rename pf old new ks = (True, db_setObject pf new ob (touchWatchedKey old ks4))"
      using Some None f3 by (simp add: db_rename_def Let_def ks3_def)
    then show ?thesis using final [of ks4] by simp
  next
    case (Some t)
    then have "db_rename pf old new ks = (True, db_setObject pf new ob (touchWatchedKey old
        (if t \<ge> 0 then ks4\<lparr>expires := AList.update new t (expires ks4)\<rparr> else ks4)))"
      using \<open>map_of (data ks) old = Some ob\<close> f3 by (simp add: db_rename_def Let_def ks3_def ks4_def)
    then show ?thesis
      using final [of ks4] final [of "ks4\<lparr>expires := AList.update new t (expires ks4)\<rparr>"]
      by simp
  qed
qed

lemma ks_ok_expire:
  assumes "ks_ok pf ks" "map_of (data ks) k \<noteq> None"
  shows "ks_ok pf (ks\<lparr>expires := AList.update k t (expires ks)\<rparr>)"
proof (rule ks_okI)
  show "set (keys_of (expires (ks\<lparr>expires := AList.update k t (expires ks)\<rparr>)))
      \<subseteq> set (keys_of (data (ks\<lparr>expires := AList.update k t (expires ks)\<rparr>)))"
    using ks_okD(4) [OF assms(1)] assms(2) by (auto simp: keys_update map_of_None_iff simp del: set_map)
qed (use ks_okD [OF assms(1)] in \<open>auto simp: distinct_keys_update\<close>)

lemma ks_ok_unexpire:
  assumes "ks_ok pf ks"
  shows "ks_ok pf (ks\<lparr>expires := AList.delete k (expires ks)\<rparr>)"
  by (rule ks_okI)
    (use ks_okD [OF assms] in \<open>auto simp: distinct_keys_delete keys_delete simp del: set_map\<close>)

lemma setExpiry_ok [inv_intros]: "ks_ok pf ks \<Longrightarrow> ks_ok pf (snd (db_setExpiry pf k n ks))"
  by (simp add: db_setExpiry_def ks_ok_expire split: option.splits)

lemma setExpiryAt_ok [inv_intros]: "ks_ok pf ks \<Longrightarrow> ks_ok pf (snd (db_setExpiryAt k t ks))"
  by (simp add: db_setExpiryAt_def ks_ok_expire split: option.splits)

lemma persist_ok [inv_intros]: "ks_ok pf ks \<Longrightarrow> ks_ok pf (snd (db_persist k ks))"
  by (simp add: db_persist_def ks_ok_unexpire)

lemma incrby_ok [inv_intros]: "ks_ok pf ks \<Longrightarrow> ks_ok pf (snd (db_incrby pf k n ks))"
  by (simp add: db_incrby_def Let_def set_ok split: option.splits)

lemma append_ok [inv_intros]:
  assumes "ks_ok pf ks"
  shows "ks_ok pf (snd (db_append pf k v ks))"
proof (cases "map_of (data ks) k")
  case None
  with assms show ?thesis by (simp add: db_append_def set_ok)
next
  case (Some ob)
  show ?thesis
  proof (cases "obj_value ob")
    case (StringObject s)
    with Some show ?thesis
      using ks_ok_store [OF assms, where k = k]
      by (simp add: db_append_def Let_def)
  qed (use Some assms in \<open>simp_all add: db_append_def\<close>)
qed

lemma flush_refunds [simp]:
  fixes kvs :: "(string \<times> redis_object) list" and ks :: keyspace and pf :: platform
  defines "r \<equiv> foldl (\<lambda>ks (key, ob).
      refund (estimateStringSize pf key) (refund (estimateObjectSize pf ob) ks)) ks kvs"
  shows "data r = data ks \<and> expires r = expires ks \<and> watchedKeys r = watchedKeys ks \<and>
    dirty r = dirty ks \<and> clients r = clients ks"
  unfolding r_def by (induction kvs arbitrary: ks) (auto split: prod.splits)

lemma flush_flags [simp]:
  fixes ks :: keyspace
  defines "r \<equiv> \<lambda>wk. foldl (\<lambda>ks (key, ps). ks\<lparr>clients := flagClients ps (clients ks)\<rparr>) ks wk"
  shows "watchedKeys (r wk) = watchedKeys ks \<and> dirty (r wk) = dirty ks \<and>
    dom (clients (r wk)) = dom (clients ks)"
  unfolding r_def by (induction wk arbitrary: ks) (auto split: prod.splits simp: domIff [symmetric])

lemma flushDb_sel:
  "data (db_flushDb pf ks) = []" "expires (db_flushDb pf ks) = []"
  "watchedKeys (db_flushDb pf ks) = watchedKeys ks" "dirty (db_flushDb pf ks) = dirty ks + 1"
  "dom (clients (db_flushDb pf ks)) = dom (clients ks)"
  by (simp_all add: db_flushDb_def Let_def)

lemma flushDb_ok [inv_intros]: "ks_ok pf ks \<Longrightarrow> ks_ok pf (db_flushDb pf ks)"
  by (simp add: ks_ok_def flushDb_sel)

text \<open>One expired key goes away, in the two places that look for expired keys.\<close>

lemma expire_one:
  assumes "ks_ok pf ks" "map_of (data ks) k = Some ob"
  shows "ks_ok pf ((dropObject pf k ob ks)\<lparr>expires := AList.delete k (expires ks)\<rparr>)"
  using ks_ok_remove [OF assms(1), where k = k] by simp

lemma expireLoop_ok: "ks_ok pf ks \<Longrightarrow> ks_ok pf (snd (expireLoop pf n es ks))"
proof (induction pf n es ks rule: expireLoop.induct)
  case (2 pf n key t rest ks)
  show ?case
  proof (cases "n \<le> 0 \<or> \<not> system_ms pf \<ge> t")
    case True
    with 2 show ?thesis by auto
  next
    case False
    define ks1 where "ks1 = (case map_of (data ks) key of None \<Rightarrow> ks | Some ob \<Rightarrow> dropObject pf key ob ks)"
    have "ks_ok pf (ks1\<lparr>expires := AList.delete key (expires ks1)\<rparr>)"
      using expire_one [OF "2.prems"] ks_ok_unexpire [OF "2.prems"]
      by (auto simp: ks1_def split: option.splits)
    then have "ks_ok pf (snd (expireLoop pf (n - 1) rest (ks1\<lparr>expires := AList.delete key (expires ks1)\<rparr>)))"
      using False "2.IH"(1) ks1_def by auto
    with False show ?thesis by (simp add: Let_def ks1_def case_prod_beta)
  qed
qed simp

lemma activeExpireCycle_ok [inv_intros]:
  "ks_ok pf ks \<Longrightarrow> ks_ok pf (snd (activeExpireCycle pf n ks))"
  by (simp add: activeExpireCycle_def expireLoop_ok)

lemma addWatchedKey_ok [inv_intros]:
  assumes "ks_ok pf ks" "clients ks p \<noteq> None"
  shows "ks_ok pf (addWatchedKey k p ks)"
proof (rule ks_okI)
  fix k' ps
  assume "map_of (watchedKeys (addWatchedKey k p ks)) k' = Some ps"
  with assms(2) ks_okD(6) [OF assms(1)]
  show "ps \<noteq> [] \<and> set ps \<subseteq> dom (clients (addWatchedKey k p ks))"
    by (fastforce simp: addWatchedKey_def split: if_splits option.splits)
qed (use ks_okD [OF assms(1)] in \<open>auto simp: addWatchedKey_def distinct_keys_update\<close>)

lemma removeWatchedKey_sel [simp]:
  "data (removeWatchedKey k p ks) = data ks" "expires (removeWatchedKey k p ks) = expires ks"
  "clients (removeWatchedKey k p ks) = clients ks" "dirty (removeWatchedKey k p ks) = dirty ks"
  by (simp_all add: removeWatchedKey_def Let_def split: option.splits)

lemma removeWatchedKey_ok [inv_intros]:
  assumes "ks_ok pf ks"
  shows "ks_ok pf (removeWatchedKey k p ks)"
proof (rule ks_okI)
  fix k' ps
  assume "map_of (watchedKeys (removeWatchedKey k p ks)) k' = Some ps"
  with ks_okD(6) [OF assms]
  show "ps \<noteq> [] \<and> set ps \<subseteq> dom (clients (removeWatchedKey k p ks))"
    by (fastforce simp: removeWatchedKey_def Let_def split: if_splits option.splits)
next
  show "distinct (keys_of (watchedKeys (removeWatchedKey k p ks)))"
    using ks_okD(3) [OF assms]
    by (simp add: removeWatchedKey_def Let_def distinct_keys_update distinct_keys_delete
        split: option.splits)
qed (use ks_okD [OF assms] in simp_all)

end
