(* ===== verification/KeySpace.thy ===== *)
theory KeySpace
  imports DatabaseSpec
begin

text \<open>
  What the key space promises: \<open>view\<close> maps a key to its value and expiry time,
  \<open>visible\<close> hides the keys whose time has passed. The theorems of this theory describe
  every operation of the database on these maps.
\<close>

type_synonym entry = "contents \<times> int option"

definition view :: "keyspace \<Rightarrow> string \<Rightarrow> entry option" where
  "view ks k = map_option (\<lambda>ob. (obj_value ob, map_of (expires ks) k)) (map_of (data ks) k)"

definition visible :: "platform \<Rightarrow> keyspace \<Rightarrow> string \<Rightarrow> entry option" where
  "visible pf ks k = (if isExpired pf k ks then None else view ks k)"

lemma view_None [simp]: "view ks k = None \<longleftrightarrow> map_of (data ks) k = None"
  by (simp add: view_def)

lemma view_cong: "data ks' = data ks \<Longrightarrow> expires ks' = expires ks \<Longrightarrow> view ks' = view ks"
  by (simp add: view_def fun_eq_iff)

lemma isExpired_cong: "expires ks' = expires ks \<Longrightarrow> isExpired pf k ks' = isExpired pf k ks"
  by (simp add: isExpired_def)

lemma view_setObject [db_simps]:
  "view (db_setObject pf k ob ks) = (view ks)(k \<mapsto> (obj_value ob, None))"
  by (auto simp: view_def fun_eq_iff)

lemma view_set [db_simps]: "view (db_set pf k v ks) = (view ks)(k \<mapsto> (StringObject v, None))"
  by (simp add: db_set_setObject db_simps)

lemma view_checkAndExpire [db_simps]:
  assumes "ks_ok pf ks"
  shows "view (snd (checkAndExpire pf k ks)) =
      (if isExpired pf k ks then (view ks)(k := None) else view ks)"
    "fst (checkAndExpire pf k ks) = isExpired pf k ks"
  using ks_ok_no_orphan [OF assms, of k]
  by (auto simp: checkAndExpire_def Let_def view_def fun_eq_iff isExpired_def split: option.splits)

lemma isExpired_checkAndExpire:
  "isExpired pf k' (snd (checkAndExpire pf k ks)) = (isExpired pf k' ks \<and> k' \<noteq> k)"
  by (auto simp: checkAndExpire_def Let_def isExpired_def split: option.splits)

lemma visible_checkAndExpire [db_simps]:
  assumes "ks_ok pf ks"
  shows "visible pf (snd (checkAndExpire pf k ks)) = visible pf ks"
  using view_checkAndExpire(1) [OF assms, of k]
  by (auto simp: visible_def fun_eq_iff isExpired_checkAndExpire)

lemma getObject_unfold:
  assumes "ks_ok pf ks"
  shows "db_getObject pf k ks =
    (case visible pf ks k of
       None \<Rightarrow> (None, let ks1 = snd (checkAndExpire pf k ks)
                      in if isExpired pf k ks then ks1 else ks1\<lparr>misses := misses ks1 + 1\<rparr>)
     | Some _ \<Rightarrow>
        (let ob = updateLruClock (lruNow (mem ks)) (the (map_of (data ks) k))
         in (Some ob, ks\<lparr>hits := hits ks + 1, data := AList.update k ob (data ks)\<rparr>)))"
  using ks_ok_no_orphan [OF assms, of k]
  by (auto simp: db_getObject_def visible_def checkAndExpire_def Let_def stamp_def view_def
      split: option.splits)

lemma getObject_fst [db_simps]:
  assumes "ks_ok pf ks"
  shows "map_option obj_value (fst (db_getObject pf k ks)) = map_option fst (visible pf ks k)"
  unfolding getObject_unfold [OF assms]
  by (auto simp: visible_def view_def Let_def split: option.splits)

lemma view_getObject [db_simps]:
  assumes "ks_ok pf ks"
  shows "view (snd (db_getObject pf k ks)) = (if isExpired pf k ks then (view ks)(k := None) else view ks)"
proof (cases "visible pf ks k")
  case None
  then show ?thesis
    unfolding getObject_unfold [OF assms] using view_checkAndExpire(1) [OF assms, of k]
    by (auto simp: Let_def checkAndExpire_def intro!: view_cong)
next
  case (Some e)
  then show ?thesis
    unfolding getObject_unfold [OF assms]
    by (auto simp: Let_def visible_def view_def fun_eq_iff split: if_splits)
qed

lemma expires_getObject:
  "expires (snd (db_getObject pf k ks)) =
     (if isExpired pf k ks then AList.delete k (expires ks) else expires ks)"
  by (auto simp: db_getObject_def checkAndExpire_def Let_def split: option.splits)

lemma visible_getObject [db_simps]:
  assumes "ks_ok pf ks"
  shows "visible pf (snd (db_getObject pf k ks)) = visible pf ks"
  using view_getObject [OF assms, of k]
  by (auto simp: visible_def fun_eq_iff isExpired_def expires_getObject)

lemma get_fst [db_simps]:
  assumes "ks_ok pf ks"
  shows "fst (db_get pf k ks) = (case visible pf ks k of Some (StringObject s, _) \<Rightarrow> Some s | _ \<Rightarrow> None)"
  using getObject_fst [OF assms, of k]
  by (cases "db_getObject pf k ks"; cases "visible pf ks k")
    (auto simp: get_getObject split: option.splits contents.splits)

lemma get_snd: "snd (db_get pf k ks) = snd (db_getObject pf k ks)"
  by (cases "db_getObject pf k ks") (simp add: get_getObject)

lemma exists_fst [db_simps]:
  "ks_ok pf ks \<Longrightarrow> fst (db_exists pf k ks) = (visible pf ks k \<noteq> None)"
  by (auto simp: db_exists_def checkAndExpire_def visible_def Let_def view_def)

lemma visible_exists [db_simps]:
  "ks_ok pf ks \<Longrightarrow> visible pf (snd (db_exists pf k ks)) = visible pf ks"
  using visible_checkAndExpire [of pf ks k]
  by (cases "checkAndExpire pf k ks") (auto simp: db_exists_def split: bool.splits)

lemma type_fst [db_simps]:
  assumes "ks_ok pf ks"
  shows "fst (db_type pf k ks) =
    (case visible pf ks k of None \<Rightarrow> ''none'' | Some (v, _) \<Rightarrow> typeString (contents_type v))"
  by (auto simp: db_type_def checkAndExpire_def visible_def view_def obj_type_def split: option.splits)

lemma view_writeObject [db_simps]:
  "view (writeObject k v ks) = (case view ks k of None \<Rightarrow> view ks | Some (_, t) \<Rightarrow> (view ks)(k \<mapsto> (v, t)))"
  by (auto simp: writeObject_def view_def fun_eq_iff split: option.splits)

lemma view_del [db_simps]:
  assumes "ks_ok pf ks"
  shows "view (snd (db_del pf k ks)) = (view ks)(k := None)"
    "fst (db_del pf k ks) = (view ks k \<noteq> None)"
  by (auto simp: db_del_def Let_def view_def fun_eq_iff split: option.splits)

lemma view_setExpiry [db_simps]:
  "view (snd (db_setExpiry pf k n ks)) = (case view ks k of None \<Rightarrow> view ks
     | Some (v, _) \<Rightarrow> (view ks)(k \<mapsto> (v, Some (wrap64 (system_ms pf + n)))))"
  "fst (db_setExpiry pf k n ks) = (view ks k \<noteq> None)"
  by (auto simp: db_setExpiry_def view_def fun_eq_iff split: option.splits)

lemma view_setExpiryAt [db_simps]:
  "view (snd (db_setExpiryAt k t ks)) = (case view ks k of None \<Rightarrow> view ks
     | Some (v, _) \<Rightarrow> (view ks)(k \<mapsto> (v, Some t)))"
  "fst (db_setExpiryAt k t ks) = (view ks k \<noteq> None)"
  by (auto simp: db_setExpiryAt_def view_def fun_eq_iff split: option.splits)

lemma view_persist [db_simps]:
  assumes "ks_ok pf ks"
  shows "view (snd (db_persist k ks)) = (case view ks k of None \<Rightarrow> view ks
     | Some (v, _) \<Rightarrow> (view ks)(k \<mapsto> (v, None)))"
    "fst (db_persist k ks) = (\<exists>v t. view ks k = Some (v, Some t))"
  using ks_ok_no_orphan [OF assms, of k]
  by (cases "map_of (data ks) k"; auto simp: db_persist_def view_def fun_eq_iff)+

lemma view_rename [db_simps]:
  assumes "ks_ok pf ks"
  shows "view (snd (db_rename pf old new ks)) = (case view ks old of None \<Rightarrow> view ks
     | Some (v, _) \<Rightarrow> (view ks)(old := None, new \<mapsto> (v, None)))"
    "fst (db_rename pf old new ks) = (view ks old \<noteq> None)"
  by (auto simp: db_rename_def Let_def view_def fun_eq_iff split: option.splits)

lemma view_flushDb [db_simps]: "view (db_flushDb pf ks) = Map.empty"
  by (simp add: view_def flushDb_sel fun_eq_iff)

section \<open>Numbers\<close>

text \<open>The guard is the exact overflow test.\<close>

lemma incr_guard:
  assumes "in_i64 c" "in_i64 n"
  shows "(n > 0 \<and> c > wrap64 (i64_max - n)) \<or> (n < 0 \<and> c < wrap64 (i64_min - n)) \<longleftrightarrow> \<not> in_i64 (c + n)"
proof -
  have "0 < n \<Longrightarrow> in_i64 (i64_max - n)" "n < 0 \<Longrightarrow> in_i64 (i64_min - n)"
    using assms by (auto simp: in_i64_def i64_min_def i64_max_def)
  with assms show ?thesis by (auto simp: in_i64_def)
qed

lemma incrby_value:
  assumes "view ks k = Some (StringObject (int_to_dec c), t)" "in_i64 c" "in_i64 n"
  shows "db_incrby pf k n ks =
    (if in_i64 (c + n) then (Some (c + n), db_set pf k (int_to_dec (c + n)) ks) else (None, ks))"
proof -
  from assms(1) obtain ob where ob: "map_of (data ks) k = Some ob" "obj_value ob = StringObject (int_to_dec c)"
    by (auto simp: view_def)
  show ?thesis
    using incr_guard [OF assms(2,3)] assms(2)
    by (simp add: db_incrby_def ob Let_def)
qed

lemma incrby_missing:
  assumes "view ks k = None" "in_i64 n"
  shows "db_incrby pf k n ks = (Some n, db_set pf k (int_to_dec n) ks)"
  using assms incr_guard [of 0 n]
  by (simp add: db_incrby_def Let_def in_i64_def i64_min_def i64_max_def)

lemma append_value:
  assumes "view ks k = Some (StringObject s, t)"
  shows "fst (db_append pf k v ks) = Some (length s + length v) \<and>
    view (snd (db_append pf k v ks)) = (view ks)(k \<mapsto> (StringObject (s @ v), t))"
proof -
  from assms obtain ob where ob: "map_of (data ks) k = Some ob" "obj_value ob = StringObject s"
    "t = map_of (expires ks) k"
    by (auto simp: view_def)
  then show ?thesis by (auto simp: db_append_def Let_def view_def fun_eq_iff)
qed

section \<open>Active expiry\<close>

text \<open>One step of the cycle on an entry whose time has come removes this key only.\<close>

lemma expire_step:
  assumes "map_of (data ks) key = Some ob" "map_of (expires ks) key = Some t" "system_ms pf \<ge> t"
  shows "view ((dropObject pf key ob ks)\<lparr>expires := AList.delete key (expires ks)\<rparr>) = (view ks)(key := None)"
    "isExpired pf k ((dropObject pf key ob ks)\<lparr>expires := AList.delete key (expires ks)\<rparr>) = (isExpired pf k ks \<and> k \<noteq> key)"
    "isExpired pf key ks"
  using assms by (auto simp: isExpired_def view_def fun_eq_iff)

text \<open>What the cycle removes has expired, and nothing else changes.\<close>

lemma expireLoop_view:
  "ks_ok pf ks \<Longrightarrow> distinct (keys_of es) \<Longrightarrow> (\<forall>(k, t) \<in> set es. map_of (expires ks) k = Some t) \<Longrightarrow>
    (view (snd (expireLoop pf n es ks)) k = view ks k \<or>
      isExpired pf k ks \<and> view (snd (expireLoop pf n es ks)) k = None) \<and>
    visible pf (snd (expireLoop pf n es ks)) k = visible pf ks k"
proof (induction pf n es ks rule: expireLoop.induct)
  case (2 pf n key t rest ks)
  show ?case
  proof (cases "n \<le> 0 \<or> \<not> system_ms pf \<ge> t")
    case True
    with 2 show ?thesis by auto
  next
    case False
    from "2.prems"(3) have t: "map_of (expires ks) key = Some t" by auto
    then obtain ob where ob: "map_of (data ks) key = Some ob"
      using ks_ok_no_orphan [OF "2.prems"(1), of key] by fastforce
    let ?ks = "(dropObject pf key ob ks)\<lparr>expires := AList.delete key (expires ks)\<rparr>"
    note step = expire_step [OF ob t, of pf]
    have "key \<notin> set (keys_of rest)" "distinct (keys_of rest)" using "2.prems"(2) by auto
    then have "\<forall>(k, t) \<in> set rest. map_of (expires ?ks) k = Some t"
      using "2.prems"(3) by (fastforce simp: image_iff)
    then have "(view (snd (expireLoop pf (n - 1) rest ?ks)) k = view ?ks k \<or>
        isExpired pf k ?ks \<and> view (snd (expireLoop pf (n - 1) rest ?ks)) k = None) \<and>
        visible pf (snd (expireLoop pf (n - 1) rest ?ks)) k = visible pf ?ks k"
      using "2.IH"(1) [of "dropObject pf key ob ks" ?ks] False ob "2.prems"(2)
        expire_one [OF "2.prems"(1) ob] by simp
    moreover have "visible pf ?ks k = visible pf ks k"
      using False step by (auto simp: visible_def)
    moreover have "snd (expireLoop pf n ((key, t) # rest) ks) = snd (expireLoop pf (n - 1) rest ?ks)"
      using False ob by (simp add: Let_def case_prod_beta)
    ultimately show ?thesis using step False by (auto simp del: view_None split: if_splits)
  qed
qed simp

end
