(* ===== verification/Glob.thy ===== *)
theory Glob
  imports Database
begin

text \<open>
  Correctness of \<^verbatim>\<open>Database::globMatch\<close>. \<open>glob_spec\<close> is what a pattern means:
  \<^verbatim>\<open>?\<close> stands for one character, \<^verbatim>\<open>*\<close> for any run of characters, every
  other character for itself. The loop with its single backtrack point decides exactly
  this on strings without a star; a star in the string is compared literally with a star of the
  pattern first, which loses matches.
\<close>

abbreviation STAR :: char where "STAR \<equiv> CHR ''*''"
abbreviation QMARK :: char where "QMARK \<equiv> CHR ''?''"

fun glob_spec :: "string \<Rightarrow> string \<Rightarrow> bool" where
  "glob_spec [] s \<longleftrightarrow> s = []"
| "glob_spec (c # p) s \<longleftrightarrow>
     (if c = STAR then \<exists>k \<le> length s. glob_spec p (drop k s)
      else case s of [] \<Rightarrow> False | d # s' \<Rightarrow> (c = QMARK \<or> c = d) \<and> glob_spec p s')"

lemma glob_spec_stars: "glob_spec p [] \<longleftrightarrow> set p \<subseteq> {STAR}"
  by (induction p) auto

text \<open>A run of characters other than stars consumes exactly as many characters.\<close>

lemma glob_spec_run:
  "STAR \<notin> set r \<Longrightarrow> glob_spec (r @ p) s \<Longrightarrow> length r \<le> length s \<and> glob_spec p (drop (length r) s)"
proof (induction r arbitrary: s)
  case (Cons c r)
  then show ?case by (cases s) auto
qed simp

lemma stars_drop:
  "i \<le> length p \<Longrightarrow> i + length (takeWhile (\<lambda>c. c = STAR) (drop i p)) = length p \<longleftrightarrow> set (drop i p) \<subseteq> {STAR}"
proof -
  assume i: "i \<le> length p"
  have "length (takeWhile (\<lambda>c. c = STAR) q) = length q \<longleftrightarrow> set q \<subseteq> {STAR}" for q :: string
    by (induction q) auto
  from this [of "drop i p"] i show ?thesis by auto
qed

text \<open>
  The invariant of the loop: without a backtrack point nothing is lost; with one at
  \<open>(p, t)\<close> the pattern between the star and the current position is a run that the string
  matched from \<open>t\<close> on, and the other starting points after \<open>t\<close> are still to be tried.
\<close>

definition glob_state :: "string \<Rightarrow> string \<Rightarrow> nat \<Rightarrow> nat \<Rightarrow> nat option \<Rightarrow> nat \<Rightarrow> bool" where
  "glob_state pat str i s starP t \<longleftrightarrow> i \<le> length pat \<and> s \<le> length str \<and> t \<le> s \<and>
     (case starP of None \<Rightarrow> True
      | Some p \<Rightarrow> p < i \<and> i - (p + 1) = s - t \<and> STAR \<notin> set (take (s - t) (drop (p + 1) pat)))"

definition glob_rest :: "string \<Rightarrow> string \<Rightarrow> nat \<Rightarrow> nat \<Rightarrow> nat option \<Rightarrow> nat \<Rightarrow> bool" where
  "glob_rest pat str i s starP t \<longleftrightarrow> glob_spec (drop i pat) (drop s str) \<or>
     (case starP of None \<Rightarrow> False
      | Some p \<Rightarrow> \<exists>k > t. k \<le> length str \<and> glob_spec (drop (p + 1) pat) (drop k str))"

lemma ex_later:
  "t < (n :: nat) \<Longrightarrow> (\<exists>k > t. k \<le> n \<and> Q k) \<longleftrightarrow> Q (t + 1) \<or> (\<exists>k > t + 1. k \<le> n \<and> Q k)"
  by (metis Suc_eq_plus1 Suc_leI Suc_lessD Suc_lessI lessI)

text \<open>A later starting point of an older star leads to a later position of the current one.\<close>

lemma later_start:
  assumes "glob_state pat str i s (Some p) t" "k > t" "k \<le> length str"
    and "glob_spec (drop (p + 1) pat) (drop k str)"
  shows "k + (s - t) \<le> length str \<and> glob_spec (drop i pat) (drop (k + (s - t)) str)"
proof -
  have i: "i = p + 1 + (s - t)" and no: "STAR \<notin> set (take (s - t) (drop (p + 1) pat))"
    and len: "i \<le> length pat"
    using assms(1) by (auto simp: glob_state_def)
  have split: "drop (p + 1) pat = take (s - t) (drop (p + 1) pat) @ drop i pat"
    using append_take_drop_id [of "s - t" "drop (p + 1) pat"] by (simp add: i ac_simps)
  have "length (take (s - t) (drop (p + 1) pat)) = s - t" using i len by simp
  with glob_spec_run [OF no, of "drop i pat" "drop k str"] split assms(4)
  have "s - t \<le> length str - k \<and> glob_spec (drop i pat) (drop (s - t) (drop k str))" by simp
  then show ?thesis using assms(2,3) by (auto simp: add.commute)
qed

lemma globLoop_correct:
  "STAR \<notin> set str \<Longrightarrow> glob_state pat str i s starP t \<Longrightarrow>
     globLoop pat str i s starP t = glob_rest pat str i s starP t"
proof (induction pat str i s starP t rule: globLoop.induct)
  case (1 pat str i s starP t)
  note st = "1.prems"(2)
  have len: "i \<le> length pat" "s \<le> length str" "t \<le> s" using st by (auto simp: glob_state_def)
  show ?case
  proof (cases "s < length str")
    case at_end: False
    then have s: "s = length str" using len by simp
    have "\<not> (\<exists>k > t. k \<le> length str \<and> glob_spec (drop (p + 1) pat) (drop k str))" if "starP = Some p" for p
      using later_start [of pat str i s p t] st that s by fastforce
    then have "glob_rest pat str i s starP t = glob_spec (drop i pat) []"
      using s by (auto simp: glob_rest_def split: option.splits)
    with s stars_drop [OF len(1)] show ?thesis
      by (subst globLoop.simps) (simp add: glob_spec_stars)
  next
    case more: True
    then have str_s: "drop s str = str ! s # drop (s + 1) str" by (simp add: Cons_nth_drop_Suc)
    have no_star: "str ! s \<noteq> STAR" using "1.prems"(1) more by (metis nth_mem)
    show ?thesis
    proof (cases "i < length pat \<and> (pat ! i = QMARK \<or> pat ! i = str ! s)")
      case True
      then have pat_i: "drop i pat = pat ! i # drop (i + 1) pat" "pat ! i \<noteq> STAR"
        using no_star by (auto simp: Cons_nth_drop_Suc)
      have "glob_state pat str (i + 1) (s + 1) starP t"
      proof (cases starP)
        case (Some p)
        then have "i = p + 1 + (s - t)" using st by (auto simp: glob_state_def)
        then have "drop (p + 1) pat ! (s - t) = pat ! i" "s - t < length (drop (p + 1) pat)"
          using True by (simp_all add: less_diff_conv)
        with Some st True more pat_i(2) show ?thesis
          by (auto simp: glob_state_def Suc_diff_le take_Suc_conv_app_nth)
      qed (use st True more in \<open>auto simp: glob_state_def\<close>)
      with True more "1.IH"(1) "1.prems"(1)
      have "globLoop pat str i s starP t = glob_rest pat str (i + 1) (s + 1) starP t"
        by (simp add: globLoop.simps [of pat str i s])
      also have "\<dots> = glob_rest pat str i s starP t"
        using True pat_i by (simp add: glob_rest_def str_s)
      finally show ?thesis .
    next
      case no_char: False
      show ?thesis
      proof (cases "i < length pat \<and> pat ! i = STAR")
        case True
        then have pat_i: "drop i pat = STAR # drop (i + 1) pat" using Cons_nth_drop_Suc [of i pat] True by simp
        have "globLoop pat str i s starP t = glob_rest pat str (i + 1) s (Some i) s"
          using True no_char more "1.IH"(2) "1.prems"(1) len
          by (simp add: globLoop.simps [of pat str i s] glob_state_def)
        also have "\<dots> = (\<exists>k \<ge> s. k \<le> length str \<and> glob_spec (drop (i + 1) pat) (drop k str))"
          using len by (auto simp: glob_rest_def le_less)
        also have "\<dots> = glob_spec (drop i pat) (drop s str)"
        proof
          assume "\<exists>k \<ge> s. k \<le> length str \<and> glob_spec (drop (i + 1) pat) (drop k str)"
          then obtain k where "k \<ge> s" "k \<le> length str" "glob_spec (drop (i + 1) pat) (drop k str)" by blast
          then show "glob_spec (drop i pat) (drop s str)"
            unfolding pat_i by (auto intro!: exI [of _ "k - s"])
        next
          assume "glob_spec (drop i pat) (drop s str)"
          then obtain j where "j \<le> length str - s" "glob_spec (drop (i + 1) pat) (drop (j + s) str)"
            unfolding pat_i by auto
          with len show "\<exists>k \<ge> s. k \<le> length str \<and> glob_spec (drop (i + 1) pat) (drop k str)"
            by (intro exI [of _ "j + s"]) auto
        qed
        also have "\<dots> = glob_rest pat str i s starP t"
        proof -
          have "glob_spec (drop i pat) (drop s str)"
            if "starP = Some p" "k > t" "k \<le> length str" "glob_spec (drop (p + 1) pat) (drop k str)" for p k
          proof -
            from later_start [of pat str i s p t k] st that
            have "k + (s - t) \<le> length str" "glob_spec (drop i pat) (drop (k + (s - t)) str)" by auto
            then obtain j where "j \<le> length str - (k + (s - t))"
              "glob_spec (drop (i + 1) pat) (drop j (drop (k + (s - t)) str))"
              unfolding pat_i by auto
            moreover have "k + (s - t) = s + (k - t)" using that(2) len by simp
            ultimately show ?thesis
              unfolding pat_i using \<open>k + (s - t) \<le> length str\<close>
              by (auto simp: ac_simps intro!: exI [of _ "j + (k - t)"])
          qed
          then show ?thesis by (auto simp: glob_rest_def split: option.splits)
        qed
        finally show ?thesis .
      next
        case no_star_pat: False
        have dead: "\<not> glob_spec (drop i pat) (drop s str)"
        proof (cases "i < length pat")
          case True
          then have "drop i pat = pat ! i # drop (i + 1) pat" by (simp add: Cons_nth_drop_Suc)
          with no_char no_star_pat True show ?thesis by (simp add: str_s)
        qed (simp add: str_s)
        show ?thesis
        proof (cases starP)
          case None
          with dead no_char no_star_pat more show ?thesis
            by (subst globLoop.simps) (auto simp: glob_rest_def)
        next
          case (Some p)
          have "glob_state pat str (p + 1) (t + 1) starP (t + 1)"
            using st Some more len by (auto simp: glob_state_def)
          then have "globLoop pat str i s starP t = glob_rest pat str (p + 1) (t + 1) starP (t + 1)"
            using Some no_char no_star_pat more "1.IH"(3) "1.prems"(1)
            by (subst globLoop.simps) auto
          also have "\<dots> = (\<exists>k > t. k \<le> length str \<and> glob_spec (drop (p + 1) pat) (drop k str))"
            using Some len more ex_later [of t "length str"] by (simp add: glob_rest_def)
          also have "\<dots> = glob_rest pat str i s starP t" using dead Some by (simp add: glob_rest_def)
          finally show ?thesis .
        qed
      qed
    qed
  qed
qed

lemma globMatch_spec:
  assumes "STAR \<notin> set str"
  shows "globMatch pat str = glob_spec pat str"
  using globLoop_correct [OF assms, of pat 0 0 None 0]
  by (simp add: globMatch_def glob_state_def glob_rest_def)

text \<open>
  A star at the start of the string is taken for the literal star of the pattern: the rest is
  matched as if there were no wildcard.
\<close>

lemma globLoop_shift:
  "starP = None \<or> t' = t + 1 \<Longrightarrow>
    globLoop (c # pat) (d # str) (i + 1) (s + 1) (map_option Suc starP) t' = globLoop pat str i s starP t"
proof (induction pat str i s starP t arbitrary: t' rule: globLoop.induct)
  case (1 pat str i s starP t)
  show ?case
    using 1
    by (subst (1 2) globLoop.simps) (auto split: option.split)
qed

lemma globMatch_star_star: "globMatch (STAR # pat) (STAR # str) = globMatch pat str"
  using globLoop_shift [of None 0 0 STAR pat STAR str 0 0]
  by (simp add: globMatch_def globLoop.simps [of "STAR # pat" "STAR # str" 0 0])

lemma glob_spec_self: "glob_spec p p"
  by (induction p) (auto intro: exI [of _ 1])

lemma glob_spec_length: "STAR \<notin> set p \<Longrightarrow> glob_spec p s \<Longrightarrow> length s = length p"
proof (induction p arbitrary: s)
  case (Cons c p)
  then show ?case by (cases s) auto
qed simp

end
