(* ===== verification/Keys.thy ===== *)
theory Keys
  imports KeySpace Glob OrderedSet
begin

text \<open>
  The key space over time: every state that calls of \<^verbatim>\<open>Database\<close>'s methods can reach
  from an empty database satisfies the invariant, and the theorems on reading after writing,
  expiry, counters, renaming, pattern search, watched keys, snapshots and the memory account.
\<close>

section \<open>Reachable key spaces\<close>

datatype db_call =
    CallSet string string
  | CallSetObject string contents
  | CallGet string
  | CallGetObject string
  | CallGetObjectForWrite string
  | CallWrite string contents
  | CallDel string
  | CallExists string
  | CallType string
  | CallRename string string
  | CallIncrby string int
  | CallAppend string string
  | CallSetExpiry string int
  | CallSetExpiryAt string int
  | CallPersist string
  | CallFlush
  | CallExpireCycle int
  | CallWatch string nat
  | CallUnwatch string nat

primrec dbCall :: "platform \<Rightarrow> db_call \<Rightarrow> keyspace \<Rightarrow> keyspace" where
  "dbCall pf (CallSet k v) ks = db_set pf k v ks"
| "dbCall pf (CallSetObject k v) ks = db_setObject pf k (newObject v) ks"
| "dbCall pf (CallGet k) ks = snd (db_get pf k ks)"
| "dbCall pf (CallGetObject k) ks = snd (db_getObject pf k ks)"
| "dbCall pf (CallGetObjectForWrite k) ks = snd (db_getObjectForWrite pf k ks)"
| "dbCall pf (CallWrite k v) ks = writeObject k v ks"
| "dbCall pf (CallDel k) ks = snd (db_del pf k ks)"
| "dbCall pf (CallExists k) ks = snd (db_exists pf k ks)"
| "dbCall pf (CallType k) ks = snd (db_type pf k ks)"
| "dbCall pf (CallRename k k') ks = snd (db_rename pf k k' ks)"
| "dbCall pf (CallIncrby k n) ks = snd (db_incrby pf k n ks)"
| "dbCall pf (CallAppend k v) ks = snd (db_append pf k v ks)"
| "dbCall pf (CallSetExpiry k n) ks = snd (db_setExpiry pf k n ks)"
| "dbCall pf (CallSetExpiryAt k t) ks = snd (db_setExpiryAt k t ks)"
| "dbCall pf (CallPersist k) ks = snd (db_persist k ks)"
| "dbCall pf CallFlush ks = db_flushDb pf ks"
| "dbCall pf (CallExpireCycle n) ks = snd (activeExpireCycle pf n ks)"
| "dbCall pf (CallWatch k p) ks = addWatchedKey k p ks"
| "dbCall pf (CallUnwatch k p) ks = removeWatchedKey k p ks"

text \<open>Callers store well-formed objects and pass the address of a live client.\<close>

primrec call_ok :: "(string \<Rightarrow> nat) \<Rightarrow> db_call \<Rightarrow> keyspace \<Rightarrow> bool" where
  "call_ok hf (CallSet k v) ks = True"
| "call_ok hf (CallSetObject k v) ks = contents_ok hf v"
| "call_ok hf (CallGet k) ks = True"
| "call_ok hf (CallGetObject k) ks = True"
| "call_ok hf (CallGetObjectForWrite k) ks = True"
| "call_ok hf (CallWrite k v) ks = contents_ok hf v"
| "call_ok hf (CallDel k) ks = True"
| "call_ok hf (CallExists k) ks = True"
| "call_ok hf (CallType k) ks = True"
| "call_ok hf (CallRename k k') ks = True"
| "call_ok hf (CallIncrby k n) ks = True"
| "call_ok hf (CallAppend k v) ks = True"
| "call_ok hf (CallSetExpiry k n) ks = True"
| "call_ok hf (CallSetExpiryAt k t) ks = True"
| "call_ok hf (CallPersist k) ks = True"
| "call_ok hf CallFlush ks = True"
| "call_ok hf (CallExpireCycle n) ks = True"
| "call_ok hf (CallWatch k p) ks = (clients ks p \<noteq> None)"
| "call_ok hf (CallUnwatch k p) ks = True"

lemma ks_ok_hasher: "hasher pf' = hasher pf \<Longrightarrow> ks_ok pf' ks = ks_ok pf ks"
  by (simp add: ks_ok_def)

lemma dbCall_ok:
  "ks_ok pf ks \<Longrightarrow> call_ok (hasher pf) c ks \<Longrightarrow> ks_ok pf (dbCall pf c ks)"
  by (cases c) (auto intro: inv_intros)

text \<open>
  Calls at any time, interleaved with changes of the memory account and of the clients, as
  long as those that watch a key stay.
\<close>

inductive db_reachable :: "(string \<Rightarrow> nat) \<Rightarrow> keyspace \<Rightarrow> bool" for hf where
  start: "data ks = [] \<Longrightarrow> expires ks = [] \<Longrightarrow> watchedKeys ks = [] \<Longrightarrow> db_reachable hf ks"
| call: "db_reachable hf ks \<Longrightarrow> hasher pf = hf \<Longrightarrow> call_ok hf c ks \<Longrightarrow> db_reachable hf (dbCall pf c ks)"
| other: "db_reachable hf ks \<Longrightarrow> \<forall>k ps. map_of (watchedKeys ks) k = Some ps \<longrightarrow> set ps \<subseteq> dom cs \<Longrightarrow>
     db_reachable hf (ks\<lparr>mem := m, clients := cs\<rparr>)"

lemma db_reachable_ok: "db_reachable hf ks \<Longrightarrow> hasher pf = hf \<Longrightarrow> ks_ok pf ks"
proof (induction rule: db_reachable.induct)
  case (start ks)
  then show ?case by (simp add: ks_ok_def)
next
  case (call ks pf' c)
  then show ?case using dbCall_ok [of pf' ks c] ks_ok_hasher [of pf pf'] by auto
next
  case (other ks cs m)
  then show ?case by (simp add: ks_ok_def)
qed

section \<open>Watched keys\<close>

lemma flagClients_apply:
  "flagClients ps cs p = (if p \<in> set ps then map_option (setFlag CLIENT_DIRTY_EXEC) (cs p) else cs p)"
proof (induction ps arbitrary: cs)
  case Nil
  then show ?case by (simp add: flagClients_def)
next
  case (Cons q ps)
  have "flagClients (q # ps) cs = flagClients ps (onClient q (setFlag CLIENT_DIRTY_EXEC) cs)"
    by (simp add: flagClients_def)
  with Cons.IH [of "onClient q (setFlag CLIENT_DIRTY_EXEC) cs"] show ?case
    by (cases "cs p") (auto simp: onClient_def setFlag_def or.assoc [symmetric] split: option.splits)
qed

definition watchers :: "keyspace \<Rightarrow> string \<Rightarrow> nat set" where
  "watchers ks k = (case map_of (watchedKeys ks) k of None \<Rightarrow> {} | Some ps \<Rightarrow> set ps)"

lemma touch_clients:
  "clients (touchWatchedKey k ks) p =
     (if p \<in> watchers ks k then map_option (setFlag CLIENT_DIRTY_EXEC) (clients ks p) else clients ks p)"
  by (simp add: touchWatchedKey_def watchers_def flagClients_apply split: option.split)

lemma watchers_cong: "watchedKeys ks' = watchedKeys ks \<Longrightarrow> watchers ks' k = watchers ks k"
  by (simp add: watchers_def)

lemma setObject_clients:
  "clients (db_setObject pf k ob ks) p =
     (if p \<in> watchers ks k then map_option (setFlag CLIENT_DIRTY_EXEC) (clients ks p) else clients ks p)"
  by (simp add: db_setObject_def Let_def touch_clients watchers_def charge_def refund_def split: option.split)

lemma dropObject_clients:
  "clients (dropObject pf k ob ks) p =
     (if p \<in> watchers ks k then map_option (setFlag CLIENT_DIRTY_EXEC) (clients ks p) else clients ks p)"
  by (simp add: dropObject_def Let_def touch_clients watchers_def refund_def)

lemma writeObject_clients: "clients (writeObject k v ks) = clients ks"
  by (simp add: writeObject_def split: option.split)

section \<open>The memory account\<close>

lemma setObject_new_mem:
  assumes "map_of (data ks) k = None"
  shows "mem (db_setObject pf k ob ks) =
    addMemory (estimateObjectSize pf ob) (addMemory (estimateStringSize pf k) (mem ks))"
proof -
  have "mem (touchWatchedKey k ks') = mem ks'" for ks' by simp
  with assms show ?thesis
    by (simp add: db_setObject_def Let_def charge_def stamp_def estimateObjectSize_def)
qed

lemma dropObject_mem:
  "mem (dropObject pf k ob ks) =
    freeMemory (estimateStringSize pf k) (freeMemory (estimateObjectSize pf ob) (mem ks))"
  by (simp add: dropObject_def Let_def refund_def)

section \<open>Pattern search\<close>

lemma db_keys_filter:
  "db_keys pf pat ks = map fst (filter (\<lambda>(k, ob). \<not> isExpired pf k ks \<and> (pat = ''*'' \<or> globMatch pat k)) (data ks))"
proof -
  have "foldl (\<lambda>result (key, ob). if isExpired pf key ks then result
        else if pat = ''*'' \<or> globMatch pat key then result @ [key] else result) acc al =
      acc @ map fst (filter (\<lambda>(k, ob). \<not> isExpired pf k ks \<and> (pat = ''*'' \<or> globMatch pat k)) al)"
    for acc and al :: "(string \<times> redis_object) list"
    by (induction al arbitrary: acc) (simp_all add: split_beta)
  then show ?thesis by (simp add: db_keys_def)
qed

lemma glob_spec_star: "glob_spec ''*'' s"
  by (auto intro!: exI [of _ "length s"])

lemma set_keys_view: "k \<in> set (map fst (data ks)) \<longleftrightarrow> view ks k \<noteq> None"
  by (simp add: map_of_eq_None_iff)

lemma set_db_keys:
  "set (db_keys pf pat ks) = {k. visible pf ks k \<noteq> None \<and> (pat = ''*'' \<or> globMatch pat k)}"
proof -
  have "k \<in> set (db_keys pf pat ks) \<longleftrightarrow>
      k \<in> set (keys_of (data ks)) \<and> \<not> isExpired pf k ks \<and> (pat = ''*'' \<or> globMatch pat k)" for k
    unfolding db_keys_filter set_map set_filter by force
  then show ?thesis unfolding set_keys_view by (auto simp: visible_def simp del: view_None)
qed

section \<open>Snapshots\<close>

text \<open>Two values that no reader of a collection can tell apart.\<close>

fun same_contents :: "contents \<Rightarrow> contents \<Rightarrow> bool" where
  "same_contents (StringObject s) v \<longleftrightarrow> v = StringObject s"
| "same_contents (ListObject l) v \<longleftrightarrow> (\<exists>l' xs. v = ListObject l' \<and> ll_is l xs \<and> ll_is l' xs)"
| "same_contents (HashObject h) v \<longleftrightarrow> (\<exists>h'. v = HashObject h' \<and> ht_abs h' = ht_abs h \<and> ht_entries h' = ht_entries h)"
| "same_contents (SetObject s) v \<longleftrightarrow> (\<exists>s'. v = SetObject s' \<and> hs_members s' = hs_members s)"
| "same_contents (SortedSetObject z) v \<longleftrightarrow> (\<exists>z' es. v = SortedSetObject z' \<and> ss_lists z es \<and> ss_lists z' es \<and>
     ht_entries (ss_dict z') = ht_entries (ss_dict z))"
| "same_contents NoObject v \<longleftrightarrow> v = NoObject"

text \<open>Sorted sets whose table and skip list agree: those whose scores are numbers.\<close>

fun agreeing :: "contents \<Rightarrow> bool" where
  "agreeing (SortedSetObject z) = (\<exists>es. ss_lists z es)"
| "agreeing v = True"

lemma obj_clone_same:
  assumes "contents_ok hf (obj_value ob)" "agreeing (obj_value ob)"
  shows "\<exists>ob'. obj_clone rng ob = Some ob' \<and> same_contents (obj_value ob) (obj_value ob')"
proof (cases "obj_value ob")
  case (ListObject l)
  with assms obtain xs where xs: "ll_is l xs" by auto
  with ll_clone_is [OF xs] ListObject show ?thesis by (auto simp: obj_clone_def)
next
  case (SetObject s)
  then show ?thesis
    by (simp add: obj_clone_def hs_clone_def hs_members_def ht_clone_def ht_entries_def)
next
  case (SortedSetObject z)
  with assms obtain es where "ss_lists z es" by auto
  with ss_clone_lists [OF this, of rng] SortedSetObject show ?thesis by (auto simp: obj_clone_def)
qed (use assms in \<open>auto simp: obj_clone_def ht_clone_def ht_abs_def ht_entries_def\<close>)

lemma cloneData_same:
  "\<forall>(k, ob) \<in> set al. contents_ok hf (obj_value ob) \<and> agreeing (obj_value ob) \<Longrightarrow>
     \<exists>copied. cloneData pf i al = Some copied \<and>
       list_all2 (\<lambda>p q. fst q = fst p \<and> same_contents (obj_value (snd p)) (obj_value (snd q))) al copied"
proof (induction al arbitrary: i)
  case Nil
  then show ?case by simp
next
  case (Cons p al)
  obtain k ob where p: "p = (k, ob)" by (cases p)
  with Cons.prems obj_clone_same [of hf ob "rng_seed pf i"] obtain ob' where
    ob': "obj_clone (rng_seed pf i) ob = Some ob'" "same_contents (obj_value ob) (obj_value ob')" by auto
  from Cons obtain rest where "cloneData pf (i + 1) al = Some rest"
    "list_all2 (\<lambda>p q. fst q = fst p \<and> same_contents (obj_value (snd p)) (obj_value (snd q))) al rest"
    by fastforce
  with p ob' show ?case by auto
qed

text \<open>A platform and an empty key space with one client, for concrete instances.\<close>

definition samplePlatform :: platform where
  "samplePlatform = \<lparr>hasher = length, capacity = length, sizeof_RedisObject = 24, sizeof_LinkedList = 24,
     sizeof_HashTable = 48, sizeof_HashSet = 48, sizeof_SortedSet = 96, sizeof_pointer = 8, long_bits = 64,
     system_ms = 1000, stamp_ms = (\<lambda>_. 1000), steady_ms = 500, uptime_seconds = 0, rng_seed = (\<lambda>i n. odd (i + n)), draw = (\<lambda>i. i),
     what = (\<lambda>e. ''std::exception''), reserve_ok = (\<lambda>n. n \<le> 100000), write_ok = (\<lambda>f. True), address_text = (\<lambda>k. ''0x0'')\<rparr>"

definition sampleSpace :: keyspace where
  "sampleSpace = \<lparr>data = [], expires = [], watchedKeys = [], hits = 0, misses = 0, dirty = 0,
     mem = \<lparr>usedMemory = 0, lruNow = 0\<rparr>, clients = (\<lambda>_. None)(7 \<mapsto> newClient 3 1 0)\<rparr>"

lemma samplePlatform_sel [simp]:
  "system_ms samplePlatform = 1000" "hasher samplePlatform = length" "capacity samplePlatform = length"
  "sizeof_RedisObject samplePlatform = 24" "long_bits samplePlatform = 64" "stamp_ms samplePlatform k = 1000"
  by (simp_all add: samplePlatform_def)

lemma sampleSpace_ok [simp]: "ks_ok pf sampleSpace"
  by (simp add: ks_ok_def sampleSpace_def)

lemma sampleSpace_view [simp]: "view sampleSpace = Map.empty"
  by (simp add: view_def sampleSpace_def fun_eq_iff)

section \<open>Properties\<close>

text \<open>C17: However the methods of a database are called, and however time passes between the
  calls, no key occurs twice, no expiry time outlives its key, every stored object is well
  formed and every pointer in the table of watched keys is that of a live client.\<close>

theorem reachable_key_space_ok:
  assumes "db_reachable hf ks" "hasher pf = hf"
  shows "ks_ok pf ks"
  by (rule db_reachable_ok [OF assms])

theorem reachable_key_space_ok_witness:
  "ks_ok samplePlatform (dbCall samplePlatform (CallSet ''k'' ''v'') sampleSpace)"
proof (rule reachable_key_space_ok [OF db_reachable.call])
  show "db_reachable (hasher samplePlatform) sampleSpace" by (rule start) (simp_all add: sampleSpace_def)
qed simp_all

text \<open>C20: A key written with a time to live is read back until exactly that moment and is gone
  from then on; the read at the deadline already misses.\<close>

theorem expiring_key_visible_until_deadline:
  assumes "ks_ok pf ks" "hasher pf' = hasher pf" "in_i64 (system_ms pf + n)"
  shows "fst (db_get pf' k (snd (db_setExpiry pf k n (db_set pf k v ks)))) =
    (if system_ms pf' < system_ms pf + n then Some v else None)"
proof -
  let ?ks = "snd (db_setExpiry pf k n (db_set pf k v ks))"
  have ok: "ks_ok pf' ?ks" using assms(1) by (simp add: ks_ok_hasher [OF assms(2)] inv_intros)
  have "view ?ks k = Some (StringObject v, Some (system_ms pf + n))" using assms(3) by (simp add: db_simps)
  then have "visible pf' ?ks k =
      (if system_ms pf' < system_ms pf + n then Some (StringObject v, Some (system_ms pf + n)) else None)"
    by (auto simp: visible_def isExpired_def view_def split: option.splits)
  then show ?thesis by (simp add: get_fst [OF ok])
qed

theorem expiring_key_visible_until_deadline_witness:
  "fst (db_get (samplePlatform\<lparr>system_ms := 1049\<rparr>) ''k''
     (snd (db_setExpiry samplePlatform ''k'' 50 (db_set samplePlatform ''k'' ''v'' sampleSpace)))) = Some ''v''"
  using expiring_key_visible_until_deadline
    [OF sampleSpace_ok, of "samplePlatform\<lparr>system_ms := 1049\<rparr>" samplePlatform 50 "''k''" "''v''"]
  by (simp add: samplePlatform_def in_i64_def i64_min_def i64_max_def)

text \<open>C29: Keys are independent: writing one changes what \<open>GET\<close> returns for this key only, and
  a read changes nothing that a later read at the same time can see.\<close>

theorem get_after_set:
  assumes "ks_ok pf ks"
  shows "fst (db_get pf k' (db_set pf k v ks)) = (if k' = k then Some v else fst (db_get pf k' ks)) \<and>
    fst (db_get pf k (snd (db_get pf k' ks))) = fst (db_get pf k ks)"
proof -
  have vis: "visible pf (db_set pf k v ks) k' = (if k' = k then Some (StringObject v, None) else visible pf ks k')"
    by (auto simp: visible_def isExpired_def db_set_setObject db_simps)
  have "ks_ok pf (snd (db_get pf k' ks))" "visible pf (snd (db_get pf k' ks)) = visible pf ks"
    using assms by (simp_all add: inv_intros get_snd db_simps)
  with vis show ?thesis by (simp add: get_fst assms inv_intros)
qed

theorem get_after_set_witness:
  "fst (db_get samplePlatform ''k'' (db_set samplePlatform ''k'' ''v'' sampleSpace)) = Some ''v''"
  using get_after_set [OF sampleSpace_ok, of samplePlatform "''k''" "''k''" "''v''"] by simp

text \<open>C21: \<open>incrby\<close> computes the exact sum or refuses: on a key holding the decimal text of a
  64-bit integer the new value is stored and returned precisely when it fits in 64 bits, and
  otherwise nothing changes; a missing key counts as zero. The key loses its expiry time.\<close>

theorem incrby_exact:
  assumes "view ks k = Some (StringObject (int_to_dec c), t) \<or> c = 0 \<and> view ks k = None"
    and "in_i64 c" "in_i64 n"
  shows "if in_i64 (c + n)
    then fst (db_incrby pf k n ks) = Some (c + n) \<and>
      view (snd (db_incrby pf k n ks)) = (view ks)(k \<mapsto> (StringObject (int_to_dec (c + n)), None))
    else db_incrby pf k n ks = (None, ks)"
  using assms incrby_value [of ks k c t n pf] incrby_missing [of ks k n pf] by (auto simp: db_simps)

theorem incrby_exact_witness:
  "db_incrby samplePlatform ''n'' 1 (db_set samplePlatform ''n'' (int_to_dec i64_max) sampleSpace) =
     (None, db_set samplePlatform ''n'' (int_to_dec i64_max) sampleSpace)"
  using incrby_exact [of "db_set samplePlatform ''n'' (int_to_dec i64_max) sampleSpace" "''n''" i64_max None 1 samplePlatform]
  by (simp add: db_simps in_i64_def i64_min_def i64_max_def)

text \<open>\<open>append\<close> extends the string in place, keeping its expiry time, and returns the new
  length.\<close>

theorem append_extends:
  assumes "view ks k = Some (StringObject s, t)"
  shows "fst (db_append pf k v ks) = Some (length s + length v) \<and>
    view (snd (db_append pf k v ks)) = (view ks)(k \<mapsto> (StringObject (s @ v), t))"
  by (rule append_value [OF assms])

theorem append_extends_witness:
  "fst (db_append samplePlatform ''k'' ''cd'' (db_set samplePlatform ''k'' ''ab'' sampleSpace)) = Some 4"
  using append_extends [of "db_set samplePlatform ''k'' ''ab'' sampleSpace" "''k''" "''ab''" None samplePlatform "''cd''"]
  by (simp add: db_simps)

text \<open>C35: \<open>rename\<close> moves the value and leaves every other key alone, but the expiry time that
  it copies to the new name is erased again: a key that was to expire becomes permanent.\<close>

theorem rename_loses_expiry:
  assumes "ks_ok pf ks" "view ks old = Some (v, Some t)"
  shows "fst (db_rename pf old new ks) \<and>
    view (snd (db_rename pf old new ks)) = (view ks)(old := None, new \<mapsto> (v, None))"
  using assms by (simp add: db_simps)

theorem rename_loses_expiry_witness:
  "view (snd (db_rename samplePlatform ''a'' ''b''
     (snd (db_setExpiryAt ''a'' 5000 (db_set samplePlatform ''a'' ''v'' sampleSpace))))) ''b'' = Some (StringObject ''v'', None)"
  using rename_loses_expiry
    [of samplePlatform "snd (db_setExpiryAt ''a'' 5000 (db_set samplePlatform ''a'' ''v'' sampleSpace))" "''a''"
      "StringObject ''v''" 5000 "''b''"]
  by (simp add: db_simps inv_intros)

text \<open>C27: The active expiry cycle is invisible to readers: whatever the number of samples,
  \<open>GET\<close>, \<open>EXISTS\<close>, \<open>TYPE\<close>, \<open>KEYS\<close> and every read of a collection answer after the cycle
  as before it, and what the cycle removes are expired keys only. (Operations that do not look
  at the expiry time see a difference: \<open>DEL\<close>, \<open>DBSIZE\<close>, \<open>RENAME\<close>, \<open>PERSIST\<close>,
  \<open>INCRBY\<close> and \<open>APPEND\<close> still find an expired key that has not been collected.)\<close>

theorem expire_cycle_keeps_reads:
  assumes "ks_ok pf ks" and "ks' = snd (activeExpireCycle pf n ks)"
  shows "fst (db_get pf k ks') = fst (db_get pf k ks) \<and> fst (db_exists pf k ks') = fst (db_exists pf k ks) \<and>
    fst (db_type pf k ks') = fst (db_type pf k ks) \<and>
    map_option obj_value (fst (db_getObject pf k ks')) = map_option obj_value (fst (db_getObject pf k ks)) \<and>
    set (db_keys pf pat ks') = set (db_keys pf pat ks) \<and>
    (view ks' k = view ks k \<or> isExpired pf k ks \<and> view ks' k = None)"
proof -
  have ok: "ks_ok pf ks'" using assms by (simp add: inv_intros)
  have "\<forall>(k, t) \<in> set (expires ks). map_of (expires ks) k = Some t"
    using ks_okD(2) [OF assms(1)] by auto
  note loop = expireLoop_view [OF assms(1) ks_okD(2) [OF assms(1)] this, of n]
  have vis: "visible pf ks' = visible pf ks" using loop by (simp add: assms(2) activeExpireCycle_def fun_eq_iff)
  moreover have "view ks' k = view ks k \<or> isExpired pf k ks \<and> view ks' k = None"
    using loop [of k] by (simp add: assms(2) activeExpireCycle_def)
  ultimately show ?thesis
    unfolding get_fst [OF ok] get_fst [OF assms(1)] exists_fst [OF ok] exists_fst [OF assms(1)]
      type_fst [OF ok] type_fst [OF assms(1)] getObject_fst [OF ok] getObject_fst [OF assms(1)] set_db_keys by simp
qed

theorem expire_cycle_keeps_reads_witness:
  "set (db_keys samplePlatform ''*'' (snd (activeExpireCycle samplePlatform 20
     (snd (db_setExpiryAt ''a'' 5 (db_set samplePlatform ''a'' ''v'' sampleSpace)))))) = {}"
proof -
  let ?ks = "snd (db_setExpiryAt ''a'' 5 (db_set samplePlatform ''a'' ''v'' sampleSpace))"
  have "visible samplePlatform ?ks k = None" for k
    by (simp add: visible_def isExpired_def view_def db_setExpiryAt_def db_set_setObject sampleSpace_def)
  then have "set (db_keys samplePlatform ''*'' ?ks) = {}" by (simp add: set_db_keys)
  with expire_cycle_keeps_reads [of samplePlatform ?ks _ 20 undefined "''*''"] show ?thesis by (simp add: inv_intros)
qed

text \<open>C39: A key whose time has passed but that has not been collected can be brought back: no
  read finds it, yet \<open>DEL\<close> reports it, \<open>PERSIST\<close> and \<open>RENAME\<close> succeed and leave its old
  value for good, and \<open>APPEND\<close> and \<open>INCRBY\<close> go on from the old value.\<close>

theorem expired_key_comes_back:
  assumes "ks_ok pf ks" "view ks k = Some (v, Some t)" "t \<le> system_ms pf"
  shows "fst (db_get pf k ks) = None \<and> \<not> fst (db_exists pf k ks) \<and> fst (db_del pf k ks) \<and>
    fst (db_persist k ks) \<and> visible pf (snd (db_persist k ks)) k = Some (v, None) \<and>
    fst (db_rename pf k new ks) \<and> visible pf (snd (db_rename pf k new ks)) new = Some (v, None) \<and>
    (\<forall>s. v = StringObject s \<longrightarrow> fst (db_append pf k u ks) = Some (length s + length u)) \<and>
    (\<forall>c. v = StringObject (int_to_dec c) \<and> in_i64 c \<and> in_i64 (c + 1) \<longrightarrow> fst (db_incrby pf k 1 ks) = Some (c + 1))"
proof -
  have t: "map_of (expires ks) k = Some t" using assms(2) by (auto simp: view_def)
  then have gone: "visible pf ks k = None" using assms(3) by (simp add: visible_def isExpired_def)
  have one: "in_i64 1" by (simp add: in_i64_def i64_min_def i64_max_def)
  have "\<not> isExpired pf k (snd (db_persist k ks))" by (simp add: db_persist_def isExpired_def)
  moreover have "map_of (expires (snd (db_rename pf k new ks))) new = None"
  proof -
    have "view (snd (db_rename pf k new ks)) new = Some (v, None)" using assms by (simp add: db_simps)
    then show ?thesis by (auto simp: view_def)
  qed
  ultimately show ?thesis
    using assms t append_value [of ks k _ "Some t" pf u] incrby_value [of ks k _ "Some t" 1 pf] one
    by (auto simp: get_fst exists_fst gone view_del view_persist view_rename visible_def isExpired_def
        split: option.split)
qed

theorem expired_key_comes_back_witness:
  "visible samplePlatform (snd (db_rename samplePlatform ''a'' ''b''
     (snd (db_setExpiryAt ''a'' 5 (db_set samplePlatform ''a'' ''v'' sampleSpace))))) ''b'' = Some (StringObject ''v'', None)"
  using expired_key_comes_back
    [of samplePlatform "snd (db_setExpiryAt ''a'' 5 (db_set samplePlatform ''a'' ''v'' sampleSpace))" "''a''"
      "StringObject ''v''" 5 "''b''"]
  by (simp add: db_simps inv_intros)

text \<open>C28: \<open>KEYS\<close> returns each matching key once: when no key contains a star, these are exactly
  the keys that have not expired and match the pattern.\<close>

theorem keys_exact:
  assumes "ks_ok pf ks" "\<forall>k \<in> set (keys_of (data ks)). STAR \<notin> set k"
  shows "distinct (db_keys pf pat ks) \<and>
    set (db_keys pf pat ks) = {k. visible pf ks k \<noteq> None \<and> glob_spec pat k}"
proof
  show "distinct (db_keys pf pat ks)"
    using ks_okD(1) [OF assms(1)] by (simp add: db_keys_filter distinct_map_filter)
  have "(pat = ''*'' \<or> globMatch pat k) = glob_spec pat k" if "visible pf ks k \<noteq> None" for k
  proof -
    have "view ks k \<noteq> None" using that by (auto simp: visible_def simp del: view_None split: if_splits)
    then have "STAR \<notin> set k" using assms(2) set_keys_view [of k ks] by blast
    from globMatch_spec [OF this] glob_spec_star [of k] show ?thesis by blast
  qed
  then show "set (db_keys pf pat ks) = {k. visible pf ks k \<noteq> None \<and> glob_spec pat k}" unfolding set_db_keys by blast
qed

theorem keys_exact_witness:
  "set (db_keys samplePlatform ''k?'' (db_set samplePlatform ''k1'' ''v'' sampleSpace)) = {''k1''}"
proof -
  let ?ks = "db_set samplePlatform ''k1'' ''v'' sampleSpace"
  have d: "keys_of (data ?ks) = [''k1'']" "isExpired samplePlatform k ?ks = False" for k
    by (simp_all add: db_set_setObject sampleSpace_def isExpired_def)
  have "set (db_keys samplePlatform ''k?'' ?ks) = {k. visible samplePlatform ?ks k \<noteq> None \<and> glob_spec ''k?'' k}"
    using keys_exact [of samplePlatform ?ks "''k?''"] by (simp add: d inv_intros)
  then show ?thesis by (auto simp: visible_def d db_simps)
qed

text \<open>C37: A star at the start of a key defeats the wildcard at the start of a pattern: the
  literal comparison comes first, so the two stars cancel and the rest is matched without a
  wildcard. Hence the pattern \<open>*p\<close> finds no key that consists of a star, at least one further
  character and \<open>p\<close>, which it means.\<close>

theorem star_in_key_not_matched:
  assumes "STAR \<notin> set p" "STAR \<notin> set x" "x \<noteq> []"
  shows "globMatch (STAR # pat) (STAR # k) = globMatch pat k \<and>
    glob_spec (STAR # p) (STAR # x @ p) \<and> \<not> globMatch (STAR # p) (STAR # x @ p)"
proof (intro conjI)
  show "glob_spec (STAR # p) (STAR # x @ p)"
    using glob_spec_self [of p] by (auto intro!: exI [of _ "Suc (length x)"])
  have "\<not> glob_spec p (x @ p)" using glob_spec_length [OF assms(1), of "x @ p"] assms(3) by auto
  with assms(1,2) show "\<not> globMatch (STAR # p) (STAR # x @ p)" by (simp add: globMatch_star_star globMatch_spec)
qed (rule globMatch_star_star)

theorem star_in_key_not_matched_witness:
  "glob_spec ''*b'' ''*ab'' \<and> \<not> globMatch ''*b'' ''*ab''"
  using star_in_key_not_matched [of "''b''" "''a''" undefined undefined, THEN conjunct2] by (simp del: glob_spec.simps)

text \<open>C22: A client that watches a key is marked dirty by every \<open>set\<close>, every stored collection
  and every deletion of this key, and by no operation on another key.\<close>

theorem watchers_are_flagged:
  assumes "clients ks p = Some c"
  shows "map_option (hasFlag CLIENT_DIRTY_EXEC) (clients (db_setObject pf k ob ks) p) =
      Some (p \<in> watchers ks k \<or> hasFlag CLIENT_DIRTY_EXEC c) \<and>
    map_option (hasFlag CLIENT_DIRTY_EXEC) (clients (db_set pf k v ks) p) =
      Some (p \<in> watchers ks k \<or> hasFlag CLIENT_DIRTY_EXEC c) \<and>
    map_option (hasFlag CLIENT_DIRTY_EXEC) (clients (snd (db_del pf k ks)) p) =
      Some (p \<in> watchers ks k \<and> view ks k \<noteq> None \<or> hasFlag CLIENT_DIRTY_EXEC c)"
  using assms
  by (auto simp: setObject_clients db_set_setObject dropObject_clients db_del_def Let_def watchers_def
      hasFlag_setFlag view_def split: option.split)

theorem watchers_are_flagged_witness:
  "map_option (hasFlag CLIENT_DIRTY_EXEC)
     (clients (db_set samplePlatform ''k'' ''v'' (addWatchedKey ''k'' 7 sampleSpace)) 7) = Some True"
  using watchers_are_flagged [of "addWatchedKey ''k'' 7 sampleSpace" 7 "newClient 3 1 0" samplePlatform "''k''" undefined "''v''"]
  by (simp add: addWatchedKey_def sampleSpace_def watchers_def)

text \<open>C24: The memory account balances: storing a new object and deleting it again restores the
  used memory exactly, as long as the account does not overflow 64 bits; and the account
  never wraps below zero, whatever is freed.\<close>

theorem memory_account_balances:
  assumes "ks_ok pf ks" "map_of (data ks) k = None"
    and "unat (usedMemory (mem ks)) + estimateStringSize pf k + estimateObjectSize pf ob < 2 ^ 64"
  shows "mem (snd (db_del pf k (db_setObject pf k ob ks))) = mem ks \<and>
    usedMemory (freeMemory n (mem ks)) \<le> usedMemory (mem ks)"
proof -
  let ?m = "addMemory (estimateStringSize pf k) (mem ks)" and ?o = "estimateObjectSize pf ob"
  have "unat (usedMemory ?m) = unat (usedMemory (mem ks)) + estimateStringSize pf k"
    using assms(3) by (simp add: addMemory_def unat_add_lem [THEN iffD1] unat_of_nat take_bit_nat_eq_self)
  then have *: "freeMemory ?o (addMemory ?o ?m) = ?m"
    using assms(3) by (intro freeMemory_addMemory) simp
  have "mem (snd (db_del pf k (db_setObject pf k ob ks))) =
      freeMemory (estimateStringSize pf k) (freeMemory ?o (addMemory ?o ?m))"
    by (simp add: db_del_def Let_def dropObject_mem setObject_new_mem [OF assms(2)])
      (simp add: estimateObjectSize_def stamp_def)
  then show ?thesis
    using freeMemory_addMemory [of "mem ks" "estimateStringSize pf k"] assms(3) freeMemory_bound
    by (simp add: *)
qed

theorem memory_account_balances_witness:
  "mem (snd (db_del samplePlatform ''k'' (db_setObject samplePlatform ''k'' (newObject (StringObject ''v'')) sampleSpace))) =
     mem sampleSpace"
  using memory_account_balances [OF sampleSpace_ok, of "''k''" samplePlatform "newObject (StringObject ''v'')"]
  by (simp add: sampleSpace_def samplePlatform_def estimateObjectSize_def estimateStringSize_def)

text \<open>C26: The copy for a background save is a faithful snapshot: the same keys in the same
  order, the same expiry times, and values that no reader can tell from the originals, sorted
  sets with their order included as long as their scores are numbers. Copying never fails.\<close>

theorem clone_is_snapshot:
  assumes "ks_ok pf ks" "\<forall>(k, ob) \<in> set (data ks). agreeing (obj_value ob)"
  shows "\<exists>copy. db_clone pf (database.truncate ks) = Some copy \<and> expires copy = expires ks \<and>
    list_all2 (\<lambda>p q. fst q = fst p \<and> same_contents (obj_value (snd p)) (obj_value (snd q))) (data ks) (data copy)"
proof -
  have "\<forall>(k, ob) \<in> set (data ks). contents_ok (hasher pf) (obj_value ob) \<and> agreeing (obj_value ob)"
    using assms ks_okD(1,5) [OF assms(1)] by auto
  from cloneData_same [OF this, of pf 0] show ?thesis
    by (auto simp: db_clone_def database.truncate_def)
qed

theorem clone_is_snapshot_witness:
  "\<exists>copy. db_clone samplePlatform (database.truncate (db_set samplePlatform ''k'' ''v'' sampleSpace)) = Some copy \<and>
     expires copy = []"
  using clone_is_snapshot [OF set_ok [OF sampleSpace_ok], of samplePlatform "''k''" "''v''"]
  by (auto simp: db_set_setObject sampleSpace_def)

end
