(* ===== verification/EventLoop.thy ===== *)
theory EventLoop
  imports Prelude
begin

text \<open>
  The tables of the event loop, \<^verbatim>\<open>networking/platform/event_loop_select.cpp\<close>: file
  events by descriptor, time events, and the operations that register and remove them. The
  functions registered as callbacks are those of the accepting socket, of a connection and
  of a connection to the master; the only time event of the program is
  \<^verbatim>\<open>serverCron\<close>. The loop itself, which runs the callbacks, is in \<open>Loop\<close>.
\<close>

datatype callback = OnAccept | OnReadable | OnWritable | OnBoth

unbundle bit_operations_syntax

definition EVENT_NONE :: "32 word" where "EVENT_NONE = 0"
definition EVENT_READABLE :: "32 word" where "EVENT_READABLE = 1"
definition EVENT_WRITABLE :: "32 word" where "EVENT_WRITABLE = 2"

lemmas event_masks = EVENT_NONE_def EVENT_READABLE_def EVENT_WRITABLE_def

record file_event =
  ev_mask :: "32 word"
  readCallback :: "callback option"
  writeCallback :: "callback option"

record time_event =
  te_id :: int
  fireTime :: int

record event_loop =
  fileEvents :: "(int \<times> file_event) list"
  highestFd :: int
  timeEvents :: "time_event list"
  nextTimeEventId :: int
  running :: bool

definition newEventLoop :: event_loop where
  "newEventLoop = \<lparr>fileEvents = [], highestFd = -1, timeEvents = [], nextTimeEventId = 1, running = False\<rparr>"

text \<open>\<^verbatim>\<open>fileEvents_[fd]\<close> creates an empty event for a new descriptor.\<close>

definition eventOf :: "int \<Rightarrow> event_loop \<Rightarrow> file_event" where
  "eventOf fd el = (case map_of (fileEvents el) fd of
      Some fe \<Rightarrow> fe | None \<Rightarrow> \<lparr>ev_mask = EVENT_NONE, readCallback = None, writeCallback = None\<rparr>)"

definition withCallback :: "32 word \<Rightarrow> callback \<Rightarrow> file_event \<Rightarrow> file_event" where
  "withCallback msk cb fe =
     (let fe1 = (if msk AND EVENT_READABLE \<noteq> 0 then fe\<lparr>readCallback := Some cb\<rparr> else fe);
          fe2 = (if msk AND EVENT_WRITABLE \<noteq> 0 then fe1\<lparr>writeCallback := Some cb\<rparr> else fe1)
      in fe2\<lparr>ev_mask := ev_mask fe2 OR msk\<rparr>)"

definition addFileEvent :: "int \<Rightarrow> 32 word \<Rightarrow> callback \<Rightarrow> event_loop \<Rightarrow> event_loop" where
  "addFileEvent fd msk cb el =
     el\<lparr>fileEvents := AList.update fd (withCallback msk cb (eventOf fd el)) (fileEvents el),
        highestFd := (if fd > highestFd el then fd else highestFd el)\<rparr>"

text \<open>The largest descriptor registered, recomputed when it is removed.\<close>

definition maxFd :: "(int \<times> file_event) list \<Rightarrow> int" where
  "maxFd evs = foldl (\<lambda>h (k, _). if k > h then k else h) (-1) evs"

definition withoutCallback :: "32 word \<Rightarrow> file_event \<Rightarrow> file_event" where
  "withoutCallback msk fe =
     (let fe1 = fe\<lparr>ev_mask := ev_mask fe AND NOT msk\<rparr>;
          fe2 = (if msk AND EVENT_READABLE \<noteq> 0 then fe1\<lparr>readCallback := None\<rparr> else fe1)
      in if msk AND EVENT_WRITABLE \<noteq> 0 then fe2\<lparr>writeCallback := None\<rparr> else fe2)"

definition removeFileEvent :: "int \<Rightarrow> 32 word \<Rightarrow> event_loop \<Rightarrow> event_loop" where
  "removeFileEvent fd msk el = (case map_of (fileEvents el) fd of
      None \<Rightarrow> el
    | Some fe \<Rightarrow>
        (let fe' = withoutCallback msk fe
         in if ev_mask fe' = EVENT_NONE then
              (let rest = AList.delete fd (fileEvents el)
               in el\<lparr>fileEvents := rest, highestFd := (if fd = highestFd el then maxFd rest else highestFd el)\<rparr>)
            else el\<lparr>fileEvents := AList.update fd fe' (fileEvents el)\<rparr>))"

definition addTimeEvent :: "int \<Rightarrow> int \<Rightarrow> event_loop \<Rightarrow> int \<times> event_loop" where
  "addTimeEvent now milliseconds el =
     (nextTimeEventId el,
      el\<lparr>timeEvents := timeEvents el @ [\<lparr>te_id = nextTimeEventId el, fireTime = now + milliseconds\<rparr>],
         nextTimeEventId := nextTimeEventId el + 1\<rparr>)"

definition removeTimeEvent :: "int \<Rightarrow> event_loop \<Rightarrow> event_loop" where
  "removeTimeEvent i el = el\<lparr>timeEvents := filter (\<lambda>te. te_id te \<noteq> i) (timeEvents el)\<rparr>"

text \<open>
  \<^verbatim>\<open>calculateTimeout\<close>, in microseconds; times of the model are milliseconds. Among
  equal times \<^verbatim>\<open>std::min_element\<close> takes the first, which has the same time.
\<close>

definition calculateTimeout :: "int \<Rightarrow> event_loop \<Rightarrow> int" where
  "calculateTimeout now el = (case timeEvents el of
      [] \<Rightarrow> 100000
    | te # tes \<Rightarrow>
        (let nearest = foldl (\<lambda>m t. if fireTime t < m then fireTime t else m) (fireTime te) tes;
             diff = (nearest - now) * 1000
         in if diff \<le> 0 then 0 else diff))"

section \<open>The tables are consistent\<close>

text \<open>
  A registered event waits for something and has a callback for exactly what it waits for;
  \<^verbatim>\<open>highestFd_\<close> is the largest registered descriptor; time events have distinct
  numbers.
\<close>

definition event_ok :: "file_event \<Rightarrow> bool" where
  "event_ok fe \<longleftrightarrow> ev_mask fe \<noteq> 0 \<and>
     (ev_mask fe AND EVENT_READABLE \<noteq> 0) = (readCallback fe \<noteq> None) \<and>
     (ev_mask fe AND EVENT_WRITABLE \<noteq> 0) = (writeCallback fe \<noteq> None)"

definition table_ok :: "(int \<times> file_event) list \<Rightarrow> bool" where
  "table_ok evs \<longleftrightarrow> distinct (keys_of evs) \<and> (\<forall>fd fe. map_of evs fd = Some fe \<longrightarrow> event_ok fe)"

definition highest_ok :: "int \<Rightarrow> (int \<times> file_event) list \<Rightarrow> bool" where
  "highest_ok h evs \<longleftrightarrow> (h = -1 \<or> h \<in> set (keys_of evs)) \<and> (\<forall>k \<in> set (keys_of evs). k \<le> h)"

definition times_ok :: "event_loop \<Rightarrow> bool" where
  "times_ok el \<longleftrightarrow> distinct (map te_id (timeEvents el)) \<and> (\<forall>te \<in> set (timeEvents el). te_id te < nextTimeEventId el)"

definition loop_ok :: "event_loop \<Rightarrow> bool" where
  "loop_ok el \<longleftrightarrow> table_ok (fileEvents el) \<and> highest_ok (highestFd el) (fileEvents el) \<and> times_ok el"

lemma new_loop_ok: "loop_ok newEventLoop"
  by (simp add: loop_ok_def newEventLoop_def table_ok_def highest_ok_def times_ok_def)

lemma and_bit_iff:
  "(a :: 32 word) AND EVENT_READABLE \<noteq> 0 \<longleftrightarrow> bit a 0" "a AND EVENT_WRITABLE \<noteq> 0 \<longleftrightarrow> bit a 1"
proof -
  have "flag \<noteq> 0 \<longleftrightarrow> (\<exists>n. bit flag n)" for flag :: "32 word" by (metis bit_eqI bit_0_eq bot_apply bot_bool_def)
  moreover have "bit EVENT_READABLE n \<longleftrightarrow> n = 0" "bit EVENT_WRITABLE n \<longleftrightarrow> n = 1" for n
    by (auto simp: event_masks bit_1_iff bit_2_iff)
  ultimately show "a AND EVENT_READABLE \<noteq> 0 \<longleftrightarrow> bit a 0" "a AND EVENT_WRITABLE \<noteq> 0 \<longleftrightarrow> bit a 1"
    by (simp_all add: bit_simps)
qed

lemma table_update: "table_ok evs \<Longrightarrow> event_ok fe \<Longrightarrow> table_ok (AList.update fd fe evs)"
  by (simp add: table_ok_def distinct_keys_update)

lemma table_delete: "table_ok evs \<Longrightarrow> table_ok (AList.delete fd evs)"
  by (simp add: table_ok_def distinct_keys_delete)

lemma highest_add: "highest_ok h evs \<Longrightarrow> 0 \<le> fd \<Longrightarrow> highest_ok (if fd > h then fd else h) (AList.update fd fe evs)"
  by (force simp: highest_ok_def keys_update simp del: set_map)

text \<open>An event whose callbacks match its mask; the empty event is one too.\<close>

definition matched :: "file_event \<Rightarrow> bool" where
  "matched fe \<longleftrightarrow> bit (ev_mask fe) 0 = (readCallback fe \<noteq> None) \<and> bit (ev_mask fe) 1 = (writeCallback fe \<noteq> None)"

lemma event_ok_matched: "event_ok fe \<longleftrightarrow> ev_mask fe \<noteq> 0 \<and> matched fe"
  by (simp only: event_ok_def matched_def and_bit_iff)

lemma withCallback_ok: "matched fe \<Longrightarrow> msk \<noteq> 0 \<Longrightarrow> event_ok (withCallback msk cb fe)"
  unfolding event_ok_matched
  by (simp add: matched_def withCallback_def Let_def and_bit_iff bit_simps or_eq_0_iff)

lemma withoutCallback_matched: "matched fe \<Longrightarrow> matched (withoutCallback msk fe)"
  by (simp add: matched_def withoutCallback_def Let_def and_bit_iff bit_simps)

lemma eventOf_matched: "loop_ok el \<Longrightarrow> matched (eventOf fd el)"
  by (auto simp: loop_ok_def table_ok_def event_ok_matched eventOf_def EVENT_NONE_def matched_def [of "\<lparr>ev_mask = 0, readCallback = None, writeCallback = None\<rparr>"]
      split: option.split)

lemma addFileEvent_ok:
  assumes "loop_ok el" "msk \<noteq> 0" "0 \<le> fd"
  shows "loop_ok (addFileEvent fd msk cb el)"
  using assms highest_add [of "highestFd el" "fileEvents el" fd]
    table_update [OF _ withCallback_ok [OF eventOf_matched [OF assms(1)] assms(2)]]
  by (simp add: loop_ok_def addFileEvent_def times_ok_def)

lemma maxFd_highest: "highest_ok (maxFd evs) evs"
proof -
  let ?step = "\<lambda>h (k :: int, _ :: file_event). if k > h then k else h"
  have le: "a \<le> foldl ?step a evs" for a evs
  proof (induction evs arbitrary: a)
    case (Cons p evs)
    obtain k fe where p: "p = (k, fe)" by (cases p)
    from Cons.IH [of "if k > a then k else a"] p show ?case by (simp split: if_splits)
  qed simp
  have "(foldl ?step a evs = a \<or> foldl ?step a evs \<in> set (keys_of evs)) \<and> (\<forall>k \<in> set (keys_of evs). k \<le> foldl ?step a evs)"
    for a evs
  proof (induction evs arbitrary: a)
    case (Cons p evs)
    obtain k fe where p: "p = (k, fe)" by (cases p)
    from Cons.IH [of "if k > a then k else a"] le [of "if k > a then k else a" evs] p show ?case
      by (auto split: if_splits)
  qed simp
  then show ?thesis by (simp add: highest_ok_def maxFd_def)
qed

lemma removeFileEvent_ok:
  assumes "loop_ok el"
  shows "loop_ok (removeFileEvent fd msk el)"
proof (cases "map_of (fileEvents el) fd")
  case None
  with assms show ?thesis by (simp add: removeFileEvent_def)
next
  case (Some fe)
  have ok: "table_ok (fileEvents el)" "highest_ok (highestFd el) (fileEvents el)" "times_ok el"
    using assms by (simp_all add: loop_ok_def)
  have fe: "matched (withoutCallback msk fe)"
    using ok(1) Some by (auto simp: table_ok_def event_ok_matched withoutCallback_matched)
  let ?rest = "AList.delete fd (fileEvents el)"
  show ?thesis
  proof (cases "ev_mask (withoutCallback msk fe) = EVENT_NONE")
    case True
    have "fd \<noteq> highestFd el \<Longrightarrow> highest_ok (highestFd el) ?rest"
      using ok(2) by (auto simp: highest_ok_def keys_delete simp del: set_map)
    with True Some ok maxFd_highest [of ?rest] show ?thesis
      by (cases "fd = highestFd el") (simp_all add: removeFileEvent_def Let_def loop_ok_def times_ok_def table_delete)
  next
    case False
    have "fd \<in> set (keys_of (fileEvents el))" using Some by (metis map_of_None_iff option.distinct(1))
    then have "set (keys_of (AList.update fd fe' (fileEvents el))) = set (keys_of (fileEvents el))" for fe'
      by (auto simp: keys_update simp del: set_map)
    then have high: "highest_ok (highestFd el) (AList.update fd fe' (fileEvents el))" for fe'
      using ok(2) by (simp add: highest_ok_def del: set_map)
    have "event_ok (withoutCallback msk fe)" using fe False by (simp add: event_ok_matched EVENT_NONE_def)
    with False Some ok high table_update show ?thesis
      by (simp add: removeFileEvent_def Let_def loop_ok_def times_ok_def)
  qed
qed

lemma addTimeEvent_ok: "loop_ok el \<Longrightarrow> loop_ok (snd (addTimeEvent now ms el))"
  by (fastforce simp: loop_ok_def times_ok_def addTimeEvent_def)

lemma removeTimeEvent_ok: "loop_ok el \<Longrightarrow> loop_ok (removeTimeEvent i el)"
  by (simp add: loop_ok_def times_ok_def removeTimeEvent_def distinct_map_filter)

end
