(* ===== verification/World.thy ===== *)
theory World
  imports Database EventLoop
begin

text \<open>
  The state of the server (\<^verbatim>\<open>server/server.h\<close> with the objects it owns) and the
  way its code runs on it. A method or command handler is an action: a function from the
  world to a result and the world it leaves behind; an exception keeps what was written
  before it was raised, as in C++. \<^const>\<open>Undefined\<close> stands for undefined behaviour and
  is never caught. Clients are known by their address, a natural number; \<open>w_clients\<close> is the
  memory they live in, \<open>connections\<close> the connection manager's map from descriptors. Files
  are as on POSIX: \<open>dir\<close> maps a name to an inode and \<open>inodes\<close> an inode to its bytes; an open
  stream keeps its inode whatever becomes of the name. The work of a background thread is
  kept in \<open>bgsaveJob\<close> and \<open>bgrewriteJob\<close> until the thread runs. \<open>connUp\<close> says that
  the event loop and the connection manager exist.
\<close>

record config =
  bindAddress :: string
  cfg_port :: int
  maxClients :: int
  tcpKeepAlive :: int
  clientTimeout :: int
  cfg_databases :: int
  maxMemory :: int
  maxMemoryPolicy :: string
  maxMemorySamples :: int
  appendOnly :: bool
  appendFsync :: string
  rdbFilename :: string
  aofFilename :: string
  replicaOf :: string
  replicaOfPort :: int
  logLevel :: string

text \<open>The defaults of \<^verbatim>\<open>server/config.h\<close>.\<close>

definition defaultConfig :: config where
  "defaultConfig = \<lparr>bindAddress = ''0.0.0.0'', cfg_port = 6379, maxClients = 10000, tcpKeepAlive = 300,
     clientTimeout = 0, cfg_databases = 16, maxMemory = 0, maxMemoryPolicy = ''noeviction'',
     maxMemorySamples = 5, appendOnly = False, appendFsync = ''everysec'', rdbFilename = ''dump.rdb'',
     aofFilename = ''appendonly.aof'', replicaOf = '''', replicaOfPort = 0, logLevel = ''notice''\<rparr>"

datatype repl_state = ReplNone | ReplConnect | ReplConnecting | ReplReceivePong | ReplSendPsync
  | ReplReceivePsync | ReplReceiveRdb | ReplConnected

record world =
  databases :: "database list"
  w_mem :: memory_manager
  w_clients :: "nat \<Rightarrow> client option"
  connections :: "(int \<times> nat) list"
  totalConnectionsReceived :: nat
  nextId :: nat
  w_config :: config
  blockedClients :: "(string \<times> nat list) list"
  pubsubChannels :: "(string \<times> nat list) list"
  pubsubPatterns :: "(string \<times> nat) list"
  replicas :: "nat list"
  replId :: string
  masterReplOffset :: int
  replBacklog :: string
  replBacklogSize :: nat
  replBacklogOff :: int
  replBacklogHistLen :: int
  replBacklogIdx :: nat
  masterHost :: string
  masterPort :: int
  masterClient :: "nat option"
  replState :: repl_state
  totalCommandsProcessed :: nat
  aofBuffer :: string
  aofStream :: "nat option"
  lastAofFsyncTime :: int
  bgsaveInProgress :: bool
  bgrewriteaofInProgress :: bool
  lastSaveTime :: int
  bgsaveJob :: "(database list \<times> string) option"
  bgrewriteJob :: "(database list \<times> string) option"
  dir :: "string \<Rightarrow> nat option"
  inodes :: "nat \<Rightarrow> string"
  freshInode :: nat
  connUp :: bool
  eventLoop :: event_loop
  listenFd :: "int option"

text \<open>The constructor of \<^verbatim>\<open>Server\<close>: no databases yet; the files are those on disk.\<close>

definition newServer ::
  "config \<Rightarrow> (string \<Rightarrow> nat option) \<Rightarrow> (nat \<Rightarrow> string) \<Rightarrow> nat \<Rightarrow> world" where
  "newServer cfg names contents unused = \<lparr>databases = [], w_mem = \<lparr>usedMemory = 0, lruNow = 0\<rparr>,
     w_clients = (\<lambda>_. None), connections = [], totalConnectionsReceived = 0, nextId = 1, w_config = cfg,
     blockedClients = [], pubsubChannels = [], pubsubPatterns = [], replicas = [], replId = '''',
     masterReplOffset = 0, replBacklog = '''', replBacklogSize = 1024 * 1024, replBacklogOff = 0,
     replBacklogHistLen = 0, replBacklogIdx = 0, masterHost = '''', masterPort = 0, masterClient = None,
     replState = ReplNone, totalCommandsProcessed = 0, aofBuffer = '''', aofStream = None,
     lastAofFsyncTime = 0, bgsaveInProgress = False, bgrewriteaofInProgress = False, lastSaveTime = 0,
     bgsaveJob = None, bgrewriteJob = None, dir = names, inodes = contents, freshInode = unused,
     connUp = False, eventLoop = newEventLoop, listenFd = None\<rparr>"

section \<open>Actions\<close>

type_synonym 'a act = "world \<Rightarrow> 'a result \<times> world"

definition ret :: "'a \<Rightarrow> 'a act" where
  "ret x w = (Inr x, w)"

definition raise :: "exn \<Rightarrow> 'a act" where
  "raise e w = (Inl e, w)"

definition bnd :: "'a act \<Rightarrow> ('a \<Rightarrow> 'b act) \<Rightarrow> 'b act" where
  "bnd m f w = (case m w of (Inl e, w') \<Rightarrow> (Inl e, w') | (Inr x, w') \<Rightarrow> f x w')"

abbreviation seq :: "'a act \<Rightarrow> 'b act \<Rightarrow> 'b act" where
  "seq m k \<equiv> bnd m (\<lambda>_. k)"

definition gets :: "(world \<Rightarrow> 'a) \<Rightarrow> 'a act" where
  "gets f w = (Inr (f w), w)"

definition modify :: "(world \<Rightarrow> world) \<Rightarrow> unit act" where
  "modify f w = (Inr (), f w)"

definition lift :: "'a result \<Rightarrow> 'a act" where
  "lift r w = (r, w)"

text \<open>A computation on an explicit store that may fail with undefined behaviour.\<close>

definition defined :: "'a option \<Rightarrow> 'a act" where
  "defined r = (case r of None \<Rightarrow> raise Undefined | Some x \<Rightarrow> ret x)"

text \<open>\<^verbatim>\<open>try { m } catch (...) { h }\<close>.\<close>

definition try_catch :: "'a act \<Rightarrow> (exn \<Rightarrow> 'a act) \<Rightarrow> 'a act" where
  "try_catch m h w = (case m w of
      (Inl e, w') \<Rightarrow> if e = Undefined then (Inl e, w') else h e w'
    | (Inr x, w') \<Rightarrow> (Inr x, w'))"

primrec forEach :: "'x list \<Rightarrow> ('x \<Rightarrow> unit act) \<Rightarrow> unit act" where
  "forEach [] f = ret ()"
| "forEach (x # xs) f = seq (f x) (forEach xs f)"

text \<open>A loop that counts the iterations whose body returns true.\<close>

primrec countEach :: "'x list \<Rightarrow> ('x \<Rightarrow> bool act) \<Rightarrow> nat \<Rightarrow> nat act" where
  "countEach [] f n = ret n"
| "countEach (x # xs) f n = bnd (f x) (\<lambda>hit. countEach xs f (if hit then n + 1 else n))"

lemma bnd_ret [simp]: "bnd (ret x) f = f x"
  by (simp add: bnd_def ret_def fun_eq_iff)

lemma ret_bnd [simp]: "bnd m ret = m"
  by (simp add: bnd_def ret_def fun_eq_iff split: prod.splits sum.splits)

lemma bnd_assoc: "bnd (bnd m f) g = bnd m (\<lambda>x. bnd (f x) g)"
  by (simp add: bnd_def fun_eq_iff split: prod.splits sum.splits)

lemma bnd_raise [simp]: "bnd (raise e) f = raise e"
  by (simp add: bnd_def raise_def fun_eq_iff)

lemma bnd_gets: "bnd (gets f) k w = k (f w) w"
  by (simp add: bnd_def gets_def)

lemma bnd_modify: "bnd (modify f) k w = k () (f w)"
  by (simp add: bnd_def modify_def)

lemma bnd_lift: "bnd (lift r) k = (case r of Inl e \<Rightarrow> raise e | Inr x \<Rightarrow> k x)"
  by (simp add: bnd_def lift_def raise_def fun_eq_iff split: sum.splits)

lemma defined_Some [simp]: "defined (Some x) = ret x"
  by (simp add: defined_def)

lemma try_ret [simp]: "try_catch (ret x) h = ret x"
  by (simp add: try_catch_def ret_def fun_eq_iff)

lemma try_raise: "e \<noteq> Undefined \<Longrightarrow> try_catch (raise e) h = h e"
  by (simp add: try_catch_def raise_def fun_eq_iff)

lemma act_apply:
  "ret x w = (Inr x, w)" "raise e w = (Inl e, w)" "gets f w = (Inr (f w), w)"
  "modify g w = (Inr (), g w)" "lift r w = (r, w)"
  by (simp_all add: ret_def raise_def gets_def modify_def lift_def)

section \<open>Databases\<close>

definition dbIndex :: "int \<Rightarrow> world \<Rightarrow> nat" where
  "dbIndex index w =
     (if index < 0 \<or> index \<ge> int (length (databases w)) then 0 else nat index)"

definition openDb :: "nat \<Rightarrow> world \<Rightarrow> keyspace" where
  "openDb i w = (let db = databases w ! i in
     \<lparr>data = data db, expires = expires db, watchedKeys = watchedKeys db, hits = hits db,
      misses = misses db, dirty = dirty db, mem = w_mem w, clients = w_clients w\<rparr>)"

definition closeDb :: "nat \<Rightarrow> keyspace \<Rightarrow> world \<Rightarrow> world" where
  "closeDb i ks w = w\<lparr>
     databases := (databases w)[i := \<lparr>data = data ks, expires = expires ks,
       watchedKeys = watchedKeys ks, hits = hits ks, misses = misses ks, dirty = dirty ks\<rparr>],
     w_mem := mem ks, w_clients := clients ks\<rparr>"

lemma openDb_sel:
  "data (openDb i w) = data (databases w ! i)" "expires (openDb i w) = expires (databases w ! i)"
  "watchedKeys (openDb i w) = watchedKeys (databases w ! i)" "clients (openDb i w) = w_clients w"
  "mem (openDb i w) = w_mem w"
  by (simp_all add: openDb_def Let_def)

lemma openDb_closeDb: "i < length (databases w) \<Longrightarrow> openDb i (closeDb i ks w) = ks"
  by (simp add: openDb_def closeDb_def)

lemma closeDb_openDb: "i < length (databases w) \<Longrightarrow> closeDb i (openDb i w) w = w"
  by (cases "databases w ! i") (simp add: closeDb_def openDb_def Let_def list_update_same_conv)

lemma dbIndex_closeDb [simp]: "dbIndex db (closeDb i ks w) = dbIndex db w"
  by (simp add: dbIndex_def closeDb_def)

lemma closeDb_length [simp]: "length (databases (closeDb i ks w)) = length (databases w)"
  by (simp add: closeDb_def)

text \<open>A method of \<^verbatim>\<open>server.getDatabase(index)\<close>; without databases the reference is undefined.\<close>

definition onDb :: "int \<Rightarrow> (keyspace \<Rightarrow> 'a \<times> keyspace) \<Rightarrow> 'a act" where
  "onDb index f w =
     (if databases w = [] then (Inl Undefined, w)
      else let i = dbIndex index w; (r, ks) = f (openDb i w) in (Inr r, closeDb i ks w))"

definition runDb :: "int \<Rightarrow> (keyspace \<Rightarrow> keyspace) \<Rightarrow> unit act" where
  "runDb index f = onDb index (\<lambda>ks. ((), f ks))"

text \<open>
  Work on the object a reference obtained from the key space points to: \<open>f\<close> reads the value
  and returns what is written back. The reference is dangling once the key is gone.
\<close>

definition onObject :: "int \<Rightarrow> string \<Rightarrow> (contents \<Rightarrow> ('a \<times> contents) option) \<Rightarrow> 'a act" where
  "onObject index key f =
     bnd (onDb index (\<lambda>ks. (map_of (data ks) key, ks))) (\<lambda>ob.
     bnd (defined ob) (\<lambda>ob.
     bnd (defined (f (obj_value ob))) (\<lambda>(r, v).
     seq (runDb index (writeObject key v))
     (ret r))))"

section \<open>Clients\<close>

definition theClient :: "nat \<Rightarrow> client act" where
  "theClient p = bnd (gets (\<lambda>w. w_clients w p)) defined"

definition setClient :: "nat \<Rightarrow> (client \<Rightarrow> client) \<Rightarrow> unit act" where
  "setClient p f = bnd (theClient p) (\<lambda>c. modify (\<lambda>w. w\<lparr>w_clients := (w_clients w)(p \<mapsto> f c)\<rparr>))"

definition reply :: "nat \<Rightarrow> string \<Rightarrow> unit act" where
  "reply p s = setClient p (addReply s)"

definition selected :: "nat \<Rightarrow> int act" where
  "selected p = bnd (theClient p) (\<lambda>c. ret (selectedDb c))"

text \<open>\<^verbatim>\<open>args[i].asString()\<close>.\<close>

definition argStr :: "RespValue list \<Rightarrow> nat \<Rightarrow> string act" where
  "argStr args i = (if i < length args then lift (asString (args ! i)) else raise Undefined)"

definition upper :: "string \<Rightarrow> string" where
  "upper s = map to_upper s"

definition onLoop :: "(event_loop \<Rightarrow> event_loop) \<Rightarrow> unit act" where
  "onLoop f = modify (\<lambda>w. w\<lparr>eventLoop := f (eventLoop w)\<rparr>)"

text \<open>\<^verbatim>\<open>if (connManager_) connManager_->installWriteHandler(client->fd());\<close>\<close>

definition installWriteHandler :: "nat \<Rightarrow> unit act" where
  "installWriteHandler p = bnd (theClient p) (\<lambda>c.
     bnd (gets connUp) (\<lambda>up.
     if up then onLoop (addFileEvent (client_fd c) EVENT_WRITABLE OnWritable) else ret ()))"

end
