(* ===== verification/Eviction.thy ===== *)
theory Eviction
  imports World
begin

text \<open>
  \<^verbatim>\<open>Server::evictKeysIfNeeded\<close>: the choice of a key by policy, one round over the
  databases, and the loop, which is bounded by the number of keys (every round that goes
  on removes one). Random draws of successive samples are taken from one sequence.
\<close>

fun isPrefixOf :: "string \<Rightarrow> string \<Rightarrow> bool" where
  "isPrefixOf [] s = True"
| "isPrefixOf (c # p) [] = False"
| "isPrefixOf (c # p) (d # s) = (c = d \<and> isPrefixOf p s)"

fun contains :: "string \<Rightarrow> string \<Rightarrow> bool" where
  "contains sub [] = (sub = [])"
| "contains sub (c # s) = (isPrefixOf sub (c # s) \<or> contains sub s)"

section \<open>Choosing a victim\<close>

fun pickTtl :: "platform \<Rightarrow> keyspace \<Rightarrow> string list \<Rightarrow> int \<Rightarrow> string \<Rightarrow> string" where
  "pickTtl pf ks [] minTtl best = best"
| "pickTtl pf ks (k # sample) minTtl best =
     (let ttl = db_pttl pf k ks
      in if ttl \<ge> 0 \<and> ttl < minTtl then pickTtl pf ks sample ttl k
         else pickTtl pf ks sample minTtl best)"

unbundle bit_operations_syntax

fun pickLfu ::
  "platform \<Rightarrow> string list \<Rightarrow> 32 word \<Rightarrow> string \<Rightarrow> keyspace \<Rightarrow> string \<times> keyspace" where
  "pickLfu pf [] minCounter best ks = (best, ks)"
| "pickLfu pf (k # sample) minCounter best ks = (case db_getObject pf k ks of
      (None, ks') \<Rightarrow> pickLfu pf sample minCounter best ks'
    | (Some ob, ks') \<Rightarrow>
        (let counter = lruClock ob AND 0xFF
         in if counter < minCounter then pickLfu pf sample counter k ks'
            else pickLfu pf sample minCounter best ks'))"

fun pickLru ::
  "platform \<Rightarrow> 32 word \<Rightarrow> string list \<Rightarrow> 32 word \<Rightarrow> string \<Rightarrow> keyspace \<Rightarrow> string \<times> keyspace" where
  "pickLru pf clock [] maxIdle best ks = (best, ks)"
| "pickLru pf clock (k # sample) maxIdle best ks = (case db_getObject pf k ks of
      (None, ks') \<Rightarrow> pickLru pf clock sample maxIdle best ks'
    | (Some ob, ks') \<Rightarrow>
        (let idle = clock - lruClock ob
         in if idle \<ge> maxIdle then pickLru pf clock sample idle k ks'
            else pickLru pf clock sample maxIdle best ks'))"

definition chooseVictim ::
  "platform \<Rightarrow> string \<Rightarrow> string list \<Rightarrow> keyspace \<Rightarrow> string \<times> keyspace" where
  "chooseVictim pf policy sample ks =
     (if contains ''random'' policy then (hd sample, ks)
      else if policy = ''volatile-ttl'' then (pickTtl pf ks sample i64_max '''', ks)
      else if contains ''lfu'' policy then pickLfu pf sample 256 '''' ks
      else (case pickLru pf (lruNow (mem ks)) sample 0 '''' ks of
          (best, ks') \<Rightarrow> (if best = '''' then hd sample else best, ks')))"

section \<open>Rounds\<close>

definition evictFrom ::
  "platform \<Rightarrow> string \<Rightarrow> int \<Rightarrow> keyspace \<Rightarrow> bool \<times> keyspace" where
  "evictFrom pf policy samples ks =
     (let sample = randomSample pf samples (isPrefixOf ''volatile'' policy) ks
      in if sample = [] then (False, ks)
         else case chooseVictim pf policy sample ks of (best, ks1) \<Rightarrow>
           if best = '''' then (False, ks1)
           else (True, snd (db_del pf best ks1)))"

definition drawsFrom :: "nat \<Rightarrow> platform \<Rightarrow> platform" where
  "drawsFrom n pf = pf\<lparr>draw := (\<lambda>j. draw pf (n + j))\<rparr>"

fun evictRound ::
  "platform \<Rightarrow> string \<Rightarrow> int \<Rightarrow> nat \<Rightarrow> nat list \<Rightarrow> world \<Rightarrow> bool \<times> world" where
  "evictRound pf policy samples target [] w = (False, w)"
| "evictRound pf policy samples target (i # is) w =
     (if unat (usedMemory (w_mem w)) \<le> target then (False, w)
      else case evictFrom (drawsFrom (i * nat samples) pf) policy samples (openDb i w) of
        (hit, ks) \<Rightarrow> (case evictRound pf policy samples target is (closeDb i ks w) of
          (hit', w') \<Rightarrow> (hit \<or> hit', w')))"

definition totalKeys :: "world \<Rightarrow> nat" where
  "totalKeys w = sum_list (map (\<lambda>db. length (data db)) (databases w))"

fun evictLoop :: "platform \<Rightarrow> string \<Rightarrow> int \<Rightarrow> nat \<Rightarrow> nat \<Rightarrow> nat \<Rightarrow> world \<Rightarrow> world" where
  "evictLoop pf policy samples target r 0 w = w"
| "evictLoop pf policy samples target r (Suc n) w =
     (if unat (usedMemory (w_mem w)) \<le> target then w
      else case evictRound (drawsFrom (r * length (databases w) * nat samples) pf) policy samples
             target [0..<length (databases w)] w of
        (hit, w') \<Rightarrow> if hit then evictLoop pf policy samples target (r + 1) n w' else w')"

definition evictKeysIfNeeded :: "platform \<Rightarrow> world \<Rightarrow> world" where
  "evictKeysIfNeeded pf w =
     (let cfg = w_config w
      in if maxMemory cfg = 0 \<or> maxMemoryPolicy cfg = ''noeviction'' then w
         else evictLoop pf (maxMemoryPolicy cfg)
           (if maxMemorySamples cfg > 0 then maxMemorySamples cfg else 5)
           (nat (maxMemory cfg mod 2 ^ 64)) 0 (totalKeys w + 1) w)"

end
