(* ===== verification/ServerState.thy ===== *)
theory ServerState
  imports World
begin

text \<open>
  The shared tables of \<^verbatim>\<open>server/server.cpp\<close>: blocked clients, subscriptions, the
  replication backlog and the replicas (\<^verbatim>\<open>server/replication.cpp\<close>), and the clean-up
  when a client goes away. Commands that re-execute the command of an unblocked client
  take \<open>exec\<close>, the server's \<^verbatim>\<open>executeCommand\<close>.
\<close>

unbundle bit_operations_syntax

section \<open>Tables of client pointers\<close>

text \<open>\<^verbatim>\<open>table[key].push_back(&client)\<close>, and the removal shared by all tables.\<close>

definition addPointer :: "string \<Rightarrow> nat \<Rightarrow> (string \<times> nat list) list \<Rightarrow> (string \<times> nat list) list" where
  "addPointer key p al =
     AList.update key ((case map_of al key of None \<Rightarrow> [] | Some ps \<Rightarrow> ps) @ [p]) al"

definition removePointer :: "string \<Rightarrow> nat \<Rightarrow> (string \<times> nat list) list \<Rightarrow> (string \<times> nat list) list" where
  "removePointer key p al = (case map_of al key of
      None \<Rightarrow> al
    | Some ps \<Rightarrow>
        (let rest = filter (\<lambda>q. q \<noteq> p) ps
         in if rest = [] then AList.delete key al else AList.update key rest al))"

section \<open>Blocking\<close>

definition blockClient ::
  "platform \<Rightarrow> nat \<Rightarrow> string list \<Rightarrow> int \<Rightarrow> RespValue \<Rightarrow> string \<Rightarrow> unit act" where
  "blockClient pf p keys timeout cmd target =
     seq (setClient p (setFlag CLIENT_BLOCKED))
     (seq (setClient p (\<lambda>c. c\<lparr>blockedKeys := keys\<rparr>))
     (seq (setClient p (\<lambda>c. c\<lparr>blockTimeout :=
         (if timeout > 0 then wrap64 (system_ms pf + timeout) else 0)\<rparr>))
     (seq (setClient p (\<lambda>c. c\<lparr>blockTarget := target, blockCmd := cmd\<rparr>))
     (forEach keys (\<lambda>key.
        modify (\<lambda>w. w\<lparr>blockedClients := addPointer key p (blockedClients w)\<rparr>))))))"

definition unblockClient :: "nat \<Rightarrow> unit act" where
  "unblockClient p = bnd (theClient p) (\<lambda>c.
     if \<not> hasFlag CLIENT_BLOCKED c then ret ()
     else seq (forEach (blockedKeys c) (\<lambda>key.
                modify (\<lambda>w. w\<lparr>blockedClients := removePointer key p (blockedClients w)\<rparr>)))
          (setClient p clearBlockState))"

definition handleClientsBlockedOnKey ::
  "(nat \<Rightarrow> RespValue \<Rightarrow> unit act) \<Rightarrow> string \<Rightarrow> unit act" where
  "handleClientsBlockedOnKey exec key =
     bnd (gets (\<lambda>w. map_of (blockedClients w) key)) (\<lambda>it.
     case it of None \<Rightarrow> ret () | Some [] \<Rightarrow> ret ()
     | Some (p # _) \<Rightarrow>
         bnd (theClient p) (\<lambda>c.
         seq (unblockClient p)
         (seq (exec p (blockCmd c))
         (installWriteHandler p))))"

section \<open>Publish and subscribe\<close>

definition subscribeChannel :: "nat \<Rightarrow> string \<Rightarrow> unit act" where
  "subscribeChannel p channel = bnd (theClient p) (\<lambda>c.
     if channel \<in> set (subscribed c) then ret ()
     else seq (setClient p (\<lambda>c. c\<lparr>subscribed := channel # subscribed c\<rparr>))
          (modify (\<lambda>w. w\<lparr>pubsubChannels := addPointer channel p (pubsubChannels w)\<rparr>)))"

definition unsubscribeChannel :: "nat \<Rightarrow> string \<Rightarrow> unit act" where
  "unsubscribeChannel p channel = bnd (theClient p) (\<lambda>c.
     if channel \<notin> set (subscribed c) then ret ()
     else seq (setClient p (\<lambda>c. c\<lparr>subscribed := removeAll channel (subscribed c)\<rparr>))
          (modify (\<lambda>w. w\<lparr>pubsubChannels := removePointer channel p (pubsubChannels w)\<rparr>)))"

definition psubscribePattern :: "nat \<Rightarrow> string \<Rightarrow> unit act" where
  "psubscribePattern p pattern = bnd (theClient p) (\<lambda>c.
     if pattern \<in> set (psubscribed c) then ret ()
     else seq (setClient p (\<lambda>c. c\<lparr>psubscribed := pattern # psubscribed c\<rparr>))
          (modify (\<lambda>w. w\<lparr>pubsubPatterns := pubsubPatterns w @ [(pattern, p)]\<rparr>)))"

definition punsubscribePattern :: "nat \<Rightarrow> string \<Rightarrow> unit act" where
  "punsubscribePattern p pattern = bnd (theClient p) (\<lambda>c.
     if pattern \<notin> set (psubscribed c) then ret ()
     else seq (setClient p (\<lambda>c. c\<lparr>psubscribed := removeAll pattern (psubscribed c)\<rparr>))
          (modify (\<lambda>w. w\<lparr>pubsubPatterns := filter (\<lambda>e. e \<noteq> (pattern, p)) (pubsubPatterns w)\<rparr>)))"

text \<open>\<^verbatim>\<open>pattern.back()\<close> of an empty pattern is undefined.\<close>

definition patternMatches :: "string \<Rightarrow> string \<Rightarrow> bool act" where
  "patternMatches pattern channel =
     (if pattern = [] then raise Undefined
      else if last pattern = CHR ''*''
      then ret (take (length pattern - 1) channel = butlast pattern)
      else ret (pattern = channel))"

definition deliver :: "nat \<Rightarrow> string \<Rightarrow> unit act" where
  "deliver p message = seq (reply p message) (installWriteHandler p)"

definition publishMessage :: "string \<Rightarrow> string \<Rightarrow> nat act" where
  "publishMessage channel message =
     bnd (gets (\<lambda>w. (case map_of (pubsubChannels w) channel of None \<Rightarrow> [] | Some ps \<Rightarrow> ps))) (\<lambda>ps.
     seq (forEach ps (\<lambda>p. deliver p (reply_bulkStringArray [''message'', channel, message])))
     (bnd (gets pubsubPatterns) (\<lambda>pats.
     countEach pats (\<lambda>(pattern, p).
        bnd (patternMatches pattern channel) (\<lambda>match.
        if match
        then seq (deliver p (reply_bulkStringArray [''pmessage'', pattern, channel, message])) (ret True)
        else ret False)) (length ps))))"

section \<open>Replication\<close>

text \<open>One byte of \<^verbatim>\<open>feedReplicationBacklog\<close>'s loop over the circular buffer.\<close>

definition feedByte :: "char \<Rightarrow> world \<Rightarrow> world" where
  "feedByte c w = (let w1 = w\<lparr>replBacklog := (replBacklog w)[replBacklogIdx w := c],
       replBacklogIdx := (replBacklogIdx w + 1) mod replBacklogSize w\<rparr>
     in if replBacklogHistLen w1 < int (replBacklogSize w1)
        then w1\<lparr>replBacklogHistLen := replBacklogHistLen w1 + 1\<rparr>
        else w1\<lparr>replBacklogOff := replBacklogOff w1 + 1\<rparr>)"

definition feedReplicationBacklog :: "string \<Rightarrow> world \<Rightarrow> world" where
  "feedReplicationBacklog d w =
     (let w1 = (if replBacklog w = [] then w\<lparr>replBacklog := replicate (replBacklogSize w) (CHR 0x00)\<rparr>
                else w);
          w2 = foldl (\<lambda>w c. feedByte c w) w1 d
      in w2\<lparr>masterReplOffset := masterReplOffset w2 + int (length d)\<rparr>)"

primrec commandText :: "RespValue list \<Rightarrow> string result" where
  "commandText [] = Inr ''''"
| "commandText (a # as) = (case asString a of Inl e \<Rightarrow> Inl e
     | Inr s \<Rightarrow> (case commandText as of Inl e \<Rightarrow> Inl e
         | Inr rest \<Rightarrow> Inr (''$'' @ nat_to_dec (length s) @ CRLF @ s @ CRLF @ rest)))"

definition propagateToReplicas :: "RespValue list \<Rightarrow> unit act" where
  "propagateToReplicas cmd = bnd (gets (\<lambda>w. w)) (\<lambda>w.
     if replicas w = [] \<and> replBacklogHistLen w = 0 \<and> replId w = '''' then ret ()
     else bnd (lift (commandText cmd)) (\<lambda>body.
       let resp = ''*'' @ nat_to_dec (length cmd) @ CRLF @ body in
       seq (if replicas w \<noteq> [] \<or> replBacklogHistLen w > 0 \<or> replId w \<noteq> ''''
            then modify (feedReplicationBacklog resp) else ret ())
       (bnd (gets replicas) (\<lambda>rs. forEach rs (\<lambda>p. reply p resp)))))"

definition addReplica :: "nat \<Rightarrow> unit act" where
  "addReplica p = seq (setClient p (setFlag CLIENT_SLAVE))
     (modify (\<lambda>w. w\<lparr>replicas := replicas w @ [p]\<rparr>))"

text \<open>\<^verbatim>\<open>std::find\<close> and \<^verbatim>\<open>erase\<close>: the first occurrence only.\<close>

definition removeReplica :: "nat \<Rightarrow> world \<Rightarrow> world" where
  "removeReplica p w = w\<lparr>replicas := remove1 p (replicas w)\<rparr>"

section \<open>A client goes away\<close>

definition removeWatcher :: "string \<Rightarrow> nat \<Rightarrow> world \<Rightarrow> world" where
  "removeWatcher key p w = foldl (\<lambda>w i. closeDb i (removeWatchedKey key p (openDb i w)) w) w
     [0..<length (databases w)]"

definition closeClient :: "nat \<Rightarrow> unit act" where
  "closeClient p = bnd (theClient p) (\<lambda>c.
     seq (forEach (subscribed c) (\<lambda>channel.
            modify (\<lambda>w. w\<lparr>pubsubChannels := removePointer channel p (pubsubChannels w)\<rparr>)))
     (seq (setClient p (\<lambda>c. c\<lparr>subscribed := []\<rparr>))
     (seq (forEach (psubscribed c) (\<lambda>pattern.
            modify (\<lambda>w. w\<lparr>pubsubPatterns := filter (\<lambda>e. e \<noteq> (pattern, p)) (pubsubPatterns w)\<rparr>)))
     (seq (setClient p (\<lambda>c. c\<lparr>psubscribed := []\<rparr>))
     (seq (if hasFlag CLIENT_BLOCKED c then unblockClient p else ret ())
     (seq (forEach (watching c) (\<lambda>key. modify (removeWatcher key p)))
     (seq (setClient p (\<lambda>c. c\<lparr>watching := []\<rparr>))
     (seq (if hasFlag CLIENT_SLAVE c then modify (removeReplica p) else ret ())
     (modify (\<lambda>w. if masterClient w = Some p
                  then w\<lparr>masterClient := None, replState := ReplConnect\<rparr> else w))))))))))"

text \<open>
  \<^verbatim>\<open>ConnectionManager::removeClient\<close>: the disconnect callback, then the client's memory
  is freed.
\<close>

definition removeClient :: "int \<Rightarrow> unit act" where
  "removeClient fd = bnd (gets (\<lambda>w. map_of (connections w) fd)) (\<lambda>it.
     case it of None \<Rightarrow> ret ()
     | Some p \<Rightarrow>
         seq (closeClient p)
         (seq (onLoop (removeFileEvent fd (EVENT_READABLE OR EVENT_WRITABLE)))
         (modify (\<lambda>w. w\<lparr>connections := AList.delete fd (connections w),
            w_clients := (w_clients w)(p := None)\<rparr>))))"

definition disconnectFromMaster :: "unit act" where
  "disconnectFromMaster = bnd (gets masterClient) (\<lambda>mc.
     seq (case mc of None \<Rightarrow> ret ()
          | Some p \<Rightarrow>
              bnd (theClient p) (\<lambda>c.
              seq (modify (\<lambda>w. w\<lparr>masterClient := None\<rparr>))
              (removeClient (client_fd c))))
     (modify (\<lambda>w. w\<lparr>replState := ReplConnect\<rparr>)))"

definition setReplicationMaster :: "platform \<Rightarrow> string \<Rightarrow> int \<Rightarrow> unit act" where
  "setReplicationMaster pf host port =
     seq (modify (\<lambda>w. w\<lparr>masterHost := host, masterPort := port, replState := ReplConnect\<rparr>))
     (seq disconnectFromMaster
     (bnd (gets (\<lambda>w. length (databases w))) (\<lambda>n.
       forEach [0..<n] (\<lambda>i. modify (\<lambda>w. closeDb i (db_flushDb pf (openDb i w)) w)))))"

end
