(* ===== verification/Links.thy ===== *)
theory Links
  imports Keys Eviction ServerState
begin

text \<open>
  Who points to whom. The server keeps raw pointers to clients in five tables: subscribers,
  pattern subscribers, blocked clients, replicas and, in every database, watchers of keys.
  Each client keeps its own lists of the same relations. \<open>links_ok\<close> says that every pointer
  of a table is that of a client in memory whose own list has the entry; this is what the
  clean-up of a client relies on, which follows the client's lists. Then the effect of the
  operations on databases on it: they only mark watching clients.
\<close>

section \<open>Tables of pointers\<close>

definition entries :: "(string \<times> nat list) list \<Rightarrow> (string \<times> nat) set" where
  "entries al = {(k, p). \<exists>ps. map_of al k = Some ps \<and> p \<in> set ps}"

definition has :: "(nat \<Rightarrow> client option) \<Rightarrow> nat \<Rightarrow> (client \<Rightarrow> bool) \<Rightarrow> bool" where
  "has cs p Q \<longleftrightarrow> (\<exists>c. cs p = Some c \<and> Q c)"

datatype relation = Channel | Pattern | BlockedOn | Replica | Watch | Master

fun points :: "world \<Rightarrow> relation \<Rightarrow> string \<Rightarrow> nat \<Rightarrow> bool" where
  "points w Channel k p = ((k, p) \<in> entries (pubsubChannels w))"
| "points w Pattern k p = ((k, p) \<in> set (pubsubPatterns w))"
| "points w BlockedOn k p = ((k, p) \<in> entries (blockedClients w))"
| "points w Replica k p = (p \<in> set (replicas w))"
| "points w Watch k p = (\<exists>al \<in> set (map watchedKeys (databases w)). (k, p) \<in> entries al)"
| "points w Master k p = (masterClient w = Some p)"

fun own :: "relation \<Rightarrow> client \<Rightarrow> string \<Rightarrow> bool" where
  "own Channel c k = (k \<in> set (subscribed c))"
| "own Pattern c k = (k \<in> set (psubscribed c))"
| "own BlockedOn c k = (hasFlag CLIENT_BLOCKED c \<and> k \<in> set (blockedKeys c))"
| "own Replica c k = hasFlag CLIENT_SLAVE c"
| "own Watch c k = (k \<in> set (watching c))"
| "own Master c k = True"

text \<open>The tables have distinct keys, and no replica is registered twice.\<close>

definition tables_ok :: "world \<Rightarrow> bool" where
  "tables_ok w \<longleftrightarrow> distinct (keys_of (pubsubChannels w)) \<and> distinct (keys_of (blockedClients w)) \<and>
     distinct (replicas w)"

definition links_ok :: "(nat \<Rightarrow> client option) \<Rightarrow> world \<Rightarrow> bool" where
  "links_ok cs w \<longleftrightarrow> tables_ok w \<and> (\<forall>t k p. points w t k p \<longrightarrow> has cs p (\<lambda>c. own t c k))"

lemma has_update [simp]: "has (cs(p \<mapsto> c)) q Q \<longleftrightarrow> (if q = p then Q c else has cs q Q)"
  by (simp add: has_def)

lemma has_free [simp]: "has (cs(p := None)) q Q \<longleftrightarrow> q \<noteq> p \<and> has cs q Q"
  by (simp add: has_def)

lemma has_live: "has cs p Q \<Longrightarrow> \<exists>c. cs p = Some c"
  by (auto simp: has_def)

lemma entries_add: "entries (addPointer k p al) = insert (k, p) (entries al)"
  by (auto simp: entries_def addPointer_def split: option.splits if_splits)

lemma entries_remove: "entries (removePointer k p al) = entries al - {(k, p)}"
  by (auto simp: entries_def removePointer_def Let_def filter_empty_conv split: option.splits if_splits)

lemma keys_add: "distinct (keys_of al) \<Longrightarrow> distinct (keys_of (addPointer k p al))"
  by (simp add: addPointer_def distinct_keys_update)

lemma keys_remove: "distinct (keys_of al) \<Longrightarrow> distinct (keys_of (removePointer k p al))"
  by (simp add: removePointer_def Let_def distinct_keys_update distinct_keys_delete split: option.split)

text \<open>One client changes, and with it the entries that point to it.\<close>

lemma links_alter:
  assumes "links_ok cs w" "tables_ok w'"
    "\<And>t k q. points w' t k q \<Longrightarrow> q \<noteq> p \<Longrightarrow> points w t k q"
    "\<And>t k. points w' t k p \<Longrightarrow> own t c' k"
  shows "links_ok (cs(p \<mapsto> c')) w'"
  using assms unfolding links_ok_def by (metis has_update)

lemma links_own: "links_ok cs w \<Longrightarrow> points w t k p \<Longrightarrow> cs p = Some c \<Longrightarrow> own t c k"
  unfolding links_ok_def has_def by fastforce

lemma links_tables: "links_ok cs w \<Longrightarrow> tables_ok w"
  by (simp add: links_ok_def)

text \<open>A client no table points to can be freed.\<close>

lemma links_free:
  assumes "links_ok cs w" "\<And>t k. \<not> points w t k p"
  shows "links_ok (cs(p := None)) w"
  using assms unfolding links_ok_def by (metis has_free)

section \<open>Operations on a database only mark clients\<close>

definition marked :: "(nat \<Rightarrow> client option) \<Rightarrow> (nat \<Rightarrow> client option) \<Rightarrow> bool" where
  "marked cs cs' \<longleftrightarrow> (\<forall>p. cs' p = cs p \<or> cs' p = map_option (setFlag CLIENT_DIRTY_EXEC) (cs p))"

lemma setFlag_twice [simp]: "setFlag f (setFlag f c) = setFlag f c"
  by (simp add: setFlag_def or.assoc)

lemma marked_refl [simp]: "marked cs cs"
  by (simp add: marked_def)

lemma marked_trans: "marked cs cs' \<Longrightarrow> marked cs' cs'' \<Longrightarrow> marked cs cs''"
  unfolding marked_def by (metis (no_types, lifting) option.map_comp comp_apply setFlag_twice option.map_cong)

lemma marked_dom: "marked cs cs' \<Longrightarrow> dom cs' = dom cs"
  unfolding marked_def dom_def by (metis option.map_disc_iff)

lemma marked_flag: "marked cs (flagClients ps cs)"
  by (simp add: marked_def flagClients_apply)

definition settled :: "keyspace \<Rightarrow> keyspace \<Rightarrow> bool" where
  "settled ks ks' \<longleftrightarrow> watchedKeys ks' = watchedKeys ks \<and> marked (clients ks) (clients ks')"

lemma settled_refl [simp, intro]: "settled ks ks"
  by (simp add: settled_def)

lemma settled_trans: "settled ks ks' \<Longrightarrow> settled ks' ks'' \<Longrightarrow> settled ks ks''"
  by (auto simp: settled_def intro: marked_trans)

lemma settled_fields [simp]:
  "settled ks (ks'\<lparr>data := d\<rparr>) = settled ks ks'" "settled ks (ks'\<lparr>expires := e\<rparr>) = settled ks ks'"
  "settled ks (ks'\<lparr>hits := n\<rparr>) = settled ks ks'" "settled ks (ks'\<lparr>misses := n\<rparr>) = settled ks ks'"
  "settled ks (ks'\<lparr>dirty := i\<rparr>) = settled ks ks'" "settled ks (ks'\<lparr>mem := m\<rparr>) = settled ks ks'"
  "settled ks (charge n ks') = settled ks ks'" "settled ks (refund n ks') = settled ks ks'"
  by (simp_all add: settled_def charge_def refund_def)

lemma settled_touch [intro]: "settled ks ks' \<Longrightarrow> settled ks (touchWatchedKey k ks')"
  by (auto simp: settled_def touchWatchedKey_def split: option.split intro: marked_trans marked_flag)

lemma settled_drop [intro]: "settled ks ks' \<Longrightarrow> settled ks (dropObject pf k ob ks')"
  by (auto simp: dropObject_def Let_def)

lemma settled_setObject: "settled ks (db_setObject pf k ob ks)"
  by (auto simp: db_setObject_def Let_def split: option.split)

lemma settled_expire: "settled ks (snd (checkAndExpire pf k ks))"
  by (auto simp: checkAndExpire_def Let_def split: option.split)

lemma settled_getObject: "settled ks (snd (db_getObject pf k ks))"
  using settled_expire [of ks pf k]
  by (auto simp: db_getObject_def Let_def split: prod.splits bool.splits option.splits)

lemma settled_write: "settled ks (writeObject k v ks)"
  by (simp add: writeObject_def split: option.split)

lemma settled_flush: "settled ks (db_flushDb pf ks)"
proof -
  have r: "settled ks (foldl (\<lambda>ks (key, ob). refund (f key) (refund (g ob) ks)) ks' al) = settled ks ks'"
    for f g al ks' by (induction al arbitrary: ks') (simp_all split: prod.split)
  have f: "settled ks ks' \<Longrightarrow> settled ks (foldl (\<lambda>ks (key, ps). ks\<lparr>clients := flagClients ps (clients ks)\<rparr>) ks' wk)"
    for wk :: "(string \<times> nat list) list" and ks'
  proof (induction wk arbitrary: ks')
    case (Cons e wk)
    show ?case by (cases e, simp, rule Cons.IH)
      (use Cons.prems in \<open>auto simp: settled_def intro: marked_trans marked_flag\<close>)
  qed simp
  show ?thesis unfolding db_flushDb_def Let_def by (simp add: r f)
qed

lemma settled_expireLoop: "settled ks' ks \<Longrightarrow> settled ks' (snd (expireLoop pf n es ks))"
proof (induction pf n es ks rule: expireLoop.induct)
  case (2 pf n key t rest ks)
  then show ?case using settled_drop [of ks' ks pf key]
    by (simp add: Let_def case_prod_beta split: option.splits)
qed simp

text \<open>A method that keeps the invariant of the key space and marks clients at most.\<close>

definition tame :: "platform \<Rightarrow> (keyspace \<Rightarrow> keyspace) \<Rightarrow> bool" where
  "tame pf f \<longleftrightarrow> (\<forall>ks. ks_ok pf ks \<longrightarrow> ks_ok pf (f ks) \<and> settled ks (f ks))"

named_theorems tame

lemma tameI: "(\<And>ks. ks_ok pf ks \<Longrightarrow> ks_ok pf (f ks)) \<Longrightarrow> (\<And>ks. settled ks (f ks)) \<Longrightarrow> tame pf f"
  by (simp add: tame_def)

lemma tame_comp: "tame pf f \<Longrightarrow> tame pf g \<Longrightarrow> tame pf (\<lambda>ks. g (f ks))"
  unfolding tame_def using settled_trans by blast

lemma tame_pure [tame]: "tame pf (\<lambda>ks. ks)"
  by (rule tameI) simp_all

lemma tame_setObject [tame]: "contents_ok (hasher pf) (obj_value ob) \<Longrightarrow> tame pf (db_setObject pf k ob)"
  by (rule tameI) (auto intro: inv_intros settled_setObject)

lemma tame_set [tame]: "tame pf (db_set pf k v)"
  by (rule tameI) (auto simp: db_set_setObject intro: inv_intros settled_setObject)

lemma tame_getObject [tame]: "tame pf (\<lambda>ks. snd (db_getObject pf k ks))"
  by (rule tameI) (auto intro: inv_intros settled_getObject)

lemma tame_getObjectForWrite [tame]: "tame pf (\<lambda>ks. snd (db_getObjectForWrite pf k ks))"
  by (simp add: getObjectForWrite_getObject tame_getObject)

lemma tame_get [tame]: "tame pf (\<lambda>ks. snd (db_get pf k ks))"
  using tame_getObject [of pf k] by (simp add: get_getObject case_prod_beta)

lemma tame_exists [tame]: "tame pf (\<lambda>ks. snd (db_exists pf k ks))"
proof (rule tameI)
  show "settled ks (snd (db_exists pf k ks))" for ks
    using settled_expire [of ks pf k] by (auto simp: db_exists_def split: prod.splits bool.splits)
qed (erule inv_intros)

lemma tame_type [tame]: "tame pf (\<lambda>ks. snd (db_type pf k ks))"
proof (rule tameI)
  show "settled ks (snd (db_type pf k ks))" for ks
    using settled_expire [of ks pf k] by (auto simp: db_type_def split: prod.splits bool.splits option.splits)
qed (erule inv_intros)

lemma tame_del [tame]: "tame pf (\<lambda>ks. snd (db_del pf k ks))"
  by (rule tameI, erule inv_intros) (auto simp: db_del_def Let_def split: option.split)

lemma tame_rename [tame]: "tame pf (\<lambda>ks. snd (db_rename pf old new ks))"
proof (rule tameI)
  show "settled ks (snd (db_rename pf old new ks))" for ks
    by (auto simp: db_rename_def Let_def split: option.splits prod.splits intro!: settled_trans [OF _ settled_setObject])
qed (rule inv_intros)

lemma tame_incrby [tame]: "tame pf (\<lambda>ks. snd (db_incrby pf k n ks))"
  by (rule tameI, erule inv_intros) (auto simp: db_incrby_def Let_def db_set_setObject intro: settled_setObject split: option.split)

lemma tame_append [tame]: "tame pf (\<lambda>ks. snd (db_append pf k v ks))"
  by (rule tameI, erule inv_intros) (auto simp: db_append_def Let_def db_set_setObject intro: settled_setObject
      split: option.split contents.split)

lemma tame_setExpiry [tame]: "tame pf (\<lambda>ks. snd (db_setExpiry pf k n ks))"
  by (rule tameI, erule inv_intros) (auto simp: db_setExpiry_def split: option.split)

lemma tame_setExpiryAt [tame]: "tame pf (\<lambda>ks. snd (db_setExpiryAt k t ks))"
  by (rule tameI, erule inv_intros) (auto simp: db_setExpiryAt_def split: option.split)

lemma tame_persist [tame]: "tame pf (\<lambda>ks. snd (db_persist k ks))"
  by (rule tameI, erule inv_intros) (auto simp: db_persist_def)

lemma tame_flush [tame]: "tame pf (db_flushDb pf)"
  by (rule tameI, erule inv_intros) (rule settled_flush)

lemma tame_cycle [tame]: "tame pf (\<lambda>ks. snd (activeExpireCycle pf n ks))"
  by (rule tameI, erule inv_intros) (auto simp: activeExpireCycle_def intro: settled_expireLoop)

lemma tame_write [tame]: "contents_ok (hasher pf) v \<Longrightarrow> tame pf (writeObject k v)"
  by (rule tameI, erule inv_intros) (auto intro: settled_write)

end
