(* ===== verification/Commands.thy ===== *)
theory Commands
  imports ServerState
begin

text \<open>
  The command handlers on data: \<^verbatim>\<open>commands/string_commands.cpp\<close>,
  \<^verbatim>\<open>key_commands.cpp\<close>, \<^verbatim>\<open>list_commands.cpp\<close>, \<^verbatim>\<open>hash_commands.cpp\<close>
  and \<^verbatim>\<open>set_commands.cpp\<close>. A handler gets the address of the client and the
  arguments, the command's name being \<open>args ! 0\<close>; the dispatcher has checked their number.
\<close>

primrec mapEach :: "'x list \<Rightarrow> ('x \<Rightarrow> 'y act) \<Rightarrow> 'y list act" where
  "mapEach [] f = ret []"
| "mapEach (x # xs) f = bnd (f x) (\<lambda>y. bnd (mapEach xs f) (\<lambda>ys. ret (y # ys)))"

definition not_an_integer :: string where
  "not_an_integer = reply_error ''value is not an integer or out of range''"

text \<open>\<^verbatim>\<open>try { n = std::stoll(args[i].asString()); } catch (...) { ... }\<close>: \<^const>\<open>None\<close> in the catch.\<close>

definition tryNumber :: "(string \<Rightarrow> 'n result) \<Rightarrow> RespValue list \<Rightarrow> nat \<Rightarrow> 'n option act" where
  "tryNumber conv args i =
     try_catch (bnd (argStr args i) (\<lambda>s. bnd (lift (conv s)) (\<lambda>n. ret (Some n)))) (\<lambda>_. ret None)"

section \<open>Strings\<close>

function setOptions ::
  "nat \<Rightarrow> RespValue list \<Rightarrow> bool \<times> bool \<times> int \<Rightarrow> (bool \<times> bool \<times> int) option act" where
  "setOptions p [] acc = ret (Some acc)"
| "setOptions p (a # rest) (nx, xx, ms) = bnd (lift (asString a)) (\<lambda>flag.
     if upper flag = ''NX'' then setOptions p rest (True, xx, ms)
     else if upper flag = ''XX'' then setOptions p rest (nx, True, ms)
     else if upper flag \<in> {''EX'', ''PX''} \<and> rest \<noteq> [] then
       bnd (tryNumber stoll rest 0) (\<lambda>r. case r of
         None \<Rightarrow> seq (reply p not_an_integer) (ret None)
       | Some n \<Rightarrow>
           (let expiryMs = (if upper flag = ''EX'' then wrap64 (n * 1000) else n)
            in if expiryMs \<le> 0
               then seq (reply p (reply_error ''invalid expire time in 'set' command'')) (ret None)
               else setOptions p (tl rest) (nx, xx, expiryMs)))
     else setOptions p rest (nx, xx, ms))"
  by pat_completeness auto
termination
  by (relation "measure (\<lambda>(p, l, acc). length l)") auto

definition setCommand :: "platform \<Rightarrow> nat \<Rightarrow> RespValue list \<Rightarrow> unit act" where
  "setCommand pf p args =
     bnd (selected p) (\<lambda>db.
     bnd (argStr args 1) (\<lambda>key.
     bnd (argStr args 2) (\<lambda>val.
     bnd (setOptions p (drop 3 args) (False, False, -1)) (\<lambda>opts.
     case opts of None \<Rightarrow> ret ()
     | Some (nx, xx, expiryMs) \<Rightarrow>
         bnd (if nx then onDb db (db_exists pf key) else ret False) (\<lambda>present.
         if present then reply p reply_nullBulkString
         else bnd (if xx then onDb db (db_exists pf key) else ret True) (\<lambda>present.
           if \<not> present then reply p reply_nullBulkString
           else seq (runDb db (db_set pf key val))
             (seq (if expiryMs > 0 then seq (onDb db (db_setExpiry pf key expiryMs)) (ret ()) else ret ())
             (seq (modify (\<lambda>w. w\<lparr>totalCommandsProcessed := totalCommandsProcessed w + 1\<rparr>))
             (reply p reply_ok)))))))))"

definition getCommand :: "platform \<Rightarrow> nat \<Rightarrow> RespValue list \<Rightarrow> unit act" where
  "getCommand pf p args =
     bnd (selected p) (\<lambda>db.
     bnd (argStr args 1) (\<lambda>key.
     bnd (onDb db (db_get pf key)) (\<lambda>val.
     reply p (case val of Some s \<Rightarrow> reply_bulkString s | None \<Rightarrow> reply_nullBulkString))))"

definition delCommand :: "platform \<Rightarrow> nat \<Rightarrow> RespValue list \<Rightarrow> unit act" where
  "delCommand pf p args =
     bnd (selected p) (\<lambda>db.
     bnd (countEach (tl args) (\<lambda>a. bnd (lift (asString a)) (\<lambda>key. onDb db (db_del pf key))) 0) (\<lambda>n.
     reply p (reply_integer (int n))))"

definition existsCommand :: "platform \<Rightarrow> nat \<Rightarrow> RespValue list \<Rightarrow> unit act" where
  "existsCommand pf p args =
     bnd (selected p) (\<lambda>db.
     bnd (countEach (tl args) (\<lambda>a. bnd (lift (asString a)) (\<lambda>key. onDb db (db_exists pf key))) 0) (\<lambda>n.
     reply p (reply_integer (int n))))"

definition msetCommand :: "platform \<Rightarrow> nat \<Rightarrow> RespValue list \<Rightarrow> unit act" where
  "msetCommand pf p args =
     (if (length args - 1) mod 2 \<noteq> 0
      then reply p (reply_error ''wrong number of arguments for MSET'')
      else bnd (selected p) (\<lambda>db.
        seq (forEach (map (\<lambda>j. 2 * j + 1) [0..<(length args - 1) div 2]) (\<lambda>i.
               bnd (argStr args i) (\<lambda>key.
               bnd (argStr args (i + 1)) (\<lambda>val.
               runDb db (db_set pf key val)))))
        (reply p reply_ok)))"

definition mgetCommand :: "platform \<Rightarrow> nat \<Rightarrow> RespValue list \<Rightarrow> unit act" where
  "mgetCommand pf p args =
     bnd (selected p) (\<lambda>db.
     bnd (mapEach (tl args) (\<lambda>a.
            bnd (lift (asString a)) (\<lambda>key.
            bnd (onDb db (db_get pf key)) (\<lambda>val.
            ret (case val of Some s \<Rightarrow> reply_bulkString s | None \<Rightarrow> reply_nullBulkString))))) (\<lambda>parts.
     reply p (''*'' @ nat_to_dec (length args - 1) @ CRLF @ concat parts)))"

text \<open>The tail shared by the four increment commands.\<close>

definition incrReply :: "platform \<Rightarrow> nat \<Rightarrow> RespValue list \<Rightarrow> int \<Rightarrow> unit act" where
  "incrReply pf p args n =
     bnd (selected p) (\<lambda>db.
     bnd (argStr args 1) (\<lambda>key.
     bnd (onDb db (db_incrby pf key n)) (\<lambda>r.
     reply p (case r of Some v \<Rightarrow> reply_integer v | None \<Rightarrow> not_an_integer))))"

definition incrCommand :: "platform \<Rightarrow> nat \<Rightarrow> RespValue list \<Rightarrow> unit act" where
  "incrCommand pf p args = incrReply pf p args 1"

definition decrCommand :: "platform \<Rightarrow> nat \<Rightarrow> RespValue list \<Rightarrow> unit act" where
  "decrCommand pf p args = incrReply pf p args (-1)"

definition incrbyCommand :: "platform \<Rightarrow> nat \<Rightarrow> RespValue list \<Rightarrow> unit act" where
  "incrbyCommand pf p args =
     bnd (tryNumber stoll args 2) (\<lambda>r. case r of
       None \<Rightarrow> reply p not_an_integer
     | Some n \<Rightarrow> incrReply pf p args n)"

definition decrbyCommand :: "platform \<Rightarrow> nat \<Rightarrow> RespValue list \<Rightarrow> unit act" where
  "decrbyCommand pf p args =
     bnd (tryNumber stoll args 2) (\<lambda>r. case r of
       None \<Rightarrow> reply p not_an_integer
     | Some n \<Rightarrow> incrReply pf p args (wrap64 (- n)))"

definition appendCommand :: "platform \<Rightarrow> nat \<Rightarrow> RespValue list \<Rightarrow> unit act" where
  "appendCommand pf p args =
     bnd (selected p) (\<lambda>db.
     bnd (argStr args 1) (\<lambda>key.
     bnd (argStr args 2) (\<lambda>val.
     bnd (onDb db (db_append pf key val)) (\<lambda>r.
     reply p (case r of Some n \<Rightarrow> reply_integer (int n) | None \<Rightarrow> reply_error ''internal error'')))))"

definition strlenCommand :: "platform \<Rightarrow> nat \<Rightarrow> RespValue list \<Rightarrow> unit act" where
  "strlenCommand pf p args =
     bnd (selected p) (\<lambda>db.
     bnd (argStr args 1) (\<lambda>key.
     bnd (onDb db (db_get pf key)) (\<lambda>val.
     reply p (case val of Some s \<Rightarrow> reply_integer (int (length s)) | None \<Rightarrow> reply_integer 0))))"

definition setnxCommand :: "platform \<Rightarrow> nat \<Rightarrow> RespValue list \<Rightarrow> unit act" where
  "setnxCommand pf p args =
     bnd (selected p) (\<lambda>db.
     bnd (argStr args 1) (\<lambda>key.
     bnd (onDb db (db_exists pf key)) (\<lambda>present.
     if present then reply p (reply_integer 0)
     else bnd (argStr args 2) (\<lambda>val.
       seq (runDb db (db_set pf key val)) (reply p (reply_integer 1))))))"

section \<open>Keys\<close>

definition typeCommand :: "platform \<Rightarrow> nat \<Rightarrow> RespValue list \<Rightarrow> unit act" where
  "typeCommand pf p args =
     bnd (selected p) (\<lambda>db.
     bnd (argStr args 1) (\<lambda>key.
     bnd (onDb db (db_type pf key)) (\<lambda>t.
     reply p (reply_simpleString t))))"

definition renameCommand :: "platform \<Rightarrow> nat \<Rightarrow> RespValue list \<Rightarrow> unit act" where
  "renameCommand pf p args =
     bnd (selected p) (\<lambda>db.
     bnd (argStr args 1) (\<lambda>old.
     bnd (argStr args 2) (\<lambda>new.
     bnd (onDb db (db_rename pf old new)) (\<lambda>ok.
     reply p (if ok then reply_ok else reply_error ''no such key'')))))"

definition keysCommand :: "platform \<Rightarrow> nat \<Rightarrow> RespValue list \<Rightarrow> unit act" where
  "keysCommand pf p args =
     bnd (selected p) (\<lambda>db.
     bnd (argStr args 1) (\<lambda>pattern.
     bnd (onDb db (\<lambda>ks. (db_keys pf pattern ks, ks))) (\<lambda>found.
     reply p (reply_bulkStringArray found))))"

text \<open>The four commands that set a time differ in the unit and in the method called.\<close>

definition expireWith ::
  "(string \<Rightarrow> int \<Rightarrow> keyspace \<Rightarrow> bool \<times> keyspace) \<Rightarrow> int \<Rightarrow> nat \<Rightarrow> RespValue list \<Rightarrow> unit act" where
  "expireWith method scale p args =
     bnd (selected p) (\<lambda>db.
     bnd (tryNumber stoll args 2) (\<lambda>r. case r of
       None \<Rightarrow> reply p not_an_integer
     | Some n \<Rightarrow>
         bnd (argStr args 1) (\<lambda>key.
         bnd (onDb db (method key (wrap64 (n * scale)))) (\<lambda>ok.
         reply p (reply_integer (if ok then 1 else 0))))))"

definition expireCommand :: "platform \<Rightarrow> nat \<Rightarrow> RespValue list \<Rightarrow> unit act" where
  "expireCommand pf = expireWith (db_setExpiry pf) 1000"

definition pexpireCommand :: "platform \<Rightarrow> nat \<Rightarrow> RespValue list \<Rightarrow> unit act" where
  "pexpireCommand pf = expireWith (db_setExpiry pf) 1"

definition expireatCommand :: "nat \<Rightarrow> RespValue list \<Rightarrow> unit act" where
  "expireatCommand = expireWith db_setExpiryAt 1000"

definition pexpireatCommand :: "nat \<Rightarrow> RespValue list \<Rightarrow> unit act" where
  "pexpireatCommand = expireWith db_setExpiryAt 1"

definition ttlCommand :: "platform \<Rightarrow> nat \<Rightarrow> RespValue list \<Rightarrow> unit act" where
  "ttlCommand pf p args =
     bnd (selected p) (\<lambda>db.
     bnd (argStr args 1) (\<lambda>key.
     bnd (onDb db (\<lambda>ks. (db_pttl pf key ks, ks))) (\<lambda>t.
     reply p (reply_integer (if t < 0 then t else t div 1000)))))"

definition pttlCommand :: "platform \<Rightarrow> nat \<Rightarrow> RespValue list \<Rightarrow> unit act" where
  "pttlCommand pf p args =
     bnd (selected p) (\<lambda>db.
     bnd (argStr args 1) (\<lambda>key.
     bnd (onDb db (\<lambda>ks. (db_pttl pf key ks, ks))) (\<lambda>t.
     reply p (reply_integer t))))"

definition persistCommand :: "nat \<Rightarrow> RespValue list \<Rightarrow> unit act" where
  "persistCommand p args =
     bnd (selected p) (\<lambda>db.
     bnd (argStr args 1) (\<lambda>key.
     bnd (onDb db (db_persist key)) (\<lambda>ok.
     reply p (reply_integer (if ok then 1 else 0)))))"

section \<open>Opening a collection\<close>

text \<open>
  The start of every collection command. For writing: the object, created empty when the
  key is missing; the result says whether the handler goes on. For reading: the object, or
  what the handler answers without one.
\<close>

definition openForWrite ::
  "platform \<Rightarrow> nat \<Rightarrow> int \<Rightarrow> string \<Rightarrow> ObjectType \<Rightarrow> contents \<Rightarrow> bool act" where
  "openForWrite pf p db key ty fresh =
     bnd (onDb db (db_getObjectForWrite pf key)) (\<lambda>ob. case ob of
       None \<Rightarrow>
         seq (runDb db (db_setObject pf key (newObject fresh)))
         (bnd (onDb db (db_getObjectForWrite pf key)) (\<lambda>ob.
         bnd (defined ob) (\<lambda>_. ret True)))
     | Some ob \<Rightarrow>
         if obj_type ob \<noteq> ty then seq (reply p reply_wrongType) (ret False) else ret True)"

definition openExisting ::
  "platform \<Rightarrow> nat \<Rightarrow> int \<Rightarrow> string \<Rightarrow> ObjectType \<Rightarrow> string \<Rightarrow> bool act" where
  "openExisting pf p db key ty missing =
     bnd (onDb db (db_getObjectForWrite pf key)) (\<lambda>ob. case ob of
       None \<Rightarrow> seq (reply p missing) (ret False)
     | Some ob \<Rightarrow>
         if obj_type ob \<noteq> ty then seq (reply p reply_wrongType) (ret False) else ret True)"

definition openForRead ::
  "platform \<Rightarrow> nat \<Rightarrow> int \<Rightarrow> string \<Rightarrow> ObjectType \<Rightarrow> string \<Rightarrow> redis_object option act" where
  "openForRead pf p db key ty missing =
     bnd (onDb db (db_getObject pf key)) (\<lambda>ob. case ob of
       None \<Rightarrow> seq (reply p missing) (ret None)
     | Some ob \<Rightarrow>
         if obj_type ob \<noteq> ty then seq (reply p reply_wrongType) (ret None) else ret (Some ob))"

text \<open>The bodies of the loops, on the value behind the reference.\<close>

definition inList :: "(linked_list \<Rightarrow> ('a \<times> linked_list) option) \<Rightarrow> contents \<Rightarrow> ('a \<times> contents) option" where
  "inList f v = (case v of ListObject l \<Rightarrow> map_option (\<lambda>(r, l'). (r, ListObject l')) (f l) | _ \<Rightarrow> None)"

definition inHash ::
  "((string, string) hash_table \<Rightarrow> 'a \<times> (string, string) hash_table) \<Rightarrow> contents \<Rightarrow> ('a \<times> contents) option" where
  "inHash f v = (case v of HashObject h \<Rightarrow> (let (r, h') = f h in Some (r, HashObject h')) | _ \<Rightarrow> None)"

definition inSet :: "(hash_set \<Rightarrow> 'a \<times> hash_set) \<Rightarrow> contents \<Rightarrow> ('a \<times> contents) option" where
  "inSet f v = (case v of SetObject s \<Rightarrow> (let (r, s') = f s in Some (r, SetObject s')) | _ \<Rightarrow> None)"

section \<open>Lists\<close>

definition pushOne :: "bool \<Rightarrow> string \<Rightarrow> linked_list \<Rightarrow> (unit \<times> linked_list) option" where
  "pushOne left v l = map_option (\<lambda>l'. ((), l')) (if left then ll_pushFront v l else ll_pushBack v l)"

definition pushGeneric ::
  "platform \<Rightarrow> (nat \<Rightarrow> RespValue \<Rightarrow> unit act) \<Rightarrow> nat \<Rightarrow> RespValue list \<Rightarrow> bool \<Rightarrow> unit act" where
  "pushGeneric pf exec p args left =
     bnd (selected p) (\<lambda>db.
     bnd (argStr args 1) (\<lambda>key.
     bnd (openForWrite pf p db key TList (ListObject newList)) (\<lambda>go.
     if \<not> go then ret ()
     else seq (forEach (drop 2 args) (\<lambda>a.
             bnd (lift (asString a)) (\<lambda>v. onObject db key (inList (pushOne left v)))))
       (bnd (onObject db key (inList (\<lambda>l. Some (ll_size l, l)))) (\<lambda>n.
       seq (reply p (reply_integer (int n)))
       (if length args > 2 then handleClientsBlockedOnKey exec key else ret ()))))))"

definition lpushCommand ::
  "platform \<Rightarrow> (nat \<Rightarrow> RespValue \<Rightarrow> unit act) \<Rightarrow> nat \<Rightarrow> RespValue list \<Rightarrow> unit act" where
  "lpushCommand pf exec p args = pushGeneric pf exec p args True"

text \<open>\<^verbatim>\<open>rpushCommand\<close> calls \<^verbatim>\<open>pushGeneric\<close> twice.\<close>

definition rpushCommand ::
  "platform \<Rightarrow> (nat \<Rightarrow> RespValue \<Rightarrow> unit act) \<Rightarrow> nat \<Rightarrow> RespValue list \<Rightarrow> unit act" where
  "rpushCommand pf exec p args =
     seq (pushGeneric pf exec p args False) (pushGeneric pf exec p args False)"

definition popOne :: "bool \<Rightarrow> linked_list \<Rightarrow> (string option \<times> linked_list) option" where
  "popOne left l = (if left then ll_popFront l else ll_popBack l)"

definition delIfEmpty :: "platform \<Rightarrow> int \<Rightarrow> string \<Rightarrow> unit act" where
  "delIfEmpty pf db key =
     bnd (onObject db key (inList (\<lambda>l. Some (ll_empty l, l)))) (\<lambda>empty.
     if empty then seq (onDb db (db_del pf key)) (ret ()) else ret ())"

definition popGeneric :: "platform \<Rightarrow> nat \<Rightarrow> RespValue list \<Rightarrow> bool \<Rightarrow> unit act" where
  "popGeneric pf p args left =
     bnd (selected p) (\<lambda>db.
     bnd (argStr args 1) (\<lambda>key.
     bnd (openExisting pf p db key TList reply_nullBulkString) (\<lambda>go.
     if \<not> go then ret ()
     else bnd (onObject db key (inList (popOne left))) (\<lambda>val.
       case val of
         Some v \<Rightarrow> seq (reply p (reply_bulkString v)) (delIfEmpty pf db key)
       | None \<Rightarrow> reply p reply_nullBulkString))))"

definition lpopCommand :: "platform \<Rightarrow> nat \<Rightarrow> RespValue list \<Rightarrow> unit act" where
  "lpopCommand pf p args = popGeneric pf p args True"

definition rpopCommand :: "platform \<Rightarrow> nat \<Rightarrow> RespValue list \<Rightarrow> unit act" where
  "rpopCommand pf p args = popGeneric pf p args False"

definition lrangeCommand :: "platform \<Rightarrow> nat \<Rightarrow> RespValue list \<Rightarrow> unit act" where
  "lrangeCommand pf p args =
     bnd (selected p) (\<lambda>db.
     bnd (argStr args 1) (\<lambda>key.
     bnd (tryNumber stoi args 2) (\<lambda>start. case start of
       None \<Rightarrow> reply p not_an_integer
     | Some a \<Rightarrow>
         bnd (tryNumber stoi args 3) (\<lambda>stop. case stop of
           None \<Rightarrow> reply p not_an_integer
         | Some b \<Rightarrow>
             bnd (openForRead pf p db key TList reply_emptyArray) (\<lambda>ob. case ob of
               None \<Rightarrow> ret ()
             | Some ob \<Rightarrow>
                 bnd (lift (obj_asList ob)) (\<lambda>l.
                 bnd (defined (ll_range a b l)) (\<lambda>elements.
                 reply p (reply_bulkStringArray elements))))))))"

definition llenCommand :: "platform \<Rightarrow> nat \<Rightarrow> RespValue list \<Rightarrow> unit act" where
  "llenCommand pf p args =
     bnd (selected p) (\<lambda>db.
     bnd (argStr args 1) (\<lambda>key.
     bnd (openForRead pf p db key TList (reply_integer 0)) (\<lambda>ob. case ob of
       None \<Rightarrow> ret ()
     | Some ob \<Rightarrow>
         bnd (lift (obj_asList ob)) (\<lambda>l.
         reply p (reply_integer (int (ll_size l)))))))"

text \<open>The keys in order, until one holds a non-empty list; the result says whether one did.\<close>

primrec bpopKeys :: "platform \<Rightarrow> nat \<Rightarrow> int \<Rightarrow> bool \<Rightarrow> string list \<Rightarrow> bool act" where
  "bpopKeys pf p db left [] = ret False"
| "bpopKeys pf p db left (key # keys) =
     bnd (onDb db (db_getObjectForWrite pf key)) (\<lambda>ob.
     case ob of None \<Rightarrow> bpopKeys pf p db left keys
     | Some ob \<Rightarrow> (case obj_value ob of
         ListObject l \<Rightarrow>
           if ll_empty l then bpopKeys pf p db left keys
           else bnd (onObject db key (inList (popOne left))) (\<lambda>val.
             case val of None \<Rightarrow> bpopKeys pf p db left keys
             | Some v \<Rightarrow>
                 seq (reply p (reply_bulkStringArray [key, v]))
                 (seq (delIfEmpty pf db key) (ret True)))
       | _ \<Rightarrow> bpopKeys pf p db left keys))"

definition bpopGeneric :: "platform \<Rightarrow> nat \<Rightarrow> RespValue list \<Rightarrow> bool \<Rightarrow> unit act" where
  "bpopGeneric pf p args left =
     bnd (selected p) (\<lambda>db.
     bnd (tryNumber stoll args (length args - 1)) (\<lambda>timeout. case timeout of
       None \<Rightarrow> reply p (reply_error ''timeout is not an integer or out of range'')
     | Some n \<Rightarrow>
         if n < 0 then reply p (reply_error ''timeout is negative'')
         else
           bnd (mapEach [1..<length args - 1] (argStr args)) (\<lambda>keys.
           bnd (bpopKeys pf p db left keys) (\<lambda>found.
           if found then ret () else blockClient pf p keys (wrap64 (n * 1000)) (Array args) ''''))))"

definition blpopCommand :: "platform \<Rightarrow> nat \<Rightarrow> RespValue list \<Rightarrow> unit act" where
  "blpopCommand pf p args = bpopGeneric pf p args True"

definition brpopCommand :: "platform \<Rightarrow> nat \<Rightarrow> RespValue list \<Rightarrow> unit act" where
  "brpopCommand pf p args = bpopGeneric pf p args False"

section \<open>Hashes\<close>

text \<open>The unsigned \<^verbatim>\<open>args.size() - 2\<close> may wrap, which leaves its parity.\<close>

definition hsetCommand :: "platform \<Rightarrow> nat \<Rightarrow> RespValue list \<Rightarrow> unit act" where
  "hsetCommand pf p args =
     (if length args mod 2 \<noteq> 0
      then reply p (reply_error ''wrong number of arguments for 'hset' command'')
      else
        bnd (selected p) (\<lambda>db.
        bnd (argStr args 1) (\<lambda>key.
        bnd (openForWrite pf p db key THash (HashObject newTable)) (\<lambda>go.
        if \<not> go then ret ()
        else bnd (countEach (map (\<lambda>j. 2 * j + 2) [0..<(length args - 2) div 2]) (\<lambda>i.
                bnd (argStr args i) (\<lambda>field.
                bnd (argStr args (i + 1)) (\<lambda>val.
                onObject db key (inHash (ht_set (hasher pf) field val))))) 0) (\<lambda>added.
          reply p (reply_integer (int added)))))))"

definition hgetCommand :: "platform \<Rightarrow> nat \<Rightarrow> RespValue list \<Rightarrow> unit act" where
  "hgetCommand pf p args =
     bnd (selected p) (\<lambda>db.
     bnd (argStr args 1) (\<lambda>key.
     bnd (argStr args 2) (\<lambda>field.
     bnd (openForRead pf p db key THash reply_nullBulkString) (\<lambda>ob. case ob of
       None \<Rightarrow> ret ()
     | Some ob \<Rightarrow>
         bnd (lift (obj_asHash ob)) (\<lambda>h.
         reply p (case ht_get (hasher pf) field h of
             Some v \<Rightarrow> reply_bulkString v
           | None \<Rightarrow> reply_nullBulkString))))))"

definition hgetallCommand :: "platform \<Rightarrow> nat \<Rightarrow> RespValue list \<Rightarrow> unit act" where
  "hgetallCommand pf p args =
     bnd (selected p) (\<lambda>db.
     bnd (argStr args 1) (\<lambda>key.
     bnd (openForRead pf p db key THash reply_emptyArray) (\<lambda>ob. case ob of
       None \<Rightarrow> ret ()
     | Some ob \<Rightarrow>
         bnd (lift (obj_asHash ob)) (\<lambda>h.
         reply p (reply_bulkStringArray
           (foldl (\<lambda>results kv. results @ [fst kv, snd kv]) [] (ht_entries h)))))))"

section \<open>Sets\<close>

definition saddCommand :: "platform \<Rightarrow> nat \<Rightarrow> RespValue list \<Rightarrow> unit act" where
  "saddCommand pf p args =
     bnd (selected p) (\<lambda>db.
     bnd (argStr args 1) (\<lambda>key.
     bnd (openForWrite pf p db key TSet (SetObject newSet)) (\<lambda>go.
     if \<not> go then ret ()
     else bnd (countEach (drop 2 args) (\<lambda>a.
             bnd (lift (asString a)) (\<lambda>m. onObject db key (inSet (hs_add (hasher pf) m)))) 0) (\<lambda>added.
       reply p (reply_integer (int added))))))"

definition sremCommand :: "platform \<Rightarrow> nat \<Rightarrow> RespValue list \<Rightarrow> unit act" where
  "sremCommand pf p args =
     bnd (selected p) (\<lambda>db.
     bnd (argStr args 1) (\<lambda>key.
     bnd (openExisting pf p db key TSet (reply_integer 0)) (\<lambda>go.
     if \<not> go then ret ()
     else bnd (countEach (drop 2 args) (\<lambda>a.
             bnd (lift (asString a)) (\<lambda>m. onObject db key (inSet (hs_remove (hasher pf) m)))) 0) (\<lambda>removed.
       bnd (onObject db key (inSet (\<lambda>s. (hs_empty s, s)))) (\<lambda>empty.
       seq (if empty then seq (onDb db (db_del pf key)) (ret ()) else ret ())
       (reply p (reply_integer (int removed))))))))"

definition sismemberCommand :: "platform \<Rightarrow> nat \<Rightarrow> RespValue list \<Rightarrow> unit act" where
  "sismemberCommand pf p args =
     bnd (selected p) (\<lambda>db.
     bnd (argStr args 1) (\<lambda>key.
     bnd (argStr args 2) (\<lambda>m.
     bnd (openForRead pf p db key TSet (reply_integer 0)) (\<lambda>ob. case ob of
       None \<Rightarrow> ret ()
     | Some ob \<Rightarrow>
         bnd (lift (obj_asSet ob)) (\<lambda>s.
         reply p (reply_integer (if hs_contains (hasher pf) m s then 1 else 0)))))))"

definition smembersCommand :: "platform \<Rightarrow> nat \<Rightarrow> RespValue list \<Rightarrow> unit act" where
  "smembersCommand pf p args =
     bnd (selected p) (\<lambda>db.
     bnd (argStr args 1) (\<lambda>key.
     bnd (openForRead pf p db key TSet reply_emptyArray) (\<lambda>ob. case ob of
       None \<Rightarrow> ret ()
     | Some ob \<Rightarrow>
         bnd (lift (obj_asSet ob)) (\<lambda>s.
         reply p (reply_bulkStringArray (hs_members s))))))"

end
