(* ===== verification/Decimal.thy ===== *)
theory Decimal
  imports Float64
begin

text \<open>
  The text of floating point numbers: \<^verbatim>\<open>std::to_string(double)\<close>, which prints six
  decimals, and \<^verbatim>\<open>std::stod\<close>, which reads decimal and hexadecimal notation,
  infinities and NaN and rounds to the nearest double, ties to even. Both are exact
  computations on natural numbers.
\<close>

section \<open>Rounding\<close>

text \<open>The quotient rounded to the nearest integer, ties to even.\<close>

definition round_div :: "nat \<Rightarrow> nat \<Rightarrow> nat" where
  "round_div n d = (let q = n div d; r = n mod d
     in if 2 * r < d \<or> (2 * r = d \<and> even q) then q else q + 1)"

fun bit_length :: "nat \<Rightarrow> nat" where
  "bit_length n = (if n = 0 then 0 else 1 + bit_length (n div 2))"

declare bit_length.simps [simp del]

definition pow2 :: "int \<Rightarrow> nat" where
  "pow2 e = 2 ^ nat e"

text \<open>
  The double nearest to \<open>n / d\<close>, by its bit pattern without the sign, and whether it is
  exact: the exponent is chosen so that the significand has 53 bits, or is the least one.
\<close>

definition nearest_double :: "nat \<Rightarrow> nat \<Rightarrow> nat \<times> bool" where
  "nearest_double n d =
     (let b = int (bit_length n) - int (bit_length d);
          l = (if n * pow2 (- b) \<ge> d * pow2 b then b else b - 1);
          e = max (- 1074) (l - 52);
          n' = n * pow2 (- e); d' = d * pow2 e
      in (round_div n' d' + nat (e + 1074) * 2 ^ 52, n' mod d' = 0))"

definition double_of_bits :: "bool \<Rightarrow> nat \<Rightarrow> double" where
  "double_of_bits neg b = of_nat (b + (if neg then 2 ^ 63 else 0))"

definition inf_bits :: nat where "inf_bits = 2047 * 2 ^ 52"

text \<open>\<^verbatim>\<open>ERANGE\<close>: too large, or too small to be represented without loss.\<close>

definition to_double :: "bool \<Rightarrow> nat \<Rightarrow> nat \<Rightarrow> double result" where
  "to_double neg n d =
     (if n = 0 then Inr (double_of_bits neg 0)
      else case nearest_double n d of (b, exact) \<Rightarrow>
        if b \<ge> inf_bits \<or> (b < 2 ^ 52 \<and> \<not> exact) then Inl OutOfRange else Inr (double_of_bits neg b))"

section \<open>Printing\<close>

text \<open>Magnitude of a finite double as a fraction.\<close>

definition exponent :: "double \<Rightarrow> int" where
  "exponent x = (let e = magnitude x div 2 ^ 52 in if e = 0 then - 1074 else e - 1075)"

definition significand :: "double \<Rightarrow> nat" where
  "significand x = nat (magnitude x mod 2 ^ 52 + (if magnitude x div 2 ^ 52 = 0 then 0 else 2 ^ 52))"

definition six_digits :: "nat \<Rightarrow> string" where
  "six_digits n = replicate (6 - length (nat_to_dec n)) (CHR ''0'') @ nat_to_dec n"

definition float_to_string :: "double \<Rightarrow> string" where
  "float_to_string x = (if negative x then ''-'' else '''') @
     (if is_nan x then ''nan''
      else if magnitude x = int inf_bits then ''inf''
      else let s = round_div (significand x * 10 ^ 6 * pow2 (exponent x)) (pow2 (- exponent x))
           in nat_to_dec (s div 10 ^ 6) @ ''.'' @ six_digits (s mod 10 ^ 6))"

section \<open>Reading\<close>

definition is_xdigit :: "char \<Rightarrow> bool" where
  "is_xdigit c \<longleftrightarrow> is_digit c \<or> to_lower c \<in> set ''abcdef''"

definition xdigit_val :: "char \<Rightarrow> nat" where
  "xdigit_val c = (if is_digit c then digit_val c else of_char (to_lower c) - 87)"

definition hex_val :: "string \<Rightarrow> nat" where
  "hex_val ds = foldl (\<lambda>a c. 16 * a + xdigit_val c) 0 ds"

text \<open>Digits, a point and digits again, at least one of them: \<open>(whole, fraction, rest)\<close>.\<close>

definition digits_point :: "(char \<Rightarrow> bool) \<Rightarrow> string \<Rightarrow> (string \<times> string \<times> string) option" where
  "digits_point isd s =
     (let a = takeWhile isd s; r = dropWhile isd s;
          b = (if r \<noteq> [] \<and> hd r = CHR ''.'' then takeWhile isd (tl r) else '''');
          r' = (if r \<noteq> [] \<and> hd r = CHR ''.'' then dropWhile isd (tl r) else r)
      in if a = [] \<and> b = [] then None else Some (a, b, r'))"

text \<open>An exponent part, if one follows: a letter, an optional sign, digits.\<close>

definition exponent_part :: "char \<Rightarrow> string \<Rightarrow> int" where
  "exponent_part letter s =
     (if s \<noteq> [] \<and> to_lower (hd s) = letter then
        (let t = tl s; sgn = (t \<noteq> [] \<and> (hd t = CHR ''-'' \<or> hd t = CHR ''+''));
             ds = takeWhile is_digit (if sgn then tl t else t); v = int (dec_val ds)
         in if t \<noteq> [] \<and> hd t = CHR ''-'' then - v else v)
      else 0)"

definition scaled :: "nat \<Rightarrow> int \<Rightarrow> nat \<Rightarrow> int \<Rightarrow> nat \<times> nat" where
  "scaled base e m k = (m * base ^ nat e * 2 ^ nat k, base ^ nat (- e) * 2 ^ nat (- k))"

text \<open>\<^verbatim>\<open>std::stod\<close>: what follows the number is ignored.\<close>

definition stod :: "string \<Rightarrow> double result" where
  "stod str =
     (let s = dropWhile is_space str;
          neg = (s \<noteq> [] \<and> hd s = CHR ''-'');
          t = (if neg \<or> (s \<noteq> [] \<and> hd s = CHR ''+'') then tl s else s);
          low = map to_lower t;
          hex = (if take 2 low = ''0x'' then digits_point is_xdigit (drop 2 t) else None)
      in if take 3 low = ''inf'' then Inr (double_of_bits neg inf_bits)
         else if take 3 low = ''nan'' then Inr (double_of_bits neg (inf_bits + 2 ^ 51))
         else case hex of
           Some (a, b, r) \<Rightarrow>
             (let (n, d) = scaled 1 0 (hex_val (a @ b)) (exponent_part (CHR ''p'') r - 4 * int (length b))
              in to_double neg n d)
         | None \<Rightarrow> (case digits_point is_digit t of
               None \<Rightarrow> Inl InvalidArgument
             | Some (a, b, r) \<Rightarrow>
                 (let (n, d) = scaled 10 (exponent_part (CHR ''e'') r - int (length b)) (dec_val (a @ b)) 0
                  in to_double neg n d)))"

text \<open>The text a command sends for a score: trailing zeros and a final point removed.\<close>

definition trimScore :: "string \<Rightarrow> string" where
  "trimScore s = (let t = rev (dropWhile (\<lambda>c. c = CHR ''0'') (rev s))
     in if t \<noteq> [] \<and> last t = CHR ''.'' then butlast t else t)"

end
