(* ===== verification/ZsetCommands.thy ===== *)
theory ZsetCommands
  imports Commands Decimal
begin

text \<open>
  The handlers of \<^verbatim>\<open>commands/zset_commands.cpp\<close>: sorted sets, with scores read by
  \<^const>\<open>stod\<close> and printed by \<^const>\<open>float_to_string\<close>.
\<close>

definition stol :: "platform \<Rightarrow> string \<Rightarrow> int result" where
  "stol pf = strtol_range (- (2 ^ (long_bits pf - 1))) (2 ^ (long_bits pf - 1) - 1)"

definition inZset :: "(sorted_set \<Rightarrow> ('a \<times> sorted_set) option) \<Rightarrow> contents \<Rightarrow> ('a \<times> contents) option" where
  "inZset f v = (case v of
      SortedSetObject z \<Rightarrow> map_option (\<lambda>(r, z'). (r, SortedSetObject z')) (f z) | _ \<Rightarrow> None)"

text \<open>
  The loop over score and member. A score that is no number ends the command; the members
  before it have been added.
\<close>

primrec zaddLoop ::
  "platform \<Rightarrow> nat \<Rightarrow> RespValue list \<Rightarrow> int \<Rightarrow> string \<Rightarrow> nat list \<Rightarrow> nat \<Rightarrow> nat option act" where
  "zaddLoop pf p args db key [] added = ret (Some added)"
| "zaddLoop pf p args db key (i # is) added =
     bnd (tryNumber stod args i) (\<lambda>r. case r of
       None \<Rightarrow> seq (reply p (reply_error ''value is not a valid float'')) (ret None)
     | Some s \<Rightarrow>
         bnd (argStr args (i + 1)) (\<lambda>m.
         bnd (onObject db key (inZset (ss_add (hasher pf) m s))) (\<lambda>n.
         zaddLoop pf p args db key is (if n = 1 then added + 1 else added))))"

definition zaddCommand :: "platform \<Rightarrow> nat \<Rightarrow> RespValue list \<Rightarrow> unit act" where
  "zaddCommand pf p args =
     (if length args mod 2 \<noteq> 0
      then reply p (reply_error ''wrong number of arguments for 'zadd' command'')
      else
        bnd (selected p) (\<lambda>db.
        bnd (argStr args 1) (\<lambda>key.
        bnd (openForWrite pf p db key TSortedSet (SortedSetObject (newSortedSet (rng_seed pf 0)))) (\<lambda>go.
        if \<not> go then ret ()
        else bnd (zaddLoop pf p args db key (map (\<lambda>j. 2 * j + 2) [0..<(length args - 2) div 2]) 0) (\<lambda>r.
          case r of None \<Rightarrow> ret () | Some added \<Rightarrow> reply p (reply_integer (int added)))))))"

text \<open>\<^const>\<open>None\<close> is the early return after an option that is not \<^verbatim>\<open>WITHSCORES\<close>.\<close>

definition withScores :: "nat \<Rightarrow> RespValue list \<Rightarrow> bool option act" where
  "withScores p args =
     (if length args > 4 then
        bnd (argStr args 4) (\<lambda>opt.
        if upper opt = ''WITHSCORES'' then ret (Some True)
        else seq (reply p (reply_error ''syntax error'')) (ret None))
      else ret (Some False))"

text \<open>Both bounds are read in one \<^verbatim>\<open>try\<close> block.\<close>

definition zrangeBounds :: "platform \<Rightarrow> RespValue list \<Rightarrow> (int \<times> int) option act" where
  "zrangeBounds pf args =
     bnd (tryNumber (stol pf) args 2) (\<lambda>start. case start of
       None \<Rightarrow> ret None
     | Some a \<Rightarrow> bnd (tryNumber (stol pf) args 3) (\<lambda>stop. case stop of
         None \<Rightarrow> ret None
       | Some b \<Rightarrow> ret (Some (a, b))))"

definition rangeReply :: "bool \<Rightarrow> (string \<times> double) list \<Rightarrow> string list" where
  "rangeReply scores elements =
     foldl (\<lambda>results p. results @ fst p # (if scores then [trimScore (float_to_string (snd p))] else []))
       [] elements"

definition zrangeCommand :: "platform \<Rightarrow> nat \<Rightarrow> RespValue list \<Rightarrow> unit act" where
  "zrangeCommand pf p args =
     bnd (withScores p args) (\<lambda>opt. case opt of None \<Rightarrow> ret ()
     | Some scores \<Rightarrow>
         bnd (selected p) (\<lambda>db.
         bnd (argStr args 1) (\<lambda>key.
         bnd (zrangeBounds pf args) (\<lambda>bounds. case bounds of
           None \<Rightarrow> reply p not_an_integer
         | Some (start, stop) \<Rightarrow>
             bnd (openForRead pf p db key TSortedSet reply_emptyArray) (\<lambda>ob. case ob of
               None \<Rightarrow> ret ()
             | Some ob \<Rightarrow>
                 bnd (lift (obj_asSortedSet ob)) (\<lambda>z.
                 bnd (defined (ss_rangeByRank (long_bits pf) start stop z)) (\<lambda>elements.
                 reply p (reply_bulkStringArray (rangeReply scores elements)))))))))"

definition zrankCommand :: "platform \<Rightarrow> nat \<Rightarrow> RespValue list \<Rightarrow> unit act" where
  "zrankCommand pf p args =
     bnd (selected p) (\<lambda>db.
     bnd (argStr args 1) (\<lambda>key.
     bnd (argStr args 2) (\<lambda>m.
     bnd (openForRead pf p db key TSortedSet reply_nullBulkString) (\<lambda>ob. case ob of
       None \<Rightarrow> ret ()
     | Some ob \<Rightarrow>
         bnd (lift (obj_asSortedSet ob)) (\<lambda>z.
         if ss_getScore (hasher pf) m z = None then reply p reply_nullBulkString
         else bnd (defined (ss_getRank (hasher pf) m z)) (\<lambda>rank.
           reply p (reply_integer (int rank))))))))"

definition zscoreCommand :: "platform \<Rightarrow> nat \<Rightarrow> RespValue list \<Rightarrow> unit act" where
  "zscoreCommand pf p args =
     bnd (selected p) (\<lambda>db.
     bnd (argStr args 1) (\<lambda>key.
     bnd (argStr args 2) (\<lambda>m.
     bnd (openForRead pf p db key TSortedSet reply_nullBulkString) (\<lambda>ob. case ob of
       None \<Rightarrow> ret ()
     | Some ob \<Rightarrow>
         bnd (lift (obj_asSortedSet ob)) (\<lambda>z.
         reply p (case ss_getScore (hasher pf) m z of
             Some s \<Rightarrow> reply_bulkString (trimScore (float_to_string s))
           | None \<Rightarrow> reply_nullBulkString))))))"

definition zremCommand :: "platform \<Rightarrow> nat \<Rightarrow> RespValue list \<Rightarrow> unit act" where
  "zremCommand pf p args =
     bnd (selected p) (\<lambda>db.
     bnd (argStr args 1) (\<lambda>key.
     bnd (openExisting pf p db key TSortedSet (reply_integer 0)) (\<lambda>go.
     if \<not> go then ret ()
     else bnd (countEach (drop 2 args) (\<lambda>a.
             bnd (lift (asString a)) (\<lambda>m.
             bnd (onObject db key (inZset (ss_remove (hasher pf) m))) (\<lambda>n. ret (n = 1)))) 0) (\<lambda>removed.
       bnd (onObject db key (inZset (\<lambda>z. Some (ss_empty z, z)))) (\<lambda>empty.
       seq (if empty then seq (onDb db (db_del pf key)) (ret ()) else ret ())
       (reply p (reply_integer (int removed))))))))"

end
