(* ===== verification/ServerCommands.thy ===== *)
theory ServerCommands
  imports ServerState
begin

text \<open>
  The handlers of \<^verbatim>\<open>commands/server_commands.cpp\<close>,
  \<^verbatim>\<open>commands/transaction_commands.cpp\<close>, \<^verbatim>\<open>commands/pubsub_commands.cpp\<close> and
  \<^verbatim>\<open>commands/replication_commands.cpp\<close>. \<^verbatim>\<open>SAVE\<close>, \<^verbatim>\<open>BGSAVE\<close>,
  \<^verbatim>\<open>BGREWRITEAOF\<close> and \<^verbatim>\<open>DEBUG\<close>, which work on files, are in the theory \<open>Persistence\<close>,
  and \<^verbatim>\<open>COMMAND\<close>, which lists the registry, in \<open>Dispatch\<close>.
\<close>

section \<open>Connection and server\<close>

definition pingCommand :: "nat \<Rightarrow> RespValue list \<Rightarrow> unit act" where
  "pingCommand p args =
     (if length args \<ge> 2 then bnd (argStr args 1) (\<lambda>s. reply p (reply_bulkString s))
      else reply p reply_pong)"

definition echoCommand :: "nat \<Rightarrow> RespValue list \<Rightarrow> unit act" where
  "echoCommand p args = bnd (argStr args 1) (\<lambda>s. reply p (reply_bulkString s))"

definition dbsizeCommand :: "nat \<Rightarrow> RespValue list \<Rightarrow> unit act" where
  "dbsizeCommand p args =
     bnd (selected p) (\<lambda>db.
     bnd (onDb db (\<lambda>ks. (db_size ks, ks))) (\<lambda>n.
     reply p (reply_integer (int n))))"

definition flushdbCommand :: "platform \<Rightarrow> nat \<Rightarrow> RespValue list \<Rightarrow> unit act" where
  "flushdbCommand pf p args =
     bnd (selected p) (\<lambda>db. seq (runDb db (db_flushDb pf)) (reply p reply_ok))"

definition selectCommand :: "nat \<Rightarrow> RespValue list \<Rightarrow> unit act" where
  "selectCommand p args =
     bnd (try_catch (bnd (argStr args 1) (\<lambda>s. bnd (lift (stoll s)) (\<lambda>n. ret (Some n))))
            (\<lambda>_. ret None)) (\<lambda>r. case r of
       None \<Rightarrow> reply p (reply_error ''invalid DB index'')
     | Some n \<Rightarrow>
         bnd (gets (\<lambda>w. int (length (databases w)))) (\<lambda>databaseCount.
         if n < 0 \<or> n \<ge> databaseCount then reply p (reply_error ''DB index is out of range'')
         else seq (setClient p (\<lambda>c. c\<lparr>selectedDb := n\<rparr>)) (reply p reply_ok)))"

definition quitCommand :: "nat \<Rightarrow> RespValue list \<Rightarrow> unit act" where
  "quitCommand p args = seq (reply p reply_ok) (setClient p (setFlag CLIENT_CLOSE_ASAP))"

definition infoText :: "platform \<Rightarrow> world \<Rightarrow> string" where
  "infoText pf w = (let cfg = w_config w; dbs = databases w in
     ''# Server'' @ CRLF @ ''redis_version:0.1.0 (RedisDB)'' @ CRLF
     @ ''tcp_port:'' @ int_to_dec (cfg_port cfg) @ CRLF
     @ ''uptime_in_seconds:'' @ int_to_dec (uptime_seconds pf) @ CRLF
     @ CRLF @ ''# Clients'' @ CRLF
     @ ''connected_clients:'' @ nat_to_dec (length (connections w)) @ CRLF
     @ CRLF @ ''# Memory'' @ CRLF
     @ ''used_memory:'' @ nat_to_dec (unat (usedMemory (w_mem w))) @ CRLF
     @ ''maxmemory:'' @ int_to_dec (maxMemory cfg) @ CRLF
     @ ''maxmemory_policy:'' @ maxMemoryPolicy cfg @ CRLF
     @ CRLF @ ''# Persistence'' @ CRLF
     @ ''aof_enabled:'' @ (if appendOnly cfg then ''1'' else ''0'') @ CRLF
     @ ''rdb_changes_since_last_save:'' @ int_to_dec (sum_list (map dirty dbs)) @ CRLF
     @ CRLF @ ''# Stats'' @ CRLF
     @ ''total_connections_received:'' @ nat_to_dec (totalConnectionsReceived w) @ CRLF
     @ ''total_commands_processed:'' @ nat_to_dec (totalCommandsProcessed w) @ CRLF
     @ ''keyspace_hits:'' @ nat_to_dec (sum_list (map hits dbs)) @ CRLF
     @ ''keyspace_misses:'' @ nat_to_dec (sum_list (map misses dbs)) @ CRLF
     @ CRLF @ ''# Replication'' @ CRLF
     @ (if replicaOf cfg = '''' then ''role:master'' @ CRLF
        else ''role:slave'' @ CRLF @ ''master_host:'' @ replicaOf cfg @ CRLF
          @ ''master_port:'' @ int_to_dec (replicaOfPort cfg) @ CRLF)
     @ CRLF @ ''# Keyspace'' @ CRLF
     @ concat (map (\<lambda>i. if data (dbs ! i) = [] then ''''
          else ''db'' @ nat_to_dec i @ '':keys='' @ nat_to_dec (length (data (dbs ! i)))
            @ '',expires='' @ nat_to_dec (length (expires (dbs ! i))) @ CRLF) [0..<length dbs]))"

definition infoCommand :: "platform \<Rightarrow> nat \<Rightarrow> RespValue list \<Rightarrow> unit act" where
  "infoCommand pf p args = bnd (gets (infoText pf)) (\<lambda>s. reply p (reply_bulkString s))"

definition setConfig :: "(config \<Rightarrow> config) \<Rightarrow> unit act" where
  "setConfig f = modify (\<lambda>w. w\<lparr>w_config := f (w_config w)\<rparr>)"

definition configGet :: "nat \<Rightarrow> string \<Rightarrow> unit act" where
  "configGet p param = bnd (gets w_config) (\<lambda>cfg.
     if param = ''maxmemory'' then
       reply p (reply_bulkStringArray [''maxmemory'', int_to_dec (maxMemory cfg)])
     else if param = ''maxmemory-policy'' then
       reply p (reply_bulkStringArray [''maxmemory-policy'', maxMemoryPolicy cfg])
     else if param = ''appendonly'' then
       reply p (reply_bulkStringArray [''appendonly'', if appendOnly cfg then ''yes'' else ''no''])
     else reply p reply_emptyArray)"

definition configSet :: "nat \<Rightarrow> string \<Rightarrow> string \<Rightarrow> unit act" where
  "configSet p param val =
     (if param = ''maxmemory'' then
        bnd (lift (stoll val)) (\<lambda>n. seq (setConfig (\<lambda>c. c\<lparr>maxMemory := n\<rparr>)) (reply p reply_ok))
      else if param = ''maxmemory-policy'' then
        seq (setConfig (\<lambda>c. c\<lparr>maxMemoryPolicy := val\<rparr>)) (reply p reply_ok)
      else if param = ''appendonly'' then
        seq (setConfig (\<lambda>c. c\<lparr>appendOnly := (val = ''yes'' \<or> val = ''1'')\<rparr>)) (reply p reply_ok)
      else reply p (reply_error ''ERR Unsupported CONFIG parameter''))"

definition configCommand :: "nat \<Rightarrow> RespValue list \<Rightarrow> unit act" where
  "configCommand p args =
     (if length args < 3
      then reply p (reply_error ''ERR wrong number of arguments for 'config' command'')
      else
        bnd (argStr args 1) (\<lambda>sub.
        bnd (argStr args 2) (\<lambda>param.
        if upper sub = ''GET'' then configGet p param
        else if upper sub = ''SET'' then
          (if length args < 4
           then reply p (reply_error ''ERR wrong number of arguments for 'config set' command'')
           else bnd (argStr args 3) (configSet p param))
        else reply p (reply_error ''ERR unknown CONFIG subcommand''))))"

section \<open>Transactions\<close>

definition multiCommand :: "nat \<Rightarrow> RespValue list \<Rightarrow> unit act" where
  "multiCommand p args = bnd (theClient p) (\<lambda>c.
     if hasFlag CLIENT_MULTI c then reply p (reply_error ''ERR MULTI calls can not be nested'')
     else seq (setClient p (setFlag CLIENT_MULTI)) (reply p (reply_simpleString ''OK'')))"

text \<open>
  \<^verbatim>\<open>EXEC\<close>: \<open>run\<close> looks a command up in the registry and calls its handler (\<^const>\<open>None\<close>
  if there is no such command). An exception of a handler is answered, not propagated.
  \<^verbatim>\<open>Server::propagateToAof\<close>, which is called for write commands, has an empty body.
\<close>

definition execOne ::
  "platform \<Rightarrow> (string \<Rightarrow> (nat \<Rightarrow> RespValue list \<Rightarrow> unit act) option) \<Rightarrow> nat \<Rightarrow> RespValue list \<Rightarrow> unit act" where
  "execOne pf run p cmd =
     bnd (argStr cmd 0) (\<lambda>cmdName. case run cmdName of
       None \<Rightarrow> reply p (reply_error ''unknown command'')
     | Some handler \<Rightarrow>
         try_catch (seq (handler p cmd)
             (modify (\<lambda>w. w\<lparr>totalCommandsProcessed := totalCommandsProcessed w + 1\<rparr>)))
           (\<lambda>e. reply p (reply_error (''internal error: '' @ what pf e))))"

definition execCommand ::
  "platform \<Rightarrow> (string \<Rightarrow> (nat \<Rightarrow> RespValue list \<Rightarrow> unit act) option) \<Rightarrow> nat \<Rightarrow> RespValue list \<Rightarrow> unit act" where
  "execCommand pf run p args = bnd (theClient p) (\<lambda>c.
     if \<not> hasFlag CLIENT_MULTI c then reply p (reply_error ''ERR EXEC without MULTI'')
     else if hasFlag CLIENT_DIRTY_EXEC c then
       seq (setClient p clearTransaction) (reply p reply_nullArray)
     else
       seq (setClient p clearTransaction)
       (seq (reply p (''*'' @ nat_to_dec (length (transactionQueue c)) @ CRLF))
       (forEach (transactionQueue c) (execOne pf run p))))"

definition forgetWatched :: "nat \<Rightarrow> unit act" where
  "forgetWatched p = bnd (theClient p) (\<lambda>c.
     seq (forEach (watching c) (\<lambda>key. modify (removeWatcher key p)))
     (setClient p (\<lambda>c. c\<lparr>watching := []\<rparr>)))"

definition discardCommand :: "nat \<Rightarrow> RespValue list \<Rightarrow> unit act" where
  "discardCommand p args = bnd (theClient p) (\<lambda>c.
     if \<not> hasFlag CLIENT_MULTI c then reply p (reply_error ''ERR DISCARD without MULTI'')
     else seq (forgetWatched p)
       (seq (setClient p clearTransaction) (reply p (reply_simpleString ''OK''))))"

definition watchCommand :: "nat \<Rightarrow> RespValue list \<Rightarrow> unit act" where
  "watchCommand p args = bnd (theClient p) (\<lambda>c.
     if hasFlag CLIENT_MULTI c then reply p (reply_error ''ERR WATCH inside MULTI is not allowed'')
     else
       bnd (selected p) (\<lambda>db.
       seq (forEach (tl args) (\<lambda>a.
              bnd (lift (asString a)) (\<lambda>key.
              seq (setClient p (\<lambda>c. c\<lparr>watching := List.insert key (watching c)\<rparr>))
              (runDb db (addWatchedKey key p)))))
       (reply p (reply_simpleString ''OK''))))"

definition unwatchCommand :: "nat \<Rightarrow> RespValue list \<Rightarrow> unit act" where
  "unwatchCommand p args =
     seq (forgetWatched p)
     (seq (setClient p (clearFlag CLIENT_DIRTY_EXEC)) (reply p (reply_simpleString ''OK'')))"

section \<open>Publish and subscribe\<close>

definition subscriptions :: "nat \<Rightarrow> nat act" where
  "subscriptions p = bnd (theClient p) (\<lambda>c. ret (length (subscribed c) + length (psubscribed c)))"

definition subscriptionReply :: "string \<Rightarrow> string \<Rightarrow> nat \<Rightarrow> string" where
  "subscriptionReply kind name n = ''*3'' @ CRLF @ ''$'' @ nat_to_dec (length kind) @ CRLF @ kind @ CRLF
     @ ''$'' @ nat_to_dec (length name) @ CRLF @ name @ CRLF @ '':'' @ nat_to_dec n @ CRLF"

definition notify :: "nat \<Rightarrow> string \<Rightarrow> (nat \<Rightarrow> string \<Rightarrow> unit act) \<Rightarrow> string \<Rightarrow> unit act" where
  "notify p kind change name =
     seq (change p name)
     (bnd (subscriptions p) (\<lambda>n. reply p (subscriptionReply kind name n)))"

definition subscribeCommand :: "nat \<Rightarrow> RespValue list \<Rightarrow> unit act" where
  "subscribeCommand p args =
     seq (setClient p (setFlag CLIENT_PUBSUB))
     (forEach (tl args) (\<lambda>a. bnd (lift (asString a)) (notify p ''subscribe'' subscribeChannel)))"

definition psubscribeCommand :: "nat \<Rightarrow> RespValue list \<Rightarrow> unit act" where
  "psubscribeCommand p args =
     seq (setClient p (setFlag CLIENT_PUBSUB))
     (forEach (tl args) (\<lambda>a. bnd (lift (asString a)) (notify p ''psubscribe'' psubscribePattern)))"

definition leavePubSub :: "nat \<Rightarrow> unit act" where
  "leavePubSub p = bnd (subscriptions p) (\<lambda>n.
     if n = 0 then setClient p (clearFlag CLIENT_PUBSUB) else ret ())"

definition unsubscribeCommand :: "nat \<Rightarrow> RespValue list \<Rightarrow> unit act" where
  "unsubscribeCommand p args =
     seq (if length args = 1
          then bnd (theClient p) (\<lambda>c. forEach (subscribed c) (notify p ''unsubscribe'' unsubscribeChannel))
          else forEach (tl args) (\<lambda>a. bnd (lift (asString a)) (notify p ''unsubscribe'' unsubscribeChannel)))
     (leavePubSub p)"

definition punsubscribeCommand :: "nat \<Rightarrow> RespValue list \<Rightarrow> unit act" where
  "punsubscribeCommand p args =
     seq (if length args = 1
          then bnd (theClient p) (\<lambda>c. forEach (psubscribed c) (notify p ''punsubscribe'' punsubscribePattern))
          else forEach (tl args) (\<lambda>a. bnd (lift (asString a)) (notify p ''punsubscribe'' punsubscribePattern)))
     (leavePubSub p)"

definition publishCommand :: "nat \<Rightarrow> RespValue list \<Rightarrow> unit act" where
  "publishCommand p args =
     bnd (argStr args 1) (\<lambda>channel.
     bnd (argStr args 2) (\<lambda>message.
     bnd (publishMessage channel message) (\<lambda>n.
     reply p ('':'' @ nat_to_dec n @ CRLF))))"

section \<open>Replication\<close>

definition replicaofCommand :: "platform \<Rightarrow> nat \<Rightarrow> RespValue list \<Rightarrow> unit act" where
  "replicaofCommand pf p args =
     bnd (argStr args 1) (\<lambda>host.
     bnd (argStr args 2) (\<lambda>portStr.
     if host = ''NO'' \<and> portStr = ''ONE''
     then seq disconnectFromMaster (reply p (reply_simpleString ''OK''))
     else try_catch (bnd (lift (stoi portStr)) (\<lambda>port.
         seq (setReplicationMaster pf host port) (reply p (reply_simpleString ''OK''))))
       (\<lambda>_. reply p (reply_error ''ERR invalid port''))))"

definition replconfCommand :: "nat \<Rightarrow> RespValue list \<Rightarrow> unit act" where
  "replconfCommand p args =
     bnd (if length args \<ge> 3 then bnd (argStr args 1) (\<lambda>s. ret (s = ''ACK'')) else ret False) (\<lambda>ack.
     if ack then ret () else reply p (reply_simpleString ''OK''))"

definition alphanum :: string where
  "alphanum = ''0123456789ABCDEFGHIJKLMNOPQRSTUVWXYZabcdefghijklmnopqrstuvwxyz''"

definition generateReplId :: "platform \<Rightarrow> world \<Rightarrow> world" where
  "generateReplId pf w =
     w\<lparr>replId := map (\<lambda>i. alphanum ! (draw pf i mod length alphanum)) [0..<40]\<rparr>"

definition psyncCommand :: "platform \<Rightarrow> nat \<Rightarrow> RespValue list \<Rightarrow> unit act" where
  "psyncCommand pf p args =
     bnd (argStr args 1) (\<lambda>replid.
     bnd (argStr args 2) (\<lambda>offsetStr.
     seq (modify (\<lambda>w. if replId w = '''' then generateReplId pf w else w))
     (bnd (gets (\<lambda>w. w)) (\<lambda>w.
     if replid = ''?'' \<or> replid \<noteq> replId w then
       seq (reply p (''+FULLRESYNC '' @ replId w @ '' '' @ int_to_dec (masterReplOffset w) @ CRLF))
       (seq (reply p (reply_bulkString (''REDIS0009'' @ [CHR 0xFF])))
       (addReplica p))
     else seq (reply p (reply_simpleString ''CONTINUE'')) (addReplica p)))))"

definition waitCommand :: "nat \<Rightarrow> RespValue list \<Rightarrow> unit act" where
  "waitCommand p args =
     bnd (gets (\<lambda>w. length (replicas w))) (\<lambda>n. reply p (reply_integer (int n)))"

end
