(* ===== verification/Bytes.thy ===== *)
theory Bytes
  imports Prelude
begin

text \<open>
  What the snapshot format of \<^verbatim>\<open>storage/rdb_persistence.cpp\<close> writes integers and
  checksums with: the bytes of a 64-bit value in memory order (little-endian, as on the
  supported targets) and the table-driven CRC-64 at the top of that file, with the theorems
  that make it a checksum: the table computes the bitwise division, and no two inputs that
  differ in a single byte have the same checksum.
\<close>

section \<open>Values in memory\<close>

primrec le_bytes :: "nat \<Rightarrow> nat \<Rightarrow> string" where
  "le_bytes 0 n = []"
| "le_bytes (Suc k) n = char_of n # le_bytes k (n div 256)"

primrec le_nat :: "string \<Rightarrow> nat" where
  "le_nat [] = 0"
| "le_nat (c # cs) = of_char c + 256 * le_nat cs"

lemma length_le_bytes [simp]: "length (le_bytes k n) = k"
  by (induction k arbitrary: n) simp_all

lemma le_nat_le_bytes [simp]: "le_nat (le_bytes k n) = n mod 256 ^ k"
proof (induction k arbitrary: n)
  case 0
  then show ?case by simp
next
  case (Suc k)
  then show ?case by (simp add: of_char_of mod_mult2_eq)
qed

lemma of_char_byte: "(of_char c :: nat) < 256"
  by (metis mod_less_divisor of_char_mod_256 zero_less_numeral)

lemma le_nat_less: "le_nat s < 256 ^ length s"
proof (induction s)
  case Nil
  then show ?case by simp
next
  case (Cons c s)
  have "c < 256 \<Longrightarrow> l < p \<Longrightarrow> c + 256 * l < 256 * p" for c l p :: nat by linarith
  from this [OF of_char_byte Cons, of c] show ?case by simp
qed

section \<open>The checksum\<close>

unbundle bit_operations_syntax

definition crc64_poly :: "64 word" where "crc64_poly = 0xad93d23594bc8429"

text \<open>One turn of the inner loop of \<^verbatim>\<open>init_crc64\<close>.\<close>

definition crcStep :: "64 word \<Rightarrow> 64 word" where
  "crcStep crc = (if crc AND 1 \<noteq> 0 then drop_bit 1 crc XOR crc64_poly else drop_bit 1 crc)"

definition crc64_tab :: "64 word list" where
  "crc64_tab = map (\<lambda>i. (crcStep ^^ 8) (of_nat i)) [0..<256]"

definition byte_word :: "char \<Rightarrow> 64 word" where
  "byte_word c = of_nat (of_char c)"

definition crcByte :: "64 word \<Rightarrow> char \<Rightarrow> 64 word" where
  "crcByte crc c = crc64_tab ! unat ((crc XOR byte_word c) AND 0xff) XOR drop_bit 8 crc"

definition crc64_update :: "64 word \<Rightarrow> string \<Rightarrow> 64 word" where
  "crc64_update crc s = foldl crcByte crc s"

lemma crc64_update_append [simp]: "crc64_update crc (s @ t) = crc64_update (crc64_update crc s) t"
  by (simp add: crc64_update_def)

lemma crc64_update_Cons: "crc64_update crc (c # s) = crc64_update (crc64_update crc [c]) s"
  by (simp add: crc64_update_def)

lemma crc64_update_Nil [simp]: "crc64_update crc [] = crc"
  by (simp add: crc64_update_def)

text \<open>The step is linear and one to one: the polynomial's highest bit is set.\<close>

lemma and_one_bit: "(a :: 64 word) AND 1 \<noteq> 0 \<longleftrightarrow> bit a 0"
  by (simp add: and_one_eq odd_iff_mod_2_eq_one [symmetric] bit_0)

lemma crcStep_bit: "crcStep a = drop_bit 1 a XOR (if bit a 0 then crc64_poly else 0)"
  by (simp add: crcStep_def and_one_bit)

lemma crcStep_xor: "crcStep (a XOR b) = crcStep a XOR crcStep b"
  by (rule bit_word_eqI) (auto simp: crcStep_bit bit_simps)

lemma crcSteps_xor: "(crcStep ^^ n) (a XOR b) = (crcStep ^^ n) a XOR (crcStep ^^ n) b"
  by (induction n) (simp_all add: crcStep_xor)

lemma crcStep_zero:
  assumes "crcStep a = 0"
  shows "a = 0"
proof -
  have top: "bit crc64_poly 63" by (simp add: crc64_poly_def bit_iff_odd)
  have "\<not> bit (crcStep a) 63" using assms by simp
  moreover have "\<not> bit (drop_bit 1 a) 63" using bit_imp_le_length [of a 64] by (auto simp: bit_simps)
  ultimately have low: "\<not> bit a 0" using top by (auto simp: crcStep_bit bit_simps split: if_splits)
  with assms have "drop_bit 1 a = 0" by (simp add: crcStep_bit)
  then have "\<not> bit (drop_bit 1 a) n" for n by simp
  then have "\<not> bit a (Suc n)" for n by (simp add: bit_simps)
  with low have "\<not> bit a n" for n by (cases n) auto
  then show ?thesis by (intro bit_word_eqI) simp
qed

lemma xor_eq_0: "(x :: 64 word) XOR y = 0 \<Longrightarrow> x = y"
  by (rule bit_word_eqI) (metis bit_xor_iff bit_0_eq bot_apply bot_bool_def)

lemma xor_cancel: "(x :: 64 word) XOR z = y XOR z \<longleftrightarrow> x = y" "(z :: 64 word) XOR x = z XOR y \<longleftrightarrow> x = y"
  by (auto simp: bit_eq_iff [where 'a = "64 word"] bit_simps)

lemma crcStep_inject: "crcStep x = crcStep y \<longleftrightarrow> x = y"
  using crcStep_zero [of "x XOR y"] xor_eq_0 [of x y] by (auto simp: crcStep_xor)

lemma crcSteps_inject: "(crcStep ^^ n) a = (crcStep ^^ n) b \<longleftrightarrow> a = b"
  by (induction n) (simp_all add: crcStep_inject)

lemma crcSteps_shift: "\<forall>k<n. \<not> bit a k \<Longrightarrow> (crcStep ^^ n) a = drop_bit n a"
proof (induction n)
  case (Suc n)
  then have "(crcStep ^^ Suc n) a = crcStep (drop_bit n a)" by simp
  also have "\<dots> = drop_bit (Suc n) a" using Suc.prems by (simp add: crcStep_bit bit_simps)
  finally show ?case .
qed simp

lemma low_byte: "(0xff :: 64 word) = mask 8"
  by (simp add: mask_eq_exp_minus_1)

lemma and_low_byte: "(a :: 64 word) AND 0xff = take_bit 8 a"
  by (simp add: low_byte take_bit_eq_mask)

lemma tab_entry: "crc64_tab ! unat (take_bit 8 a) = (crcStep ^^ 8) (take_bit 8 a)"
proof -
  have "unat (take_bit 8 a) < 256"
    using take_bit_nat_less_exp [of 8 "unat a"] by (simp add: unsigned_take_bit_eq)
  then show ?thesis by (simp add: crc64_tab_def)
qed

text \<open>A byte of input is eight steps on the checksum with the byte added to it.\<close>

lemma byte_word_low: "take_bit 8 (byte_word c) = byte_word c"
proof -
  have "take_bit 8 (of_char c :: nat) = of_char c" by (simp add: take_bit_eq_mod of_char_mod_256)
  then show ?thesis by (simp add: byte_word_def take_bit_of_nat)
qed

lemma crcByte_steps: "crcByte crc c = (crcStep ^^ 8) (crc XOR byte_word c)"
proof -
  let ?a = "crc XOR byte_word c"
  have split: "?a = push_bit 8 (drop_bit 8 ?a) XOR take_bit 8 ?a"
    by (rule bit_word_eqI) (auto simp: bit_simps)
  have "drop_bit 8 (byte_word c) = 0"
    using byte_word_low [of c] by (metis drop_bit_take_bit diff_self_eq_0 take_bit_0)
  then have hi: "drop_bit 8 ?a = drop_bit 8 crc" by simp
  have "(crcStep ^^ 8) (push_bit 8 (drop_bit 8 ?a)) = drop_bit 8 (push_bit 8 (drop_bit 8 ?a))"
    by (rule crcSteps_shift) (simp add: bit_simps)
  also have "\<dots> = drop_bit 8 ?a"
    by (rule bit_word_eqI) (auto simp: bit_simps dest: bit_imp_le_length)
  finally have "(crcStep ^^ 8) ?a = drop_bit 8 crc XOR (crcStep ^^ 8) (take_bit 8 ?a)"
    by (subst split, subst crcSteps_xor) (simp only: hi)
  moreover have "crcByte crc c = (crcStep ^^ 8) (take_bit 8 ?a) XOR drop_bit 8 crc"
    by (simp only: crcByte_def and_low_byte tab_entry)
  ultimately show ?thesis by (simp only: xor.commute [of "drop_bit 8 crc"])
qed

lemma crc64_update_inject: "crc64_update a s = crc64_update b s \<longleftrightarrow> a = b"
proof (induction s arbitrary: a b)
  case (Cons c s)
  have "crcByte a c = crcByte b c \<longleftrightarrow> a = b" by (simp only: crcByte_steps crcSteps_inject xor_cancel)
  with Cons show ?case by (simp add: crc64_update_def)
qed simp

lemma byte_word_inject: "byte_word c = byte_word d \<longleftrightarrow> c = d"
proof
  assume "byte_word c = byte_word d"
  then have "unat (byte_word c) = unat (byte_word d)" by simp
  then have "(of_char c :: nat) = of_char d"
    using of_char_byte [of c] of_char_byte [of d] by (simp add: byte_word_def unat_of_nat take_bit_nat_eq_self)
  then show "c = d" by (metis char_of_char)
qed simp

lemma crcByte_inject: "crcByte crc c = crcByte crc d \<longleftrightarrow> c = d"
  by (simp only: crcByte_steps crcSteps_inject xor_cancel byte_word_inject)

section \<open>Properties\<close>

text \<open>C25: The checksum is the bitwise CRC-64 of its polynomial, although it is computed from a
  table, and it detects every corrupted byte: two inputs that differ in one byte only never
  have the same checksum.\<close>

theorem crc64_is_crc:
  "crc64_update crc s = foldl (\<lambda>c ch. (crcStep ^^ 8) (c XOR byte_word ch)) crc s \<and>
   (crc64_update crc (us @ a # vs) = crc64_update crc (us @ b # vs) \<longleftrightarrow> a = b)"
proof
  have step: "crcByte = (\<lambda>c ch. (crcStep ^^ 8) (c XOR byte_word ch))"
    by (rule ext)+ (rule crcByte_steps)
  show "crc64_update crc s = foldl (\<lambda>c ch. (crcStep ^^ 8) (c XOR byte_word ch)) crc s"
    by (simp only: crc64_update_def step)
  have "crc64_update crc (us @ c # vs) = crc64_update (crcByte (crc64_update crc us) c) vs" for c
    by (simp add: crc64_update_def)
  then show "crc64_update crc (us @ a # vs) = crc64_update crc (us @ b # vs) \<longleftrightarrow> a = b"
    by (simp add: crc64_update_inject crcByte_inject)
qed

end
