(* ===== verification/Rdb.thy ===== *)
theory Rdb
  imports World Bytes
begin

text \<open>
  Snapshots, \<^verbatim>\<open>storage/rdb_persistence.cpp\<close>: writing all databases to a file and
  loading a file into them. A file is its bytes. The writer carries the bytes written so far
  and the running checksum; that the disk takes the bytes is assumed, as the code does not
  look. The reader carries what is left of the file, the stream's state bit and the running
  checksum; a local variable that a short read leaves without a value is
  \<^const>\<open>Undefined\<close>, and a string too long to allocate is \<^const>\<open>LengthError\<close>.
\<close>

definition RDB_OPCODE_EOF :: nat where "RDB_OPCODE_EOF = 255"
definition RDB_OPCODE_SELECTDB :: nat where "RDB_OPCODE_SELECTDB = 254"
definition RDB_OPCODE_EXPIRETIME_MS :: nat where "RDB_OPCODE_EXPIRETIME_MS = 252"
definition RDB_OPCODE_EXPIRETIME :: nat where "RDB_OPCODE_EXPIRETIME = 253"
definition RDB_OPCODE_RESIZEDB :: nat where "RDB_OPCODE_RESIZEDB = 251"
definition RDB_TYPE_STRING :: nat where "RDB_TYPE_STRING = 0"
definition RDB_TYPE_LIST :: nat where "RDB_TYPE_LIST = 1"
definition RDB_TYPE_SET :: nat where "RDB_TYPE_SET = 2"
definition RDB_TYPE_ZSET :: nat where "RDB_TYPE_ZSET = 3"
definition RDB_TYPE_HASH :: nat where "RDB_TYPE_HASH = 4"

lemmas rdb_codes = RDB_OPCODE_EOF_def RDB_OPCODE_SELECTDB_def RDB_OPCODE_EXPIRETIME_MS_def
  RDB_OPCODE_EXPIRETIME_def RDB_OPCODE_RESIZEDB_def RDB_TYPE_STRING_def RDB_TYPE_LIST_def
  RDB_TYPE_SET_def RDB_TYPE_ZSET_def RDB_TYPE_HASH_def

section \<open>Writing\<close>

record rdb_out =
  out_bytes :: string
  out_crc :: "64 word"

text \<open>\<^verbatim>\<open>out.write(p, n); checksum = crc64_update(checksum, p, n);\<close>\<close>

definition emit :: "string \<Rightarrow> rdb_out \<Rightarrow> rdb_out" where
  "emit s out = \<lparr>out_bytes = out_bytes out @ s, out_crc = crc64_update (out_crc out) s\<rparr>"

definition writeByte :: "nat \<Rightarrow> rdb_out \<Rightarrow> rdb_out" where
  "writeByte val = emit [char_of val]"

definition writeLength :: "nat \<Rightarrow> rdb_out \<Rightarrow> rdb_out" where
  "writeLength len = emit (le_bytes 8 len)"

definition writeString :: "string \<Rightarrow> rdb_out \<Rightarrow> rdb_out" where
  "writeString str out = emit str (writeLength (length str) out)"

definition writeDouble :: "double \<Rightarrow> rdb_out \<Rightarrow> rdb_out" where
  "writeDouble val = emit (le_bytes 8 (unat val))"

text \<open>The loop over a list, whose counter and bound are of type \<^verbatim>\<open>int\<close>.\<close>

primrec writeElements :: "linked_list \<Rightarrow> int list \<Rightarrow> rdb_out \<Rightarrow> rdb_out option" where
  "writeElements l [] out = Some out"
| "writeElements l (j # js) out = do {
     val \<leftarrow> ll_get j l;
     writeElements l js (case val of Some s \<Rightarrow> writeString s out | None \<Rightarrow> out) }"

definition intRange :: "nat \<Rightarrow> int list" where
  "intRange n = map int [0..<nat (wrap32 (int n))]"

definition writeValue :: "platform \<Rightarrow> string \<Rightarrow> contents \<Rightarrow> rdb_out \<Rightarrow> rdb_out option" where
  "writeValue pf key v out = (case v of
      StringObject s \<Rightarrow> Some (writeString s (writeString key (writeByte RDB_TYPE_STRING out)))
    | ListObject l \<Rightarrow> writeElements l (intRange (ll_size l))
        (writeLength (ll_size l) (writeString key (writeByte RDB_TYPE_LIST out)))
    | HashObject h \<Rightarrow> Some (foldl (\<lambda>out kv. writeString (snd kv) (writeString (fst kv) out))
        (writeLength (ht_size h) (writeString key (writeByte RDB_TYPE_HASH out))) (ht_entries h))
    | SetObject s \<Rightarrow> Some (foldl (\<lambda>out m. writeString m out)
        (writeLength (hs_size s) (writeString key (writeByte RDB_TYPE_SET out))) (hs_members s))
    | SortedSetObject z \<Rightarrow> do {
        elements \<leftarrow> ss_rangeByRank (long_bits pf) 0 (-1) z;
        Some (foldl (\<lambda>out p. writeDouble (snd p) (writeString (fst p) out))
          (writeLength (ss_size z) (writeString key (writeByte RDB_TYPE_ZSET out))) elements) }
    | NoObject \<Rightarrow> Some out)"

definition writeExpiry :: "platform \<Rightarrow> string \<Rightarrow> keyspace \<Rightarrow> rdb_out \<Rightarrow> rdb_out" where
  "writeExpiry pf key ks out =
     (let pttl = db_pttl pf key ks
      in if pttl \<ge> 0
         then emit (le_bytes 8 (nat ((stamp_ms pf key + pttl) mod 2 ^ 64))) (writeByte RDB_OPCODE_EXPIRETIME_MS out)
         else out)"

text \<open>\<^verbatim>\<open>getObject\<close> counts a hit and stamps the object: saving changes the key space.\<close>

primrec saveKeys ::
  "platform \<Rightarrow> string list \<Rightarrow> keyspace \<Rightarrow> rdb_out \<Rightarrow> (keyspace \<times> rdb_out) option" where
  "saveKeys pf [] ks out = Some (ks, out)"
| "saveKeys pf (key # rest) ks out = (case db_getObject pf key ks of
      (None, ks') \<Rightarrow> saveKeys pf rest ks' out
    | (Some ob, ks') \<Rightarrow> do {
        out' \<leftarrow> writeValue pf key (obj_value ob) (writeExpiry pf key ks' out);
        saveKeys pf rest ks' out' })"

definition saveDb :: "platform \<Rightarrow> nat \<Rightarrow> keyspace \<Rightarrow> rdb_out \<Rightarrow> (keyspace \<times> rdb_out) option" where
  "saveDb pf i ks out =
     (if db_size ks = 0 then Some (ks, out)
      else saveKeys pf (db_keys pf ''*'' ks) ks
        (writeLength (db_expiresSize ks) (writeLength (db_size ks) (writeByte RDB_OPCODE_RESIZEDB
          (writeLength i (writeByte RDB_OPCODE_SELECTDB out))))))"

primrec saveDbs :: "platform \<Rightarrow> nat list \<Rightarrow> world \<Rightarrow> rdb_out \<Rightarrow> (world \<times> rdb_out) option" where
  "saveDbs pf [] w out = Some (w, out)"
| "saveDbs pf (i # is) w out = do {
     (ks, out') \<leftarrow> saveDb pf i (openDb i w) out;
     saveDbs pf is (closeDb i ks w) out' }"

definition rdb_magic :: string where "rdb_magic = ''REDIS0009''"

text \<open>
  \<open>opened\<close> says whether the file could be opened; the result is the file's new contents,
  \<^const>\<open>None\<close> for \<^verbatim>\<open>false\<close>.
\<close>

definition saveToFile :: "platform \<Rightarrow> bool \<Rightarrow> string option act" where
  "saveToFile pf opened w =
     (if \<not> opened then (Inr None, w)
      else case saveDbs pf [0..<length (databases w)] w (emit rdb_magic \<lparr>out_bytes = '''', out_crc = 0\<rparr>) of
        None \<Rightarrow> (Inl Undefined, w)
      | Some (w', out) \<Rightarrow>
          (let end = writeByte RDB_OPCODE_EOF out
           in (Inr (Some (out_bytes end @ le_bytes 8 (unat (out_crc end)))), w')))"

section \<open>Reading\<close>

record rdb_in =
  in_rest :: string
  in_good :: bool
  in_crc :: "64 word"

type_synonym 'a reader = "rdb_in \<Rightarrow> ('a \<times> rdb_in) result"

definition rd_ret :: "'a \<Rightarrow> 'a reader" where
  "rd_ret x st = Inr (x, st)"

definition rd_bnd :: "'a reader \<Rightarrow> ('a \<Rightarrow> 'b reader) \<Rightarrow> 'b reader" where
  "rd_bnd m f st = (case m st of Inl e \<Rightarrow> Inl e | Inr (x, st') \<Rightarrow> f x st')"

text \<open>\<^verbatim>\<open>in.read(p, n)\<close>: the bytes that arrive; too few put the stream into the failed state.\<close>

definition takeBytes :: "nat \<Rightarrow> rdb_in \<Rightarrow> string \<times> rdb_in" where
  "takeBytes n st =
     (if \<not> in_good st then ('''', st)
      else if n \<le> length (in_rest st) then (take n (in_rest st), st\<lparr>in_rest := drop n (in_rest st)\<rparr>)
      else (in_rest st, st\<lparr>in_rest := '''', in_good := False\<rparr>))"

definition account :: "string \<Rightarrow> rdb_in \<Rightarrow> rdb_in" where
  "account s st = st\<lparr>in_crc := crc64_update (in_crc st) s\<rparr>"

text \<open>Reading into a variable without an initial value, then using it.\<close>

definition readExact :: "nat \<Rightarrow> string reader" where
  "readExact n st = (case takeBytes n st of (s, st') \<Rightarrow>
     if length s < n then Inl Undefined else Inr (s, account s st'))"

definition readByte :: "nat reader" where
  "readByte = rd_bnd (readExact 1) (\<lambda>s. rd_ret (le_nat s))"

definition readLength :: "nat reader" where
  "readLength = rd_bnd (readExact 8) (\<lambda>s. rd_ret (le_nat s))"

definition readString :: "(nat \<Rightarrow> bool) \<Rightarrow> string reader" where
  "readString can_reserve = rd_bnd readLength (\<lambda>len st.
     if \<not> can_reserve len then Inl LengthError
     else case takeBytes len st of (s, st') \<Rightarrow>
       (let str = s @ replicate (len - length s) (CHR 0x00) in Inr (str, account str st')))"

definition readDouble :: "double reader" where
  "readDouble = rd_bnd (readExact 8) (\<lambda>s. rd_ret (of_nat (le_nat s)))"

text \<open>\<^verbatim>\<open>for (i = 0; i < len; ++i) container.add(read());\<close>\<close>

primrec readInto :: "nat \<Rightarrow> 'a reader \<Rightarrow> ('a \<Rightarrow> 'b \<Rightarrow> 'b option) \<Rightarrow> 'b \<Rightarrow> 'b reader" where
  "readInto 0 item add acc = rd_ret acc"
| "readInto (Suc n) item add acc = rd_bnd item (\<lambda>x.
     case add x acc of None \<Rightarrow> (\<lambda>st. Inl Undefined) | Some acc' \<Rightarrow> readInto n item add acc')"

definition readPair :: "'a reader \<Rightarrow> 'b reader \<Rightarrow> ('a \<times> 'b) reader" where
  "readPair r s = rd_bnd r (\<lambda>x. rd_bnd s (\<lambda>y. rd_ret (x, y)))"

text \<open>
  The \<^verbatim>\<open>switch\<close> on the type of a value; \<^const>\<open>None\<close> is an unknown type. The random
  engine of a new sorted set is one that the environment supplies, here numbered by the
  position in the file.
\<close>

definition atPosition :: "(nat \<Rightarrow> 'a reader) \<Rightarrow> 'a reader" where
  "atPosition r st = r (length (in_rest st)) st"

definition readValue :: "platform \<Rightarrow> (nat \<Rightarrow> bool) \<Rightarrow> nat \<Rightarrow> contents option reader" where
  "readValue pf can_reserve opcode =
     (if opcode = RDB_TYPE_STRING then
        rd_bnd (readString can_reserve) (\<lambda>s. rd_ret (Some (StringObject s)))
      else if opcode = RDB_TYPE_LIST then
        rd_bnd readLength (\<lambda>len.
        rd_bnd (readInto len (readString can_reserve) ll_pushBack newList) (\<lambda>l.
        rd_ret (Some (ListObject l))))
      else if opcode = RDB_TYPE_HASH then
        rd_bnd readLength (\<lambda>len.
        rd_bnd (readInto len (readPair (readString can_reserve) (readString can_reserve))
            (\<lambda>(f, v) h. Some (snd (ht_set (hasher pf) f v h))) newTable) (\<lambda>h.
        rd_ret (Some (HashObject h))))
      else if opcode = RDB_TYPE_SET then
        rd_bnd readLength (\<lambda>len.
        rd_bnd (readInto len (readString can_reserve)
            (\<lambda>m s. Some (snd (hs_add (hasher pf) m s))) newSet) (\<lambda>s.
        rd_ret (Some (SetObject s))))
      else if opcode = RDB_TYPE_ZSET then
        rd_bnd readLength (\<lambda>len.
        rd_bnd (atPosition (\<lambda>n. readInto len (readPair (readString can_reserve) readDouble)
            (\<lambda>(m, s) z. map_option snd (ss_add (hasher pf) m s z)) (newSortedSet (rng_seed pf n)))) (\<lambda>z.
        rd_ret (Some (SortedSetObject z))))
      else rd_ret None)"

section \<open>No reader goes back\<close>

definition onward :: "'a reader \<Rightarrow> bool" where
  "onward r \<longleftrightarrow> (\<forall>st x st'. r st = Inr (x, st') \<longrightarrow> length (in_rest st') \<le> length (in_rest st))"

named_theorems onward_intros \<open>readers that never go back in the file\<close>

lemma onwardD: "onward r \<Longrightarrow> r st = Inr (x, st') \<Longrightarrow> length (in_rest st') \<le> length (in_rest st)"
  by (auto simp: onward_def)

lemma takeBytes_onward: "takeBytes n st = (s, st') \<Longrightarrow> length (in_rest st') \<le> length (in_rest st)"
  by (auto simp: takeBytes_def split: if_splits)

lemma onward_ret [onward_intros]: "onward (rd_ret x)"
  by (simp add: onward_def rd_ret_def)

lemma onward_bnd [onward_intros]:
  assumes "onward r" "\<And>x. onward (f x)"
  shows "onward (rd_bnd r f)"
  unfolding onward_def
proof (intro allI impI)
  fix st y st'
  assume "rd_bnd r f st = Inr (y, st')"
  then obtain x st1 where "r st = Inr (x, st1)" "f x st1 = Inr (y, st')"
    by (auto simp: rd_bnd_def split: sum.splits)
  from onwardD [OF assms(1) this(1)] onwardD [OF assms(2) this(2)]
  show "length (in_rest st') \<le> length (in_rest st)" by simp
qed

lemma onward_readExact [onward_intros]: "onward (readExact n)"
  by (auto simp: onward_def readExact_def account_def split: prod.splits if_splits dest: takeBytes_onward)

lemma onward_readLength [onward_intros]: "onward readLength"
  by (simp add: readLength_def onward_intros)

lemma onward_readString [onward_intros]: "onward (readString can_reserve)"
  unfolding readString_def
  by (rule onward_bnd [OF onward_readLength])
    (auto simp: onward_def account_def Let_def split: prod.splits if_splits dest: takeBytes_onward)

lemma onward_readInto [onward_intros]: "onward r \<Longrightarrow> onward (readInto n r add acc)"
  by (induction n arbitrary: acc)
    (auto simp: onward_def [of "\<lambda>st. Inl Undefined"] intro!: onward_intros split: option.split)

lemma onward_atPosition [onward_intros]: "(\<And>n. onward (r n)) \<Longrightarrow> onward (atPosition r)"
  by (auto simp: onward_def atPosition_def)

lemma onward_readPair [onward_intros]: "onward r \<Longrightarrow> onward s \<Longrightarrow> onward (readPair r s)"
  by (simp add: readPair_def onward_intros)

lemma onward_readValue [onward_intros]: "onward (readValue pf can_reserve opcode)"
  by (auto simp: readValue_def readDouble_def intro!: onward_intros)

lemma readByte_shorter:
  "readByte st = Inr (x, st') \<Longrightarrow> length (in_rest st') < length (in_rest st)"
  by (auto simp: readByte_def readExact_def takeBytes_def rd_bnd_def rd_ret_def account_def Suc_le_eq split: if_splits)

section \<open>Loading\<close>

record load_state =
  currentDb :: int
  expireMs :: nat
  hasExpire :: bool

text \<open>
  One turn of the loop: \<^const>\<open>None\<close> is the \<^verbatim>\<open>break\<close> at the end-of-file code. A key
  of a database that does not exist is skipped, but not its value.
\<close>

definition storeKey ::
  "platform \<Rightarrow> nat \<Rightarrow> string \<Rightarrow> contents option \<Rightarrow> load_state \<Rightarrow> world \<Rightarrow> world" where
  "storeKey pf i key v ld w =
     (let ks = openDb i w;
          ks1 = (case v of None \<Rightarrow> ks | Some v \<Rightarrow> db_setObject pf key (newObject v) ks);
          ks2 = (if hasExpire ld then snd (db_setExpiryAt key (wrap64 (int (expireMs ld))) ks1) else ks1)
      in closeDb i ks2 w)"

definition loadKey ::
  "platform \<Rightarrow> (nat \<Rightarrow> bool) \<Rightarrow> nat \<Rightarrow> load_state \<Rightarrow> rdb_in \<Rightarrow> world
     \<Rightarrow> (load_state option \<times> rdb_in) result \<times> world" where
  "loadKey pf can_reserve opcode ld st w = (case readString can_reserve st of
      Inl e \<Rightarrow> (Inl e, w)
    | Inr (key, st1) \<Rightarrow>
        (if currentDb ld \<ge> wrap32 (int (length (databases w))) then (Inr (Some ld, st1), w)
         else if currentDb ld < 0 then (Inl Undefined, w)
         else case readValue pf can_reserve opcode st1 of
           Inl e \<Rightarrow> (Inl e, w)
         | Inr (v, st2) \<Rightarrow>
             (Inr (Some (ld\<lparr>hasExpire := False\<rparr>), st2), storeKey pf (nat (currentDb ld)) key v ld w)))"

definition withLoad ::
  "'a reader \<Rightarrow> ('a \<Rightarrow> load_state) \<Rightarrow> rdb_in \<Rightarrow> world \<Rightarrow> (load_state option \<times> rdb_in) result \<times> world" where
  "withLoad r f st w = (rd_bnd r (\<lambda>x. rd_ret (Some (f x))) st, w)"

text \<open>\<^verbatim>\<open>expireMs\<close> keeps its old upper bytes when the read is short.\<close>

definition readExpireMs :: "nat \<Rightarrow> nat reader" where
  "readExpireMs old st = (case takeBytes 8 st of (s, st') \<Rightarrow>
     (let s8 = s @ drop (length s) (le_bytes 8 old) in Inr (le_nat s8, account s8 st')))"

definition loadStep ::
  "platform \<Rightarrow> (nat \<Rightarrow> bool) \<Rightarrow> load_state \<Rightarrow> rdb_in \<Rightarrow> world
     \<Rightarrow> (load_state option \<times> rdb_in) result \<times> world" where
  "loadStep pf can_reserve ld st w = (case readByte st of
      Inl e \<Rightarrow> (Inl e, w)
    | Inr (opcode, st1) \<Rightarrow>
        (if opcode = RDB_OPCODE_EOF then (Inr (None, st1), w)
         else if opcode = RDB_OPCODE_SELECTDB then
           withLoad readLength (\<lambda>n. ld\<lparr>currentDb := wrap32 (int n)\<rparr>) st1 w
         else if opcode = RDB_OPCODE_RESIZEDB then
           withLoad (readPair readLength readLength) (\<lambda>_. ld) st1 w
         else if opcode = RDB_OPCODE_EXPIRETIME then
           withLoad (readExact 4) (\<lambda>s. ld\<lparr>expireMs := le_nat s * 1000, hasExpire := True\<rparr>) st1 w
         else if opcode = RDB_OPCODE_EXPIRETIME_MS then
           withLoad (readExpireMs (expireMs ld)) (\<lambda>n. ld\<lparr>expireMs := n, hasExpire := True\<rparr>) st1 w
         else loadKey pf can_reserve opcode ld st1 w))"

lemma withLoad_onward:
  "onward r \<Longrightarrow> withLoad r f st w = (Inr (x, st'), w') \<Longrightarrow> length (in_rest st') \<le> length (in_rest st)"
  using onwardD [OF onward_bnd [OF _ onward_ret], of r "\<lambda>x. Some (f x)"]
  by (auto simp: withLoad_def)

lemma loadKey_onward:
  assumes "loadKey pf can_reserve opcode ld st w = (Inr (x, st'), w')"
  shows "length (in_rest st') \<le> length (in_rest st)"
  using assms onwardD [OF onward_readString] onwardD [OF onward_readValue]
  by (fastforce simp: loadKey_def split: sum.splits if_splits)

lemma onward_readExpireMs: "onward (readExpireMs old)"
  by (auto simp: onward_def readExpireMs_def account_def Let_def split: prod.splits dest: takeBytes_onward)

lemma loadStep_shorter:
  assumes "loadStep pf can_reserve ld st w = (Inr (x, st'), w')"
  shows "length (in_rest st') < length (in_rest st)"
proof -
  from assms obtain opcode st1 where b: "readByte st = Inr (opcode, st1)"
    by (cases "readByte st") (auto simp: loadStep_def)
  have "onward (readPair readLength readLength)" by (intro onward_intros)
  then have "length (in_rest st') \<le> length (in_rest st1)"
    using assms b withLoad_onward [OF onward_readLength] withLoad_onward [OF onward_readExact]
      withLoad_onward [OF onward_readExpireMs] loadKey_onward withLoad_onward [of "readPair readLength readLength"]
    by (auto simp: loadStep_def split: if_splits)
  with readByte_shorter [OF b] show ?thesis by simp
qed

text \<open>\<^verbatim>\<open>while (in.peek() != EOF)\<close>: every turn consumes a byte.\<close>

function loadLoop ::
  "platform \<Rightarrow> (nat \<Rightarrow> bool) \<Rightarrow> load_state \<Rightarrow> rdb_in \<Rightarrow> world \<Rightarrow> rdb_in result \<times> world" where
  "loadLoop pf can_reserve ld st w =
     (if \<not> in_good st \<or> in_rest st = [] then (Inr st, w)
      else case loadStep pf can_reserve ld st w of
        (Inl e, w') \<Rightarrow> (Inl e, w')
      | (Inr (None, st'), w') \<Rightarrow> (Inr st', w')
      | (Inr (Some ld', st'), w') \<Rightarrow> loadLoop pf can_reserve ld' st' w')"
  by pat_completeness auto
termination
  by (relation "measure (\<lambda>(pf, can, ld, st, w). length (in_rest st))") (auto dest!: loadStep_shorter [OF sym])

declare loadLoop.simps [simp del]

definition flushAll :: "platform \<Rightarrow> world \<Rightarrow> world" where
  "flushAll pf w = foldl (\<lambda>w i. closeDb i (db_flushDb pf (openDb i w)) w) w [0..<length (databases w)]"

text \<open>
  \<open>file\<close> is \<^const>\<open>None\<close> when the file cannot be opened. A stored checksum of zero is not
  compared.
\<close>

definition loadFromFile :: "platform \<Rightarrow> (nat \<Rightarrow> bool) \<Rightarrow> string option \<Rightarrow> bool act" where
  "loadFromFile pf can_reserve file w = (case file of
      None \<Rightarrow> (Inr False, w)
    | Some contents \<Rightarrow> (case readExact 9 \<lparr>in_rest = contents, in_good = True, in_crc = 0\<rparr> of
        Inl e \<Rightarrow> (Inl e, w)
      | Inr (magic, st) \<Rightarrow>
          (if magic \<noteq> rdb_magic then (Inr False, w)
           else case loadLoop pf can_reserve \<lparr>currentDb = 0, expireMs = 0, hasExpire = False\<rparr> st (flushAll pf w) of
             (Inl e, w') \<Rightarrow> (Inl e, w')
           | (Inr st', w') \<Rightarrow> (case readExact 8 st' of
                 Inl e \<Rightarrow> (Inl e, w')
               | Inr (s, _) \<Rightarrow>
                   (let expectedChecksum = of_nat (le_nat s)
                    in (Inr (\<not> (expectedChecksum \<noteq> 0 \<and> expectedChecksum \<noteq> in_crc st')), w'))))))"

end
