(* ===== verification/Persistence.thy ===== *)
theory Persistence
  imports Rdb Decimal ServerState
begin

text \<open>
  Files and what the server keeps in them: the rewriting of the append-only file of
  \<^verbatim>\<open>storage/aof_persistence.cpp\<close>, \<^verbatim>\<open>save\<close>, \<^verbatim>\<open>bgsave\<close>,
  \<^verbatim>\<open>bgrewriteaof\<close> and \<^verbatim>\<open>flushAof\<close> of \<^verbatim>\<open>server/server.cpp\<close>, and the
  handlers of \<^verbatim>\<open>SAVE\<close>, \<^verbatim>\<open>BGSAVE\<close>, \<^verbatim>\<open>BGREWRITEAOF\<close> and
  \<^verbatim>\<open>DEBUG\<close>. A background thread is an action of its own, \<open>bgsaveThread\<close> or
  \<open>bgrewriteThread\<close>, that runs at any later time.
\<close>

section \<open>Files\<close>

definition fileContents :: "string \<Rightarrow> world \<Rightarrow> string option" where
  "fileContents name w = map_option (inodes w) (dir w name)"

text \<open>\<^verbatim>\<open>std::ofstream\<close>: an existing file is truncated, a missing one created.\<close>

definition writeFile :: "string \<Rightarrow> string \<Rightarrow> world \<Rightarrow> world" where
  "writeFile name bytes w = (case dir w name of
      Some i \<Rightarrow> w\<lparr>inodes := (inodes w)(i := bytes)\<rparr>
    | None \<Rightarrow> w\<lparr>dir := (dir w)(name \<mapsto> freshInode w), inodes := (inodes w)(freshInode w := bytes),
                freshInode := freshInode w + 1\<rparr>)"

text \<open>With \<^verbatim>\<open>std::ios::app\<close>: the stream's inode.\<close>

definition openAppend :: "string \<Rightarrow> world \<Rightarrow> nat \<times> world" where
  "openAppend name w = (case dir w name of
      Some i \<Rightarrow> (i, w)
    | None \<Rightarrow> (freshInode w, w\<lparr>dir := (dir w)(name \<mapsto> freshInode w),
                inodes := (inodes w)(freshInode w := ''''), freshInode := freshInode w + 1\<rparr>))"

text \<open>\<^verbatim>\<open>std::remove\<close> and \<^verbatim>\<open>std::rename\<close>; an inode that is still open lives on.\<close>

definition removeFile :: "string \<Rightarrow> world \<Rightarrow> world" where
  "removeFile name w = w\<lparr>dir := (dir w)(name := None)\<rparr>"

definition renameFile :: "string \<Rightarrow> string \<Rightarrow> world \<Rightarrow> world" where
  "renameFile old new w = (case dir w old of
      None \<Rightarrow> w
    | Some i \<Rightarrow> w\<lparr>dir := (dir w)(old := None, new \<mapsto> i)\<rparr>)"

section \<open>Rewriting the append-only file\<close>

primrec listValues :: "linked_list \<Rightarrow> int list \<Rightarrow> string list option" where
  "listValues l [] = Some []"
| "listValues l (j # js) = do {
     val \<leftarrow> ll_get j l;
     rest \<leftarrow> listValues l js;
     Some (case val of Some s \<Rightarrow> s # rest | None \<Rightarrow> rest) }"

definition aofValue :: "platform \<Rightarrow> string \<Rightarrow> contents \<Rightarrow> string option" where
  "aofValue pf key v = (case v of
      StringObject s \<Rightarrow> Some (reply_bulkStringArray [''SET'', key, s])
    | ListObject l \<Rightarrow> do {
        vs \<leftarrow> listValues l (intRange (ll_size l));
        Some (reply_bulkStringArray ([''RPUSH'', key] @ vs)) }
    | HashObject h \<Rightarrow> Some (reply_bulkStringArray
        (foldl (\<lambda>args kv. args @ [fst kv, snd kv]) [''HSET'', key] (ht_entries h)))
    | SetObject s \<Rightarrow> Some (reply_bulkStringArray (foldl (\<lambda>args m. args @ [m]) [''SADD'', key] (hs_members s)))
    | SortedSetObject z \<Rightarrow> do {
        elements \<leftarrow> ss_rangeByRank (long_bits pf) 0 (-1) z;
        Some (reply_bulkStringArray
          (foldl (\<lambda>args p. args @ [float_to_string (snd p), fst p]) [''ZADD'', key] elements)) }
    | NoObject \<Rightarrow> Some '''')"

definition aofExpiry :: "platform \<Rightarrow> string \<Rightarrow> keyspace \<Rightarrow> string" where
  "aofExpiry pf key ks =
     (let pttl = db_pttl pf key ks
      in if pttl \<ge> 0
         then reply_bulkStringArray [''PEXPIREAT'', key, int_to_dec ((stamp_ms pf key + pttl) mod 2 ^ 64)]
         else '''')"

primrec rewriteKeys ::
  "platform \<Rightarrow> string list \<Rightarrow> keyspace \<Rightarrow> string \<Rightarrow> (keyspace \<times> string) option" where
  "rewriteKeys pf [] ks out = Some (ks, out)"
| "rewriteKeys pf (key # rest) ks out = (case db_getObject pf key ks of
      (None, ks') \<Rightarrow> rewriteKeys pf rest ks' out
    | (Some ob, ks') \<Rightarrow> do {
        text \<leftarrow> aofValue pf key (obj_value ob);
        rewriteKeys pf rest ks' (out @ text @ aofExpiry pf key ks') })"

definition rewriteDb :: "platform \<Rightarrow> nat \<Rightarrow> keyspace \<Rightarrow> string \<Rightarrow> (keyspace \<times> string) option" where
  "rewriteDb pf i ks out =
     (if db_size ks = 0 then Some (ks, out)
      else rewriteKeys pf (db_keys pf ''*'' ks) ks (out @ reply_bulkStringArray [''SELECT'', nat_to_dec i]))"

primrec rewriteDbs :: "platform \<Rightarrow> nat list \<Rightarrow> world \<Rightarrow> string \<Rightarrow> (world \<times> string) option" where
  "rewriteDbs pf [] w out = Some (w, out)"
| "rewriteDbs pf (i # is) w out = do {
     (ks, out') \<leftarrow> rewriteDb pf i (openDb i w) out;
     rewriteDbs pf is (closeDb i ks w) out' }"

definition rewriteAof :: "platform \<Rightarrow> bool \<Rightarrow> string option act" where
  "rewriteAof pf opened w =
     (if \<not> opened then (Inr None, w)
      else case rewriteDbs pf [0..<length (databases w)] w '''' of
        None \<Rightarrow> (Inl Undefined, w)
      | Some (w', out) \<Rightarrow> (Inr (Some out), w'))"

section \<open>Saving\<close>

definition clearDirty :: "world \<Rightarrow> world" where
  "clearDirty w = w\<lparr>databases := map (\<lambda>db. db\<lparr>dirty := 0\<rparr>) (databases w)\<rparr>"

definition server_save :: "platform \<Rightarrow> string \<Rightarrow> bool act" where
  "server_save pf filename = bnd (gets bgsaveInProgress) (\<lambda>busy.
     if busy then ret False
     else bnd (saveToFile pf (write_ok pf filename)) (\<lambda>bytes. case bytes of
       None \<Rightarrow> ret False
     | Some bytes \<Rightarrow>
         seq (modify (writeFile filename bytes))
         (seq (modify (\<lambda>w. clearDirty (w\<lparr>lastSaveTime := system_ms pf div 1000\<rparr>)))
         (ret True))))"

text \<open>The copies a background thread works on.\<close>

primrec cloneAll :: "platform \<Rightarrow> database list \<Rightarrow> database list option" where
  "cloneAll pf [] = Some []"
| "cloneAll pf (db # dbs) = do { c \<leftarrow> db_clone pf db; cs \<leftarrow> cloneAll pf dbs; Some (c # cs) }"

definition server_bgsave :: "platform \<Rightarrow> string \<Rightarrow> bool act" where
  "server_bgsave pf filename = bnd (gets bgsaveInProgress) (\<lambda>busy.
     seq (modify (\<lambda>w. w\<lparr>bgsaveInProgress := True\<rparr>))
     (if busy then ret False
      else bnd (gets (\<lambda>w. cloneAll pf (databases w))) (\<lambda>copies.
        bnd (defined copies) (\<lambda>copies.
        seq (modify (\<lambda>w. w\<lparr>bgsaveJob := Some (copies, filename)\<rparr>)) (ret True)))))"

text \<open>A flag left set by the second guard makes every later call return false.\<close>

definition server_bgrewriteaof :: "platform \<Rightarrow> bool act" where
  "server_bgrewriteaof pf = bnd (gets bgrewriteaofInProgress) (\<lambda>busy.
     seq (modify (\<lambda>w. w\<lparr>bgrewriteaofInProgress := True\<rparr>))
     (if busy then ret False
      else bnd (gets bgsaveInProgress) (\<lambda>saving.
        if saving then ret False
        else bnd (gets (\<lambda>w. cloneAll pf (databases w))) (\<lambda>copies.
          bnd (defined copies) (\<lambda>copies.
          seq (modify (\<lambda>w. w\<lparr>bgrewriteJob := Some (copies, aofFilename (w_config w) @ ''.temp'')\<rparr>))
          (ret True))))))"

text \<open>A thread's work on the copies; only the memory account is shared with the server.\<close>

definition onCopies :: "database list \<Rightarrow> 'a act \<Rightarrow> 'a act" where
  "onCopies copies m w = (case m (w\<lparr>databases := copies\<rparr>) of
      (r, w') \<Rightarrow> (r, w\<lparr>w_mem := w_mem w'\<rparr>))"

definition bgsaveThread :: "platform \<Rightarrow> unit act" where
  "bgsaveThread pf = bnd (gets bgsaveJob) (\<lambda>job. case job of
       None \<Rightarrow> ret ()
     | Some (copies, filename) \<Rightarrow>
         bnd (onCopies copies (saveToFile pf (write_ok pf filename))) (\<lambda>bytes.
         seq (case bytes of
             None \<Rightarrow> ret ()
           | Some bytes \<Rightarrow> seq (modify (writeFile filename bytes))
               (modify (\<lambda>w. w\<lparr>lastSaveTime := system_ms pf div 1000\<rparr>)))
         (modify (\<lambda>w. w\<lparr>bgsaveInProgress := False, bgsaveJob := None\<rparr>))))"

definition bgrewriteThread :: "platform \<Rightarrow> unit act" where
  "bgrewriteThread pf = bnd (gets bgrewriteJob) (\<lambda>job. case job of
       None \<Rightarrow> ret ()
     | Some (copies, filename) \<Rightarrow>
         bnd (onCopies copies (rewriteAof pf (write_ok pf filename))) (\<lambda>text.
         seq (case text of
             None \<Rightarrow> ret ()
           | Some text \<Rightarrow> modify (\<lambda>w. renameFile filename (aofFilename (w_config w))
               (removeFile (aofFilename (w_config w)) (writeFile filename text w))))
         (modify (\<lambda>w. w\<lparr>bgrewriteaofInProgress := False, bgrewriteJob := None\<rparr>))))"

definition flushAof :: "world \<Rightarrow> world" where
  "flushAof w = (case aofStream w of
      None \<Rightarrow> w
    | Some i \<Rightarrow>
        (if \<not> appendOnly (w_config w) \<or> aofBuffer w = '''' then w
         else w\<lparr>inodes := (inodes w)(i := inodes w i @ aofBuffer w), aofBuffer := ''''\<rparr>))"

section \<open>Commands\<close>

definition dump_file :: string where "dump_file = ''dump.rdb''"

definition saveCommand :: "platform \<Rightarrow> nat \<Rightarrow> RespValue list \<Rightarrow> unit act" where
  "saveCommand pf p args = bnd (server_save pf dump_file) (\<lambda>ok.
     reply p (if ok then reply_ok else reply_error ''Background save already in progress''))"

definition bgsaveCommand :: "platform \<Rightarrow> nat \<Rightarrow> RespValue list \<Rightarrow> unit act" where
  "bgsaveCommand pf p args = bnd (server_bgsave pf dump_file) (\<lambda>ok.
     reply p (if ok then reply_simpleString ''Background saving started''
       else reply_error ''Background save already in progress''))"

definition bgrewriteaofCommand :: "platform \<Rightarrow> nat \<Rightarrow> RespValue list \<Rightarrow> unit act" where
  "bgrewriteaofCommand pf p args = bnd (server_bgrewriteaof pf) (\<lambda>ok.
     reply p (if ok then reply_simpleString ''Background append only file rewriting started''
       else reply_error ''Background append only file rewriting already in progress''))"

definition debugCommand :: "platform \<Rightarrow> nat \<Rightarrow> RespValue list \<Rightarrow> unit act" where
  "debugCommand pf p args =
     (if length args < 2
      then reply p (reply_error ''ERR wrong number of arguments for 'debug' command'')
      else
        bnd (argStr args 1) (\<lambda>sub.
        if upper sub = ''OBJECT'' \<and> length args = 3 then
          bnd (argStr args 2) (\<lambda>key.
          bnd (selected p) (\<lambda>db.
          bnd (onDb db (db_getObject pf key)) (\<lambda>ob. case ob of
            None \<Rightarrow> reply p (reply_error ''ERR no such key'')
          | Some ob \<Rightarrow> reply p (reply_simpleString (''Value at:'' @ address_text pf key
              @ '' refcount:1 encoding:raw serializedlength:0 lru:'' @ nat_to_dec (unat (lruClock ob))
              @ '' lru_seconds_idle:0'')))))
        else if upper sub = ''SEGFAULT'' then raise Undefined
        else reply p (reply_error ''ERR Unknown DEBUG subcommand or wrong number of arguments'')))"

end
