(* ===== verification/Dispatch.thy ===== *)
theory Dispatch
  imports Commands ZsetCommands ServerCommands Persistence Eviction
begin

text \<open>
  Lookup and execution of commands: \<^verbatim>\<open>commands/command_registry.cpp\<close> and
  \<^verbatim>\<open>Server::executeCommand\<close>. A handler is a value of the datatype \<open>handler\<close>;
  \<open>handlerAct\<close> is its code. \<^verbatim>\<open>EXEC\<close> calls handlers and a push re-executes the command
  of a blocked client, so execution is recursive: \<open>runDepth\<close> bounds the depth of these
  calls.
\<close>

text \<open>The handlers, grouped by the source file that holds them.\<close>

datatype server_handler = PING | ECHO | COMMAND | DBSIZE | FLUSHDB | SELECT | QUIT | INFO | CONFIG
datatype admin_handler = SAVE | BGSAVE | BGREWRITEAOF | DEBUG
datatype list_handler = LPUSH | RPUSH | LPOP | RPOP | BLPOP | BRPOP | LRANGE | LLEN
datatype hash_handler = HSET | HGET | HGETALL
datatype set_handler = SADD | SREM | SISMEMBER | SMEMBERS
datatype zset_handler = ZADD | ZRANGE | ZRANK | ZSCORE | ZREM
datatype string_handler = SET | GET | DEL | EXISTS | MSET | MGET | INCR | DECR | INCRBY | DECRBY | APPENDTO | STRLEN | SETNX
datatype key_handler = TYPEOF | RENAME | KEYS | EXPIRE | PEXPIRE | EXPIREAT | PEXPIREAT | TTL | PTTL | PERSIST
datatype transaction_handler = MULTI | EXEC | DISCARD | WATCH | UNWATCH
datatype pubsub_handler = SUBSCRIBE | UNSUBSCRIBE | PSUBSCRIBE | PUNSUBSCRIBE | PUBLISH
datatype replication_handler = REPLICAOF | REPLCONF | PSYNC | WAIT

datatype handler =
    ServerH server_handler
  | AdminH admin_handler
  | ListH list_handler
  | HashH hash_handler
  | SetH set_handler
  | ZsetH zset_handler
  | StringH string_handler
  | KeyH key_handler
  | TransactionH transaction_handler
  | PubSubH pubsub_handler
  | ReplicationH replication_handler

record command_entry =
  entry_name :: string
  entry_handler :: handler
  arity :: int
  cmd_flags :: "32 word"

definition CMD_READONLY :: "32 word" where "CMD_READONLY = 1"
definition CMD_WRITE :: "32 word" where "CMD_WRITE = 2"
definition CMD_ADMIN :: "32 word" where "CMD_ADMIN = 4"
definition CMD_PUBSUB :: "32 word" where "CMD_PUBSUB = 8"
definition CMD_FAST :: "32 word" where "CMD_FAST = 16"
definition CMD_LOADING :: "32 word" where "CMD_LOADING = 32"
definition CMD_STALE :: "32 word" where "CMD_STALE = 64"

lemmas cmd_flag_defs = CMD_READONLY_def CMD_WRITE_def CMD_ADMIN_def CMD_PUBSUB_def
  CMD_FAST_def CMD_LOADING_def CMD_STALE_def

unbundle bit_operations_syntax

type_synonym registry = "(string \<times> command_entry) list"

definition registerCommand :: "string \<times> handler \<times> int \<times> 32 word \<Rightarrow> registry \<Rightarrow> registry" where
  "registerCommand c r = (case c of (name, h, n, fl) \<Rightarrow>
     AList.update (upper name)
       \<lparr>entry_name = upper name, entry_handler = h, arity = n, cmd_flags = fl\<rparr> r)"

definition builtinCommands :: "(string \<times> handler \<times> int \<times> 32 word) list" where
  "builtinCommands =
    [(''PING'', ServerH PING, -1, CMD_READONLY OR CMD_FAST OR CMD_STALE),
     (''ECHO'', ServerH ECHO, 2, CMD_READONLY OR CMD_FAST),
     (''COMMAND'', ServerH COMMAND, -1, CMD_READONLY OR CMD_LOADING OR CMD_STALE),
     (''DBSIZE'', ServerH DBSIZE, 1, CMD_READONLY OR CMD_FAST),
     (''FLUSHDB'', ServerH FLUSHDB, -1, CMD_WRITE),
     (''SELECT'', ServerH SELECT, 2, CMD_READONLY OR CMD_FAST OR CMD_LOADING),
     (''QUIT'', ServerH QUIT, 1, CMD_READONLY OR CMD_FAST OR CMD_LOADING OR CMD_STALE),
     (''INFO'', ServerH INFO, -1, CMD_READONLY OR CMD_STALE OR CMD_LOADING),
     (''SAVE'', AdminH SAVE, 1, CMD_ADMIN),
     (''BGSAVE'', AdminH BGSAVE, 1, CMD_ADMIN),
     (''BGREWRITEAOF'', AdminH BGREWRITEAOF, 1, CMD_ADMIN),
     (''CONFIG'', ServerH CONFIG, -2, CMD_ADMIN OR CMD_STALE),
     (''DEBUG'', AdminH DEBUG, -2, CMD_ADMIN),
     (''LPUSH'', ListH LPUSH, -3, CMD_WRITE),
     (''RPUSH'', ListH RPUSH, -3, CMD_WRITE),
     (''LPOP'', ListH LPOP, 2, CMD_WRITE),
     (''RPOP'', ListH RPOP, 2, CMD_WRITE),
     (''BLPOP'', ListH BLPOP, -3, CMD_WRITE),
     (''BRPOP'', ListH BRPOP, -3, CMD_WRITE),
     (''LRANGE'', ListH LRANGE, 4, CMD_READONLY),
     (''LLEN'', ListH LLEN, 2, CMD_READONLY),
     (''HSET'', HashH HSET, -4, CMD_WRITE),
     (''HGET'', HashH HGET, 3, CMD_READONLY),
     (''HGETALL'', HashH HGETALL, 2, CMD_READONLY),
     (''SADD'', SetH SADD, -3, CMD_WRITE),
     (''SREM'', SetH SREM, -3, CMD_WRITE),
     (''SISMEMBER'', SetH SISMEMBER, 3, CMD_READONLY),
     (''SMEMBERS'', SetH SMEMBERS, 2, CMD_READONLY),
     (''ZADD'', ZsetH ZADD, -4, CMD_WRITE),
     (''ZRANGE'', ZsetH ZRANGE, -4, CMD_READONLY),
     (''ZRANK'', ZsetH ZRANK, 3, CMD_READONLY),
     (''ZSCORE'', ZsetH ZSCORE, 3, CMD_READONLY),
     (''ZREM'', ZsetH ZREM, -3, CMD_WRITE),
     (''SET'', StringH SET, -3, CMD_WRITE),
     (''GET'', StringH GET, 2, CMD_READONLY OR CMD_FAST),
     (''DEL'', StringH DEL, -2, CMD_WRITE),
     (''EXISTS'', StringH EXISTS, -2, CMD_READONLY OR CMD_FAST),
     (''MSET'', StringH MSET, -3, CMD_WRITE),
     (''MGET'', StringH MGET, -2, CMD_READONLY OR CMD_FAST),
     (''INCR'', StringH INCR, 2, CMD_WRITE OR CMD_FAST),
     (''DECR'', StringH DECR, 2, CMD_WRITE OR CMD_FAST),
     (''INCRBY'', StringH INCRBY, 3, CMD_WRITE OR CMD_FAST),
     (''DECRBY'', StringH DECRBY, 3, CMD_WRITE OR CMD_FAST),
     (''APPEND'', StringH APPENDTO, 3, CMD_WRITE),
     (''STRLEN'', StringH STRLEN, 2, CMD_READONLY OR CMD_FAST),
     (''SETNX'', StringH SETNX, 3, CMD_WRITE OR CMD_FAST),
     (''TYPE'', KeyH TYPEOF, 2, CMD_READONLY),
     (''RENAME'', KeyH RENAME, 3, CMD_WRITE),
     (''KEYS'', KeyH KEYS, 2, CMD_READONLY),
     (''EXPIRE'', KeyH EXPIRE, 3, CMD_WRITE),
     (''PEXPIRE'', KeyH PEXPIRE, 3, CMD_WRITE),
     (''EXPIREAT'', KeyH EXPIREAT, 3, CMD_WRITE),
     (''PEXPIREAT'', KeyH PEXPIREAT, 3, CMD_WRITE),
     (''TTL'', KeyH TTL, 2, CMD_READONLY),
     (''PTTL'', KeyH PTTL, 2, CMD_READONLY),
     (''PERSIST'', KeyH PERSIST, 2, CMD_WRITE),
     (''multi'', TransactionH MULTI, 1, CMD_FAST),
     (''exec'', TransactionH EXEC, 1, CMD_FAST),
     (''discard'', TransactionH DISCARD, 1, CMD_FAST),
     (''watch'', TransactionH WATCH, -2, CMD_FAST),
     (''unwatch'', TransactionH UNWATCH, 1, CMD_FAST),
     (''subscribe'', PubSubH SUBSCRIBE, -2, CMD_FAST OR CMD_PUBSUB),
     (''unsubscribe'', PubSubH UNSUBSCRIBE, -1, CMD_FAST OR CMD_PUBSUB),
     (''psubscribe'', PubSubH PSUBSCRIBE, -2, CMD_FAST OR CMD_PUBSUB),
     (''punsubscribe'', PubSubH PUNSUBSCRIBE, -1, CMD_FAST OR CMD_PUBSUB),
     (''publish'', PubSubH PUBLISH, 3, CMD_FAST OR CMD_PUBSUB),
     (''replicaof'', ReplicationH REPLICAOF, 3, CMD_ADMIN),
     (''replconf'', ReplicationH REPLCONF, -3, CMD_ADMIN),
     (''psync'', ReplicationH PSYNC, 3, CMD_ADMIN),
     (''wait'', ReplicationH WAIT, 3, CMD_READONLY)]"

definition builtinRegistry :: registry where
  "builtinRegistry = fold registerCommand builtinCommands []"

definition lookupCommand :: "string \<Rightarrow> command_entry option" where
  "lookupCommand name = map_of builtinRegistry (upper name)"

section \<open>The COMMAND command\<close>

definition hasCmdFlag :: "32 word \<Rightarrow> command_entry \<Rightarrow> bool" where
  "hasCmdFlag f e \<longleftrightarrow> cmd_flags e AND f \<noteq> 0"

definition flagNames :: "command_entry \<Rightarrow> string list" where
  "flagNames e = (let fl = map snd (filter (\<lambda>(f, _). hasCmdFlag f e)
       [(CMD_WRITE, ''write''), (CMD_READONLY, ''readonly''), (CMD_FAST, ''fast''),
        (CMD_ADMIN, ''admin''), (CMD_STALE, ''stale''), (CMD_LOADING, ''loading'')])
     in if fl = [] then [''readonly''] else fl)"

definition entryReply :: "command_entry \<Rightarrow> string" where
  "entryReply e = ''*7'' @ CRLF @ reply_bulkString (entry_name e) @ reply_integer (arity e)
     @ ''*'' @ nat_to_dec (length (flagNames e)) @ CRLF
     @ concat (map reply_simpleString (flagNames e))
     @ reply_integer 1 @ reply_integer 1 @ reply_integer 1"

definition commandCommand :: "nat \<Rightarrow> RespValue list \<Rightarrow> unit act" where
  "commandCommand p args =
     bnd (if length args \<ge> 2 then bnd (argStr args 1) (\<lambda>s. ret (Some (upper s))) else ret None) (\<lambda>sub.
     if sub = Some ''DOCS'' then reply p reply_emptyArray
     else if sub = Some ''COUNT'' then reply p (reply_integer (int (length builtinRegistry)))
     else if sub = Some ''INFO'' then
       bnd (mapEach (drop 2 args) (\<lambda>a. bnd (lift (asString a)) (\<lambda>s.
              ret (case map_of builtinRegistry (upper s) of
                     Some e \<Rightarrow> entryReply e
                   | None \<Rightarrow> reply_nullBulkString)))) (\<lambda>parts.
       reply p (''*'' @ nat_to_dec (length args - 2) @ CRLF @ concat parts))
     else reply p (''*'' @ nat_to_dec (length builtinRegistry) @ CRLF
       @ concat (map (\<lambda>(name, e). entryReply e) builtinRegistry)))"

section \<open>Execution\<close>

type_synonym handler_code = "nat \<Rightarrow> RespValue list \<Rightarrow> unit act"

fun serverAct :: "platform \<Rightarrow> server_handler \<Rightarrow> handler_code" where
  "serverAct pf PING = pingCommand"
| "serverAct pf ECHO = echoCommand"
| "serverAct pf COMMAND = commandCommand"
| "serverAct pf DBSIZE = dbsizeCommand"
| "serverAct pf FLUSHDB = flushdbCommand pf"
| "serverAct pf SELECT = selectCommand"
| "serverAct pf QUIT = quitCommand"
| "serverAct pf INFO = infoCommand pf"
| "serverAct pf CONFIG = configCommand"

fun listAct :: "platform \<Rightarrow> (nat \<Rightarrow> RespValue \<Rightarrow> unit act) \<Rightarrow> list_handler \<Rightarrow> handler_code" where
  "listAct pf exec LPUSH = lpushCommand pf exec"
| "listAct pf exec RPUSH = rpushCommand pf exec"
| "listAct pf exec LPOP = lpopCommand pf"
| "listAct pf exec RPOP = rpopCommand pf"
| "listAct pf exec BLPOP = blpopCommand pf"
| "listAct pf exec BRPOP = brpopCommand pf"
| "listAct pf exec LRANGE = lrangeCommand pf"
| "listAct pf exec LLEN = llenCommand pf"

fun adminAct :: "platform \<Rightarrow> admin_handler \<Rightarrow> handler_code" where
  "adminAct pf SAVE = saveCommand pf"
| "adminAct pf BGSAVE = bgsaveCommand pf"
| "adminAct pf BGREWRITEAOF = bgrewriteaofCommand pf"
| "adminAct pf DEBUG = debugCommand pf"

fun zsetAct :: "platform \<Rightarrow> zset_handler \<Rightarrow> handler_code" where
  "zsetAct pf ZADD = zaddCommand pf"
| "zsetAct pf ZRANGE = zrangeCommand pf"
| "zsetAct pf ZRANK = zrankCommand pf"
| "zsetAct pf ZSCORE = zscoreCommand pf"
| "zsetAct pf ZREM = zremCommand pf"

fun hashAct :: "platform \<Rightarrow> hash_handler \<Rightarrow> handler_code" where
  "hashAct pf HSET = hsetCommand pf"
| "hashAct pf HGET = hgetCommand pf"
| "hashAct pf HGETALL = hgetallCommand pf"

fun setAct :: "platform \<Rightarrow> set_handler \<Rightarrow> handler_code" where
  "setAct pf SADD = saddCommand pf"
| "setAct pf SREM = sremCommand pf"
| "setAct pf SISMEMBER = sismemberCommand pf"
| "setAct pf SMEMBERS = smembersCommand pf"

fun stringAct :: "platform \<Rightarrow> string_handler \<Rightarrow> handler_code" where
  "stringAct pf SET = setCommand pf"
| "stringAct pf GET = getCommand pf"
| "stringAct pf DEL = delCommand pf"
| "stringAct pf EXISTS = existsCommand pf"
| "stringAct pf MSET = msetCommand pf"
| "stringAct pf MGET = mgetCommand pf"
| "stringAct pf INCR = incrCommand pf"
| "stringAct pf DECR = decrCommand pf"
| "stringAct pf INCRBY = incrbyCommand pf"
| "stringAct pf DECRBY = decrbyCommand pf"
| "stringAct pf APPENDTO = appendCommand pf"
| "stringAct pf STRLEN = strlenCommand pf"
| "stringAct pf SETNX = setnxCommand pf"

fun keyAct :: "platform \<Rightarrow> key_handler \<Rightarrow> handler_code" where
  "keyAct pf TYPEOF = typeCommand pf"
| "keyAct pf RENAME = renameCommand pf"
| "keyAct pf KEYS = keysCommand pf"
| "keyAct pf EXPIRE = expireCommand pf"
| "keyAct pf PEXPIRE = pexpireCommand pf"
| "keyAct pf EXPIREAT = expireatCommand"
| "keyAct pf PEXPIREAT = pexpireatCommand"
| "keyAct pf TTL = ttlCommand pf"
| "keyAct pf PTTL = pttlCommand pf"
| "keyAct pf PERSIST = persistCommand"

fun transactionAct :: "platform \<Rightarrow> (handler \<Rightarrow> handler_code) \<Rightarrow> transaction_handler \<Rightarrow> handler_code" where
  "transactionAct pf run MULTI = multiCommand"
| "transactionAct pf run EXEC = execCommand pf (\<lambda>name. map_option (\<lambda>e. run (entry_handler e)) (lookupCommand name))"
| "transactionAct pf run DISCARD = discardCommand"
| "transactionAct pf run WATCH = watchCommand"
| "transactionAct pf run UNWATCH = unwatchCommand"

fun pubsubAct :: "platform \<Rightarrow> pubsub_handler \<Rightarrow> handler_code" where
  "pubsubAct pf SUBSCRIBE = subscribeCommand"
| "pubsubAct pf UNSUBSCRIBE = unsubscribeCommand"
| "pubsubAct pf PSUBSCRIBE = psubscribeCommand"
| "pubsubAct pf PUNSUBSCRIBE = punsubscribeCommand"
| "pubsubAct pf PUBLISH = publishCommand"

fun replicationAct :: "platform \<Rightarrow> replication_handler \<Rightarrow> handler_code" where
  "replicationAct pf REPLICAOF = replicaofCommand pf"
| "replicationAct pf REPLCONF = replconfCommand"
| "replicationAct pf PSYNC = psyncCommand pf"
| "replicationAct pf WAIT = waitCommand"

definition handlerAct ::
  "platform \<Rightarrow> (nat \<Rightarrow> RespValue \<Rightarrow> unit act) \<Rightarrow> (handler \<Rightarrow> handler_code) \<Rightarrow> handler \<Rightarrow> handler_code" where
  "handlerAct pf exec run h = (case h of
      ServerH a \<Rightarrow> serverAct pf a | AdminH a \<Rightarrow> adminAct pf a | ListH a \<Rightarrow> listAct pf exec a
    | HashH a \<Rightarrow> hashAct pf a | SetH a \<Rightarrow> setAct pf a | ZsetH a \<Rightarrow> zsetAct pf a
    | StringH a \<Rightarrow> stringAct pf a | KeyH a \<Rightarrow> keyAct pf a
    | TransactionH a \<Rightarrow> transactionAct pf run a | PubSubH a \<Rightarrow> pubsubAct pf a
    | ReplicationH a \<Rightarrow> replicationAct pf a)"

abbreviation QUOTE :: string where "QUOTE \<equiv> [CHR 0x27]"

text \<open>The memory guard: evict, then refuse the command if that did not help.\<close>

definition overMemory :: "world \<Rightarrow> bool" where
  "overMemory w \<longleftrightarrow> unat (usedMemory (w_mem w)) > nat (maxMemory (w_config w))"

definition memoryGuard :: "platform \<Rightarrow> command_entry \<Rightarrow> bool act" where
  "memoryGuard pf e = bnd (gets (\<lambda>w. w)) (\<lambda>w.
     if hasCmdFlag CMD_WRITE e \<and> maxMemory (w_config w) > 0 \<and> overMemory w
     then seq (modify (evictKeysIfNeeded pf)) (bnd (gets overMemory) (\<lambda>still. ret (\<not> still)))
     else ret True)"

definition arityOk :: "command_entry \<Rightarrow> nat \<Rightarrow> bool" where
  "arityOk e argCount \<longleftrightarrow>
     \<not> (arity e > 0 \<and> int argCount \<noteq> arity e) \<and> \<not> (arity e < 0 \<and> int argCount < - arity e)"

definition queued :: "string \<Rightarrow> client \<Rightarrow> bool" where
  "queued cmdName c \<longleftrightarrow> hasFlag CLIENT_MULTI c \<and>
     cmdName \<notin> {''EXEC'', ''DISCARD'', ''MULTI'', ''WATCH'', ''UNWATCH''}"

definition appendAof :: "RespValue list \<Rightarrow> unit act" where
  "appendAof args = bnd (gets w_config) (\<lambda>cfg.
     if appendOnly cfg then
       bnd (mapEach args (\<lambda>a. lift (asString a))) (\<lambda>strArgs.
       if strArgs \<noteq> []
       then modify (\<lambda>w. w\<lparr>aofBuffer := aofBuffer w @ reply_bulkStringArray strArgs\<rparr>)
       else ret ())
     else ret ())"

definition callHandler ::
  "platform \<Rightarrow> (handler \<Rightarrow> handler_code) \<Rightarrow> command_entry \<Rightarrow> handler_code" where
  "callHandler pf run e p args =
     try_catch
       (seq (run (entry_handler e) p args)
       (seq (modify (\<lambda>w. w\<lparr>totalCommandsProcessed := totalCommandsProcessed w + 1\<rparr>))
       (if hasCmdFlag CMD_WRITE e then seq (appendAof args) (propagateToReplicas args) else ret ())))
       (\<lambda>ex. reply p (reply_error (''internal error: '' @ what pf ex)))"

definition executeBody ::
  "platform \<Rightarrow> (handler \<Rightarrow> handler_code) \<Rightarrow> nat \<Rightarrow> RespValue \<Rightarrow> unit act" where
  "executeBody pf run p command = (case command of
      Array args \<Rightarrow>
        (if args = [] then reply p (reply_error ''empty command'')
         else
           bnd (argStr args 0) (\<lambda>cmdName.
           case lookupCommand cmdName of
             None \<Rightarrow> reply p (reply_error
               (''unknown command '' @ QUOTE @ cmdName @ QUOTE @ '', with args beginning with: ''))
           | Some e \<Rightarrow>
               bnd (memoryGuard pf e) (\<lambda>ok.
               if \<not> ok then reply p
                 (reply_error (''OOM command not allowed when used memory > '' @ QUOTE @ ''maxmemory'' @ QUOTE))
               else if \<not> arityOk e (length args) then
                 reply p (reply_error (''wrong number of arguments for '' @ QUOTE @ cmdName @ QUOTE @ '' command''))
               else bnd (theClient p) (\<lambda>c.
                 if queued cmdName c then
                   seq (setClient p (\<lambda>c. c\<lparr>transactionQueue := transactionQueue c @ [args]\<rparr>))
                   (reply p (reply_simpleString ''QUEUED''))
                 else callHandler pf run e p args))))
    | _ \<Rightarrow> reply p (reply_error ''invalid command format''))"

primrec runDepth :: "platform \<Rightarrow> nat \<Rightarrow> handler \<Rightarrow> handler_code" where
  "runDepth pf 0 h p args = raise Undefined"
| "runDepth pf (Suc d) h p args = handlerAct pf (executeBody pf (runDepth pf d)) (runDepth pf d) h p args"

definition executeDepth :: "platform \<Rightarrow> nat \<Rightarrow> nat \<Rightarrow> RespValue \<Rightarrow> unit act" where
  "executeDepth pf d = executeBody pf (runDepth pf d)"

definition executeCommand :: "platform \<Rightarrow> nat \<Rightarrow> RespValue \<Rightarrow> unit act" where
  "executeCommand pf = executeDepth pf 4"

end
