(* ===== verification/Events.thy ===== *)
theory Events
  imports Dispatch RespStream
begin

text \<open>
  What the event loop calls: reading and writing a connection
  (\<^verbatim>\<open>networking/connection_manager.cpp\<close>), \<^verbatim>\<open>Server::processClientInput\<close>,
  the replication handshake \<^verbatim>\<open>syncWithMaster\<close> and the periodic
  \<^verbatim>\<open>Server::serverCron\<close>. The outcome of a socket call is an argument.
\<close>

unbundle bit_operations_syntax

section \<open>Replication handshake\<close>

definition tempFilename :: "world \<Rightarrow> string" where
  "tempFilename w = ''temp_repl_'' @ int_to_dec (cfg_port (w_config w)) @ ''.rdb''"

definition syncWithMaster :: "platform \<Rightarrow> nat \<Rightarrow> RespValue \<Rightarrow> unit act" where
  "syncWithMaster pf p answer =
     bnd (lift (asString answer)) (\<lambda>s.
     bnd (gets replState) (\<lambda>st. case st of
       ReplReceivePong \<Rightarrow>
         if s = ''PONG'' then
           bnd (gets (\<lambda>w. cfg_port (w_config w))) (\<lambda>port.
           seq (reply p (reply_bulkStringArray [''REPLCONF'', ''listening-port'', int_to_dec port]))
           (modify (\<lambda>w. w\<lparr>replState := ReplSendPsync\<rparr>)))
         else disconnectFromMaster
     | ReplSendPsync \<Rightarrow>
         if s = ''OK'' then
           seq (reply p (reply_bulkStringArray [''PSYNC'', ''?'', ''-1'']))
           (modify (\<lambda>w. w\<lparr>replState := ReplReceivePsync\<rparr>))
         else disconnectFromMaster
     | ReplReceivePsync \<Rightarrow>
         if isPrefixOf ''FULLRESYNC'' s then modify (\<lambda>w. w\<lparr>replState := ReplReceiveRdb\<rparr>)
         else if isPrefixOf ''CONTINUE'' s then modify (\<lambda>w. w\<lparr>replState := ReplConnected\<rparr>)
         else disconnectFromMaster
     | ReplReceiveRdb \<Rightarrow>
         (case answer of
            Error _ \<Rightarrow> disconnectFromMaster
          | _ \<Rightarrow>
              bnd (gets tempFilename) (\<lambda>name.
              if \<not> write_ok pf name then disconnectFromMaster
              else seq (modify (writeFile name s))
                (bnd (loadFromFile pf (reserve_ok pf) (Some s)) (\<lambda>ok.
                if ok then modify (\<lambda>w. w\<lparr>replState := ReplConnected\<rparr>) else disconnectFromMaster))))
     | _ \<Rightarrow> ret ()))"

section \<open>Input of a client\<close>

primrec inputLoop :: "platform \<Rightarrow> nat \<Rightarrow> RespValue list \<Rightarrow> unit act" where
  "inputLoop pf p [] = ret ()"
| "inputLoop pf p (command # rest) =
     bnd (theClient p) (\<lambda>c.
     if hasFlag CLIENT_BLOCKED c then ret ()
     else
       bnd (gets replState) (\<lambda>st.
       seq (if hasFlag CLIENT_MASTER c \<and> st \<noteq> ReplConnected then syncWithMaster pf p command
            else executeCommand pf p command)
       (bnd (theClient p) (\<lambda>c.
       if hasFlag CLIENT_CLOSE_ASAP c then ret () else inputLoop pf p rest))))"

definition processClientInput :: "platform \<Rightarrow> nat \<Rightarrow> unit act" where
  "processClientInput pf p =
     bnd (theClient p) (\<lambda>c.
     bnd (lift (parse (reserve_ok pf) (inputBuffer c))) (\<lambda>result.
     seq (if bytesConsumed result > 0 then setClient p (consumeInput (bytesConsumed result)) else ret ())
     (inputLoop pf p (commands result))))"

section \<open>Connections\<close>

text \<open>
  \<open>p\<close> is the address of the new client; a connection that is refused is closed at once and
  leaves no trace.
\<close>

definition connect :: "int \<Rightarrow> nat \<Rightarrow> int \<Rightarrow> 32 word \<Rightarrow> callback \<Rightarrow> world \<Rightarrow> world" where
  "connect fd p now msk cb w = w\<lparr>w_clients := (w_clients w)(p \<mapsto> newClient fd (nextId w) now),
     nextId := nextId w + 1, connections := AList.update fd p (connections w),
     totalConnectionsReceived := totalConnectionsReceived w + 1,
     eventLoop := addFileEvent fd msk cb (eventLoop w)\<rparr>"

definition addClient :: "int \<Rightarrow> nat \<Rightarrow> int \<Rightarrow> bool \<Rightarrow> world \<Rightarrow> nat option \<times> world" where
  "addClient fd p now nonblocking w =
     (if int (length (connections w)) \<ge> maxClients (w_config w) then (None, w)
      else if \<not> nonblocking then (None, w)
      else (Some p, connect fd p now EVENT_READABLE OnReadable w))"

definition createOutboundClient :: "int \<Rightarrow> nat \<Rightarrow> int \<Rightarrow> world \<Rightarrow> world" where
  "createOutboundClient fd p now = connect fd p now (EVENT_WRITABLE OR EVENT_READABLE) OnBoth"

definition onReadable :: "platform \<Rightarrow> int \<Rightarrow> socket_read \<Rightarrow> unit act" where
  "onReadable pf fd r = bnd (gets (\<lambda>w. map_of (connections w) fd)) (\<lambda>it. case it of
       None \<Rightarrow> ret ()
     | Some p \<Rightarrow>
         bnd (theClient p) (\<lambda>c.
         let (nread, c') = readFromSocket r (steady_ms pf) c in
         seq (setClient p (\<lambda>_. c'))
         (if nread = 0 then removeClient fd
          else if nread < 0 then ret ()
          else
            seq (processClientInput pf p)
            (bnd (theClient p) (\<lambda>c.
            if hasPendingOutput c then installWriteHandler p else ret ())))))"

definition onWritable :: "int \<Rightarrow> socket_write \<Rightarrow> unit act" where
  "onWritable fd r = bnd (gets (\<lambda>w. map_of (connections w) fd)) (\<lambda>it. case it of
       None \<Rightarrow> ret ()
     | Some p \<Rightarrow>
         bnd (theClient p) (\<lambda>c.
         let (nwritten, _, c') = writeToSocket r c in
         seq (setClient p (\<lambda>_. c'))
         (if nwritten = 0 \<and> hasPendingOutput c' then removeClient fd
          else if \<not> hasPendingOutput c' then
            seq (onLoop (removeFileEvent fd EVENT_WRITABLE))
            (if hasFlag CLIENT_CLOSE_ASAP c' then removeClient fd else ret ())
          else ret ())))"

definition idleClients :: "platform \<Rightarrow> int \<Rightarrow> world \<Rightarrow> int list" where
  "idleClients pf timeoutSeconds w = map fst (filter (\<lambda>(fd, p). case w_clients w p of
       None \<Rightarrow> False
     | Some c \<Rightarrow> \<not> hasFlag CLIENT_SLAVE c \<and> \<not> hasFlag CLIENT_MASTER c \<and>
         (steady_ms pf - lastInteraction c) div 1000 \<ge> timeoutSeconds) (connections w))"

definition closeIdleClients :: "platform \<Rightarrow> int \<Rightarrow> unit act" where
  "closeIdleClients pf timeoutSeconds =
     (if timeoutSeconds \<le> 0 then ret ()
      else bnd (gets (idleClients pf timeoutSeconds)) (\<lambda>toClose. forEach toClose removeClient))"

section \<open>The periodic task\<close>

definition timedOut :: "platform \<Rightarrow> nat list act" where
  "timedOut pf =
     bnd (gets (\<lambda>w. concat (map snd (blockedClients w)))) (\<lambda>ps.
     bnd (mapEach ps (\<lambda>p. bnd (theClient p) (\<lambda>c.
            ret (p, blockTimeout c > 0 \<and> steady_ms pf \<ge> blockTimeout c)))) (\<lambda>marked.
     ret (map fst (filter snd marked))))"

definition expireAll :: "platform \<Rightarrow> world \<Rightarrow> world" where
  "expireAll pf w = foldl (\<lambda>w i. closeDb i (snd (activeExpireCycle pf 20 (openDb i w))) w) w
     [0..<length (databases w)]"

definition endBlock :: "nat \<Rightarrow> unit act" where
  "endBlock p = bnd (theClient p) (\<lambda>c.
     if hasFlag CLIENT_BLOCKED c then seq (reply p reply_nullArray) (unblockClient p) else ret ())"

text \<open>\<open>link\<close> is the descriptor of the connection attempt to the master, with the new client's address.\<close>

definition replicationCron :: "platform \<Rightarrow> (int \<times> nat) option \<Rightarrow> unit act" where
  "replicationCron pf link = bnd (gets (\<lambda>w. w)) (\<lambda>w.
     if masterHost w = '''' \<or> replState w \<noteq> ReplConnect then ret ()
     else case link of None \<Rightarrow> ret ()
     | Some (fd, p) \<Rightarrow>
         seq (modify (createOutboundClient fd p (steady_ms pf)))
         (seq (modify (\<lambda>w. w\<lparr>masterClient := Some p\<rparr>))
         (seq (setClient p (setFlag CLIENT_MASTER))
         (seq (modify (\<lambda>w. w\<lparr>replState := ReplReceivePong\<rparr>))
         (reply p (reply_bulkStringArray [''PING'']))))))"

definition serverCron :: "platform \<Rightarrow> (int \<times> nat) option \<Rightarrow> int act" where
  "serverCron pf link =
     seq (modify (\<lambda>w. w\<lparr>w_mem := setLruClock (word_of_int (steady_ms pf div 1000)) (w_mem w)\<rparr>))
     (seq (modify (expireAll pf))
     (seq (bnd (gets (\<lambda>w. clientTimeout (w_config w))) (closeIdleClients pf))
     (seq (modify (\<lambda>w.
            if appendOnly (w_config w) \<and> appendFsync (w_config w) = ''everysec'' \<and>
               steady_ms pf div 1000 > lastAofFsyncTime w
            then (flushAof w)\<lparr>lastAofFsyncTime := steady_ms pf div 1000\<rparr> else w))
     (seq (bnd (timedOut pf) (\<lambda>ps. forEach ps endBlock))
     (seq (replicationCron pf link)
     (ret 100))))))"

end
