(* ===== verification/Loop.thy ===== *)
theory Loop
  imports Events
begin

text \<open>
  The running server: the accepting socket of \<^verbatim>\<open>networking/tcp_server.cpp\<close> and the
  rounds of the event loop, \<^verbatim>\<open>processEvents\<close> and \<^verbatim>\<open>processTimeEvents\<close> of
  \<^verbatim>\<open>networking/platform/event_loop_select.cpp\<close>. What the operating system answers in a
  round is a record of type \<open>round_env\<close>: the order in which the hash table of file events
  is traversed, the descriptors \<^verbatim>\<open>select\<close> reports, the pending connections, and the
  outcome of every \<^verbatim>\<open>recv\<close> and \<^verbatim>\<open>send\<close>, numbered by the callback of the
  round that makes the call (0 for the read callback, 1 for the write callback).
\<close>

unbundle bit_operations_syntax

record listen_env =
  le_socket :: "int option"
  le_nonblocking :: bool
  le_address :: bool
  le_bind :: bool
  le_listen :: bool

record round_env =
  traversal :: "int list"
  readable :: "int list"
  writable :: "int list"
  pending :: "(int \<times> nat \<times> bool) list"
  received :: "int \<Rightarrow> nat \<Rightarrow> socket_read"
  sent :: "int \<Rightarrow> nat \<Rightarrow> socket_write"
  masterLink :: "(int \<times> nat) option"

section \<open>The accepting socket\<close>

definition tcp_close :: "unit act" where
  "tcp_close = bnd (gets listenFd) (\<lambda>fd. case fd of
       None \<Rightarrow> ret ()
     | Some fd \<Rightarrow>
         seq (onLoop (removeFileEvent fd EVENT_READABLE))
         (modify (\<lambda>w. w\<lparr>listenFd := None\<rparr>)))"

definition tcp_listen :: "listen_env \<Rightarrow> bool act" where
  "tcp_listen le = bnd (gets (\<lambda>w. bindAddress (w_config w))) (\<lambda>bindAddr.
     seq (modify (\<lambda>w. w\<lparr>listenFd := le_socket le\<rparr>))
     (case le_socket le of
        None \<Rightarrow> ret False
      | Some fd \<Rightarrow>
          if \<not> le_nonblocking le then seq tcp_close (ret False)
          else if \<not> (bindAddr = ''0.0.0.0'' \<or> bindAddr = '''') \<and> \<not> le_address le then seq tcp_close (ret False)
          else if \<not> le_bind le then seq tcp_close (ret False)
          else if \<not> le_listen le then seq tcp_close (ret False)
          else seq (onLoop (addFileEvent fd EVENT_READABLE OnAccept)) (ret True)))"

definition MAX_ACCEPTS_PER_CALL :: nat where "MAX_ACCEPTS_PER_CALL = 1000"

definition onAccept :: "platform \<Rightarrow> round_env \<Rightarrow> unit act" where
  "onAccept pf env = forEach (take MAX_ACCEPTS_PER_CALL (pending env))
     (\<lambda>(fd, p, nonblocking). modify (\<lambda>w. snd (addClient fd p (steady_ms pf) nonblocking w)))"

section \<open>Callbacks\<close>

text \<open>
  The function registered for a connection to the master calls both handlers. It reads its
  captured \<^verbatim>\<open>this\<close> again after the first, which is undefined when that handler has
  removed or replaced the function.
\<close>

definition slotOf :: "nat \<Rightarrow> file_event \<Rightarrow> callback option" where
  "slotOf k fe = (if k = 0 then readCallback fe else writeCallback fe)"

definition stillBoth :: "int \<Rightarrow> nat \<Rightarrow> world \<Rightarrow> bool" where
  "stillBoth fd k w \<longleftrightarrow> (case map_of (fileEvents (eventLoop w)) fd of
      None \<Rightarrow> False | Some fe \<Rightarrow> slotOf k fe = Some OnBoth)"

definition runCallback :: "platform \<Rightarrow> round_env \<Rightarrow> callback \<Rightarrow> nat \<Rightarrow> int \<Rightarrow> 32 word \<Rightarrow> unit act" where
  "runCallback pf env cb k fd msk = (case cb of
      OnAccept \<Rightarrow> onAccept pf env
    | OnReadable \<Rightarrow> onReadable pf fd (received env fd k)
    | OnWritable \<Rightarrow> onWritable fd (sent env fd k)
    | OnBoth \<Rightarrow>
        seq (if msk AND EVENT_READABLE \<noteq> 0 then onReadable pf fd (received env fd k) else ret ())
        (if msk AND EVENT_WRITABLE \<noteq> 0 then
           bnd (gets (stillBoth fd k)) (\<lambda>ok.
           if ok then onWritable fd (sent env fd k) else raise Undefined)
         else ret ()))"

section \<open>A round of the loop\<close>

definition firedMask :: "round_env \<Rightarrow> int \<Rightarrow> file_event \<Rightarrow> 32 word" where
  "firedMask env fd fe =
     (let m = (if ev_mask fe AND EVENT_READABLE \<noteq> 0 \<and> fd \<in> set (readable env)
               then EVENT_NONE OR EVENT_READABLE else EVENT_NONE)
      in if ev_mask fe AND EVENT_WRITABLE \<noteq> 0 \<and> fd \<in> set (writable env)
         then m OR EVENT_WRITABLE else m)"

primrec firedEvents :: "round_env \<Rightarrow> (int \<times> file_event) list \<Rightarrow> int list \<Rightarrow> (int \<times> 32 word) list" where
  "firedEvents env evs [] = []"
| "firedEvents env evs (fd # fds) = (case map_of evs fd of
      None \<Rightarrow> firedEvents env evs fds
    | Some fe \<Rightarrow>
        (let m = firedMask env fd fe
         in if m \<noteq> 0 then (fd, m) # firedEvents env evs fds else firedEvents env evs fds))"

text \<open>
  The event is looked up again before each of its callbacks; one that is gone is skipped.
  The result counts the callbacks that ran.
\<close>

definition callSlot :: "platform \<Rightarrow> round_env \<Rightarrow> nat \<Rightarrow> 32 word \<Rightarrow> int \<times> 32 word \<Rightarrow> nat act" where
  "callSlot pf env k flag e = (case e of (fd, msk) \<Rightarrow>
     bnd (gets (\<lambda>w. map_of (fileEvents (eventLoop w)) fd)) (\<lambda>it. case it of
       None \<Rightarrow> ret 0
     | Some fe \<Rightarrow>
         if msk AND flag \<noteq> 0 then
           (case slotOf k fe of
              None \<Rightarrow> ret 0
            | Some cb \<Rightarrow> seq (runCallback pf env cb k fd msk) (ret 1))
         else ret 0))"

primrec fireAll :: "platform \<Rightarrow> round_env \<Rightarrow> (int \<times> 32 word) list \<Rightarrow> nat \<Rightarrow> nat act" where
  "fireAll pf env [] n = ret n"
| "fireAll pf env (e # es) n =
     bnd (callSlot pf env 0 EVENT_READABLE e) (\<lambda>a.
     bnd (callSlot pf env 1 EVENT_WRITABLE e) (\<lambda>b.
     fireAll pf env es (n + a + b)))"

text \<open>
  \<open>fuel\<close> bounds the iterations; \<^verbatim>\<open>serverCron\<close>, the only callback, adds no time event,
  so the number of time events at the start and one more for the test is enough.
\<close>

primrec timeLoop :: "platform \<Rightarrow> round_env \<Rightarrow> nat \<Rightarrow> nat \<Rightarrow> nat \<Rightarrow> nat act" where
  "timeLoop pf env 0 i n = raise Undefined"
| "timeLoop pf env (Suc fuel) i n = bnd (gets (\<lambda>w. timeEvents (eventLoop w))) (\<lambda>tes.
     if i \<ge> length tes then ret n
     else if fireTime (tes ! i) \<le> steady_ms pf then
       bnd (serverCron pf (masterLink env)) (\<lambda>retval.
       if retval > 0 then
         seq (onLoop (\<lambda>el. el\<lparr>timeEvents :=
                (timeEvents el)[i := (timeEvents el ! i)\<lparr>fireTime := steady_ms pf + retval\<rparr>]\<rparr>))
         (timeLoop pf env fuel (i + 1) (n + 1))
       else
         seq (onLoop (\<lambda>el. el\<lparr>timeEvents := take i (timeEvents el) @ drop (i + 1) (timeEvents el)\<rparr>))
         (timeLoop pf env fuel i (n + 1)))
     else timeLoop pf env fuel (i + 1) n)"

definition processTimeEvents :: "platform \<Rightarrow> round_env \<Rightarrow> nat act" where
  "processTimeEvents pf env = bnd (gets (\<lambda>w. length (timeEvents (eventLoop w)))) (\<lambda>k.
     timeLoop pf env (Suc k) 0 0)"

definition processEvents :: "platform \<Rightarrow> round_env \<Rightarrow> nat act" where
  "processEvents pf env =
     bnd (gets (\<lambda>w. firedEvents env (fileEvents (eventLoop w)) (traversal env))) (\<lambda>fired.
     bnd (fireAll pf env fired 0) (\<lambda>n.
     bnd (processTimeEvents pf env) (\<lambda>m. ret (n + m))))"

section \<open>Runs\<close>

definition stop :: "event_loop \<Rightarrow> event_loop" where
  "stop el = el\<lparr>running := False\<rparr>"

definition shutdown :: "unit act" where
  "shutdown = seq (bnd (gets connUp) (\<lambda>up. if up then onLoop stop else ret ())) tcp_close"

text \<open>
  A descriptor or address the system hands out in a round is not in use when the round
  starts, and it hands out none twice.
\<close>

definition offered :: "round_env \<Rightarrow> (int \<times> nat) list" where
  "offered env = map (\<lambda>(fd, p, _). (fd, p)) (pending env)
     @ (case masterLink env of None \<Rightarrow> [] | Some l \<Rightarrow> [l])"

definition env_ok :: "round_env \<Rightarrow> world \<Rightarrow> bool" where
  "env_ok env w \<longleftrightarrow>
     distinct (traversal env) \<and> set (traversal env) = set (keys_of (fileEvents (eventLoop w))) \<and>
     distinct (map fst (offered env)) \<and> distinct (map snd (offered env)) \<and>
     (\<forall>(fd, p) \<in> set (offered env). 0 \<le> fd \<and> Some fd \<noteq> listenFd w \<and>
        fd \<notin> set (keys_of (connections w)) \<and> w_clients w p = None)"

text \<open>
  One step of the process: a round of \<^verbatim>\<open>run\<close>, the work of a background thread, or a
  signal between two rounds. A step that ends in an exception or undefined behaviour has no
  successor here; \<open>crashes\<close> says when that happens.
\<close>

inductive server_step :: "world \<Rightarrow> world \<Rightarrow> bool" where
  round: "running (eventLoop w) \<Longrightarrow> env_ok env w \<Longrightarrow>
    processEvents pf env w = (Inr n, w') \<Longrightarrow> server_step w w'"
| saver: "bgsaveThread pf w = (Inr (), w') \<Longrightarrow> server_step w w'"
| rewriter: "bgrewriteThread pf w = (Inr (), w') \<Longrightarrow> server_step w w'"
| signal: "shutdown w = (Inr (), w') \<Longrightarrow> server_step w w'"

definition crashes :: "platform \<Rightarrow> round_env \<Rightarrow> world \<Rightarrow> bool" where
  "crashes pf env w \<longleftrightarrow> (\<exists>e. fst (processEvents pf env w) = Inl e)"

inductive_cases server_stepE: "server_step w w'"

end
