(* ===== verification/Safety.thy ===== *)
theory Safety
  imports Links Loop
begin

text \<open>
  The invariant of the running server, \<open>world_ok\<close>: every pointer is that of a client in
  memory (\<open>links_ok\<close>), every client in memory is owned by exactly one connection whose
  events are registered consistently (\<open>conn_ok\<close>), and every key space is well formed.
  \<open>keeps m\<close> says that the action \<open>m\<close> keeps it, whatever it returns or throws; the rules for
  it follow the structure of the code, so that most handlers need no more than their
  application.
\<close>

unbundle bit_operations_syntax

section \<open>The invariant\<close>

definition event_known :: "world \<Rightarrow> int \<times> file_event \<Rightarrow> bool" where
  "event_known w e \<longleftrightarrow> ev_mask (snd e) AND NOT (EVENT_READABLE OR EVENT_WRITABLE) = 0 \<and>
     (Some (fst e) = listenFd w \<or> fst e \<in> set (keys_of (connections w)))"

definition conn_ok :: "(nat \<Rightarrow> client option) \<Rightarrow> world \<Rightarrow> bool" where
  "conn_ok cs w \<longleftrightarrow> connUp w \<and> loop_ok (eventLoop w) \<and> distinct (keys_of (connections w)) \<and>
     (\<forall>fd p. map_of (connections w) fd = Some p \<longrightarrow>
        0 \<le> fd \<and> Some fd \<noteq> listenFd w \<and> has cs p (\<lambda>c. client_fd c = fd)) \<and>
     (\<forall>p c. cs p = Some c \<longrightarrow> map_of (connections w) (client_fd c) = Some p) \<and>
     (\<forall>e \<in> set (fileEvents (eventLoop w)). event_known w e)"

text \<open>
  A \<open>quiet\<close> command may run inside \<^verbatim>\<open>EXEC\<close> without breaking the tables: it neither
  blocks the client, nor makes it a replica, nor opens a transaction. The command a blocked
  client waits with is one that blocks. Queued and waiting commands have passed the check of
  their number of arguments.
\<close>

definition commandHandler :: "RespValue list \<Rightarrow> handler option" where
  "commandHandler args = (case args of
      [] \<Rightarrow> None
    | a # _ \<Rightarrow> (case asString a of Inl _ \<Rightarrow> None | Inr s \<Rightarrow> map_option entry_handler (lookupCommand s)))"

definition blocking :: "handler \<Rightarrow> bool" where
  "blocking h \<longleftrightarrow> h = ListH BLPOP \<or> h = ListH BRPOP"

definition quiet :: "RespValue list \<Rightarrow> bool" where
  "quiet args \<longleftrightarrow> (case commandHandler args of None \<Rightarrow> True
     | Some h \<Rightarrow> \<not> blocking h \<and> h \<noteq> ReplicationH PSYNC \<and> h \<noteq> TransactionH MULTI)"

text \<open>The command has as many arguments as the registry asks for.\<close>

definition enough :: "RespValue list \<Rightarrow> bool" where
  "enough args \<longleftrightarrow> args \<noteq> [] \<and>
     (\<forall>s e. asString (args ! 0) = Inr s \<longrightarrow> lookupCommand s = Some e \<longrightarrow> nat \<bar>arity e\<bar> \<le> length args)"

lemma arityOk_enough:
  "asString a = Inr s \<Longrightarrow> lookupCommand s = Some e \<Longrightarrow> arityOk e (length (a # args)) \<Longrightarrow> enough (a # args)"
  by (auto simp: enough_def arityOk_def)

definition wakeable :: "RespValue \<Rightarrow> bool" where
  "wakeable v \<longleftrightarrow> (case v of
      Array args \<Rightarrow> enough args \<and> (case commandHandler args of None \<Rightarrow> False | Some h \<Rightarrow> blocking h)
    | _ \<Rightarrow> False)"

definition calm :: "(nat \<Rightarrow> client option) \<Rightarrow> bool" where
  "calm cs \<longleftrightarrow> (\<forall>p c. cs p = Some c \<longrightarrow> (\<forall>cmd \<in> set (transactionQueue c). quiet cmd \<and> enough cmd) \<and>
     (hasFlag CLIENT_BLOCKED c \<longrightarrow> \<not> hasFlag CLIENT_MULTI c \<and> wakeable (blockCmd c)))"

definition spaces_ok :: "platform \<Rightarrow> world \<Rightarrow> bool" where
  "spaces_ok pf w \<longleftrightarrow> (\<forall>i < length (databases w). ks_ok pf (openDb i w))"

definition world_ok :: "platform \<Rightarrow> world \<Rightarrow> bool" where
  "world_ok pf w \<longleftrightarrow> links_ok (w_clients w) w \<and> conn_ok (w_clients w) w \<and> calm (w_clients w) \<and> spaces_ok pf w"

lemma world_okI:
  "links_ok (w_clients w) w \<Longrightarrow> conn_ok (w_clients w) w \<Longrightarrow> calm (w_clients w) \<Longrightarrow> spaces_ok pf w \<Longrightarrow> world_ok pf w"
  by (simp add: world_ok_def)

lemma world_okD:
  assumes "world_ok pf w"
  shows "links_ok (w_clients w) w" "conn_ok (w_clients w) w" "calm (w_clients w)" "spaces_ok pf w"
  using assms by (simp_all add: world_ok_def)

section \<open>Changes of a client that the invariant does not see\<close>

lemma flags_differ [simp]:
  "CLIENT_BLOCKED \<noteq> CLIENT_MULTI" "CLIENT_BLOCKED \<noteq> CLIENT_SLAVE" "CLIENT_MULTI \<noteq> CLIENT_SLAVE"
  "CLIENT_MULTI \<noteq> CLIENT_BLOCKED" "CLIENT_SLAVE \<noteq> CLIENT_BLOCKED" "CLIENT_SLAVE \<noteq> CLIENT_MULTI"
  "CLIENT_DIRTY_EXEC \<noteq> CLIENT_BLOCKED" "CLIENT_DIRTY_EXEC \<noteq> CLIENT_SLAVE" "CLIENT_DIRTY_EXEC \<noteq> CLIENT_MULTI"
  "CLIENT_MASTER \<noteq> CLIENT_BLOCKED" "CLIENT_MASTER \<noteq> CLIENT_SLAVE" "CLIENT_MASTER \<noteq> CLIENT_MULTI"
  "CLIENT_PUBSUB \<noteq> CLIENT_BLOCKED" "CLIENT_PUBSUB \<noteq> CLIENT_SLAVE" "CLIENT_PUBSUB \<noteq> CLIENT_MULTI"
  "CLIENT_CLOSE_ASAP \<noteq> CLIENT_BLOCKED" "CLIENT_CLOSE_ASAP \<noteq> CLIENT_SLAVE" "CLIENT_CLOSE_ASAP \<noteq> CLIENT_MULTI"
  by (simp_all add: client_flags)

lemmas flags_differ_sym [simp] = flags_differ [THEN not_sym]

definition akin :: "client \<Rightarrow> client \<Rightarrow> bool" where
  "akin c c' \<longleftrightarrow> client_fd c' = client_fd c \<and> subscribed c' = subscribed c \<and> psubscribed c' = psubscribed c \<and>
     blockedKeys c' = blockedKeys c \<and> watching c' = watching c \<and> transactionQueue c' = transactionQueue c \<and>
     blockCmd c' = blockCmd c \<and>
     (\<forall>f \<in> {CLIENT_BLOCKED, CLIENT_SLAVE, CLIENT_MULTI}. hasFlag f c' = hasFlag f c)"

definition alike :: "(nat \<Rightarrow> client option) \<Rightarrow> (nat \<Rightarrow> client option) \<Rightarrow> bool" where
  "alike cs cs' \<longleftrightarrow> (\<forall>p. rel_option akin (cs p) (cs' p))"

lemma akin_refl [simp]: "akin c c"
  by (simp add: akin_def)

lemma alike_refl [simp]: "alike cs cs"
  by (simp add: alike_def option.rel_refl)

lemma akin_setFlag: "f \<in> {CLIENT_DIRTY_EXEC, CLIENT_MASTER, CLIENT_PUBSUB, CLIENT_CLOSE_ASAP} \<Longrightarrow> akin c (setFlag f c)"
  unfolding akin_def by (auto simp: hasFlag_setFlag flags_differ) (simp_all add: setFlag_def)

lemma akin_clearFlag: "f \<in> {CLIENT_DIRTY_EXEC, CLIENT_MASTER, CLIENT_PUBSUB, CLIENT_CLOSE_ASAP} \<Longrightarrow> akin c (clearFlag f c)"
  unfolding akin_def by (auto simp: hasFlag_clearFlag flags_differ) (simp_all add: clearFlag_def)

lemma alike_update: "cs p = Some c \<Longrightarrow> akin c c' \<Longrightarrow> alike cs (cs(p \<mapsto> c'))"
  by (simp add: alike_def option.rel_refl)

lemma alikeD: "alike cs cs' \<Longrightarrow> cs' p = Some c' \<Longrightarrow> \<exists>c. cs p = Some c \<and> akin c c'"
  by (metis alike_def option.rel_cases option.sel option.distinct(1))

lemma alike_has:
  assumes "alike cs cs'" "has cs p Q" "\<And>c c'. akin c c' \<Longrightarrow> Q c \<Longrightarrow> Q c'"
  shows "has cs' p Q"
  using assms by (metis alike_def has_def option.rel_cases option.sel option.distinct(1))

text \<open>The invariant depends on little; \<open>same_tables\<close> is all of it but clients and data.\<close>

definition same_tables :: "world \<Rightarrow> world \<Rightarrow> bool" where
  "same_tables w w' \<longleftrightarrow> pubsubChannels w' = pubsubChannels w \<and> pubsubPatterns w' = pubsubPatterns w \<and>
     blockedClients w' = blockedClients w \<and> replicas w' = replicas w \<and> masterClient w' = masterClient w \<and>
     map watchedKeys (databases w') = map watchedKeys (databases w) \<and> connUp w' = connUp w \<and>
     eventLoop w' = eventLoop w \<and> connections w' = connections w \<and> listenFd w' = listenFd w"

lemma points_same: "same_tables w w' \<Longrightarrow> points w' t k p = points w t k p"
  by (cases t) (simp_all add: same_tables_def del: set_map)

lemma akin_own: "akin c c' \<Longrightarrow> own t c' k = own t c k"
  by (cases t) (simp_all add: akin_def)

lemma links_ok_frame:
  assumes "links_ok cs w" "alike cs cs'" "same_tables w w'"
  shows "links_ok cs' w'"
proof -
  have "tables_ok w' = tables_ok w" using assms(3) by (simp add: same_tables_def tables_ok_def)
  moreover have "has cs' p (\<lambda>c. own t c k)" if "has cs p (\<lambda>c. own t c k)" for t k p
    by (rule alike_has [OF assms(2) that]) (simp add: akin_own)
  ultimately show ?thesis
    using assms(1) points_same [OF assms(3)] unfolding links_ok_def by blast
qed

lemma conn_ok_frame:
  assumes "conn_ok cs w" "alike cs cs'" "same_tables w w'"
  shows "conn_ok cs' w'"
proof -
  have 1: "has cs' p (\<lambda>c. client_fd c = fd)" if "has cs p (\<lambda>c. client_fd c = fd)" for p fd
    by (rule alike_has [OF assms(2) that]) (simp add: akin_def)
  have 2: "map_of (connections w) (client_fd c) = Some p" if "cs' p = Some c" for p c
    using alikeD [OF assms(2) that] assms(1) by (auto simp: akin_def conn_ok_def)
  have eqs: "connUp w' = connUp w" "eventLoop w' = eventLoop w"
    "connections w' = connections w" "listenFd w' = listenFd w"
    using assms(3) by (simp_all add: same_tables_def)
  have known: "event_known w' = event_known w" by (rule ext) (simp only: event_known_def eqs)
  show ?thesis unfolding conn_ok_def eqs known using assms(1) 1 2 unfolding conn_ok_def by blast
qed

lemma calm_frame:
  assumes "calm cs" "alike cs cs'"
  shows "calm cs'"
  unfolding calm_def
proof (intro allI impI)
  fix p c' assume "cs' p = Some c'"
  then obtain c where c: "cs p = Some c" "akin c c'" using alikeD [OF assms(2)] by blast
  from c(1) assms(1) have "(\<forall>cmd \<in> set (transactionQueue c). quiet cmd \<and> enough cmd) \<and>
      (hasFlag CLIENT_BLOCKED c \<longrightarrow> \<not> hasFlag CLIENT_MULTI c \<and> wakeable (blockCmd c))"
    unfolding calm_def by blast
  with c(2) show "(\<forall>cmd \<in> set (transactionQueue c'). quiet cmd \<and> enough cmd) \<and>
      (hasFlag CLIENT_BLOCKED c' \<longrightarrow> \<not> hasFlag CLIENT_MULTI c' \<and> wakeable (blockCmd c'))"
    by (simp add: akin_def)
qed

lemma world_ok_frame:
  assumes "world_ok pf w" "same_tables w w'" "alike (w_clients w) (w_clients w')" "spaces_ok pf w'"
  shows "world_ok pf w'"
  using assms(4) links_ok_frame [OF world_okD(1) [OF assms(1)] assms(3,2)]
    conn_ok_frame [OF world_okD(2) [OF assms(1)] assms(3,2)] calm_frame [OF world_okD(3) [OF assms(1)] assms(3)]
  by (rule world_okI [rotated 3])

text \<open>The key spaces see the clients only through the domain of the store.\<close>

lemma spaces_ok_frame:
  assumes "spaces_ok pf w" "databases w' = databases w" "dom (w_clients w') = dom (w_clients w)"
  shows "spaces_ok pf w'"
  using assms by (simp add: spaces_ok_def openDb_sel ks_ok_def)

lemma alike_dom: "alike cs cs' \<Longrightarrow> dom cs' = dom cs"
  unfolding alike_def dom_def by (metis option.rel_distinct(1,2) option.exhaust)

section \<open>Actions that keep the invariant\<close>

definition keeps :: "platform \<Rightarrow> 'a act \<Rightarrow> bool" where
  "keeps pf m \<longleftrightarrow> (\<forall>w. world_ok pf w \<longrightarrow> world_ok pf (snd (m w)))"

named_theorems keeps

lemma keepsI: "(\<And>w. world_ok pf w \<Longrightarrow> world_ok pf (snd (m w))) \<Longrightarrow> keeps pf m"
  by (simp add: keeps_def)

lemma keepsD: "keeps pf m \<Longrightarrow> world_ok pf w \<Longrightarrow> world_ok pf (snd (m w))"
  by (simp add: keeps_def)

lemma keeps_basic [keeps]:
  "keeps pf (ret x)" "keeps pf (raise e)" "keeps pf (gets f)" "keeps pf (lift r)"
  by (simp_all add: keeps_def act_apply)

lemma keeps_defined [keeps]: "keeps pf (defined r)"
  by (simp add: defined_def keeps_basic split: option.split)

lemma keeps_bnd [keeps]: "keeps pf m \<Longrightarrow> (\<And>x. keeps pf (f x)) \<Longrightarrow> keeps pf (bnd m f)"
  by (force simp: keeps_def bnd_def split: prod.split sum.split)

lemma keeps_if [keeps]: "keeps pf a \<Longrightarrow> keeps pf b \<Longrightarrow> keeps pf (if c then a else b)"
  by simp

lemma keeps_option [keeps]:
  "keeps pf n \<Longrightarrow> (\<And>x. keeps pf (s x)) \<Longrightarrow> keeps pf (case r of None \<Rightarrow> n | Some x \<Rightarrow> s x)"
  by (simp split: option.split)

lemma keeps_prod [keeps]: "(\<And>x y. keeps pf (f x y)) \<Longrightarrow> keeps pf (case r of (x, y) \<Rightarrow> f x y)"
  by (simp split: prod.split)

lemma keeps_try [keeps]: "keeps pf m \<Longrightarrow> (\<And>e. keeps pf (h e)) \<Longrightarrow> keeps pf (try_catch m h)"
  by (force simp: keeps_def try_catch_def split: prod.split sum.split)

lemma keeps_forEach [keeps]: "(\<And>x. keeps pf (f x)) \<Longrightarrow> keeps pf (forEach xs f)"
  by (induction xs) (simp_all add: keeps_basic keeps_bnd)

lemma keeps_countEach [keeps]: "(\<And>x. keeps pf (f x)) \<Longrightarrow> keeps pf (countEach xs f n)"
  by (induction xs arbitrary: n) (simp_all add: keeps_basic keeps_bnd)

lemma keeps_mapEach [keeps]: "(\<And>x. keeps pf (f x)) \<Longrightarrow> keeps pf (mapEach xs f)"
  by (induction xs) (simp_all add: keeps_basic keeps_bnd)

lemma keeps_frame:
  assumes "\<And>w. same_tables w (f w)" "\<And>w. alike (w_clients w) (w_clients (f w))"
    "\<And>w. databases (f w) = databases w"
  shows "keeps pf (modify f)"
proof (rule keepsI)
  fix w assume w: "world_ok pf w"
  have "spaces_ok pf (f w)"
    by (rule spaces_ok_frame [OF world_okD(4) [OF w] assms(3) alike_dom [OF assms(2)]])
  with assms w show "world_ok pf (snd (modify f w))"
    by (simp add: act_apply) (rule world_ok_frame)
qed

section \<open>Databases\<close>

lemma marked_alike: "marked cs cs' \<Longrightarrow> alike cs cs'"
  unfolding alike_def marked_def
proof
  fix p assume "\<forall>p. cs' p = cs p \<or> cs' p = map_option (setFlag CLIENT_DIRTY_EXEC) (cs p)"
  then have "cs' p = cs p \<or> cs' p = map_option (setFlag CLIENT_DIRTY_EXEC) (cs p)" ..
  then show "rel_option akin (cs p) (cs' p)" by (cases "cs p") (auto simp: akin_setFlag)
qed

lemma closeDb_spaces:
  assumes w: "spaces_ok pf w" and i: "i < length (databases w)"
    and ks: "ks_ok pf ks" "settled (openDb i w) ks"
  shows "spaces_ok pf (closeDb i ks w)" "same_tables w (closeDb i ks w)" "alike (w_clients w) (w_clients (closeDb i ks w))"
proof -
  let ?w = "closeDb i ks w"
  show "same_tables w ?w"
    using ks(2) i by (simp add: same_tables_def closeDb_def settled_def openDb_sel map_update list_update_same_conv)
  show al: "alike (w_clients w) (w_clients ?w)"
    using ks(2) by (simp add: settled_def closeDb_def openDb_sel marked_alike)
  have "ks_ok pf (openDb j ?w)" if j: "j < length (databases w)" for j
  proof (cases "j = i")
    case True
    with ks(1) i show ?thesis by (simp add: openDb_closeDb)
  next
    case False
    have "ks_ok pf (openDb j w)" using w j by (simp add: spaces_ok_def)
    then show ?thesis
      using False alike_dom [OF al] by (simp add: ks_ok_def openDb_sel) (simp add: closeDb_def)
  qed
  then show "spaces_ok pf ?w" by (simp add: spaces_ok_def)
qed

lemma closeDb_world:
  assumes "world_ok pf w" "i < length (databases w)" "ks_ok pf ks" "settled (openDb i w) ks"
  shows "world_ok pf (closeDb i ks w)" "alike (w_clients w) (w_clients (closeDb i ks w))"
  using closeDb_spaces [OF world_okD(4) [OF assms(1)] assms(2-4)] world_ok_frame [OF assms(1)] by blast+

lemma tame_world:
  assumes "tame pf f" "world_ok pf w" "i < length (databases w)"
  shows "world_ok pf (closeDb i (f (openDb i w)) w)" "alike (w_clients w) (w_clients (closeDb i (f (openDb i w)) w))"
proof -
  have "ks_ok pf (openDb i w)" using world_okD(4) [OF assms(2)] assms(3) by (simp add: spaces_ok_def)
  then have "ks_ok pf (f (openDb i w))" "settled (openDb i w) (f (openDb i w))"
    using assms(1) by (simp_all add: tame_def)
  from closeDb_world [OF assms(2,3) this]
  show "world_ok pf (closeDb i (f (openDb i w)) w)" "alike (w_clients w) (w_clients (closeDb i (f (openDb i w)) w))" .
qed

text \<open>\<open>gentle\<close> actions also leave every client as it was, up to what \<open>akin\<close> allows.\<close>

definition gentle :: "platform \<Rightarrow> 'a act \<Rightarrow> bool" where
  "gentle pf m \<longleftrightarrow> (\<forall>w. world_ok pf w \<longrightarrow> world_ok pf (snd (m w)) \<and> alike (w_clients w) (w_clients (snd (m w))))"

named_theorems gentle

lemma akin_trans: "akin c c' \<Longrightarrow> akin c' c'' \<Longrightarrow> akin c c''"
  by (simp add: akin_def)

lemma alike_trans: "alike cs cs' \<Longrightarrow> alike cs' cs'' \<Longrightarrow> alike cs cs''"
  unfolding alike_def by (metis (no_types, lifting) akin_trans option.rel_cases option.rel_inject(2) option.rel_distinct(1))

lemma gentle_keeps: "gentle pf m \<Longrightarrow> keeps pf m"
  by (simp add: gentle_def keeps_def)

lemma gentleD: "gentle pf m \<Longrightarrow> world_ok pf w \<Longrightarrow> alike (w_clients w) (w_clients (snd (m w)))"
  by (simp add: gentle_def)

lemma gentle_basic [gentle]:
  "gentle pf (ret x)" "gentle pf (raise e)" "gentle pf (gets f)" "gentle pf (lift r)"
  by (simp_all add: gentle_def act_apply)

lemma gentle_defined [gentle]: "gentle pf (defined r)"
  by (simp add: defined_def gentle_basic split: option.split)

lemma gentle_bnd [gentle]:
  assumes "gentle pf m" "\<And>x. gentle pf (f x)"
  shows "gentle pf (bnd m f)"
  unfolding gentle_def
proof (intro allI impI)
  fix w assume w: "world_ok pf w"
  obtain r w' where m: "m w = (r, w')" by fastforce
  with assms(1) w have w': "world_ok pf w'" "alike (w_clients w) (w_clients w')" by (auto simp: gentle_def)
  with assms(2) m show "world_ok pf (snd (bnd m f w)) \<and> alike (w_clients w) (w_clients (snd (bnd m f w)))"
    by (cases r) (auto simp: bnd_def gentle_def intro: alike_trans)
qed

lemma gentle_if [gentle]: "gentle pf a \<Longrightarrow> gentle pf b \<Longrightarrow> gentle pf (if c then a else b)"
  by simp

lemma gentle_option [gentle]:
  "gentle pf n \<Longrightarrow> (\<And>x. gentle pf (s x)) \<Longrightarrow> gentle pf (case r of None \<Rightarrow> n | Some x \<Rightarrow> s x)"
  by (simp split: option.split)

lemma gentle_prod [gentle]: "(\<And>x y. gentle pf (f x y)) \<Longrightarrow> gentle pf (case r of (x, y) \<Rightarrow> f x y)"
  by (simp split: prod.split)

lemma gentle_onDb [gentle]: "tame pf (\<lambda>ks. snd (f ks)) \<Longrightarrow> gentle pf (onDb index f)"
  unfolding gentle_def
proof (intro allI impI)
  fix w assume "tame pf (\<lambda>ks. snd (f ks))" "world_ok pf w"
  then show "world_ok pf (snd (onDb index f w)) \<and> alike (w_clients w) (w_clients (snd (onDb index f w)))"
    using tame_world [of pf "\<lambda>ks. snd (f ks)" w "dbIndex index w"]
    by (auto simp: onDb_def Let_def dbIndex_def case_prod_beta)
qed

lemma gentle_runDb [gentle]: "tame pf f \<Longrightarrow> gentle pf (runDb index f)"
  unfolding runDb_def by (rule gentle_onDb) simp

lemma keeps_onDb [keeps]: "tame pf (\<lambda>ks. snd (f ks)) \<Longrightarrow> keeps pf (onDb index f)"
  by (rule gentle_keeps, rule gentle_onDb)

lemma keeps_runDb [keeps]: "tame pf f \<Longrightarrow> keeps pf (runDb index f)"
  unfolding runDb_def by (rule keeps_onDb) simp

text \<open>A write through a reference must leave a well-formed value well formed.\<close>

definition sound :: "platform \<Rightarrow> (contents \<Rightarrow> ('a \<times> contents) option) \<Rightarrow> bool" where
  "sound pf f \<longleftrightarrow> (\<forall>v r v'. contents_ok (hasher pf) v \<longrightarrow> f v = Some (r, v') \<longrightarrow> contents_ok (hasher pf) v')"

lemma gentle_onObject [gentle]:
  assumes "sound pf f"
  shows "gentle pf (onObject index key f)"
  unfolding gentle_def
proof (intro allI impI)
  fix w assume w: "world_ok pf w"
  show "world_ok pf (snd (onObject index key f w)) \<and> alike (w_clients w) (w_clients (snd (onObject index key f w)))"
  proof (cases "databases w = [] \<or> map_of (data (openDb (dbIndex index w) w)) key = None")
    case True
    have "snd (onObject index key f w) = w"
    proof (cases "databases w = []")
      case False
      then have "dbIndex index w < length (databases w)" by (auto simp: dbIndex_def)
      with True False show ?thesis
        by (simp add: onObject_def bnd_def onDb_def defined_def raise_def Let_def closeDb_openDb)
    qed (simp add: onObject_def bnd_def onDb_def)
    with w show ?thesis by simp
  next
    case False
    then obtain ob where ob: "map_of (data (openDb (dbIndex index w) w)) key = Some ob" and ne: "databases w \<noteq> []" by auto
    then have i: "dbIndex index w < length (databases w)" by (auto simp: dbIndex_def)
    have val: "contents_ok (hasher pf) (obj_value ob)"
      using world_okD(4) [OF w] i ob ks_okD(5) by (fastforce simp: spaces_ok_def)
    note id = closeDb_openDb [OF i]
    show ?thesis
    proof (cases "f (obj_value ob)")
      case None
      with w ob ne show ?thesis
        by (simp add: onObject_def bnd_def onDb_def defined_def ret_def raise_def Let_def id)
    next
      case (Some rv)
      obtain r v where rv: "rv = (r, v)" by (cases rv)
      with Some assms val have v: "contents_ok (hasher pf) v" unfolding sound_def by blast
      from tame_world [OF tame_write [OF v] w i] ob ne Some rv show ?thesis
        by (simp add: onObject_def bnd_def onDb_def defined_def ret_def Let_def runDb_def id)
    qed
  qed
qed

lemma keeps_onObject [keeps]: "sound pf f \<Longrightarrow> keeps pf (onObject index key f)"
  by (rule gentle_keeps, rule gentle_onObject)

lemma sound_list: "(\<And>l r l' xs. ll_is l xs \<Longrightarrow> f l = Some (r, l') \<Longrightarrow> \<exists>ys. ll_is l' ys) \<Longrightarrow> sound pf (inList f)"
  by (fastforce simp: sound_def inList_def split: contents.splits)

lemma sound_push [keeps]: "sound pf (inList (pushOne left v))"
proof (rule sound_list)
  fix l r l' xs assume "ll_is l xs" "pushOne left v l = Some (r, l')"
  with ll_pushFront_is [of l xs v] ll_pushBack_is [of l xs v] show "\<exists>ys. ll_is l' ys"
    by (auto simp: pushOne_def split: if_splits)
qed

lemma sound_pop [keeps]: "sound pf (inList (popOne left))"
proof (rule sound_list)
  fix l r l' xs assume l: "ll_is l xs" "popOne left l = Some (r, l')"
  show "\<exists>ys. ll_is l' ys"
  proof (cases "xs = []")
    case True
    with l pop_empty [of l] show ?thesis by (auto simp: popOne_def split: if_splits)
  next
    case False
    then have "xs = hd xs # tl xs" "xs = butlast xs @ [last xs]" by simp_all
    with l ll_popFront_is [of l "hd xs" "tl xs"] ll_popBack_is [of l "butlast xs" "last xs"] show ?thesis
      by (auto simp: popOne_def split: if_splits)
  qed
qed

lemma sound_look [keeps]: "sound pf (inList (\<lambda>l. Some (g l, l)))" "sound pf (inSet (\<lambda>s. (e s, s)))"
  "sound pf (inZset (\<lambda>z. Some (d z, z)))"
  by (auto simp: sound_def inList_def inSet_def inZset_def split: contents.splits)

lemma sound_hash [keeps]: "sound pf (inHash (ht_set (hasher pf) k v))"
  by (auto simp: sound_def inHash_def split: contents.splits prod.splits dest: ht.put_inv [of "hasher pf" _ k v])

lemma sound_set [keeps]: "sound pf (inSet (hs_add (hasher pf) m))" "sound pf (inSet (hs_remove (hasher pf) m))"
  by (auto simp: sound_def inSet_def split: contents.splits prod.splits
      dest: hs.add_inv [of "hasher pf" _ m] hs.remove_inv [of "hasher pf" _ m])

lemma sound_zset [keeps]:
  "sound pf (inZset (ss_add (hasher pf) m s))" "sound pf (inZset (ss_remove (hasher pf) m))"
  using ss_add_returns [of "hasher pf" _ m s] ss_remove_returns [of "hasher pf" _ m]
  by (fastforce simp: sound_def inZset_def split: contents.splits)+

section \<open>Clients\<close>

lemma keeps_theClient [keeps]: "keeps pf (theClient p)"
  unfolding theClient_def by (intro keeps)

lemma gentle_setClient [gentle]:
  assumes "\<And>c. akin c (f c)"
  shows "gentle pf (setClient p f)"
  unfolding gentle_def
proof (intro allI impI)
  fix w assume w: "world_ok pf w"
  show "world_ok pf (snd (setClient p f w)) \<and> alike (w_clients w) (w_clients (snd (setClient p f w)))"
  proof (cases "w_clients w p")
    case None
    with w show ?thesis by (simp add: setClient_def theClient_def bnd_def gets_def defined_def raise_def)
  next
    case (Some c)
    let ?w = "w\<lparr>w_clients := (w_clients w)(p \<mapsto> f c)\<rparr>"
    have al: "alike (w_clients w) (w_clients ?w)" using alike_update [of "w_clients w", OF Some assms] by simp
    have "world_ok pf ?w"
      by (rule world_ok_frame [OF w _ al spaces_ok_frame [OF world_okD(4) [OF w] _ alike_dom [OF al]]])
        (simp_all add: same_tables_def)
    with Some al show ?thesis by (simp add: setClient_def theClient_def bnd_def gets_def defined_def ret_def modify_def)
  qed
qed

lemma keeps_setClient [keeps]: "(\<And>c. akin c (f c)) \<Longrightarrow> keeps pf (setClient p f)"
  by (rule gentle_keeps, rule gentle_setClient)

lemma akin_fields [keeps]:
  "akin c (addReply s c)" "akin c (c\<lparr>selectedDb := n\<rparr>)" "akin c (consumeInput k c)"
  by (simp_all add: akin_def addReply_def consumeInput_def hasFlag_def)

lemma akin_flags [keeps]:
  "akin c (setFlag CLIENT_DIRTY_EXEC c)" "akin c (setFlag CLIENT_MASTER c)" "akin c (setFlag CLIENT_PUBSUB c)"
  "akin c (setFlag CLIENT_CLOSE_ASAP c)" "akin c (clearFlag CLIENT_DIRTY_EXEC c)" "akin c (clearFlag CLIENT_PUBSUB c)"
  by (simp_all add: akin_setFlag akin_clearFlag)

lemma gentle_reply [gentle]: "gentle pf (reply p s)"
  unfolding reply_def by (intro gentle keeps)

lemma keeps_reply [keeps]: "keeps pf (reply p s)"
  by (rule gentle_keeps, rule gentle_reply)

lemma gentle_theClient [gentle]: "gentle pf (theClient p)"
  unfolding theClient_def by (intro gentle)

lemma gentle_argStr [gentle]: "gentle pf (argStr args i)"
  unfolding argStr_def by (intro gentle)

lemma keeps_selected [keeps]: "keeps pf (selected p)"
  unfolding selected_def by (intro keeps)

lemma keeps_argStr [keeps]: "keeps pf (argStr args i)"
  unfolding argStr_def by (intro keeps)

lemma keeps_tryNumber [keeps]: "keeps pf (tryNumber conv args i)"
  unfolding tryNumber_def by (intro keeps)

section \<open>Changing one client and one table\<close>

definition calm_client :: "client \<Rightarrow> bool" where
  "calm_client c \<longleftrightarrow> (\<forall>cmd \<in> set (transactionQueue c). quiet cmd \<and> enough cmd) \<and>
     (hasFlag CLIENT_BLOCKED c \<longrightarrow> \<not> hasFlag CLIENT_MULTI c \<and> wakeable (blockCmd c))"

lemma calm_client: "calm cs \<Longrightarrow> cs p = Some c \<Longrightarrow> calm_client c"
  by (auto simp: calm_def calm_client_def)

lemma world_ok_update:
  assumes w: "world_ok pf w" and c: "w_clients w p = Some c" "w_clients w' = (w_clients w)(p \<mapsto> c')"
    and "client_fd c' = client_fd c" "calm_client c'" "links_ok ((w_clients w)(p \<mapsto> c')) w'"
    and spaces: "spaces_ok pf w'" and same: "connUp w' = connUp w" "eventLoop w' = eventLoop w"
    "connections w' = connections w" "listenFd w' = listenFd w"
  shows "world_ok pf w'"
proof (rule world_okI)
  show "links_ok (w_clients w') w'" using assms(6) c by simp
  show "calm (w_clients w')" using world_okD(3) [OF w] assms(5) by (auto simp: c calm_def calm_client_def)
  show "spaces_ok pf w'" by (rule spaces)
  have known: "event_known w' = event_known w" by (rule ext) (simp only: event_known_def same)
  have "has ((w_clients w)(p \<mapsto> c')) q (\<lambda>c. client_fd c = fd)" if "has (w_clients w) q (\<lambda>c. client_fd c = fd)" for q fd
    using that c(1) assms(4) by (simp add: has_def) (metis option.inject)
  moreover have "map_of (connections w) (client_fd d) = Some q" if "((w_clients w)(p \<mapsto> c')) q = Some d" for q d
    using that world_okD(2) [OF w] c(1) assms(4) unfolding conn_ok_def by (metis fun_upd_apply option.inject)
  ultimately show "conn_ok (w_clients w') w'"
    using world_okD(2) [OF w] unfolding conn_ok_def same known c(2) by blast
qed

lemma runs_client:
  "setClient p f w = (case w_clients w p of None \<Rightarrow> (Inl Undefined, w)
     | Some c \<Rightarrow> (Inr (), w\<lparr>w_clients := (w_clients w)(p \<mapsto> f c)\<rparr>))"
  "bnd (theClient p) k w = (case w_clients w p of None \<Rightarrow> (Inl Undefined, w) | Some c \<Rightarrow> k c w)"
  by (simp_all add: setClient_def theClient_def bnd_def gets_def defined_def raise_def ret_def modify_def split: option.split)

lemma calm_same [intro]:
  assumes "calm_client c" "transactionQueue c' = transactionQueue c" "blockCmd c' = blockCmd c" "flags c' = flags c"
  shows "calm_client c'"
  using assms by (simp add: calm_client_def hasFlag_def)

text \<open>
  The rule for an action that changes client \<open>p\<close> and a table: what points to others was there
  before, what points to \<open>p\<close> is owned by the changed client.
\<close>

lemma world_ok_alter:
  assumes w: "world_ok pf w" and c: "w_clients w p = Some c" "w_clients w' = (w_clients w)(p \<mapsto> c')"
    and "client_fd c' = client_fd c" "calm_client c \<Longrightarrow> calm_client c'" "tables_ok w \<Longrightarrow> tables_ok w'"
    "\<And>t k q. points w' t k q \<Longrightarrow> q \<noteq> p \<Longrightarrow> points w t k q"
    "\<And>t k. points w' t k p \<Longrightarrow> (points w t k p \<Longrightarrow> own t c k) \<Longrightarrow> own t c' k"
    and spaces: "spaces_ok pf w'" and same: "connUp w' = connUp w" "eventLoop w' = eventLoop w"
    "connections w' = connections w" "listenFd w' = listenFd w"
  shows "world_ok pf w'"
proof (rule world_ok_update [OF w c assms(4) _ _ spaces same])
  show "calm_client c'" using assms(5) calm_client [OF world_okD(3) [OF w] c(1)] .
  show "links_ok ((w_clients w)(p \<mapsto> c')) w'"
    using links_alter [OF world_okD(1) [OF w] _ assms(7)] assms(6,8)
      links_tables [OF world_okD(1) [OF w]] links_own [OF world_okD(1) [OF w] _ c(1)] by blast
qed

lemma points_clients [simp]: "points (w\<lparr>w_clients := cs\<rparr>) = points w"
  by (rule ext)+ (case_tac x; simp)

lemma world_ok_link:
  assumes w: "world_ok pf w" and c: "w_clients w p = Some c"
    and f: "client_fd (f c) = client_fd c" "calm_client c \<Longrightarrow> calm_client (f c)"
    and g: "\<And>w. tables_ok w \<Longrightarrow> tables_ok (g w)" "\<And>w t k q. points (g w) t k q \<Longrightarrow> q \<noteq> p \<Longrightarrow> points w t k q"
    "\<And>w t k. points (g w) t k p \<Longrightarrow> (points w t k p \<Longrightarrow> own t c k) \<Longrightarrow> own t (f c) k"
    and same: "\<And>w. databases (g w) = databases w \<and> connUp (g w) = connUp w \<and> eventLoop (g w) = eventLoop w \<and>
      connections (g w) = connections w \<and> listenFd (g w) = listenFd w \<and> w_clients (g w) = w_clients w"
  shows "world_ok pf (g (w\<lparr>w_clients := (w_clients w)(p \<mapsto> f c)\<rparr>))"
proof (rule world_ok_alter [OF w c, where c' = "f c"])
  let ?w = "w\<lparr>w_clients := (w_clients w)(p \<mapsto> f c)\<rparr>"
  show "points (g ?w) t k q \<Longrightarrow> q \<noteq> p \<Longrightarrow> points w t k q" for t k q using g(2) [of ?w] by simp
  show "points (g ?w) t k p \<Longrightarrow> (points w t k p \<Longrightarrow> own t c k) \<Longrightarrow> own t (f c) k" for t k using g(3) [of ?w] by simp
  show "tables_ok w \<Longrightarrow> tables_ok (g ?w)" using g(1) [of ?w] by (simp add: tables_ok_def)
  show "spaces_ok pf (g ?w)" by (rule spaces_ok_frame [OF world_okD(4) [OF w]]) (use same [of ?w] c in auto)
qed (use f same [of "w\<lparr>w_clients := (w_clients w)(p \<mapsto> f c)\<rparr>"] in simp_all)

lemma calm_fields [simp]:
  "calm_client (c\<lparr>subscribed := x\<rparr>) = calm_client c" "calm_client (c\<lparr>psubscribed := x\<rparr>) = calm_client c"
  "calm_client (c\<lparr>watching := x\<rparr>) = calm_client c"
  by (simp_all add: calm_client_def hasFlag_def)

lemma flag_fields [simp]:
  "hasFlag f (c\<lparr>subscribed := x\<rparr>) = hasFlag f c" "hasFlag f (c\<lparr>psubscribed := x\<rparr>) = hasFlag f c"
  "hasFlag f (c\<lparr>watching := x\<rparr>) = hasFlag f c"
  by (simp_all add: hasFlag_def)

lemma all_relation: "(\<forall>t. P t) \<longleftrightarrow> P Channel \<and> P Pattern \<and> P BlockedOn \<and> P Replica \<and> P Watch \<and> P Master"
  by (metis relation.exhaust)

lemma keeps_link:
  assumes "\<forall>c. client_fd (f c) = client_fd c" "\<forall>c. calm_client c \<longrightarrow> calm_client (f c)"
    "\<forall>w. tables_ok w \<longrightarrow> tables_ok (g w)"
    "\<forall>t w k q. points (g w) t k q \<longrightarrow> q \<noteq> p \<longrightarrow> points w t k q"
    "\<forall>t w k c. points (g w) t k p \<longrightarrow> (points w t k p \<longrightarrow> own t c k) \<longrightarrow> own t (f c) k"
    "\<forall>w. databases (g w) = databases w \<and> connUp (g w) = connUp w \<and> eventLoop (g w) = eventLoop w \<and>
      connections (g w) = connections w \<and> listenFd (g w) = listenFd w \<and> w_clients (g w) = w_clients w"
  shows "keeps pf (seq (setClient p f) (modify g))"
proof (rule keepsI)
  fix w assume w: "world_ok pf w"
  show "world_ok pf (snd (seq (setClient p f) (modify g) w))"
  proof (cases "w_clients w p")
    case (Some c)
    have "world_ok pf (g (w\<lparr>w_clients := (w_clients w)(p \<mapsto> f c)\<rparr>))"
      by (rule world_ok_link [where f = f and g = g and c = c and p = p, OF w Some]; use assms in blast)
    with Some show ?thesis by (simp add: bnd_def [of "setClient p f"] runs_client modify_def)
  qed (use w in \<open>simp add: bnd_def [of "setClient p f"] runs_client\<close>)
qed

lemma keeps_subscriptions [keeps]:
  "keeps pf (subscribeChannel p ch)" "keeps pf (unsubscribeChannel p ch)"
  "keeps pf (psubscribePattern p ch)" "keeps pf (punsubscribePattern p ch)"
  unfolding subscribeChannel_def unsubscribeChannel_def psubscribePattern_def punsubscribePattern_def
  by (rule keeps_bnd, rule keeps, rule keeps_if, rule keeps, rule keeps_link;
      auto simp: all_relation tables_ok_def keys_add keys_remove entries_add entries_remove)+

end
