(* ===== verification/Disconnect.thy ===== *)
theory Disconnect
  imports Safety
begin

text \<open>
  A client goes away. \<open>unlinking\<close> is the contract of the four relations that clean-up
  follows the client's own list of, interpreted for channels, patterns, blocking keys and
  watched keys; \<open>close_unlinks\<close> shows that after \<^verbatim>\<open>Server::closeClient\<close> no table points
  to the client any more, which is what makes freeing its memory safe.
\<close>

unbundle bit_operations_syntax

section \<open>Unlinking a client from a table\<close>

lemma forEach_modify: "forEach ks (\<lambda>k. modify (g k)) = modify (\<lambda>w. foldl (\<lambda>w k. g k w) w ks)"
  by (induction ks) (simp_all add: fun_eq_iff act_apply bnd_def)


text \<open>
  The clean-up of a relation follows the client's own list and drops each entry, then clears
  the list. The four relations that have a list share the contract \<open>unlinking\<close>.
\<close>

definition same_conn :: "world \<Rightarrow> world \<Rightarrow> bool" where
  "same_conn w w' \<longleftrightarrow> connUp w' = connUp w \<and> eventLoop w' = eventLoop w \<and> connections w' = connections w \<and>
     listenFd w' = listenFd w \<and> w_clients w' = w_clients w"

lemma same_conn_refl [simp]: "same_conn w w"
  by (simp add: same_conn_def)

lemma same_conn_trans: "same_conn w w' \<Longrightarrow> same_conn w' w'' \<Longrightarrow> same_conn w w''"
  by (simp add: same_conn_def)

locale unlinking =
  fixes T :: relation and list :: "client \<Rightarrow> string list" and clear :: "client \<Rightarrow> client"
    and drop :: "nat \<Rightarrow> string \<Rightarrow> world \<Rightarrow> world"
  assumes own_list: "own T c k \<Longrightarrow> k \<in> set (list c)"
    and own_clear: "t \<noteq> T \<Longrightarrow> own t (clear c) k = own t c k"
    and clear_fd: "client_fd (clear c) = client_fd c"
    and clear_calm: "calm_client c \<Longrightarrow> calm_client (clear c)"
    and drop_points: "points (drop p k w) t k' q \<longleftrightarrow> points w t k' q \<and> \<not> (t = T \<and> k' = k \<and> q = p)"
    and drop_tables: "tables_ok w \<Longrightarrow> tables_ok (drop p k w)"
    and drop_spaces: "spaces_ok pf w \<Longrightarrow> spaces_ok pf (drop p k w)"
    and drop_conn: "same_conn w (drop p k w)"
begin

lemma drop_all:
  "points (foldl (\<lambda>w k. drop p k w) w ks) t k q \<longleftrightarrow> points w t k q \<and> \<not> (t = T \<and> k \<in> set ks \<and> q = p)"
  "tables_ok w \<Longrightarrow> tables_ok (foldl (\<lambda>w k. drop p k w) w ks)"
  "spaces_ok pf w \<Longrightarrow> spaces_ok pf (foldl (\<lambda>w k. drop p k w) w ks)"
  by (induction ks arbitrary: w) (auto simp: drop_points drop_tables drop_spaces)

lemma drop_all_conn: "same_conn w (foldl (\<lambda>w k. drop p k w) w ks)"
proof (induction ks arbitrary: w)
  case (Cons a ks)
  show ?case using same_conn_trans [OF drop_conn Cons.IH] by simp
qed simp

lemma unlink:
  assumes w: "world_ok pf w" and c: "w_clients w p = Some c"
  defines "w1 \<equiv> foldl (\<lambda>w k. drop p k w) w (list c)"
  defines "w2 \<equiv> w1\<lparr>w_clients := (w_clients w1)(p \<mapsto> clear c)\<rparr>"
  shows "world_ok pf w2" "points w2 t k p \<Longrightarrow> t \<noteq> T \<and> points w t k p" "same_conn w w1"
proof -
  have conn: "same_conn w w1" and pts: "points w2 t k q \<longleftrightarrow> points w t k q \<and> \<not> (t = T \<and> k \<in> set (list c) \<and> q = p)" for t k q
    unfolding w2_def w1_def by (simp_all add: drop_all drop_all_conn)
  have gone: "\<not> (t = T \<and> points w2 t k p)" for t k
    using links_own [OF world_okD(1) [OF w] _ c, of T k] own_list by (auto simp: pts)
  have "spaces_ok pf w2"
    by (rule spaces_ok_frame [where w = w1]) (use drop_all(3) [OF world_okD(4) [OF w]] conn c in
        \<open>auto simp: w1_def w2_def same_conn_def\<close>)
  then show "world_ok pf w2"
  proof (rule world_ok_alter [OF w c, where c' = "clear c", rotated 6])
    show "tables_ok w \<Longrightarrow> tables_ok w2" unfolding w2_def w1_def using drop_all(2) by (simp add: tables_ok_def)
    show "own t (clear c) k" if "points w2 t k p" "points w t k p \<Longrightarrow> own t c k" for t k
    proof -
      have "t \<noteq> T" using gone that(1) by blast
      moreover have "points w t k p" using that(1) by (simp add: pts)
      ultimately show ?thesis using that(2) own_clear by blast
    qed
    show "points w2 t k q \<Longrightarrow> q \<noteq> p \<Longrightarrow> points w t k q" for t k q using pts by blast
  qed (use conn clear_calm in \<open>auto simp: clear_fd w2_def same_conn_def\<close>)
  show "points w2 t k p \<Longrightarrow> t \<noteq> T \<and> points w t k p" using gone pts by blast
  show "same_conn w w1" by (rule conn)
qed

text \<open>The clean-up as the code runs it.\<close>

lemma stage:
  assumes w: "world_ok pf w" and c: "w_clients w p = Some c" and l: "list c = ks"
  shows "\<exists>w'. seq (forEach ks (\<lambda>k. modify (drop p k))) (setClient p clear) w = (Inr (), w') \<and>
    world_ok pf w' \<and> w_clients w' = (w_clients w)(p \<mapsto> clear c) \<and>
    same_conn w (w'\<lparr>w_clients := w_clients w\<rparr>) \<and> (\<forall>t k. points w' t k p \<longrightarrow> t \<noteq> T \<and> points w t k p)"
proof -
  have "w_clients (foldl (\<lambda>w k. drop p k w) w ks) = w_clients w"
    using drop_all_conn [of w p ks] by (simp add: same_conn_def)
  with unlink [OF w c] c l show ?thesis
    by (auto simp: forEach_modify bnd_modify runs_client same_conn_def)
qed

end

lemma drop_watcher: "removeWatchedKey k p ks = ks\<lparr>watchedKeys := removePointer k p (watchedKeys ks)\<rparr>"
  by (simp add: removeWatchedKey_def removePointer_def Let_def split: option.split)

lemma removeWatcher_databases:
  "databases (removeWatcher k p w) = map (\<lambda>db. db\<lparr>watchedKeys := removePointer k p (watchedKeys db)\<rparr>) (databases w)"
  "same_conn w (removeWatcher k p w)" "w_mem (removeWatcher k p w) = w_mem w"
  "pubsubChannels (removeWatcher k p w) = pubsubChannels w" "pubsubPatterns (removeWatcher k p w) = pubsubPatterns w"
  "blockedClients (removeWatcher k p w) = blockedClients w" "replicas (removeWatcher k p w) = replicas w"
  "masterClient (removeWatcher k p w) = masterClient w"
proof -
  let ?f = "\<lambda>db. db\<lparr>watchedKeys := removePointer k p (watchedKeys db)\<rparr>"
  let ?go = "\<lambda>n. foldl (\<lambda>w i. closeDb i (removeWatchedKey k p (openDb i w)) w) w [0..<n]"
  have one: "closeDb i (removeWatchedKey k p (openDb i w)) w = w\<lparr>databases := (databases w)[i := ?f (databases w ! i)]\<rparr>" for i w
    by (cases "databases w ! i") (simp add: drop_watcher closeDb_def openDb_def Let_def)
  have "n \<le> length (databases w) \<Longrightarrow> ?go n = w\<lparr>databases := map ?f (take n (databases w)) @ drop n (databases w)\<rparr>" for n
  proof (induction n)
    case (Suc n)
    then show ?case
      by (simp add: one nth_append list_update_append take_Suc_conv_app_nth Cons_nth_drop_Suc [symmetric])
  qed simp
  from this [of "length (databases w)"] have r: "removeWatcher k p w = w\<lparr>databases := map ?f (databases w)\<rparr>"
    by (simp add: removeWatcher_def)
  show "databases (removeWatcher k p w) = map ?f (databases w)"
    "same_conn w (removeWatcher k p w)" "w_mem (removeWatcher k p w) = w_mem w"
    "pubsubChannels (removeWatcher k p w) = pubsubChannels w" "pubsubPatterns (removeWatcher k p w) = pubsubPatterns w"
    "blockedClients (removeWatcher k p w) = blockedClients w" "replicas (removeWatcher k p w) = replicas w"
    "masterClient (removeWatcher k p w) = masterClient w"
    by (simp_all add: r same_conn_def)
qed

lemma spaces_ok_other: "spaces_ok pf w \<Longrightarrow> databases w' = databases w \<Longrightarrow> w_clients w' = w_clients w \<Longrightarrow> spaces_ok pf w'"
  by (rule spaces_ok_frame) simp_all

lemma hasFlag_same: "flags c' = flags c \<Longrightarrow> hasFlag f c' = hasFlag f c"
  by (simp add: hasFlag_def)

interpretation channels: unlinking Channel subscribed "\<lambda>c. c\<lparr>subscribed := []\<rparr>"
  "\<lambda>p ch w. w\<lparr>pubsubChannels := removePointer ch p (pubsubChannels w)\<rparr>"
proof
  show "t \<noteq> Channel \<Longrightarrow> own t (c\<lparr>subscribed := []\<rparr>) k = own t c k" for t c k by (cases t) simp_all
  show "points (w\<lparr>pubsubChannels := removePointer k p (pubsubChannels w)\<rparr>) t k' q \<longleftrightarrow>
      points w t k' q \<and> \<not> (t = Channel \<and> k' = k \<and> q = p)" for k p w t k' q
    by (cases t) (auto simp: entries_remove)
qed (auto simp: tables_ok_def keys_remove same_conn_def intro: spaces_ok_other)

interpretation patterns: unlinking Pattern psubscribed "\<lambda>c. c\<lparr>psubscribed := []\<rparr>"
  "\<lambda>p pattern w. w\<lparr>pubsubPatterns := filter (\<lambda>e. e \<noteq> (pattern, p)) (pubsubPatterns w)\<rparr>"
proof
  show "t \<noteq> Pattern \<Longrightarrow> own t (c\<lparr>psubscribed := []\<rparr>) k = own t c k" for t c k by (cases t) simp_all
  show "points (w\<lparr>pubsubPatterns := filter (\<lambda>e. e \<noteq> (k, p)) (pubsubPatterns w)\<rparr>) t k' q \<longleftrightarrow>
      points w t k' q \<and> \<not> (t = Pattern \<and> k' = k \<and> q = p)" for k p w t k' q
    by (cases t) auto
qed (auto simp: tables_ok_def same_conn_def intro: spaces_ok_other)

interpretation blocked: unlinking BlockedOn blockedKeys clearBlockState
  "\<lambda>p key w. w\<lparr>blockedClients := removePointer key p (blockedClients w)\<rparr>"
proof
  have flag: "f \<noteq> CLIENT_BLOCKED \<Longrightarrow> is_flag f \<Longrightarrow> hasFlag f (clearBlockState c) = hasFlag f c" for f c
    by (simp add: clearBlockState_def hasFlag_clearFlag) (simp add: hasFlag_def)
  show "t \<noteq> BlockedOn \<Longrightarrow> own t (clearBlockState c) k = own t c k" for t c k
    by (cases t) (simp_all add: flag, simp_all add: clearBlockState_def clearFlag_def)
  show "points (w\<lparr>blockedClients := removePointer k p (blockedClients w)\<rparr>) t k' q \<longleftrightarrow>
      points w t k' q \<and> \<not> (t = BlockedOn \<and> k' = k \<and> q = p)" for k p w t k' q
    by (cases t) (auto simp: entries_remove)
  show "calm_client c \<Longrightarrow> calm_client (clearBlockState c)" for c
    by (simp add: calm_client_def clearBlockState_def hasFlag_clearFlag) (simp add: clearFlag_def)
qed (auto simp: tables_ok_def keys_remove same_conn_def clearBlockState_def clearFlag_def intro: spaces_ok_other)

interpretation watchers: unlinking Watch watching "\<lambda>c. c\<lparr>watching := []\<rparr>" "\<lambda>p key. removeWatcher key p"
proof
  show "t \<noteq> Watch \<Longrightarrow> own t (c\<lparr>watching := []\<rparr>) k = own t c k" for t c k by (cases t) simp_all
  show "points (removeWatcher k p w) t k' q \<longleftrightarrow> points w t k' q \<and> \<not> (t = Watch \<and> k' = k \<and> q = p)" for k p w t k' q
    by (cases t) (auto simp: removeWatcher_databases entries_remove)
  show "spaces_ok pf (removeWatcher k p w)" if w: "spaces_ok pf w" for pf k p w
    unfolding spaces_ok_def
  proof (intro allI impI)
    fix i assume i: "i < length (databases (removeWatcher k p w))"
    then have "ks_ok pf (removeWatchedKey k p (openDb i w))"
      using w by (intro removeWatchedKey_ok) (simp add: spaces_ok_def removeWatcher_databases)
    moreover have "openDb i (removeWatcher k p w) = removeWatchedKey k p (openDb i w)"
      using i removeWatcher_databases(2) [of w k p] removeWatcher_databases(3) [of k p w]
      by (simp add: openDb_def drop_watcher removeWatcher_databases(1) same_conn_def Let_def)
    ultimately show "ks_ok pf (openDb i (removeWatcher k p w))" by simp
  qed
qed (auto simp: tables_ok_def removeWatcher_databases)

section \<open>Closing and removing\<close>

lemma bnd_setClient:
  "w_clients w p = Some c \<Longrightarrow> bnd (setClient p f) k w = k () (w\<lparr>w_clients := (w_clients w)(p \<mapsto> f c)\<rparr>)"
  by (simp add: bnd_def runs_client)

lemma bnd_theClient: "w_clients w p = Some c \<Longrightarrow> bnd (theClient p) k w = k c w"
  by (simp add: runs_client)

lemma bnd_run: "m w = (Inr x, w') \<Longrightarrow> bnd m k w = k x w'"
  by (simp add: bnd_def)

lemma keeps_unblock [keeps]: "keeps pf (unblockClient p)"
proof (rule keepsI)
  fix w assume w: "world_ok pf w"
  show "world_ok pf (snd (unblockClient p w))"
  proof (cases "w_clients w p")
    case (Some c)
    from blocked.stage [OF w Some refl] w Some show ?thesis
      by (auto simp: unblockClient_def runs_client ret_def)
  qed (use w in \<open>simp add: unblockClient_def runs_client\<close>)
qed

lemma closeClient_stages:
  "closeClient p = bnd (theClient p) (\<lambda>c.
     seq (seq (forEach (subscribed c) (\<lambda>ch. modify (\<lambda>w. w\<lparr>pubsubChannels := removePointer ch p (pubsubChannels w)\<rparr>)))
              (setClient p (\<lambda>c. c\<lparr>subscribed := []\<rparr>)))
     (seq (seq (forEach (psubscribed c) (\<lambda>pattern. modify (\<lambda>w. w\<lparr>pubsubPatterns := filter (\<lambda>e. e \<noteq> (pattern, p)) (pubsubPatterns w)\<rparr>)))
               (setClient p (\<lambda>c. c\<lparr>psubscribed := []\<rparr>)))
     (seq (if hasFlag CLIENT_BLOCKED c then unblockClient p else ret ())
     (seq (seq (forEach (watching c) (\<lambda>key. modify (removeWatcher key p)))
               (setClient p (\<lambda>c. c\<lparr>watching := []\<rparr>)))
     (seq (if hasFlag CLIENT_SLAVE c then modify (removeReplica p) else ret ())
     (modify (\<lambda>w. if masterClient w = Some p
                  then w\<lparr>masterClient := None, replState := ReplConnect\<rparr> else w)))))))"
  unfolding closeClient_def bnd_assoc by (rule refl)

text \<open>The last two stages change no client.\<close>

lemma drop_replica:
  assumes w: "world_ok pf w"
  shows "world_ok pf (removeReplica p w)" "points (removeReplica p w) t k q \<longleftrightarrow> points w t k q \<and> (t = Replica \<longrightarrow> q \<noteq> p)"
proof -
  have d: "distinct (replicas w)" using links_tables [OF world_okD(1) [OF w]] by (simp add: tables_ok_def)
  then show pts: "points (removeReplica p w) t k q \<longleftrightarrow> points w t k q \<and> (t = Replica \<longrightarrow> q \<noteq> p)" for t k q
    by (cases t) (auto simp: removeReplica_def)
  have "links_ok (w_clients w) (removeReplica p w)"
    using world_okD(1) [OF w] d unfolding links_ok_def pts by (auto simp: tables_ok_def removeReplica_def)
  moreover have "spaces_ok pf (removeReplica p w)"
    by (rule spaces_ok_other [OF world_okD(4) [OF w]]) (simp_all add: removeReplica_def)
  moreover have "conn_ok (w_clients w) (removeReplica p w)"
    using world_okD(2) [OF w] unfolding conn_ok_def by (simp add: removeReplica_def event_known_def)
  ultimately show "world_ok pf (removeReplica p w)"
    using world_okD(3) [OF w] by (intro world_okI) (simp_all add: removeReplica_def)
qed

lemma drop_master:
  assumes w: "world_ok pf w"
  shows "world_ok pf (w\<lparr>masterClient := None, replState := r\<rparr>)"
proof -
  let ?w = "w\<lparr>masterClient := None, replState := r\<rparr>"
  have "points ?w t k q \<Longrightarrow> points w t k q" for t k q by (cases t) simp_all
  then have "links_ok (w_clients w) ?w"
    using world_okD(1) [OF w] unfolding links_ok_def by (auto simp: tables_ok_def)
  moreover have "conn_ok (w_clients w) ?w"
    using world_okD(2) [OF w] unfolding conn_ok_def by (simp add: event_known_def)
  moreover have "spaces_ok pf ?w" by (rule spaces_ok_other [OF world_okD(4) [OF w]]) simp_all
  ultimately show ?thesis using world_okD(3) [OF w] by (intro world_okI) simp_all
qed

text \<open>After closing, no table points to the client; its memory and connection are still there.\<close>

definition unlinked :: "platform \<Rightarrow> nat \<Rightarrow> client \<Rightarrow> world \<Rightarrow> world \<Rightarrow> relation set \<Rightarrow> bool" where
  "unlinked pf p c w w' T \<longleftrightarrow> world_ok pf w' \<and> w_clients w' = (w_clients w)(p \<mapsto> c) \<and>
     same_conn w (w'\<lparr>w_clients := w_clients w\<rparr>) \<and> (\<forall>t k. points w' t k p \<longrightarrow> t \<notin> T)"

lemma unlinked_step:
  assumes "unlinked pf p c w w1 T" "world_ok pf w'" "w_clients w' = (w_clients w1)(p \<mapsto> c')"
    "same_conn w1 (w'\<lparr>w_clients := w_clients w1\<rparr>)" "\<forall>t k. points w' t k p \<longrightarrow> t \<noteq> t0 \<and> points w1 t k p"
  shows "unlinked pf p c' w w' (insert t0 T)"
  using assms unfolding unlinked_def same_conn_def by auto

lemma close_unlinks:
  assumes w: "world_ok pf w" and c: "w_clients w p = Some c"
  shows "\<exists>w' c'. closeClient p w = (Inr (), w') \<and> unlinked pf p c' w w' UNIV \<and> client_fd c' = client_fd c"
proof -
  let ?c1 = "c\<lparr>subscribed := []\<rparr>" and ?c2 = "c\<lparr>subscribed := [], psubscribed := []\<rparr>"
  have start: "unlinked pf p c w w {}" using w c by (auto simp: unlinked_def)
  from channels.stage [OF w c refl] obtain w1 where
    w1: "unlinked pf p ?c1 w w1 {Channel}" and run1: "seq (forEach (subscribed c)
        (\<lambda>ch. modify (\<lambda>w. w\<lparr>pubsubChannels := removePointer ch p (pubsubChannels w)\<rparr>)))
      (setClient p (\<lambda>c. c\<lparr>subscribed := []\<rparr>)) w = (Inr (), w1)"
    using unlinked_step [OF start] by blast
  have "w_clients w1 p = Some ?c1" "world_ok pf w1" using w1 by (simp_all add: unlinked_def)
  from patterns.stage [OF this(2,1), of "psubscribed c"] obtain w2 where
    w2: "unlinked pf p ?c2 w w2 {Pattern, Channel}" and run2: "seq (forEach (psubscribed c)
        (\<lambda>pattern. modify (\<lambda>w. w\<lparr>pubsubPatterns := filter (\<lambda>e. e \<noteq> (pattern, p)) (pubsubPatterns w)\<rparr>)))
      (setClient p (\<lambda>c. c\<lparr>psubscribed := []\<rparr>)) w1 = (Inr (), w2)"
    using unlinked_step [OF w1] by fastforce
  have c2: "w_clients w2 p = Some ?c2" and ok2: "world_ok pf w2" using w2 by (simp_all add: unlinked_def)
  have "\<exists>w3 c3. (if hasFlag CLIENT_BLOCKED c then unblockClient p else ret ()) w2 = (Inr (), w3) \<and>
      unlinked pf p c3 w w3 {BlockedOn, Pattern, Channel} \<and> watching c3 = watching c \<and>
      client_fd c3 = client_fd c \<and> hasFlag CLIENT_SLAVE c3 = hasFlag CLIENT_SLAVE c"
  proof (cases "hasFlag CLIENT_BLOCKED c")
    case True
    from blocked.stage [OF ok2 c2 refl] obtain w3 where
      "unlinked pf p (clearBlockState ?c2) w w3 {BlockedOn, Pattern, Channel}" and "seq (forEach (blockedKeys ?c2)
        (\<lambda>key. modify (\<lambda>w. w\<lparr>blockedClients := removePointer key p (blockedClients w)\<rparr>)))
        (setClient p clearBlockState) w2 = (Inr (), w3)" using unlinked_step [OF w2] by blast
    moreover have "hasFlag CLIENT_SLAVE (clearBlockState ?c2) = hasFlag CLIENT_SLAVE c"
      by (simp add: clearBlockState_def hasFlag_clearFlag) (simp add: hasFlag_def)
    moreover have "watching (clearBlockState ?c2) = watching c" "client_fd (clearBlockState ?c2) = client_fd c"
      by (simp_all add: clearBlockState_def clearFlag_def)
    ultimately show ?thesis using True c2 by (auto simp: unblockClient_def runs_client)
  next
    case False
    then have "\<not> points w2 BlockedOn k p" for k
      using links_own [OF world_okD(1) [OF ok2] _ c2, of BlockedOn k] by auto
    then have "unlinked pf p ?c2 w w2 {BlockedOn, Pattern, Channel}" using w2 by (auto simp: unlinked_def)
    with False show ?thesis by (auto simp: ret_def)
  qed
  then obtain w3 c3 where run3: "(if hasFlag CLIENT_BLOCKED c then unblockClient p else ret ()) w2 = (Inr (), w3)"
    and w3: "unlinked pf p c3 w w3 {BlockedOn, Pattern, Channel}" and c3: "watching c3 = watching c"
    "client_fd c3 = client_fd c" "hasFlag CLIENT_SLAVE c3 = hasFlag CLIENT_SLAVE c" by blast
  let ?c4 = "c3\<lparr>watching := []\<rparr>"
  have "w_clients w3 p = Some c3" "world_ok pf w3" using w3 by (simp_all add: unlinked_def)
  from watchers.stage [OF this(2,1) c3(1)] obtain w4 where
    w4: "unlinked pf p ?c4 w w4 {Watch, BlockedOn, Pattern, Channel}" and run4: "seq (forEach (watching c)
        (\<lambda>key. modify (removeWatcher key p))) (setClient p (\<lambda>c. c\<lparr>watching := []\<rparr>)) w3 = (Inr (), w4)"
    using unlinked_step [OF w3] by blast
  have c4: "w_clients w4 p = Some ?c4" and ok4: "world_ok pf w4" using w4 by (simp_all add: unlinked_def)
  define w5 where "w5 = (if hasFlag CLIENT_SLAVE c then removeReplica p w4 else w4)"
  have run5: "(if hasFlag CLIENT_SLAVE c then modify (removeReplica p) else ret ()) w4 = (Inr (), w5)"
    by (simp add: w5_def act_apply)
  have "\<not> points w5 Replica k p" for k
    using drop_replica(2) [OF ok4, of p Replica k p] links_own [OF world_okD(1) [OF ok4] _ c4, of Replica k] c3(3)
    by (auto simp: w5_def)
  then have w5: "unlinked pf p ?c4 w w5 {Replica, Watch, BlockedOn, Pattern, Channel}"
    using w4 drop_replica [OF ok4] by (auto simp: unlinked_def w5_def same_conn_def removeReplica_def)
  define w6 where "w6 = (if masterClient w5 = Some p then w5\<lparr>masterClient := None, replState := ReplConnect\<rparr> else w5)"
  have pts: "points w6 t k p \<Longrightarrow> t \<noteq> Master \<and> points w5 t k p" for t k
    by (cases t) (simp_all add: w6_def split: if_splits)
  have "unlinked pf p ?c4 w w6 (insert Master {Replica, Watch, BlockedOn, Pattern, Channel})"
  proof (rule unlinked_step [OF w5])
    show "world_ok pf w6" using w5 drop_master [of pf w5] by (simp add: w6_def unlinked_def)
    show "\<forall>t k. points w6 t k p \<longrightarrow> t \<noteq> Master \<and> points w5 t k p" using pts by blast
  qed (use w5 in \<open>simp_all add: w6_def same_conn_def unlinked_def\<close>)
  moreover have "insert Master {Replica, Watch, BlockedOn, Pattern, Channel} = UNIV"
    using relation.exhaust by auto
  moreover have "closeClient p w = (Inr (), w6)"
    unfolding closeClient_stages
    by (subst bnd_theClient, rule c, subst bnd_run, rule run1, subst bnd_run, rule run2, subst bnd_run, rule run3,
        subst bnd_run, rule run4, subst bnd_run, rule run5) (simp add: modify_def w6_def)
  ultimately show ?thesis using c3(2) by (intro exI [of _ w6] exI [of _ ?c4]) simp
qed

lemma removeFileEvent_gone:
  assumes "\<forall>e \<in> set (fileEvents el). ev_mask (snd e) AND NOT (EVENT_READABLE OR EVENT_WRITABLE) = 0"
  shows "set (fileEvents (removeFileEvent fd (EVENT_READABLE OR EVENT_WRITABLE) el)) \<subseteq> {e \<in> set (fileEvents el). fst e \<noteq> fd}"
proof (cases "map_of (fileEvents el) fd")
  case None
  then have "removeFileEvent fd (EVENT_READABLE OR EVENT_WRITABLE) el = el" by (simp add: removeFileEvent_def)
  with None show ?thesis by (force simp: map_of_eq_None_iff)
next
  case (Some fe)
  then have "(fd, fe) \<in> set (fileEvents el)" by (rule map_of_SomeD)
  with assms have "ev_mask (withoutCallback (EVENT_READABLE OR EVENT_WRITABLE) fe) = EVENT_NONE"
    by (auto simp: withoutCallback_def Let_def EVENT_NONE_def)
  with Some show ?thesis by (auto simp: removeFileEvent_def Let_def AList.delete_eq)
qed

text \<open>Freeing a client that no table points to, with its connection and its events.\<close>

lemma free_client:
  assumes w: "world_ok pf w" and p: "map_of (connections w) fd = Some p" and gone: "\<forall>t k. \<not> points w t k p"
  shows "world_ok pf (w\<lparr>eventLoop := removeFileEvent fd (EVENT_READABLE OR EVENT_WRITABLE) (eventLoop w),
    connections := AList.delete fd (connections w), w_clients := (w_clients w)(p := None)\<rparr>)" (is "world_ok pf ?w")
proof (rule world_okI)
  note conn = world_okD(2) [OF w, unfolded conn_ok_def]
  have pts: "points ?w t k q = points w t k q" for t k q by (cases t) simp_all
  show links: "links_ok (w_clients ?w) ?w"
    using links_free [OF world_okD(1) [OF w], of p] gone unfolding links_ok_def pts by (simp add: tables_ok_def)
  show "calm (w_clients ?w)" using world_okD(3) [OF w] by (auto simp: calm_def)
  show "spaces_ok pf ?w"
    unfolding spaces_ok_def
  proof (intro allI impI)
    fix i assume i: "i < length (databases ?w)"
    then have ks: "ks_ok pf (openDb i w)" using world_okD(4) [OF w] by (simp add: spaces_ok_def)
    show "ks_ok pf (openDb i ?w)"
    proof (rule ks_okI)
      fix k ps assume ps: "map_of (watchedKeys (openDb i ?w)) k = Some ps"
      have "q \<in> set ps \<Longrightarrow> points ?w Watch k q" for q
        using ps i by (auto simp: openDb_sel entries_def intro!: bexI [of _ "databases w ! i"])
      then have "q \<in> set ps \<Longrightarrow> has (w_clients ?w) q (\<lambda>c. own Watch c k)" for q
        using links unfolding links_ok_def by blast
      then have "set ps \<subseteq> dom (w_clients ?w)" unfolding has_def by blast
      moreover have "ps \<noteq> []" using ps ks_okD(6) [OF ks] by (simp add: openDb_sel)
      ultimately show "ps \<noteq> [] \<and> set ps \<subseteq> dom (clients (openDb i ?w))" by (simp add: openDb_sel)
    qed (use ks_okD [OF ks] in \<open>simp_all add: openDb_sel\<close>)
  qed
  have other: "client_fd c \<noteq> fd" if "w_clients w q = Some c" "q \<noteq> p" for q c
    using conn that p by (metis option.inject)
  have "has ((w_clients w)(p := None)) q (\<lambda>c. client_fd c = f)" if "map_of (connections w) f = Some q" "f \<noteq> fd" for f q
  proof -
    have "has (w_clients w) q (\<lambda>c. client_fd c = f)" using conn that(1) by blast
    moreover have "has (w_clients w) p (\<lambda>c. client_fd c = fd)" using conn p by blast
    ultimately show ?thesis using that(2) by (auto simp: has_def)
  qed
  then have fds: "\<forall>f q. map_of (connections ?w) f = Some q \<longrightarrow>
      0 \<le> f \<and> Some f \<noteq> listenFd ?w \<and> has (w_clients ?w) q (\<lambda>c. client_fd c = f)"
    using conn by (simp split: if_splits)
  have owned: "\<forall>q d. w_clients ?w q = Some d \<longrightarrow> map_of (connections ?w) (client_fd d) = Some q"
    using conn other by (simp split: if_splits)
  have "event_known ?w e" if "e \<in> set (fileEvents (eventLoop w))" "fst e \<noteq> fd" for e
    using conn that by (simp add: event_known_def keys_delete del: set_map)
  moreover have "\<forall>e \<in> set (fileEvents (eventLoop w)). ev_mask (snd e) AND NOT (EVENT_READABLE OR EVENT_WRITABLE) = 0"
    using conn unfolding event_known_def by blast
  moreover have "set (fileEvents (eventLoop ?w)) \<subseteq> {e \<in> set (fileEvents (eventLoop w)). fst e \<noteq> fd}"
    by simp (rule removeFileEvent_gone, rule calculation(2))
  ultimately have "\<forall>e \<in> set (fileEvents (eventLoop ?w)). event_known ?w e" by blast
  with fds owned show "conn_ok (w_clients ?w) ?w"
    unfolding conn_ok_def using conn by (simp add: removeFileEvent_ok distinct_keys_delete)
qed

lemma keeps_removeClient [keeps]: "keeps pf (removeClient fd)"
proof (rule keepsI)
  fix w assume w: "world_ok pf w"
  show "world_ok pf (snd (removeClient fd w))"
  proof (cases "map_of (connections w) fd")
    case None
    with w show ?thesis by (simp add: removeClient_def bnd_gets ret_def)
  next
    case (Some p)
    then obtain c where c: "w_clients w p = Some c"
      using world_okD(2) [OF w] unfolding conn_ok_def has_def by blast
    from close_unlinks [OF w c] obtain w' c' where run: "closeClient p w = (Inr (), w')"
      and w': "unlinked pf p c' w w' UNIV" by blast
    have "connections w' = connections w" using w' by (simp add: unlinked_def same_conn_def)
    with w' Some have "world_ok pf (w'\<lparr>eventLoop := removeFileEvent fd (EVENT_READABLE OR EVENT_WRITABLE) (eventLoop w'),
        connections := AList.delete fd (connections w'), w_clients := (w_clients w')(p := None)\<rparr>)"
      by (intro free_client) (simp_all add: unlinked_def)
    then show ?thesis
      by (simp add: removeClient_def bnd_gets Some bnd_run [where m = "closeClient p", OF run] onLoop_def bnd_modify) (simp add: act_apply)
  qed
qed

lemma keeps_disconnect [keeps]: "keeps pf disconnectFromMaster"
proof -
  have "keeps pf (modify (\<lambda>w. w\<lparr>replState := r\<rparr>))" for r
    by (rule keeps_frame) (simp_all add: same_tables_def)
  moreover have "keeps pf (modify (\<lambda>w. w\<lparr>masterClient := None\<rparr>))"
  proof (rule keepsI)
    fix w assume "world_ok pf w"
    from drop_master [OF this, of "replState w"] show "world_ok pf (snd (modify (\<lambda>w. w\<lparr>masterClient := None\<rparr>) w))"
      by (simp add: act_apply)
  qed
  ultimately show ?thesis unfolding disconnectFromMaster_def by (intro keeps)
qed

end
