(* ===== verification/SafeHandlers.thy ===== *)
theory SafeHandlers
  imports Disconnect
begin

text \<open>
  The handlers keep the invariant: most of them by the rules \<open>keeps\<close> alone. Three need to
  know something of their client: \<^verbatim>\<open>BLPOP\<close> and \<^verbatim>\<open>BRPOP\<close> that it is not blocked,
  \<^verbatim>\<open>PSYNC\<close> that it is no replica, \<^verbatim>\<open>MULTI\<close> that it is not blocked.
\<close>

unbundle bit_operations_syntax

section \<open>Registering for writing\<close>

lemma set_update: "set (AList.update k v al) \<subseteq> insert (k, v) (set al)"
  by (induction al) auto

lemma withCallback_mask: "ev_mask (withCallback msk cb fe) = ev_mask fe OR msk"
  by (simp add: withCallback_def Let_def)

lemma world_ok_event:
  assumes w: "world_ok pf w" and fd: "fd \<in> set (keys_of (connections w))" "0 \<le> fd"
    and msk: "msk \<noteq> 0" "msk AND NOT (EVENT_READABLE OR EVENT_WRITABLE) = 0"
  shows "world_ok pf (w\<lparr>eventLoop := addFileEvent fd msk cb (eventLoop w)\<rparr>)" (is "world_ok pf ?w")
proof (rule world_okI)
  note conn = world_okD(2) [OF w, unfolded conn_ok_def]
  have "points ?w t k q = points w t k q" for t k q by (cases t) simp_all
  then show "links_ok (w_clients ?w) ?w" using world_okD(1) [OF w] by (simp add: links_ok_def tables_ok_def)
  show "calm (w_clients ?w)" using world_okD(3) [OF w] by simp
  show "spaces_ok pf ?w" by (rule spaces_ok_other [OF world_okD(4) [OF w]]) simp_all
  have old: "ev_mask (eventOf fd (eventLoop w)) AND NOT (EVENT_READABLE OR EVENT_WRITABLE) = 0"
  proof (cases "map_of (fileEvents (eventLoop w)) fd")
    case None
    then show ?thesis by (simp add: eventOf_def EVENT_NONE_def)
  next
    case (Some fe)
    then have "event_known w (fd, fe)" using conn map_of_SomeD by fast
    with Some show ?thesis by (simp add: eventOf_def event_known_def)
  qed
  have "(a OR b) AND m = 0" if "a AND m = 0" "b AND m = 0" for a b m :: "32 word"
    using that by (simp add: bit_eq_iff bit_simps) blast
  then have "event_known ?w (fd, withCallback msk cb (eventOf fd (eventLoop w)))"
    using old msk(2) fd(1) by (simp add: event_known_def withCallback_mask del: set_map)
  moreover have "event_known ?w e" if "event_known w e" for e using that by (simp add: event_known_def)
  ultimately have "\<forall>e \<in> set (fileEvents (eventLoop ?w)). event_known ?w e"
    using conn set_update [of fd "withCallback msk cb (eventOf fd (eventLoop w))" "fileEvents (eventLoop w)"]
    by (auto simp: addFileEvent_def)
  then show "conn_ok (w_clients ?w) ?w"
    using conn addFileEvent_ok [of "eventLoop w" msk fd cb] fd(2) msk(1) by (simp add: conn_ok_def)
qed

lemma connected:
  assumes "world_ok pf w" "w_clients w p = Some c"
  shows "map_of (connections w) (client_fd c) = Some p" "client_fd c \<in> set (keys_of (connections w))" "0 \<le> client_fd c"
proof -
  show m: "map_of (connections w) (client_fd c) = Some p"
    using world_okD(2) [OF assms(1)] assms(2) by (simp add: conn_ok_def)
  then show "client_fd c \<in> set (keys_of (connections w))" by (force dest: map_of_SomeD)
  show "0 \<le> client_fd c" using world_okD(2) [OF assms(1)] m by (simp add: conn_ok_def)
qed

lemma event_masks_ok:
  "EVENT_WRITABLE \<noteq> 0" "EVENT_WRITABLE AND NOT (EVENT_READABLE OR EVENT_WRITABLE) = 0"
  "EVENT_READABLE \<noteq> 0" "EVENT_READABLE AND NOT (EVENT_READABLE OR EVENT_WRITABLE) = 0"
  "EVENT_WRITABLE OR EVENT_READABLE \<noteq> 0"
  "(EVENT_WRITABLE OR EVENT_READABLE) AND NOT (EVENT_READABLE OR EVENT_WRITABLE) = 0"
  by (simp_all add: event_masks)

lemma keeps_install [keeps]: "keeps pf (installWriteHandler p)"
proof (rule keepsI)
  fix w assume w: "world_ok pf w"
  show "world_ok pf (snd (installWriteHandler p w))"
  proof (cases "w_clients w p")
    case (Some c)
    have "connUp w" using world_okD(2) [OF w] by (simp add: conn_ok_def)
    with Some world_ok_event [OF w connected(2,3) [OF w Some] event_masks_ok(1,2)] show ?thesis
      by (simp add: installWriteHandler_def runs_client bnd_gets onLoop_def act_apply)
  qed (use w in \<open>simp add: installWriteHandler_def runs_client\<close>)
qed

section \<open>Fields outside the invariant\<close>

lemma keeps_counters [keeps]:
  "keeps pf (modify (\<lambda>w. w\<lparr>totalCommandsProcessed := n w\<rparr>))"
  "keeps pf (modify (\<lambda>w. w\<lparr>aofBuffer := s w\<rparr>))" "keeps pf (modify (\<lambda>w. w\<lparr>w_config := cfg w\<rparr>))"
  "keeps pf (modify (\<lambda>w. w\<lparr>replState := r\<rparr>))" "keeps pf (modify (\<lambda>w. w\<lparr>masterHost := h, masterPort := m, replState := r\<rparr>))"
  "keeps pf (modify (\<lambda>w. w\<lparr>bgsaveInProgress := b\<rparr>))" "keeps pf (modify (\<lambda>w. w\<lparr>bgrewriteaofInProgress := b\<rparr>))"
  "keeps pf (modify (\<lambda>w. w\<lparr>bgsaveJob := j\<rparr>))" "keeps pf (modify (\<lambda>w. w\<lparr>bgrewriteJob := j\<rparr>))"
  by (rule keeps_frame; simp add: same_tables_def)+

lemma keeps_setConfig [keeps]: "keeps pf (setConfig f)"
  unfolding setConfig_def by (intro keeps)

lemma feed_frame:
  "same_tables w (feedReplicationBacklog d w) \<and> w_clients (feedReplicationBacklog d w) = w_clients w \<and>
   databases (feedReplicationBacklog d w) = databases w"
proof -
  have "same_tables w w' \<and> w_clients w' = w_clients w \<and> databases w' = databases w \<Longrightarrow>
      same_tables w (foldl (\<lambda>w c. feedByte c w) w' d) \<and> w_clients (foldl (\<lambda>w c. feedByte c w) w' d) = w_clients w \<and>
      databases (foldl (\<lambda>w c. feedByte c w) w' d) = databases w" for w'
  proof (induction d arbitrary: w')
    case (Cons c d)
    show ?case by (simp, rule Cons.IH) (use Cons.prems in \<open>simp add: feedByte_def Let_def same_tables_def\<close>)
  qed simp
  then show ?thesis by (simp add: feedReplicationBacklog_def Let_def same_tables_def)
qed

lemma keeps_feed [keeps]: "keeps pf (modify (feedReplicationBacklog d))"
  by (rule keeps_frame) (simp_all add: feed_frame)

lemma keeps_propagate [keeps]: "keeps pf (propagateToReplicas cmd)"
  unfolding propagateToReplicas_def Let_def by (intro keeps)

lemma keeps_appendAof [keeps]: "keeps pf (appendAof args)"
  unfolding appendAof_def by (intro keeps)

lemma keeps_deliver [keeps]: "keeps pf (deliver p s)"
  unfolding deliver_def by (intro keeps)

lemma keeps_patternMatches [keeps]: "keeps pf (patternMatches pattern channel)"
  unfolding patternMatches_def by (intro keeps)

lemma keeps_publishMessage [keeps]: "keeps pf (publishMessage channel message)"
  unfolding publishMessage_def by (intro keeps)

section \<open>Data commands\<close>

lemma tame_clientless [keeps]: "tame pf (\<lambda>ks. snd (f ks, ks))"
  by (simp add: tame_pure)

declare tame [keeps]

lemma keeps_setOptions [keeps]: "keeps pf (setOptions p args acc)"
proof (induction args arbitrary: acc rule: length_induct)
  case (1 args)
  show ?case
  proof (cases args)
    case Nil
    then show ?thesis by (simp add: keeps_basic)
  next
    case (Cons a rest)
    then have "length rest < length args" "length (tl rest) < length args" by simp_all
    then have rest: "keeps pf (setOptions p rest acc)" "keeps pf (setOptions p (tl rest) acc)" for acc
      using 1 by blast+
    obtain nx xx ms where acc: "acc = (nx, xx, ms)" by (cases acc)
    show ?thesis unfolding Cons acc setOptions.simps Let_def by (intro keeps rest)
  qed
qed

lemma keeps_strings [keeps]:
  "keeps pf (setCommand pf p args)" "keeps pf (getCommand pf p args)" "keeps pf (delCommand pf p args)"
  "keeps pf (existsCommand pf p args)" "keeps pf (msetCommand pf p args)" "keeps pf (mgetCommand pf p args)"
  "keeps pf (incrCommand pf p args)" "keeps pf (decrCommand pf p args)" "keeps pf (incrbyCommand pf p args)"
  "keeps pf (decrbyCommand pf p args)" "keeps pf (appendCommand pf p args)" "keeps pf (strlenCommand pf p args)"
  "keeps pf (setnxCommand pf p args)"
  unfolding setCommand_def getCommand_def delCommand_def existsCommand_def msetCommand_def mgetCommand_def
    incrCommand_def decrCommand_def incrbyCommand_def decrbyCommand_def appendCommand_def strlenCommand_def
    setnxCommand_def incrReply_def
  by (intro keeps)+

lemma keeps_keys [keeps]:
  "keeps pf (typeCommand pf p args)" "keeps pf (renameCommand pf p args)" "keeps pf (keysCommand pf p args)"
  "keeps pf (expireCommand pf p args)" "keeps pf (pexpireCommand pf p args)" "keeps pf (expireatCommand p args)"
  "keeps pf (pexpireatCommand p args)" "keeps pf (ttlCommand pf p args)" "keeps pf (pttlCommand pf p args)"
  "keeps pf (persistCommand p args)"
  unfolding typeCommand_def renameCommand_def keysCommand_def expireCommand_def pexpireCommand_def
    expireatCommand_def pexpireatCommand_def ttlCommand_def pttlCommand_def persistCommand_def expireWith_def
  by (intro keeps)+

lemma keeps_opening [keeps]:
  "contents_ok (hasher pf) fresh \<Longrightarrow> keeps pf (openForWrite pf p db key ty fresh)"
  "keeps pf (openExisting pf p db key ty missing)" "keeps pf (openForRead pf p db key ty missing)"
  unfolding openForWrite_def openExisting_def openForRead_def
  by (intro keeps; simp)+

lemma fresh_ok [keeps]:
  "contents_ok hf (ListObject newList)" "contents_ok hf (HashObject newTable)" "contents_ok hf (SetObject newSet)"
  "contents_ok hf (SortedSetObject (newSortedSet rng))"
  using newList_is by (auto simp: newSet_def intro: exI [of _ "[]"])

lemma keeps_collections [keeps]:
  "keeps pf (hsetCommand pf p args)" "keeps pf (hgetCommand pf p args)" "keeps pf (hgetallCommand pf p args)"
  "keeps pf (saddCommand pf p args)" "keeps pf (sremCommand pf p args)" "keeps pf (sismemberCommand pf p args)"
  "keeps pf (smembersCommand pf p args)" "keeps pf (lrangeCommand pf p args)" "keeps pf (llenCommand pf p args)"
  unfolding hsetCommand_def hgetCommand_def hgetallCommand_def saddCommand_def sremCommand_def
    sismemberCommand_def smembersCommand_def lrangeCommand_def llenCommand_def
  by (intro keeps)+

lemma keeps_zaddLoop [keeps]: "keeps pf (zaddLoop pf p args db key is n)"
  by (induction "is" arbitrary: n) (simp_all, (intro keeps | assumption)+)

lemma keeps_zsets [keeps]:
  "keeps pf (zaddCommand pf p args)" "keeps pf (zrangeCommand pf p args)" "keeps pf (zrankCommand pf p args)"
  "keeps pf (zscoreCommand pf p args)" "keeps pf (zremCommand pf p args)"
  unfolding zaddCommand_def zrangeCommand_def zrankCommand_def zscoreCommand_def zremCommand_def
    withScores_def zrangeBounds_def
  by (intro keeps)+

section \<open>Server, publish/subscribe and transaction commands\<close>

lemma keeps_server [keeps]:
  "keeps pf (pingCommand p args)" "keeps pf (echoCommand p args)" "keeps pf (commandCommand p args)"
  "keeps pf (dbsizeCommand p args)" "keeps pf (flushdbCommand pf p args)" "keeps pf (selectCommand p args)"
  "keeps pf (quitCommand p args)" "keeps pf (infoCommand pf p args)" "keeps pf (configCommand p args)"
  unfolding pingCommand_def echoCommand_def commandCommand_def dbsizeCommand_def flushdbCommand_def
    selectCommand_def quitCommand_def infoCommand_def configCommand_def configGet_def configSet_def
  by (intro keeps)+

lemma keeps_notify [keeps]: "(\<And>name. keeps pf (change p name)) \<Longrightarrow> keeps pf (notify p kind change name)"
  unfolding notify_def subscriptions_def by (intro keeps)

lemma keeps_pubsub [keeps]:
  "keeps pf (subscribeCommand p args)" "keeps pf (psubscribeCommand p args)" "keeps pf (unsubscribeCommand p args)"
  "keeps pf (punsubscribeCommand p args)" "keeps pf (publishCommand p args)"
  unfolding subscribeCommand_def psubscribeCommand_def unsubscribeCommand_def punsubscribeCommand_def
    publishCommand_def leavePubSub_def subscriptions_def
  by (intro keeps)+

lemma keeps_forgetWatched [keeps]: "keeps pf (forgetWatched p)"
proof (rule keepsI)
  fix w assume w: "world_ok pf w"
  show "world_ok pf (snd (forgetWatched p w))"
  proof (cases "w_clients w p")
    case (Some c)
    from watchers.stage [OF w Some refl] Some show ?thesis by (auto simp: forgetWatched_def runs_client)
  qed (use w in \<open>simp add: forgetWatched_def runs_client\<close>)
qed

text \<open>Clearing the queue and the flags of a transaction.\<close>

lemma keeps_local:
  assumes "\<And>c. client_fd (f c) = client_fd c" "\<And>c. calm_client c \<Longrightarrow> calm_client (f c)" "\<And>t c k. own t c k \<Longrightarrow> own t (f c) k"
  shows "keeps pf (setClient p f)"
proof -
  have "setClient p f = seq (setClient p f) (modify (\<lambda>w. w))"
    by (auto simp: fun_eq_iff bnd_def runs_client modify_def split: option.split)
  moreover have "keeps pf (seq (setClient p f) (modify (\<lambda>w. w)))"
    by (rule keeps_link) (use assms in auto)
  ultimately show ?thesis by simp
qed

lemma keeps_clearTransaction [keeps]: "keeps pf (setClient p clearTransaction)"
proof (rule keeps_local)
  have flag: "f \<noteq> CLIENT_MULTI \<Longrightarrow> f \<noteq> CLIENT_DIRTY_EXEC \<Longrightarrow> is_flag f \<Longrightarrow> hasFlag f (clearTransaction c) = hasFlag f c" for f c
    by (simp add: clearTransaction_def hasFlag_clearFlag) (simp add: hasFlag_def)
  show "own t c k \<Longrightarrow> own t (clearTransaction c) k" for t c k
    by (cases t) (simp_all add: flag, simp_all add: clearTransaction_def clearFlag_def)
  show "calm_client c \<Longrightarrow> calm_client (clearTransaction c)" for c
    by (simp add: calm_client_def flag)
      (simp add: clearTransaction_def hasFlag_clearFlag, simp add: clearFlag_def)
qed (simp add: clearTransaction_def clearFlag_def)

lemma keeps_watch_one [keeps]:
  "keeps pf (seq (setClient p (\<lambda>c. c\<lparr>watching := List.insert key (watching c)\<rparr>)) (runDb db (addWatchedKey key p)))"
proof (rule keepsI)
  let ?f = "\<lambda>c. c\<lparr>watching := List.insert key (watching c)\<rparr>"
  fix w assume w: "world_ok pf w"
  show "world_ok pf (snd (seq (setClient p ?f) (runDb db (addWatchedKey key p)) w))"
  proof (cases "w_clients w p")
    case (Some c)
    let ?w = "w\<lparr>w_clients := (w_clients w)(p \<mapsto> ?f c)\<rparr>"
    have "own t c k \<Longrightarrow> own t (?f c) k" for t c k by (cases t) auto
    then have "keeps pf (setClient p ?f)" by (intro keeps_local) simp_all
    from keepsD [OF this w] have w': "world_ok pf ?w" by (simp add: runs_client Some)
    show ?thesis
    proof (cases "databases w = []")
      case False
      define i where "i = dbIndex db w"
      have i: "i < length (databases ?w)" using False by (auto simp: i_def dbIndex_def)
      let ?v = "closeDb i (addWatchedKey key p (openDb i ?w)) ?w"
      have add: "addWatchedKey key p ks = ks\<lparr>watchedKeys := addPointer key p (watchedKeys ks)\<rparr>" for ks
        by (simp add: addWatchedKey_def addPointer_def)
      have v: "databases ?v = (databases w)[i := (databases w ! i)\<lparr>watchedKeys := addPointer key p (watchedKeys (databases w ! i))\<rparr>]"
        "w_clients ?v = w_clients ?w"
        by (cases "databases w ! i"; simp add: closeDb_def openDb_def add Let_def)+
      have tables: "map watchedKeys (databases ?v) =
          (map watchedKeys (databases w))[i := addPointer key p (watchedKeys (databases w ! i))]"
        by (simp only: v(1) map_update) simp
      have pts: "points ?w t k q \<or> (t = Watch \<and> k = key \<and> q = p)" if "points ?v t k q" for t k q
      proof (cases "t = Watch")
        case True
        with that obtain al where al: "al \<in> set (map watchedKeys (databases ?v))" "(k, q) \<in> entries al"
          by (metis points.simps(5))
        then have "al \<in> set (map watchedKeys (databases w)) \<or> al = addPointer key p (watchedKeys (databases w ! i))"
          unfolding tables using set_update_subset_insert by fastforce
        with al(2) i True show ?thesis by (auto simp: entries_add)
      next
        case False
        with that show ?thesis by (cases t) (simp_all add: closeDb_def)
      qed
      have "has (w_clients ?v) q (\<lambda>c. own t c k)" if pt: "points ?v t k q" for t k q
        using pts [OF pt]
      proof
        assume "points ?w t k q"
        with world_okD(1) [OF w'] show ?thesis unfolding links_ok_def v(2) by blast
      next
        assume "t = Watch \<and> k = key \<and> q = p"
        then show ?thesis by (simp add: v(2))
      qed
      moreover have "tables_ok ?v" using links_tables [OF world_okD(1) [OF w']] by (simp add: tables_ok_def closeDb_def)
      ultimately have "links_ok (w_clients ?v) ?v" unfolding links_ok_def by blast
      moreover have "spaces_ok pf ?v"
        unfolding spaces_ok_def
      proof (intro allI impI)
        fix j assume "j < length (databases ?v)"
        then have ks: "ks_ok pf (openDb j ?w)" using world_okD(4) [OF w'] by (simp add: spaces_ok_def)
        show "ks_ok pf (openDb j ?v)"
        proof (cases "j = i")
          case True
          have "ks_ok pf (addWatchedKey key p (openDb i ?w))"
            by (rule addWatchedKey_ok) (use ks True in \<open>simp_all add: openDb_sel\<close>)
          with True i show ?thesis by (simp add: openDb_closeDb)
        next
          case False
          with ks show ?thesis by (simp add: ks_ok_def openDb_sel v)
        qed
      qed
      moreover have "conn_ok (w_clients ?v) ?v"
        using world_okD(2) [OF w'] unfolding v(2) conn_ok_def by (simp add: closeDb_def event_known_def)
      moreover have "calm (w_clients ?v)" using world_okD(3) [OF w'] v(2) by simp
      ultimately have "world_ok pf ?v" by (intro world_okI)
      with False Some show ?thesis
        by (simp add: bnd_def [of "setClient p ?f"] runs_client runDb_def onDb_def Let_def i_def dbIndex_def)
    qed (use w' Some in \<open>simp add: bnd_def [of "setClient p ?f"] runs_client runDb_def onDb_def\<close>)
  qed (use w in \<open>simp add: bnd_def [of "setClient p ?f"] runs_client\<close>)
qed

lemma keeps_watch [keeps]:
  "keeps pf (watchCommand p args)" "keeps pf (unwatchCommand p args)" "keeps pf (discardCommand p args)"
  unfolding watchCommand_def unwatchCommand_def discardCommand_def
  by (intro keeps_watch_one keeps)+

end
