(* ===== verification/SafeServer.thy ===== *)
theory SafeServer
  imports SafeHandlers
begin

text \<open>
  The invariant through the commands that work on all databases: eviction, saving, and the
  start of a replication.
\<close>

section \<open>Methods that choose\<close>

text \<open>\<open>mild ks ks'\<close>: what a sequence of tame methods makes of \<open>ks\<close>.\<close>

definition mild :: "platform \<Rightarrow> keyspace \<Rightarrow> keyspace \<Rightarrow> bool" where
  "mild pf ks ks' \<longleftrightarrow> (ks_ok pf ks \<longrightarrow> ks_ok pf ks' \<and> settled ks ks')"

lemma mild_refl [simp, intro]: "mild pf ks ks"
  by (simp add: mild_def)

lemma mild_trans: "mild pf ks ks' \<Longrightarrow> mild pf ks' ks'' \<Longrightarrow> mild pf ks ks''"
  by (auto simp: mild_def intro: settled_trans)

lemma tame_mild: "tame pf f \<Longrightarrow> mild pf ks (f ks)"
  by (simp add: tame_def mild_def)

lemma mild_tame: "(\<And>ks. mild pf ks (f ks)) \<Longrightarrow> tame pf f"
  by (auto simp: tame_def mild_def)

lemma mild_getObject: "db_getObject pf k ks = (r, ks') \<Longrightarrow> mild pf ks ks'"
  using tame_mild [OF tame_getObject, of pf ks k] by simp

lemma mild_pickLfu: "mild pf ks (snd (pickLfu pf sample m best ks))"
proof (induction sample arbitrary: m best ks)
  case (Cons k sample)
  obtain r ks' where get: "db_getObject pf k ks = (r, ks')" by fastforce
  from mild_trans [OF mild_getObject [OF get]] Cons.IH show ?case
    by (simp add: get Let_def split: option.split)
qed simp

lemma mild_pickLru: "mild pf ks (snd (pickLru pf clock sample m best ks))"
proof (induction sample arbitrary: m best ks)
  case (Cons k sample)
  obtain r ks' where get: "db_getObject pf k ks = (r, ks')" by fastforce
  from mild_trans [OF mild_getObject [OF get]] Cons.IH show ?case
    by (simp add: get Let_def split: option.split)
qed simp

lemma mild_choose: "mild pf ks (snd (chooseVictim pf policy sample ks))"
  using mild_pickLfu [of pf ks sample 256 "''''"] mild_pickLru [of pf ks "lruNow (mem ks)" sample 0 "''''"]
  by (auto simp: chooseVictim_def split: prod.split)

lemma ks_ok_drawsFrom [simp]: "ks_ok (drawsFrom n pf) = ks_ok pf"
  by (rule ext) (simp add: ks_ok_def drawsFrom_def)

lemma mild_drawsFrom [simp]: "mild (drawsFrom n pf) = mild pf"
  by (intro ext) (simp add: mild_def)

lemma mild_evictFrom: "mild pf ks (snd (evictFrom pf policy samples ks))"
proof -
  let ?sample = "randomSample pf samples (isPrefixOf ''volatile'' policy) ks"
  obtain best ks1 where v: "chooseVictim pf policy ?sample ks = (best, ks1)" by fastforce
  have "mild pf ks ks1" using mild_choose [of pf ks policy ?sample] v by simp
  with mild_trans [OF this tame_mild [OF tame_del]] show ?thesis
    by (simp add: evictFrom_def Let_def v)
qed

section \<open>Rounds over the databases\<close>

definition gently :: "platform \<Rightarrow> world \<Rightarrow> world \<Rightarrow> bool" where
  "gently pf w w' \<longleftrightarrow> (spaces_ok pf w \<longrightarrow>
     spaces_ok pf w' \<and> same_tables w w' \<and> alike (w_clients w) (w_clients w'))"

lemma gently_refl [simp]: "gently pf w w"
  by (simp add: gently_def same_tables_def)

lemma gently_trans: "gently pf w w' \<Longrightarrow> gently pf w' w'' \<Longrightarrow> gently pf w w''"
  unfolding gently_def by (auto intro: alike_trans) (simp add: same_tables_def)

lemma gently_closeDb:
  assumes i: "i < length (databases w)" and ks: "mild pf (openDb i w) ks"
  shows "gently pf w (closeDb i ks w)"
  unfolding gently_def
proof
  assume "spaces_ok pf w"
  then have "ks_ok pf (openDb i w)" using i by (simp add: spaces_ok_def)
  with ks have "ks_ok pf ks" "settled (openDb i w) ks" by (simp_all add: mild_def)
  from closeDb_spaces [OF \<open>spaces_ok pf w\<close> i this]
  show "spaces_ok pf (closeDb i ks w) \<and> same_tables w (closeDb i ks w) \<and>
      alike (w_clients w) (w_clients (closeDb i ks w))" by simp
qed

lemma gently_world: "gently pf w w' \<Longrightarrow> world_ok pf w \<Longrightarrow> world_ok pf w' \<and> alike (w_clients w) (w_clients w')"
  unfolding gently_def using world_ok_frame world_okD(4) by blast

lemma gentleI: "(\<And>w. gently pf w (snd (m w))) \<Longrightarrow> gentle pf m"
  unfolding gentle_def by (blast dest: gently_world)

lemma gentle_modify [gentle]: "(\<And>w. gently pf w (f w)) \<Longrightarrow> gentle pf (modify f)"
  by (rule gentleI) (simp add: act_apply)

lemma gently_foldDbs:
  assumes "\<And>i ks. mild pf ks (f i ks)"
  shows "\<forall>i \<in> set is. i < length (databases w) \<Longrightarrow> gently pf w (foldl (\<lambda>w i. closeDb i (f i (openDb i w)) w) w is)"
proof (induction "is" arbitrary: w)
  case (Cons i "is")
  have "gently pf w (closeDb i (f i (openDb i w)) w)"
    by (rule gently_closeDb) (use Cons.prems assms in auto)
  with Cons show ?case by (auto intro: gently_trans)
qed simp

lemma evictRound_gently:
  "\<forall>i \<in> set is. i < length (databases w) \<Longrightarrow> gently pf w (snd (evictRound pf policy samples target is w))"
proof (induction "is" arbitrary: w)
  case (Cons i "is")
  let ?pf = "drawsFrom (i * nat samples) pf"
  obtain hit ks where e: "evictFrom ?pf policy samples (openDb i w) = (hit, ks)" by fastforce
  have "mild pf (openDb i w) ks" using mild_evictFrom [of ?pf "openDb i w" policy samples] e by simp
  then have 1: "gently pf w (closeDb i ks w)" using Cons.prems by (intro gently_closeDb) simp_all
  have 2: "gently pf (closeDb i ks w) (snd (evictRound pf policy samples target is (closeDb i ks w)))"
    using Cons by simp
  from gently_trans [OF 1 2] e show ?case by (simp add: case_prod_beta)
qed simp

lemma gently_drawsFrom [simp]: "gently (drawsFrom n pf) = gently pf"
proof -
  have "spaces_ok (drawsFrom n pf) = spaces_ok pf" by (rule ext) (simp add: spaces_ok_def)
  then show ?thesis by (intro ext) (simp add: gently_def)
qed

lemma evictLoop_gently: "gently pf w (evictLoop pf policy samples target r n w)"
proof (induction n arbitrary: w r)
  case (Suc n)
  let ?pf = "drawsFrom (r * length (databases w) * nat samples) pf"
  obtain hit w' where e: "evictRound ?pf policy samples target [0..<length (databases w)] w = (hit, w')" by fastforce
  have "gently pf w w'" using evictRound_gently [of "[0..<length (databases w)]" w ?pf policy samples target] e by simp
  with Suc e show ?case by (auto intro: gently_trans)
qed simp

lemma evict_gently: "gently pf w (evictKeysIfNeeded pf w)"
  by (simp add: evictKeysIfNeeded_def Let_def evictLoop_gently del: evictLoop.simps)

lemma gentle_memoryGuard [gentle]: "gentle pf (memoryGuard pf e)"
  unfolding memoryGuard_def by (intro gentle evict_gently)

section \<open>Saving\<close>

lemma mild_saveKeys: "saveKeys pf keys ks out = Some (ks', out') \<Longrightarrow> mild pf ks ks'"
proof (induction keys arbitrary: ks out)
  case (Cons k keys)
  obtain r ks1 where get: "db_getObject pf k ks = (r, ks1)" by fastforce
  with Cons have "mild pf ks1 ks'" by (auto split: option.splits bind_splits)
  with mild_getObject [OF get] show ?case by (rule mild_trans)
qed simp

lemma saveDbs_gently:
  "saveDbs pf is w out = Some (w', out') \<Longrightarrow> \<forall>i \<in> set is. i < length (databases w) \<Longrightarrow> gently pf w w'"
proof (induction "is" arbitrary: w out)
  case (Cons i "is")
  then obtain ks out1 where s: "saveDb pf i (openDb i w) out = Some (ks, out1)"
    "saveDbs pf is (closeDb i ks w) out1 = Some (w', out')" by (auto split: bind_splits)
  have "mild pf (openDb i w) ks"
    using s(1) by (auto simp: saveDb_def split: if_splits dest: mild_saveKeys)
  then have 1: "gently pf w (closeDb i ks w)" using Cons.prems by (intro gently_closeDb) simp_all
  have 2: "gently pf (closeDb i ks w) w'" using Cons.IH [OF s(2)] Cons.prems(2) by simp
  show ?case by (rule gently_trans [OF 1 2])
qed simp

lemma gentle_saveToFile [gentle]: "gentle pf (saveToFile pf opened)"
proof (rule gentleI)
  fix w
  show "gently pf w (snd (saveToFile pf opened w))"
    using saveDbs_gently [of pf "[0..<length (databases w)]" w]
    by (auto simp: saveToFile_def Let_def split: option.splits prod.splits)
qed

lemma keeps_saveToFile [keeps]: "keeps pf (saveToFile pf opened)"
  by (rule gentle_keeps, rule gentle_saveToFile)

lemma writeFile_frame:
  "same_tables w (writeFile name bytes w)" "w_clients (writeFile name bytes w) = w_clients w"
  "databases (writeFile name bytes w) = databases w"
  by (simp_all add: writeFile_def same_tables_def del: set_map split: option.split)

lemma keeps_files [keeps]:
  "keeps pf (modify (writeFile name bytes))" "keeps pf (modify (\<lambda>w. w\<lparr>lastSaveTime := t\<rparr>))"
  "keeps pf (modify (\<lambda>w. w\<lparr>bgrewriteJob := j w\<rparr>))"
  by (rule keeps_frame; simp add: writeFile_frame)+ (rule keeps_frame; simp add: same_tables_def)+

lemma keeps_clearDirty [keeps]: "keeps pf (modify (\<lambda>w. clearDirty (w\<lparr>lastSaveTime := t\<rparr>)))"
proof (rule keepsI)
  fix w assume w: "world_ok pf w"
  let ?w = "clearDirty (w\<lparr>lastSaveTime := t\<rparr>)"
  have "same_tables w ?w" by (simp add: clearDirty_def same_tables_def)
  moreover have "spaces_ok pf ?w"
    unfolding spaces_ok_def
  proof (intro allI impI)
    fix i assume "i < length (databases ?w)"
    then have i: "i < length (databases w)" by (simp add: clearDirty_def)
    then have "ks_ok pf (openDb i w)" using world_okD(4) [OF w] by (simp add: spaces_ok_def)
    then show "ks_ok pf (openDb i ?w)" using i by (simp add: ks_ok_def openDb_sel) (simp add: clearDirty_def)
  qed
  ultimately show "world_ok pf (snd (modify (\<lambda>w. clearDirty (w\<lparr>lastSaveTime := t\<rparr>)) w))"
    using world_ok_frame [OF w, of ?w] by (simp add: act_apply) (simp add: clearDirty_def)
qed

lemma keeps_admin [keeps]:
  "keeps pf (saveCommand pf p args)" "keeps pf (bgsaveCommand pf p args)" "keeps pf (bgrewriteaofCommand pf p args)"
  "keeps pf (debugCommand pf p args)"
  unfolding saveCommand_def bgsaveCommand_def bgrewriteaofCommand_def debugCommand_def
    server_save_def server_bgsave_def server_bgrewriteaof_def
  by (intro keeps)+

section \<open>Replication\<close>

lemma gentle_allDbs:
  assumes "tame pf f"
  shows "gentle pf (bnd (gets (\<lambda>w. length (databases w))) (\<lambda>n.
    forEach [0..<n] (\<lambda>i. modify (\<lambda>w. closeDb i (f (openDb i w)) w))))"
proof -
  have "gently pf w (foldl (\<lambda>w i. closeDb i (f (openDb i w)) w) w [0..<length (databases w)])" for w
    by (rule gently_foldDbs) (simp_all add: tame_mild [OF assms])
  then show ?thesis by (intro gentleI) (simp add: bnd_gets forEach_modify act_apply)
qed

lemma keeps_replication [keeps]:
  "keeps pf (setReplicationMaster pf host port)" "keeps pf (replicaofCommand pf p args)"
  "keeps pf (replconfCommand p args)" "keeps pf (waitCommand p args)"
proof -
  show master: "keeps pf (setReplicationMaster pf host port)" for host port
    unfolding setReplicationMaster_def
    by (rule keeps_bnd, intro keeps, rule keeps_bnd, intro keeps, rule gentle_keeps, rule gentle_allDbs, rule tame)
  show "keeps pf (replicaofCommand pf p args)" "keeps pf (replconfCommand p args)" "keeps pf (waitCommand p args)"
    unfolding replicaofCommand_def replconfCommand_def waitCommand_def by (intro keeps master)+
qed

text \<open>
  A new replica must not be one already: its pointer would be in the list twice, and
  \<^verbatim>\<open>removeReplica\<close> erases one of them only.
\<close>

lemma addReplica_ok:
  assumes w: "world_ok pf w" and p: "\<And>c. w_clients w p = Some c \<Longrightarrow> \<not> hasFlag CLIENT_SLAVE c"
  shows "world_ok pf (snd (addReplica p w))"
proof (cases "w_clients w p")
  case (Some c)
  have "\<not> points w Replica k p" for k
    using links_own [OF world_okD(1) [OF w] _ Some, of Replica] p [OF Some] by auto
  then have new: "p \<notin> set (replicas w)" by simp
  let ?c = "setFlag CLIENT_SLAVE c"
  let ?w = "w\<lparr>w_clients := (w_clients w)(p \<mapsto> ?c), replicas := replicas w @ [p]\<rparr>"
  have "world_ok pf ?w"
  proof (rule world_ok_alter [OF w Some, where c' = ?c])
    show "calm_client c \<Longrightarrow> calm_client ?c"
      by (simp add: calm_client_def hasFlag_setFlag) (simp add: setFlag_def)
    show "tables_ok w \<Longrightarrow> tables_ok ?w" using new by (simp add: tables_ok_def)
    show "points ?w t k q \<Longrightarrow> q \<noteq> p \<Longrightarrow> points w t k q" for t k q by (cases t) simp_all
    show "own t ?c k" if "points ?w t k p" "points w t k p \<Longrightarrow> own t c k" for t k
      using that by (cases t) (simp_all add: hasFlag_setFlag, simp_all add: setFlag_def)
    show "spaces_ok pf ?w" by (rule spaces_ok_frame [OF world_okD(4) [OF w]]) (use Some in auto)
  qed (simp_all add: setFlag_def)
  then show ?thesis by (simp add: addReplica_def bnd_setClient [of w p c, OF Some] act_apply)
qed (use w in \<open>simp add: addReplica_def bnd_def [of "setClient p f" for f] runs_client\<close>)

end
