(* ===== verification/SafeCommands.thy ===== *)
theory SafeCommands
  imports SafeServer
begin

text \<open>
  The commands that depend on the state of their client, and command execution as a whole.
\<close>

section \<open>Conditions on the client\<close>

text \<open>\<open>kept pf Q m\<close>: the invariant through \<open>m\<close> where \<open>Q\<close> holds of the clients.\<close>

definition kept :: "platform \<Rightarrow> ((nat \<Rightarrow> client option) \<Rightarrow> bool) \<Rightarrow> 'a act \<Rightarrow> bool" where
  "kept pf Q m \<longleftrightarrow> (\<forall>w. world_ok pf w \<longrightarrow> Q (w_clients w) \<longrightarrow> world_ok pf (snd (m w)))"

definition of_client :: "nat \<Rightarrow> (client \<Rightarrow> bool) \<Rightarrow> (nat \<Rightarrow> client option) \<Rightarrow> bool" where
  "of_client p R cs \<longleftrightarrow> (\<forall>c. cs p = Some c \<longrightarrow> R c)"

text \<open>A condition that \<^const>\<open>akin\<close> clients share.\<close>

definition steady :: "(client \<Rightarrow> bool) \<Rightarrow> bool" where
  "steady R \<longleftrightarrow> (\<forall>c c'. akin c c' \<longrightarrow> R c \<longrightarrow> R c')"

lemma keeps_kept: "keeps pf m \<Longrightarrow> kept pf Q m"
  by (simp add: keeps_def kept_def)

lemma of_client_alike: "steady R \<Longrightarrow> alike cs cs' \<Longrightarrow> of_client p R cs \<Longrightarrow> of_client p R cs'"
  unfolding steady_def of_client_def by (meson alikeD)

lemma kept_bnd:
  assumes "steady R" "gentle pf m" "\<And>x. kept pf (of_client p R) (f x)"
  shows "kept pf (of_client p R) (bnd m f)"
  unfolding kept_def
proof (intro allI impI)
  fix w assume w: "world_ok pf w" "of_client p R (w_clients w)"
  obtain r w' where m: "m w = (r, w')" by fastforce
  with assms(2) w(1) have w': "world_ok pf w'" "alike (w_clients w) (w_clients w')" by (auto simp: gentle_def)
  then have "of_client p R (w_clients w')" using of_client_alike [OF assms(1)] w(2) by blast
  with assms(3) m w'(1) show "world_ok pf (snd (bnd m f w))"
    by (cases r) (auto simp: bnd_def kept_def)
qed

lemma kept_if: "kept pf Q a \<Longrightarrow> kept pf Q b \<Longrightarrow> kept pf Q (if c then a else b)"
  by simp

lemma kept_cases: "(c \<Longrightarrow> kept pf Q a) \<Longrightarrow> (\<not> c \<Longrightarrow> kept pf Q b) \<Longrightarrow> kept pf Q (if c then a else b)"
  by simp

lemma kept_option: "kept pf Q n \<Longrightarrow> (\<And>x. kept pf Q (s x)) \<Longrightarrow> kept pf Q (case r of None \<Rightarrow> n | Some x \<Rightarrow> s x)"
  by (simp split: option.split)

section \<open>More gentle actions\<close>

lemma gentle_try [gentle]:
  assumes "gentle pf m" "\<And>e. gentle pf (h e)"
  shows "gentle pf (try_catch m h)"
  unfolding gentle_def
proof (intro allI impI)
  fix w assume w: "world_ok pf w"
  obtain r w' where m: "m w = (r, w')" by fastforce
  with assms(1) w have w': "world_ok pf w'" "alike (w_clients w) (w_clients w')" by (auto simp: gentle_def)
  with assms(2) m show "world_ok pf (snd (try_catch m h w)) \<and> alike (w_clients w) (w_clients (snd (try_catch m h w)))"
    by (cases r) (auto simp: try_catch_def gentle_def intro: alike_trans)
qed

lemma gentle_mapEach [gentle]: "(\<And>x. gentle pf (f x)) \<Longrightarrow> gentle pf (mapEach xs f)"
  by (induction xs) (simp_all add: gentle_basic gentle_bnd)

lemma gentle_selected [gentle]: "gentle pf (selected p)"
  unfolding selected_def by (intro gentle)

lemma gentle_tryNumber [gentle]: "gentle pf (tryNumber conv args i)"
  unfolding tryNumber_def by (intro gentle)

lemma gentle_frame:
  assumes "\<And>w. same_tables w (f w)" "\<And>w. w_clients (f w) = w_clients w" "\<And>w. databases (f w) = databases w"
  shows "gentle pf (modify f)"
  using keeps_frame [of f pf] assms by (simp add: keeps_def gentle_def act_apply)

declare tame [gentle]

lemma gentle_delIfEmpty [gentle]: "gentle pf (delIfEmpty pf db key)"
  unfolding delIfEmpty_def by (intro gentle keeps)

lemma gentle_bpopKeys [gentle]: "gentle pf (bpopKeys pf p db left keys)"
proof (induction keys)
  case (Cons key keys)
  show ?case unfolding bpopKeys.simps
    by (rule gentle_bnd, intro gentle, rule gentle_option, rule Cons, simp split: contents.split)
      (intro gentle keeps impI conjI allI Cons)
qed (simp add: gentle_basic)

lemma keeps_pop [keeps]: "keeps pf (lpopCommand pf p args)" "keeps pf (rpopCommand pf p args)"
  unfolding lpopCommand_def rpopCommand_def popGeneric_def delIfEmpty_def by (intro keeps)+

section \<open>Blocking and waking\<close>

lemma world_ok_points:
  assumes w: "world_ok pf w" and c: "w_clients w p = Some c"
    and g: "tables_ok w \<Longrightarrow> tables_ok w'" "\<And>t k q. points w' t k q \<Longrightarrow> points w t k q \<or> (q = p \<and> own t c k)"
    and same: "databases w' = databases w" "same_conn w w'"
  shows "world_ok pf w'"
proof (rule world_ok_alter [OF w c, where c' = c])
  show "spaces_ok pf w'" by (rule spaces_ok_other [OF world_okD(4) [OF w]]) (use same in \<open>simp_all add: same_conn_def\<close>)
  show "w_clients w' = (w_clients w)(p \<mapsto> c)" using c same(2) by (simp add: same_conn_def fun_upd_idem)
qed (use g same(2) in \<open>auto simp: same_conn_def\<close>)

lemma block_keys:
  assumes "world_ok pf w" "w_clients w p = Some c" "hasFlag CLIENT_BLOCKED c" "set keys \<subseteq> set (blockedKeys c)"
  shows "world_ok pf (foldl (\<lambda>w key. w\<lparr>blockedClients := addPointer key p (blockedClients w)\<rparr>) w keys)"
  using assms
proof (induction keys arbitrary: w)
  case (Cons key keys)
  let ?w = "w\<lparr>blockedClients := addPointer key p (blockedClients w)\<rparr>"
  have "world_ok pf ?w"
  proof (rule world_ok_points [OF Cons.prems(1,2)])
    show "points ?w t k q \<Longrightarrow> points w t k q \<or> (q = p \<and> own t c k)" for t k q
      using Cons.prems(3,4) by (cases t) (auto simp: entries_add)
  qed (simp_all add: tables_ok_def keys_add same_conn_def)
  with Cons show ?case by simp
qed simp

definition may_block :: "RespValue \<Rightarrow> client \<Rightarrow> bool" where
  "may_block cmd c \<longleftrightarrow> \<not> hasFlag CLIENT_BLOCKED c \<and> \<not> hasFlag CLIENT_MULTI c \<and> wakeable cmd"

lemma steady_may_block: "steady (may_block cmd)"
  by (simp add: steady_def may_block_def akin_def)

lemma kept_blockClient: "kept pf (of_client p (may_block cmd)) (blockClient pf p keys timeout cmd target)"
  unfolding kept_def
proof (intro allI impI)
  fix w assume w: "world_ok pf w" and R: "of_client p (may_block cmd) (w_clients w)"
  show "world_ok pf (snd (blockClient pf p keys timeout cmd target w))"
  proof (cases "w_clients w p")
    case None
    with w show ?thesis by (simp add: blockClient_def bnd_def [of "setClient p f" for f] runs_client)
  next
    case (Some c)
    define b where "b = (if timeout > 0 then wrap64 (system_ms pf + timeout) else 0)"
    define c' where "c' = (setFlag CLIENT_BLOCKED c)\<lparr>blockedKeys := keys, blockTimeout := b,
      blockTarget := target, blockCmd := cmd\<rparr>"
    let ?w = "w\<lparr>w_clients := (w_clients w)(p \<mapsto> c')\<rparr>"
    have R: "may_block cmd c" using R Some by (simp add: of_client_def)
    have flag: "hasFlag f c' \<longleftrightarrow> f = CLIENT_BLOCKED \<or> hasFlag f c" if "is_flag f" for f
      using hasFlag_setFlag [of CLIENT_BLOCKED f c] that by (simp add: c'_def hasFlag_def)
    have fields: "client_fd c' = client_fd c" "transactionQueue c' = transactionQueue c" "subscribed c' = subscribed c"
      "psubscribed c' = psubscribed c" "watching c' = watching c" "blockCmd c' = cmd" "blockedKeys c' = keys"
      by (simp_all add: c'_def setFlag_def)
    have "world_ok pf ?w"
    proof (rule world_ok_alter [OF w Some, where c' = c'])
      show "calm_client c \<Longrightarrow> calm_client c'" using R by (simp add: calm_client_def fields flag may_block_def)
      show "points ?w t k q \<Longrightarrow> points w t k q" for t k q by simp
      show "own t c' k" if "points ?w t k p" "points w t k p \<Longrightarrow> own t c k" for t k
        using that R by (cases t) (simp_all add: fields flag may_block_def)
      show "spaces_ok pf ?w" by (rule spaces_ok_frame [OF world_okD(4) [OF w]]) (use Some in auto)
    qed (simp_all add: fields tables_ok_def)
    then have "world_ok pf (foldl (\<lambda>w key. w\<lparr>blockedClients := addPointer key p (blockedClients w)\<rparr>) ?w keys)"
      by (rule block_keys [where c = c']) (simp_all add: flag fields)
    moreover have "blockClient pf p keys timeout cmd target w =
        (Inr (), foldl (\<lambda>w key. w\<lparr>blockedClients := addPointer key p (blockedClients w)\<rparr>) ?w keys)"
      using Some by (simp add: blockClient_def bnd_setClient forEach_modify act_apply b_def [symmetric] c'_def)
    ultimately show ?thesis by simp
  qed
qed

lemma kept_bpop: "kept pf (of_client p (may_block (Array args))) (bpopGeneric pf p args left)"
  unfolding bpopGeneric_def
  by (intro kept_bnd [OF steady_may_block] gentle kept_option kept_if kept_blockClient; intro keeps_kept keeps)

section \<open>Handlers with a condition\<close>

lemma kept_multi: "kept pf (of_client p (\<lambda>c. \<not> hasFlag CLIENT_BLOCKED c)) (multiCommand p args)"
  unfolding kept_def
proof (intro allI impI)
  fix w assume w: "world_ok pf w" and R: "of_client p (\<lambda>c. \<not> hasFlag CLIENT_BLOCKED c) (w_clients w)"
  show "world_ok pf (snd (multiCommand p args w))"
  proof (cases "w_clients w p")
    case (Some c)
    let ?c = "setFlag CLIENT_MULTI c" and ?ok = "reply p (reply_simpleString ''OK'')"
    let ?w = "w\<lparr>w_clients := (w_clients w)(p \<mapsto> ?c)\<rparr>"
    have "world_ok pf ?w"
    proof (rule world_ok_alter [OF w Some, where c' = ?c])
      show "calm_client c \<Longrightarrow> calm_client ?c" using R Some
        by (simp add: calm_client_def hasFlag_setFlag of_client_def) (simp add: setFlag_def)
      show "points ?w t k q \<Longrightarrow> points w t k q" for t k q by simp
      show "own t ?c k" if "points ?w t k p" "points w t k p \<Longrightarrow> own t c k" for t k
        using that by (cases t) (simp_all add: hasFlag_setFlag, simp_all add: setFlag_def)
      show "spaces_ok pf ?w" by (rule spaces_ok_frame [OF world_okD(4) [OF w]]) (use Some in auto)
    qed (simp_all add: setFlag_def tables_ok_def)
    then have "world_ok pf (snd (?ok ?w))" by (rule keepsD [OF keeps_reply])
    moreover have "world_ok pf (snd (reply p s w))" for s by (rule keepsD [OF keeps_reply w])
    ultimately show ?thesis using Some by (simp add: multiCommand_def bnd_theClient bnd_setClient)
  qed (use w in \<open>simp add: multiCommand_def runs_client\<close>)
qed

lemma kept_psync: "kept pf (of_client p (\<lambda>c. \<not> hasFlag CLIENT_SLAVE c)) (psyncCommand pf p args)"
proof -
  have s: "steady (\<lambda>c. \<not> hasFlag CLIENT_SLAVE c)" by (simp add: steady_def akin_def)
  have a: "kept pf (of_client p (\<lambda>c. \<not> hasFlag CLIENT_SLAVE c)) (addReplica p)"
    unfolding kept_def of_client_def using addReplica_ok by blast
  have m: "gentle pf (modify (\<lambda>w. if replId w = '''' then generateReplId pf w else w))"
    by (rule gentle_frame) (simp_all add: generateReplId_def same_tables_def)
  show ?thesis unfolding psyncCommand_def by (intro kept_bnd [OF s] gentle m kept_if a)
qed

section \<open>What a command needs of its client\<close>

definition fit :: "handler \<Rightarrow> client \<Rightarrow> bool" where
  "fit h c \<longleftrightarrow> (blocking h \<longrightarrow> \<not> hasFlag CLIENT_BLOCKED c \<and> \<not> hasFlag CLIENT_MULTI c) \<and>
     (h = ReplicationH PSYNC \<longrightarrow> \<not> hasFlag CLIENT_SLAVE c) \<and>
     (h = TransactionH MULTI \<longrightarrow> \<not> hasFlag CLIENT_BLOCKED c)"

definition admissible :: "RespValue \<Rightarrow> client \<Rightarrow> bool" where
  "admissible cmd c \<longleftrightarrow> (case cmd of
      Array args \<Rightarrow> (case args of [] \<Rightarrow> True
        | a # _ \<Rightarrow> (case asString a of Inl _ \<Rightarrow> True
            | Inr name \<Rightarrow> (if queued name c then quiet args
                else case commandHandler args of None \<Rightarrow> True | Some h \<Rightarrow> fit h c)))
    | _ \<Rightarrow> True)"

definition run_ok :: "platform \<Rightarrow> (handler \<Rightarrow> handler_code) \<Rightarrow> bool" where
  "run_ok pf run \<longleftrightarrow> (\<forall>h p args. commandHandler args = Some h \<longrightarrow> enough args \<longrightarrow> kept pf (of_client p (fit h)) (run h p args))"

definition exec_ok :: "platform \<Rightarrow> (nat \<Rightarrow> RespValue \<Rightarrow> unit act) \<Rightarrow> bool" where
  "exec_ok pf exec \<longleftrightarrow> (\<forall>p cmd. kept pf (of_client p (admissible cmd)) (exec p cmd))"

lemma steady_fit: "steady (fit h)"
  by (simp add: steady_def fit_def akin_def)

lemma steady_admissible: "steady (admissible cmd)"
  unfolding steady_def
proof (intro allI impI)
  fix c c' assume c: "akin c c'" "admissible cmd c"
  have 1: "queued name c' = queued name c" for name using c(1) by (simp add: queued_def akin_def)
  have 2: "fit h c' = fit h c" for h using c(1) by (simp add: fit_def akin_def)
  show "admissible cmd c'" using c(2) unfolding admissible_def 1 2 .
qed

lemma kept_then: "kept pf Q m \<Longrightarrow> (\<And>x. keeps pf (f x)) \<Longrightarrow> kept pf Q (bnd m f)"
  by (force simp: kept_def keeps_def bnd_def split: prod.split sum.split)

lemma kept_try: "kept pf Q m \<Longrightarrow> (\<And>e. keeps pf (h e)) \<Longrightarrow> kept pf Q (try_catch m h)"
  by (force simp: kept_def keeps_def try_catch_def split: prod.split sum.split)

section \<open>Pushing\<close>

lemma woken:
  assumes "world_ok pf w" "map_of (blockedClients w) key = Some (p # ps)"
  obtains c where "w_clients w p = Some c" "hasFlag CLIENT_BLOCKED c" "\<not> hasFlag CLIENT_MULTI c" "wakeable (blockCmd c)"
proof -
  have "points w BlockedOn key p" using assms(2) by (simp add: entries_def)
  then obtain c where c: "w_clients w p = Some c" "hasFlag CLIENT_BLOCKED c"
    using world_okD(1) [OF assms(1)] unfolding links_ok_def has_def by fastforce
  with calm_client [OF world_okD(3) [OF assms(1)] c(1)] that show ?thesis by (simp add: calm_client_def)
qed

lemma wakeable_admissible:
  assumes "wakeable cmd" "\<not> hasFlag CLIENT_BLOCKED c" "\<not> hasFlag CLIENT_MULTI c"
  shows "admissible cmd c"
  using assms by (auto simp: wakeable_def admissible_def queued_def fit_def blocking_def
      split: RespValue.splits list.splits sum.splits option.splits)

lemma keeps_handleBlocked:
  assumes "exec_ok pf exec"
  shows "keeps pf (handleClientsBlockedOnKey exec key)"
proof (rule keepsI)
  fix w assume w: "world_ok pf w"
  show "world_ok pf (snd (handleClientsBlockedOnKey exec key w))"
  proof (cases "map_of (blockedClients w) key")
    case None
    with w show ?thesis by (simp add: handleClientsBlockedOnKey_def bnd_gets act_apply)
  next
    case (Some qs)
    show ?thesis
    proof (cases qs)
      case Nil
      with Some w show ?thesis by (simp add: handleClientsBlockedOnKey_def bnd_gets act_apply)
    next
      case (Cons p ps)
      with Some have it: "map_of (blockedClients w) key = Some (p # ps)" by simp
      from woken [OF w it] obtain c where c: "w_clients w p = Some c" "hasFlag CLIENT_BLOCKED c"
        "\<not> hasFlag CLIENT_MULTI c" "wakeable (blockCmd c)" .
      from blocked.stage [OF w c(1) refl] c obtain w' where w': "unblockClient p w = (Inr (), w')" "world_ok pf w'"
        "w_clients w' = (w_clients w)(p \<mapsto> clearBlockState c)" by (auto simp: unblockClient_def runs_client)
      have "\<not> hasFlag CLIENT_BLOCKED (clearBlockState c)" "\<not> hasFlag CLIENT_MULTI (clearBlockState c)"
        using c(3) by (simp_all add: clearBlockState_def hasFlag_clearFlag) (simp add: hasFlag_def)
      then have "of_client p (admissible (blockCmd c)) (w_clients w')"
        using wakeable_admissible [OF c(4)] by (simp add: of_client_def w'(3))
      moreover have "kept pf (of_client p (admissible (blockCmd c))) (seq (exec p (blockCmd c)) (installWriteHandler p))"
        using assms by (intro kept_then keeps) (simp add: exec_ok_def)
      ultimately have "world_ok pf (snd (seq (exec p (blockCmd c)) (installWriteHandler p) w'))"
        using w'(2) unfolding kept_def by blast
      then show ?thesis
        using c(1) by (simp add: handleClientsBlockedOnKey_def bnd_gets it bnd_theClient
            bnd_run [where m = "unblockClient p", OF w'(1)])
    qed
  qed
qed

lemma keeps_push:
  assumes "exec_ok pf exec"
  shows "keeps pf (lpushCommand pf exec p args)" "keeps pf (rpushCommand pf exec p args)"
  unfolding lpushCommand_def rpushCommand_def pushGeneric_def
  by (intro keeps keeps_handleBlocked [OF assms])+

section \<open>Executing a transaction\<close>

lemma quiet_fit: "quiet cmd \<Longrightarrow> commandHandler cmd = Some h \<Longrightarrow> fit h c"
  by (simp add: quiet_def fit_def)

lemma keeps_execOne:
  assumes "run_ok pf run" "quiet cmd" "enough cmd"
  shows "keeps pf (execOne pf (\<lambda>name. map_option (\<lambda>e. run (entry_handler e)) (lookupCommand name)) p cmd)"
proof (cases "\<exists>name e. argStr cmd 0 = ret name \<and> lookupCommand name = Some e")
  case True
  then obtain name e where e: "argStr cmd 0 = ret name" "lookupCommand name = Some e" by blast
  have "commandHandler cmd = Some (entry_handler e)"
    using e by (cases cmd) (auto simp: argStr_def commandHandler_def raise_def ret_def lift_def fun_eq_iff)
  with assms have "kept pf (of_client p (fit (entry_handler e))) (run (entry_handler e) p cmd)"
    "\<And>c. fit (entry_handler e) c" by (auto simp: run_ok_def quiet_fit)
  then have "keeps pf (run (entry_handler e) p cmd)" by (simp add: kept_def keeps_def of_client_def)
  with e show ?thesis by (simp add: execOne_def) (intro keeps)
next
  case False
  have "argStr cmd 0 = ret name \<or> (\<exists>e. argStr cmd 0 = raise e)" if "fst (argStr cmd 0 w) = Inr name" for name w
    using that by (auto simp: argStr_def lift_def ret_def raise_def fun_eq_iff split: if_splits)
  then have 1: "argStr cmd 0 w = (Inr name, w') \<Longrightarrow> lookupCommand name = None" for w name w'
    using False by (metis (no_types, lifting) act_apply(2) fst_conv not_Some_eq old.sum.distinct(1) prod.inject)
  have 2: "snd (argStr cmd 0 w) = w" for w by (simp add: argStr_def act_apply)
  show ?thesis
  proof (rule keepsI)
    fix w assume w: "world_ok pf w"
    obtain r w' where r: "argStr cmd 0 w = (r, w')" by fastforce
    with 2 [of w] have "w' = w" by simp
    with r 1 w keepsD [OF keeps_reply w] show "world_ok pf (snd (execOne pf (\<lambda>name. map_option (\<lambda>e. run (entry_handler e)) (lookupCommand name)) p cmd w))"
      by (cases r) (auto simp: execOne_def bnd_def [of "argStr cmd 0"])
  qed
qed

lemma keeps_forEach_set: "(\<And>x. x \<in> set xs \<Longrightarrow> keeps pf (f x)) \<Longrightarrow> keeps pf (forEach xs f)"
  by (induction xs) (simp_all add: keeps_basic keeps_bnd)

lemma keeps_exec:
  assumes "run_ok pf run"
  shows "keeps pf (execCommand pf (\<lambda>name. map_option (\<lambda>e. run (entry_handler e)) (lookupCommand name)) p args)"
proof (rule keepsI)
  let ?exec = "execCommand pf (\<lambda>name. map_option (\<lambda>e. run (entry_handler e)) (lookupCommand name)) p args"
  fix w assume w: "world_ok pf w"
  show "world_ok pf (snd (?exec w))"
  proof (cases "w_clients w p")
    case (Some c)
    then have "\<forall>cmd \<in> set (transactionQueue c). quiet cmd \<and> enough cmd"
      using calm_client [OF world_okD(3) [OF w]] by (simp add: calm_client_def)
    then have queue: "keeps pf (forEach (transactionQueue c)
        (execOne pf (\<lambda>name. map_option (\<lambda>e. run (entry_handler e)) (lookupCommand name)) p))"
      by (intro keeps_forEach_set keeps_execOne assms) simp_all
    have "keeps pf (if \<not> hasFlag CLIENT_MULTI c then reply p (reply_error ''ERR EXEC without MULTI'')
        else if hasFlag CLIENT_DIRTY_EXEC c then seq (setClient p clearTransaction) (reply p reply_nullArray)
        else seq (setClient p clearTransaction)
          (seq (reply p (''*'' @ nat_to_dec (length (transactionQueue c)) @ CRLF))
          (forEach (transactionQueue c)
            (execOne pf (\<lambda>name. map_option (\<lambda>e. run (entry_handler e)) (lookupCommand name)) p))))"
      by (intro keeps queue)
    from keepsD [OF this w] Some show ?thesis by (simp add: execCommand_def bnd_theClient)
  qed (use w in \<open>simp add: execCommand_def runs_client\<close>)
qed

section \<open>Execution\<close>

lemma kept_handler:
  assumes "exec_ok pf exec" "run_ok pf run" "commandHandler args = Some h" "enough args"
  shows "kept pf (of_client p (fit h)) (handlerAct pf exec run h p args)"
proof -
  have weaken: "kept pf (of_client p R) m \<Longrightarrow> (\<And>c. fit h c \<Longrightarrow> R c) \<Longrightarrow> kept pf (of_client p (fit h)) m" for R and m :: "unit act"
    by (simp add: kept_def of_client_def)
  have bpop: "kept pf (of_client p (fit h)) (bpopGeneric pf p args left)" if "blocking h" for left
    by (rule weaken [OF kept_bpop]) (use that assms(3,4) in \<open>simp add: fit_def may_block_def wakeable_def\<close>)
  show ?thesis
  proof (cases h)
    case (ServerH a)
    then show ?thesis by (cases a) (simp_all add: handlerAct_def keeps_kept keeps_server)
  next
    case (AdminH a)
    then show ?thesis by (cases a) (simp_all add: handlerAct_def keeps_kept keeps_admin)
  next
    case (ListH a)
    with bpop show ?thesis
      by (cases a) (simp_all add: handlerAct_def keeps_kept keeps_push [OF assms(1)] keeps_pop keeps_collections
          blocking_def blpopCommand_def brpopCommand_def)
  next
    case (HashH a)
    then show ?thesis by (cases a) (simp_all add: handlerAct_def keeps_kept keeps_collections)
  next
    case (SetH a)
    then show ?thesis by (cases a) (simp_all add: handlerAct_def keeps_kept keeps_collections)
  next
    case (ZsetH a)
    then show ?thesis by (cases a) (simp_all add: handlerAct_def keeps_kept keeps_zsets)
  next
    case (StringH a)
    then show ?thesis by (cases a) (simp_all add: handlerAct_def keeps_kept keeps_strings)
  next
    case (KeyH a)
    then show ?thesis by (cases a) (simp_all add: handlerAct_def keeps_kept keeps_keys)
  next
    case (TransactionH a)
    have "kept pf (of_client p (fit h)) (multiCommand p args)" if "h = TransactionH MULTI"
      by (rule weaken [OF kept_multi]) (use that in \<open>simp add: fit_def\<close>)
    with TransactionH show ?thesis
      by (cases a) (simp_all add: handlerAct_def keeps_kept keeps_watch keeps_exec [OF assms(2)])
  next
    case (PubSubH a)
    then show ?thesis by (cases a) (simp_all add: handlerAct_def keeps_kept keeps_pubsub)
  next
    case (ReplicationH a)
    have "kept pf (of_client p (fit h)) (psyncCommand pf p args)" if "h = ReplicationH PSYNC"
      by (rule weaken [OF kept_psync]) (use that in \<open>simp add: fit_def\<close>)
    with ReplicationH show ?thesis
      by (cases a) (simp_all add: handlerAct_def keeps_kept keeps_replication)
  qed
qed

lemma keeps_queue: "quiet args \<Longrightarrow> enough args \<Longrightarrow> keeps pf (setClient p (\<lambda>c. c\<lparr>transactionQueue := transactionQueue c @ [args]\<rparr>))"
proof (rule keeps_local)
  show "own t c k \<Longrightarrow> own t (c\<lparr>transactionQueue := transactionQueue c @ [args]\<rparr>) k" for t c k
    by (cases t) (simp_all add: hasFlag_def)
qed (simp_all add: calm_client_def hasFlag_def)

text \<open>What \<^verbatim>\<open>executeCommand\<close> does once the command is known and the memory guard has answered.\<close>

definition afterGuard :: "platform \<Rightarrow> (handler \<Rightarrow> handler_code) \<Rightarrow> command_entry \<Rightarrow> nat \<Rightarrow> string \<Rightarrow> RespValue list \<Rightarrow> bool \<Rightarrow> unit act" where
  "afterGuard pf run e p name args ok =
     (if \<not> ok then reply p
        (reply_error (''OOM command not allowed when used memory > '' @ QUOTE @ ''maxmemory'' @ QUOTE))
      else if \<not> arityOk e (length args) then
        reply p (reply_error (''wrong number of arguments for '' @ QUOTE @ name @ QUOTE @ '' command''))
      else bnd (theClient p) (\<lambda>c.
        if queued name c then
          seq (setClient p (\<lambda>c. c\<lparr>transactionQueue := transactionQueue c @ [args]\<rparr>)) (reply p (reply_simpleString ''QUEUED''))
        else callHandler pf run e p args))"

lemma execute_body:
  assumes "asString a = Inr name" "lookupCommand name = Some e"
  shows "executeBody pf run p (Array (a # rest)) = bnd (memoryGuard pf e) (afterGuard pf run e p name (a # rest))"
proof -
  have "argStr (a # rest) 0 = ret name" using assms(1) by (simp add: argStr_def lift_def ret_def fun_eq_iff)
  then show ?thesis
    unfolding executeBody_def afterGuard_def RespValue.case by (simp only: bnd_ret assms(2) option.case list.distinct if_False)
qed

lemma execute_kept:
  assumes "run_ok pf run"
  shows "exec_ok pf (executeBody pf run)"
  unfolding exec_ok_def
proof (intro allI)
  fix p cmd
  show "kept pf (of_client p (admissible cmd)) (executeBody pf run p cmd)"
  proof (cases "\<exists>a rest name e. cmd = Array (a # rest) \<and> asString a = Inr name \<and> lookupCommand name = Some e")
    case False
    have "keeps pf (executeBody pf run p cmd)"
    proof (cases "\<exists>a rest name. cmd = Array (a # rest) \<and> asString a = Inr name")
      case True
      then obtain a rest name where a: "cmd = Array (a # rest)" "asString a = Inr name" by blast
      with False have "lookupCommand name = None" by auto
      moreover have "argStr (a # rest) 0 = ret name" by (simp add: argStr_def a lift_def ret_def fun_eq_iff)
      ultimately show ?thesis by (simp add: executeBody_def a keeps_reply)
    next
      case False
      then have "(\<forall>args. cmd \<noteq> Array args) \<or> cmd = Array [] \<or> (\<exists>a rest e. cmd = Array (a # rest) \<and> asString a = Inl e)"
        by (metis list.exhaust sum.exhaust)
      moreover have "keeps pf (executeBody pf run p cmd)" if "\<forall>args. cmd \<noteq> Array args"
        using that by (cases cmd) (simp_all add: executeBody_def keeps_reply)
      ultimately show ?thesis
        by (auto simp: executeBody_def argStr_def bnd_lift keeps_reply keeps_basic)
    qed
    then show ?thesis by (rule keeps_kept)
  next
    case True
    then obtain a rest name e where a: "cmd = Array (a # rest)" "asString a = Inr name" "lookupCommand name = Some e"
      by blast
    let ?args = "a # rest"
    have h: "commandHandler ?args = Some (entry_handler e)" by (simp add: commandHandler_def a)
    have step: "kept pf (of_client p (admissible cmd)) (bnd (theClient p) (\<lambda>c.
        if queued name c then
          seq (setClient p (\<lambda>c. c\<lparr>transactionQueue := transactionQueue c @ [?args]\<rparr>)) (reply p (reply_simpleString ''QUEUED''))
        else callHandler pf run e p ?args))" if "enough ?args"
      unfolding kept_def
    proof (intro allI impI)
      fix w assume w: "world_ok pf w" and adm: "of_client p (admissible cmd) (w_clients w)"
      show "world_ok pf (snd (bnd (theClient p) (\<lambda>c.
        if queued name c then
          seq (setClient p (\<lambda>c. c\<lparr>transactionQueue := transactionQueue c @ [?args]\<rparr>)) (reply p (reply_simpleString ''QUEUED''))
        else callHandler pf run e p ?args) w))"
      proof (cases "w_clients w p")
        case (Some c)
        with adm have c: "if queued name c then quiet ?args else fit (entry_handler e) c"
          by (simp add: of_client_def admissible_def a h split: if_splits)
        show ?thesis
        proof (cases "queued name c")
          case True
          then have "keeps pf (seq (setClient p (\<lambda>c. c\<lparr>transactionQueue := transactionQueue c @ [?args]\<rparr>))
              (reply p (reply_simpleString ''QUEUED'')))" using c that by (intro keeps keeps_queue) simp_all
          from keepsD [OF this w] True Some show ?thesis by (simp add: bnd_theClient)
        next
          case False
          have "kept pf (of_client p (fit (entry_handler e))) (callHandler pf run e p ?args)"
            using assms h that unfolding callHandler_def by (intro kept_try kept_then keeps) (simp add: run_ok_def)
          with False c Some w show ?thesis by (simp add: kept_def of_client_def bnd_theClient)
        qed
      qed (use w in \<open>simp add: runs_client\<close>)
    qed
    have body: "executeBody pf run p cmd = bnd (memoryGuard pf e) (afterGuard pf run e p name ?args)"
      unfolding a(1) by (rule execute_body [OF a(2,3)])
    show ?thesis unfolding body afterGuard_def
      by (intro kept_bnd [OF steady_admissible] gentle kept_cases step arityOk_enough [OF a(2,3)])
        (simp_all add: keeps_kept keeps_reply)
  qed
qed

lemma run_depth_ok: "run_ok pf (runDepth pf d)"
proof (induction d)
  case 0
  then show ?case by (simp add: run_ok_def kept_def act_apply)
next
  case (Suc d)
  then show ?case
    using kept_handler [OF execute_kept [OF Suc] Suc] by (simp add: run_ok_def)
qed

lemma execute_ok: "exec_ok pf (executeDepth pf d)"
  unfolding executeDepth_def by (rule execute_kept, rule run_depth_ok)

lemma executeCommand_at:
  assumes "world_ok pf w" "w_clients w p = Some c" "admissible cmd c"
  shows "world_ok pf (snd (executeCommand pf p cmd w))"
  using execute_ok [of pf 4] assms by (simp add: executeCommand_def exec_ok_def kept_def of_client_def)

end
