(* ===== verification/Config.thy ===== *)
theory Config
  imports World
begin

text \<open>
  The configuration: \<^verbatim>\<open>loadConfig\<close> of \<^verbatim>\<open>server/config.cpp\<close>, with the
  extractions from a stream it uses, and the command line of \<^verbatim>\<open>main.cpp\<close>.
\<close>

section \<open>Lines and words\<close>

text \<open>\<^verbatim>\<open>std::getline\<close> until the end of the file: no line after the last line feed.\<close>

fun getlines :: "string \<Rightarrow> string list" where
  "getlines [] = []"
| "getlines (c # s) =
     (if c = LF then [] # getlines s
      else case getlines s of [] \<Rightarrow> [[c]] | l # ls \<Rightarrow> (c # l) # ls)"

text \<open>
  \<^verbatim>\<open>iss >> word\<close> and \<^verbatim>\<open>iss >> number\<close>: the stream's rest and whether it is still
  good. At the end of the input the variable keeps its value; digits that are missing write
  zero, a number out of range the nearest \<^verbatim>\<open>int\<close>, and both fail the stream.
\<close>

record istream =
  is_rest :: string
  is_good :: bool

definition readWord :: "string \<Rightarrow> istream \<Rightarrow> string \<times> istream" where
  "readWord old st =
     (let t = dropWhile is_space (is_rest st)
      in if \<not> is_good st then (old, st)
         else if t = [] then (old, \<lparr>is_rest = [], is_good = False\<rparr>)
         else (takeWhile (\<lambda>c. \<not> is_space c) t, st\<lparr>is_rest := dropWhile (\<lambda>c. \<not> is_space c) t\<rparr>))"

definition readInt :: "int \<Rightarrow> istream \<Rightarrow> int \<times> istream" where
  "readInt old st =
     (let t = dropWhile is_space (is_rest st);
          sgn = (t \<noteq> [] \<and> (hd t = CHR ''-'' \<or> hd t = CHR ''+''));
          u = (if sgn then tl t else t);
          ds = takeWhile is_digit u; r = dropWhile is_digit u;
          v = (if sgn \<and> hd t = CHR ''-'' then - int (dec_val ds) else int (dec_val ds))
      in if \<not> is_good st then (old, st)
         else if t = [] then (old, \<lparr>is_rest = [], is_good = False\<rparr>)
         else if ds = [] then (0, \<lparr>is_rest = r, is_good = False\<rparr>)
         else if v > 2 ^ 31 - 1 then (2 ^ 31 - 1, \<lparr>is_rest = r, is_good = False\<rparr>)
         else if v < - (2 ^ 31) then (- (2 ^ 31), \<lparr>is_rest = r, is_good = False\<rparr>)
         else (v, st\<lparr>is_rest := r\<rparr>))"

section \<open>The configuration file\<close>

text \<open>The value of \<^verbatim>\<open>maxmemory\<close> with its unit; an exception keeps the old one.\<close>

definition memoryUnit :: "string \<Rightarrow> int option" where
  "memoryUnit suffix =
     (if suffix = ''mb'' then Some (1024 * 1024)
      else if suffix = ''gb'' then Some (1024 * 1024 * 1024)
      else if suffix = ''kb'' then Some 1024 else None)"

definition readMemory :: "int \<Rightarrow> string \<Rightarrow> int" where
  "readMemory old val =
     (if length val > 2 then
        (let suffix = map to_lower (drop (length val - 2) val)
         in case stoll (take (length val - 2) val) of
              Inl e \<Rightarrow> old
            | Inr num \<Rightarrow> (case memoryUnit suffix of
                  Some u \<Rightarrow> wrap64 (num * u)
                | None \<Rightarrow> (case stoll val of Inl e \<Rightarrow> old | Inr n \<Rightarrow> n)))
      else (case stoll val of Inl e \<Rightarrow> old | Inr n \<Rightarrow> n))"

definition setOption :: "string \<Rightarrow> istream \<Rightarrow> config \<Rightarrow> config" where
  "setOption key st c =
     (if key = ''port'' then c\<lparr>cfg_port := fst (readInt (cfg_port c) st)\<rparr>
      else if key = ''bind'' then c\<lparr>bindAddress := fst (readWord (bindAddress c) st)\<rparr>
      else if key = ''maxclients'' then c\<lparr>maxClients := fst (readInt (maxClients c) st)\<rparr>
      else if key = ''databases'' then c\<lparr>cfg_databases := fst (readInt (cfg_databases c) st)\<rparr>
      else if key = ''maxmemory'' then c\<lparr>maxMemory := readMemory (maxMemory c) (fst (readWord '''' st))\<rparr>
      else if key = ''maxmemory-policy'' then c\<lparr>maxMemoryPolicy := fst (readWord (maxMemoryPolicy c) st)\<rparr>
      else if key = ''appendonly'' then c\<lparr>appendOnly := (fst (readWord '''' st) = ''yes'')\<rparr>
      else if key = ''appendfsync'' then c\<lparr>appendFsync := fst (readWord (appendFsync c) st)\<rparr>
      else if key = ''dbfilename'' then c\<lparr>rdbFilename := fst (readWord (rdbFilename c) st)\<rparr>
      else if key = ''appendfilename'' then c\<lparr>aofFilename := fst (readWord (aofFilename c) st)\<rparr>
      else if key = ''timeout'' then c\<lparr>clientTimeout := fst (readInt (clientTimeout c) st)\<rparr>
      else if key = ''tcp-keepalive'' then c\<lparr>tcpKeepAlive := fst (readInt (tcpKeepAlive c) st)\<rparr>
      else if key = ''loglevel'' then c\<lparr>logLevel := fst (readWord (logLevel c) st)\<rparr>
      else if key = ''replicaof'' \<or> key = ''slaveof'' then
        (let (host, st1) = readWord (replicaOf c) st
         in c\<lparr>replicaOf := host, replicaOfPort := fst (readInt (replicaOfPort c) st1)\<rparr>)
      else c)"

definition configLine :: "config \<Rightarrow> string \<Rightarrow> config" where
  "configLine c line0 =
     (let line = (if line0 \<noteq> [] \<and> last line0 = CR then butlast line0 else line0);
          start = dropWhile (\<lambda>ch. ch = CHR '' '' \<or> ch = CHR 0x09) line
      in if line = [] \<or> hd line = CHR ''#'' \<or> start = [] then c
         else (let (key, st) = readWord '''' \<lparr>is_rest = start, is_good = True\<rparr>
               in setOption (map to_lower key) st c))"

text \<open>\<^const>\<open>None\<close> is a file that cannot be opened.\<close>

definition loadConfig :: "string option \<Rightarrow> config" where
  "loadConfig contents = (case contents of
      None \<Rightarrow> defaultConfig
    | Some s \<Rightarrow> foldl configLine defaultConfig (getlines s))"

section \<open>The command line\<close>

text \<open>
  The two loops over the arguments. \<open>Inl\<close> of a number is an exit status, an exception of
  \<^verbatim>\<open>std::stoi\<close> ends the program. \<open>arg[0]\<close> of an empty argument is its terminating
  zero.
\<close>

datatype main_result = Exit int | Abort exn | Configured config string

definition firstChar :: "string \<Rightarrow> char" where
  "firstChar s = (if s = [] then CHR 0x00 else hd s)"

datatype option_name = PortOption | BindOption | ConfigOption | MaxClientsOption | HelpOption | NoOption

definition optionName :: "string \<Rightarrow> option_name" where
  "optionName arg =
     (if arg = ''--port'' \<or> arg = ''-p'' then PortOption
      else if arg = ''--bind'' \<or> arg = ''-b'' then BindOption
      else if arg = ''--config'' \<or> arg = ''-c'' then ConfigOption
      else if arg = ''--maxclients'' then MaxClientsOption
      else if arg = ''--help'' \<or> arg = ''-h'' then HelpOption else NoOption)"

text \<open>An option without its value falls through to the test for a file name.\<close>

definition fileArg :: "string \<Rightarrow> string \<Rightarrow> string" where
  "fileArg arg configFile =
     (if firstChar arg \<noteq> CHR ''-'' \<and> configFile = [] then arg else configFile)"

fun argLoop :: "string list \<Rightarrow> config \<Rightarrow> string \<Rightarrow> main_result" where
  "argLoop [] c configFile = Configured c configFile"
| "argLoop [arg] c configFile =
     (if optionName arg = HelpOption then Exit 0 else Configured c (fileArg arg configFile))"
| "argLoop (arg # val # rest) c configFile = (case optionName arg of
      PortOption \<Rightarrow> (case stoi val of
          Inl e \<Rightarrow> Abort e | Inr n \<Rightarrow> argLoop rest (c\<lparr>cfg_port := n\<rparr>) configFile)
    | BindOption \<Rightarrow> argLoop rest (c\<lparr>bindAddress := val\<rparr>) configFile
    | ConfigOption \<Rightarrow> argLoop rest c val
    | MaxClientsOption \<Rightarrow> (case stoi val of
          Inl e \<Rightarrow> Abort e | Inr n \<Rightarrow> argLoop rest (c\<lparr>maxClients := n\<rparr>) configFile)
    | HelpOption \<Rightarrow> Exit 0
    | NoOption \<Rightarrow> argLoop (val # rest) c (fileArg arg configFile))"

text \<open>With a configuration file only the port and the address of the command line count.\<close>

fun overrideLoop :: "string list \<Rightarrow> config \<Rightarrow> main_result" where
  "overrideLoop [] c = Configured c []"
| "overrideLoop [arg] c = Configured c []"
| "overrideLoop (arg # val # rest) c = (case optionName arg of
      PortOption \<Rightarrow> (case stoi val of
          Inl e \<Rightarrow> Abort e | Inr n \<Rightarrow> overrideLoop rest (c\<lparr>cfg_port := n\<rparr>))
    | BindOption \<Rightarrow> overrideLoop rest (c\<lparr>bindAddress := val\<rparr>)
    | _ \<Rightarrow> overrideLoop (val # rest) c)"

definition mainConfig :: "(string \<Rightarrow> string option) \<Rightarrow> string list \<Rightarrow> main_result" where
  "mainConfig fs args = (case argLoop args defaultConfig '''' of
      Configured c configFile \<Rightarrow>
        (if configFile \<noteq> '''' then overrideLoop args (loadConfig (fs configFile)) else Configured c '''')
    | r \<Rightarrow> r)"

end
