(* ===== verification/Startup.thy ===== *)
theory Startup
  imports Loop Config
begin

text \<open>
  From the command line to a running server: \<^verbatim>\<open>AofPersistence::loadFromFile\<close> of
  \<^verbatim>\<open>storage/aof_persistence.cpp\<close>, \<^verbatim>\<open>Server::initialize\<close> and
  \<^verbatim>\<open>Server::run\<close> of \<^verbatim>\<open>server/server.cpp\<close>, and \<^verbatim>\<open>main\<close>.
\<close>

section \<open>Replaying the append-only file\<close>

text \<open>
  One command of the file: its handler is called directly, without the guards of
  \<^verbatim>\<open>executeCommand\<close>; what the handler throws is reported and dropped, what the
  reading of the name throws is not.
\<close>

definition replayOne :: "platform \<Rightarrow> nat \<Rightarrow> RespValue \<Rightarrow> unit act" where
  "replayOne pf p cmd = (case cmd of
      Array args \<Rightarrow>
        (if args = [] then ret ()
         else bnd (argStr args 0) (\<lambda>cmdName.
           case lookupCommand cmdName of
             None \<Rightarrow> ret ()
           | Some entry \<Rightarrow> try_catch (runDepth pf 4 (entry_handler entry) p args) (\<lambda>_. ret ())))
    | _ \<Rightarrow> ret ())"

text \<open>\<open>p\<close> is the address of the fake client, which goes away with the function.\<close>

definition aof_loadFromFile :: "platform \<Rightarrow> nat \<Rightarrow> string option \<Rightarrow> bool act" where
  "aof_loadFromFile pf p file = (case file of
      None \<Rightarrow> ret False
    | Some contents \<Rightarrow>
        seq (modify (flushAll pf))
        (if contents = '''' then ret True
         else
           bnd (lift (parse (reserve_ok pf) contents)) (\<lambda>result.
           seq (modify (\<lambda>w. w\<lparr>w_clients := (w_clients w)(p \<mapsto> newClient (-1) (nextId w) (steady_ms pf)),
                              nextId := nextId w + 1\<rparr>))
           (seq (setClient p (setFlag CLIENT_MASTER))
           (seq (forEach (commands result) (replayOne pf p))
           (seq (modify (\<lambda>w. w\<lparr>w_clients := (w_clients w)(p := None)\<rparr>))
           (ret True)))))))"

section \<open>Initialisation\<close>

text \<open>A container told to hold \<open>n\<close> elements; a negative size is a huge one.\<close>

definition reserving :: "platform \<Rightarrow> int \<Rightarrow> unit act" where
  "reserving pf n = (if n < 0 \<or> \<not> reserve_ok pf (nat n) then raise LengthError else ret ())"

definition restoreRdb :: "platform \<Rightarrow> unit act" where
  "restoreRdb pf = bnd (gets (\<lambda>w. fileContents (rdbFilename (w_config w)) w)) (\<lambda>file.
     seq (loadFromFile pf (reserve_ok pf) file) (ret ()))"

definition restoreData :: "platform \<Rightarrow> nat \<Rightarrow> bool act" where
  "restoreData pf p = bnd (gets w_config) (\<lambda>cfg.
     if appendOnly cfg then
       if \<not> write_ok pf (aofFilename cfg) then ret False
       else
         seq (modify (\<lambda>w. let (i, w') = openAppend (aofFilename cfg) w in w'\<lparr>aofStream := Some i\<rparr>))
         (bnd (gets (fileContents (aofFilename cfg))) (\<lambda>file.
         bnd (aof_loadFromFile pf p file) (\<lambda>restored.
         seq (if restored then ret () else restoreRdb pf) (ret True))))
     else seq (restoreRdb pf) (ret True))"

definition createEventLoop :: "platform \<Rightarrow> unit act" where
  "createEventLoop pf = bnd (gets (\<lambda>w. maxClients (w_config w) + 128)) (\<lambda>maxfd.
     if maxfd \<ge> 2 ^ 31 then raise Undefined
     else seq (reserving pf maxfd) (onLoop (\<lambda>_. newEventLoop)))"

definition initialize :: "platform \<Rightarrow> bool \<Rightarrow> nat \<Rightarrow> listen_env \<Rightarrow> bool act" where
  "initialize pf sockets p le =
     (if \<not> sockets then ret False
      else
        bnd (gets (\<lambda>w. cfg_databases (w_config w))) (\<lambda>n.
        seq (reserving pf n)
        (seq (modify (\<lambda>w. w\<lparr>databases := replicate (nat n) emptyDatabase\<rparr>))
        (bnd (restoreData pf p) (\<lambda>opened.
        if \<not> opened then ret False
        else
          seq (createEventLoop pf)
          (seq (modify (\<lambda>w. w\<lparr>connUp := True\<rparr>))
          (bnd (tcp_listen le) (\<lambda>listening.
          if \<not> listening then ret False
          else
            seq (onLoop (\<lambda>el. snd (addTimeEvent (steady_ms pf) 100 el)))
            (ret True)))))))))"

section \<open>The program\<close>

datatype program =
    Exited int
  | Crashed exn
  | Serving world

definition startRun :: "world \<Rightarrow> world" where
  "startRun w = w\<lparr>eventLoop := (eventLoop w)\<lparr>running := True\<rparr>\<rparr>"

text \<open>
  \<^verbatim>\<open>main\<close> up to the first round of the loop. The disk is given by the names, the
  contents and an unused inode.
\<close>

definition mainProgram ::
  "platform \<Rightarrow> bool \<Rightarrow> nat \<Rightarrow> listen_env \<Rightarrow> (string \<Rightarrow> nat option) \<Rightarrow> (nat \<Rightarrow> string) \<Rightarrow> nat \<Rightarrow> string list \<Rightarrow> program" where
  "mainProgram pf sockets p le names contents unused argv =
     (case mainConfig (\<lambda>f. map_option contents (names f)) argv of
        Exit n \<Rightarrow> Exited n
      | Abort e \<Rightarrow> Crashed e
      | Configured cfg _ \<Rightarrow>
          (case initialize pf sockets p le (newServer cfg names contents unused) of
             (Inl e, _) \<Rightarrow> Crashed e
           | (Inr ok, w) \<Rightarrow> if ok then Serving (startRun w) else Exited 1))"

end
