(* ===== verification/SafeEvents.thy ===== *)
theory SafeEvents
  imports SafeCommands Startup
begin

text \<open>
  The invariant through everything the event loop calls: accepting, reading, writing, the
  periodic task, the handshake with a master and the background threads. \<open>server_run\<close> is the
  relation of these events; \<open>server_run_safe\<close> says that it never leaves a dangling pointer.
\<close>

unbundle bit_operations_syntax

section \<open>The periodic task\<close>

lemma gentle_expireAll: "gentle pf (modify (expireAll pf))"
  by (rule gentle_modify)
    (use gently_foldDbs [of pf "\<lambda>i ks. snd (activeExpireCycle pf 20 ks)"] tame_mild [OF tame_cycle] in \<open>simp add: expireAll_def\<close>)

lemma flushAof_frame:
  "same_tables w (flushAof w)" "w_clients (flushAof w) = w_clients w" "databases (flushAof w) = databases w"
  by (simp_all add: flushAof_def same_tables_def del: set_map split: option.split)

lemma keeps_cron_fields [keeps]:
  "keeps pf (modify (\<lambda>w. w\<lparr>w_mem := m w\<rparr>))"
  "keeps pf (modify (\<lambda>w. if b w then (flushAof w)\<lparr>lastAofFsyncTime := t\<rparr> else w))"
  by (rule keeps_frame; simp add: same_tables_def)
    (rule keeps_frame; use flushAof_frame in \<open>simp add: same_tables_def\<close>)

lemma keeps_closeIdle [keeps]: "keeps pf (closeIdleClients pf' n)"
  unfolding closeIdleClients_def by (intro keeps)

lemma keeps_timedOut [keeps]: "keeps pf (timedOut pf')"
  unfolding timedOut_def by (intro keeps)

lemma keeps_endBlock [keeps]: "keeps pf (endBlock p)"
  unfolding endBlock_def by (intro keeps)

section \<open>A new connection\<close>

text \<open>A descriptor and an address that are not in use.\<close>

definition unused :: "int \<Rightarrow> nat \<Rightarrow> world \<Rightarrow> bool" where
  "unused fd p w \<longleftrightarrow> 0 \<le> fd \<and> Some fd \<noteq> listenFd w \<and> fd \<notin> set (keys_of (connections w)) \<and> w_clients w p = None"

lemma newClient_plain:
  "\<not> hasFlag f (newClient fd i now)" "client_fd (newClient fd i now) = fd" "calm_client (newClient fd i now)"
  by (simp_all add: newClient_def hasFlag_def calm_client_def)

lemma connect_ok:
  assumes w: "world_ok pf w" and new: "unused fd p w"
    and msk: "msk \<noteq> 0" "msk AND NOT (EVENT_READABLE OR EVENT_WRITABLE) = 0"
  shows "world_ok pf (connect fd p now msk cb w)" (is "world_ok pf ?w")
proof -
  let ?c = "newClient fd (nextId w) now"
  let ?v = "w\<lparr>w_clients := (w_clients w)(p \<mapsto> ?c), nextId := nextId w + 1, connections := AList.update fd p (connections w),
     totalConnectionsReceived := totalConnectionsReceived w + 1\<rparr>"
  note conn = world_okD(2) [OF w, unfolded conn_ok_def]
  have fresh: "w_clients w p = None" "fd \<notin> set (keys_of (connections w))" "0 \<le> fd" "Some fd \<noteq> listenFd w"
    using new by (simp_all add: unused_def)
  have "world_ok pf ?v"
  proof (rule world_okI)
    have pts: "points ?v t k q = points w t k q" for t k q by (cases t) simp_all
    have "has (w_clients ?v) q Q" if "has (w_clients w) q Q" for q Q using that fresh(1) by (auto simp: has_def)
    moreover have "tables_ok ?v = tables_ok w" by (simp add: tables_ok_def)
    ultimately show "links_ok (w_clients ?v) ?v"
      using world_okD(1) [OF w] unfolding links_ok_def pts by blast
    show "calm (w_clients ?v)"
      using world_okD(3) [OF w] newClient_plain(3) [of fd "nextId w" now] by (auto simp: calm_def calm_client_def)
    show "spaces_ok pf ?v"
      unfolding spaces_ok_def
    proof (intro allI impI)
      fix i assume "i < length (databases ?v)"
      then have ks: "ks_ok pf (openDb i w)" using world_okD(4) [OF w] by (simp add: spaces_ok_def)
      show "ks_ok pf (openDb i ?v)"
        by (rule ks_okI) (use ks_okD [OF ks] in \<open>force simp: openDb_sel\<close>)+
    qed
    have known: "event_known ?v e" if "event_known w e" for e
      using that by (auto simp: event_known_def keys_update simp del: set_map)
    have old: "map_of (connections w) f = Some q \<Longrightarrow> f \<noteq> fd \<and> q \<noteq> p" for f q
      using fresh(1,2) conn by (force simp: has_def dest: map_of_SomeD)
    show "conn_ok (w_clients ?v) ?v"
      unfolding conn_ok_def
    proof (intro conjI allI impI ballI)
      fix f q assume f: "map_of (connections ?v) f = Some q"
      show "0 \<le> f" "Some f \<noteq> listenFd ?v" using f conn fresh(3,4) by (auto split: if_splits)
      show "has (w_clients ?v) q (\<lambda>c. client_fd c = f)"
      proof (cases "f = fd")
        case True
        with f show ?thesis by (simp add: newClient_plain)
      next
        case False
        with f have "map_of (connections w) f = Some q" by simp
        with conn old show ?thesis by (auto simp: has_def)
      qed
    next
      fix q d assume d: "w_clients ?v q = Some d"
      show "map_of (connections ?v) (client_fd d) = Some q"
      proof (cases "q = p")
        case True
        with d show ?thesis by (auto simp: newClient_plain)
      next
        case False
        with d conn have "map_of (connections w) (client_fd d) = Some q" by simp
        with old show ?thesis by simp
      qed
    next
      fix e assume "e \<in> set (fileEvents (eventLoop ?v))"
      then show "event_known ?v e" using conn known by simp
    qed (use conn in \<open>simp_all add: distinct_keys_update\<close>)
  qed
  then have "world_ok pf (?v\<lparr>eventLoop := addFileEvent fd msk cb (eventLoop ?v)\<rparr>)"
    by (rule world_ok_event) (use fresh(3) msk in \<open>auto simp: keys_update simp del: set_map\<close>)
  then show ?thesis by (simp add: connect_def)
qed

lemma addClient_ok: "world_ok pf w \<Longrightarrow> unused fd p w \<Longrightarrow> world_ok pf (snd (addClient fd p now nonblocking w))"
  using connect_ok [of pf w fd p EVENT_READABLE] event_masks_ok(3,4) by (simp add: addClient_def)

section \<open>What the periodic task does before it connects\<close>

text \<open>Connections and clients may go, but none appears.\<close>

definition shrunk :: "world \<Rightarrow> world \<Rightarrow> bool" where
  "shrunk w w' \<longleftrightarrow> set (connections w') \<subseteq> set (connections w) \<and> dom (w_clients w') \<subseteq> dom (w_clients w) \<and>
     listenFd w' = listenFd w"

definition shrinks :: "'a act \<Rightarrow> bool" where
  "shrinks m \<longleftrightarrow> (\<forall>w. shrunk w (snd (m w)))"

named_theorems shrinks

lemma shrunk_unused: "unused fd p w \<Longrightarrow> shrunk w w' \<Longrightarrow> unused fd p w'"
  by (force simp: unused_def shrunk_def)

lemma shrunk_refl [simp]: "shrunk w w"
  by (simp add: shrunk_def)

lemma shrunk_trans: "shrunk w w' \<Longrightarrow> shrunk w' w'' \<Longrightarrow> shrunk w w''"
  unfolding shrunk_def by (metis subset_trans)

lemma shrinksD: "shrinks m \<Longrightarrow> m w = (r, w') \<Longrightarrow> shrunk w w'"
  unfolding shrinks_def by (metis snd_conv)

lemma shrinks_basic [shrinks]:
  "shrinks (ret x)" "shrinks (raise e)" "shrinks (gets f)" "shrinks (lift r)" "shrinks (defined q)"
  by (simp_all add: shrinks_def act_apply defined_def split: option.split)

lemma shrinks_bnd [shrinks]: "shrinks m \<Longrightarrow> (\<And>x. shrinks (f x)) \<Longrightarrow> shrinks (bnd m f)"
  unfolding shrinks_def [of "bnd m f"] by (auto simp: bnd_def shrinks_def [of "f x" for x] split: prod.split sum.split dest: shrinksD intro: shrunk_trans)

lemma shrinks_if [shrinks]: "shrinks a \<Longrightarrow> shrinks b \<Longrightarrow> shrinks (if c then a else b)"
  by simp

lemma shrinks_option [shrinks]: "shrinks n \<Longrightarrow> (\<And>x. shrinks (s x)) \<Longrightarrow> shrinks (case r of None \<Rightarrow> n | Some x \<Rightarrow> s x)"
  by (simp split: option.split)

lemma shrinks_forEach [shrinks]: "(\<And>x. shrinks (f x)) \<Longrightarrow> shrinks (forEach xs f)"
  by (induction xs) (simp_all add: shrinks_basic shrinks_bnd)

lemma shrinks_mapEach [shrinks]: "(\<And>x. shrinks (f x)) \<Longrightarrow> shrinks (mapEach xs f)"
  by (induction xs) (simp_all add: shrinks_basic shrinks_bnd)

lemma shrinks_modify: "(\<And>w. shrunk w (f w)) \<Longrightarrow> shrinks (modify f)"
  by (simp add: shrinks_def act_apply)

lemma shrinks_client [shrinks]: "shrinks (theClient p)" "shrinks (setClient p f)" "shrinks (reply p s)"
proof -
  show "shrinks (theClient p)" unfolding theClient_def by (intro shrinks)
  show set: "shrinks (setClient p f)" for f
    by (auto simp: shrinks_def runs_client shrunk_def split: option.split)
  show "shrinks (reply p s)" unfolding reply_def by (rule set)
qed

lemma shrinks_loop [shrinks]: "shrinks (onLoop f)"
  unfolding onLoop_def by (rule shrinks_modify) (simp add: shrunk_def)

lemma shrinks_unblock [shrinks]: "shrinks (unblockClient p)"
proof -
  have "shrinks (modify (\<lambda>w. w\<lparr>blockedClients := f w\<rparr>))" for f by (rule shrinks_modify) (simp add: shrunk_def)
  then show ?thesis unfolding unblockClient_def by (intro shrinks)
qed

lemma shrinks_watcher: "shrinks (modify (removeWatcher key p))"
proof (rule shrinks_modify)
  fix w
  show "shrunk w (removeWatcher key p w)"
    using removeWatcher_databases(2) [of w key p] by (simp add: shrunk_def same_conn_def)
qed

lemma shrinks_close [shrinks]: "shrinks (closeClient p)"
proof -
  have "shrinks (modify (\<lambda>w. w\<lparr>pubsubChannels := f w\<rparr>))" "shrinks (modify (\<lambda>w. w\<lparr>pubsubPatterns := g w\<rparr>))"
    "shrinks (modify (removeReplica p))"
    "shrinks (modify (\<lambda>w. if masterClient w = Some p then w\<lparr>masterClient := None, replState := ReplConnect\<rparr> else w))"
    for f g by (rule shrinks_modify; simp add: shrunk_def removeReplica_def)+
  with shrinks_watcher show ?thesis unfolding closeClient_def by (intro shrinks)
qed

lemma shrinks_removeClient [shrinks]: "shrinks (removeClient fd)"
proof -
  have "shrinks (modify (\<lambda>w. w\<lparr>connections := AList.delete fd (connections w), w_clients := (w_clients w)(p := None)\<rparr>))" for p
    by (rule shrinks_modify) (auto simp: shrunk_def AList.delete_eq)
  then show ?thesis unfolding removeClient_def by (intro shrinks)
qed

lemma shrinks_prefix [shrinks]:
  "shrinks (closeIdleClients pf n)" "shrinks (timedOut pf)" "shrinks (endBlock p)"
  unfolding closeIdleClients_def timedOut_def endBlock_def by (intro shrinks)+

lemma shrinks_expireAll: "shrinks (modify (expireAll pf))"
proof (rule shrinks_modify)
  fix w
  have one: "shrunk w (closeDb i (snd (activeExpireCycle pf 20 (openDb i w))) w)" for i w
  proof -
    have "settled (openDb i w) (snd (activeExpireCycle pf 20 (openDb i w)))"
      by (auto simp: activeExpireCycle_def intro: settled_expireLoop)
    then have "dom (clients (snd (activeExpireCycle pf 20 (openDb i w)))) = dom (w_clients w)"
      by (intro marked_dom) (simp add: settled_def openDb_sel)
    then show ?thesis by (simp add: shrunk_def closeDb_def)
  qed
  have "shrunk w (foldl (\<lambda>w i. closeDb i (snd (activeExpireCycle pf 20 (openDb i w))) w) w is)" for "is"
  proof (induction "is" arbitrary: w)
    case (Cons i "is")
    show ?case using shrunk_trans [OF one Cons] by simp
  qed simp
  then show "shrunk w (expireAll pf w)" by (simp add: expireAll_def)
qed

section \<open>The master's connection\<close>

definition link_ok :: "(int \<times> nat) option \<Rightarrow> world \<Rightarrow> bool" where
  "link_ok link w \<longleftrightarrow> (\<forall>fd p. link = Some (fd, p) \<longrightarrow> unused fd p w)"

lemma keeps_master:
  assumes w: "world_ok pf w" and c: "w_clients w p = Some c"
  shows "world_ok pf (w\<lparr>masterClient := Some p\<rparr>)"
proof (rule world_ok_points [OF w c])
  show "points (w\<lparr>masterClient := Some p\<rparr>) t k q \<Longrightarrow> points w t k q \<or> (q = p \<and> own t c k)" for t k q
    by (cases t) simp_all
qed (simp_all add: tables_ok_def same_conn_def)

lemma replicationCron_ok:
  assumes w: "world_ok pf w" and link: "link_ok link w"
  shows "world_ok pf (snd (replicationCron pf' link w))"
proof (cases "masterHost w = '''' \<or> replState w \<noteq> ReplConnect \<or> link = None")
  case True
  with w show ?thesis by (auto simp: replicationCron_def bnd_gets act_apply)
next
  case False
  then obtain fd p where l: "link = Some (fd, p)" by (cases link) auto
  let ?w = "createOutboundClient fd p (steady_ms pf') w"
  let ?rest = "seq (setClient p (setFlag CLIENT_MASTER))
     (seq (modify (\<lambda>w. w\<lparr>replState := ReplReceivePong\<rparr>)) (reply p (reply_bulkStringArray [''PING''])))"
  have "world_ok pf ?w"
    unfolding createOutboundClient_def
    by (rule connect_ok [OF w _ event_masks_ok(5,6)]) (use link l in \<open>auto simp: link_ok_def\<close>)
  moreover have "w_clients ?w p = Some (newClient fd (nextId w) (steady_ms pf'))"
    by (simp add: createOutboundClient_def connect_def)
  ultimately have "world_ok pf (?w\<lparr>masterClient := Some p\<rparr>)" by (rule keeps_master)
  moreover have "keeps pf ?rest" by (intro keeps)
  ultimately have "world_ok pf (snd (?rest (?w\<lparr>masterClient := Some p\<rparr>)))" by (rule keepsD [rotated])
  with False l show ?thesis by (simp add: replicationCron_def bnd_gets bnd_modify)
qed

text \<open>The periodic task without its last part.\<close>

definition cron_start :: "platform \<Rightarrow> unit act" where
  "cron_start pf =
     seq (modify (\<lambda>w. w\<lparr>w_mem := setLruClock (word_of_int (steady_ms pf div 1000)) (w_mem w)\<rparr>))
     (seq (modify (expireAll pf))
     (seq (bnd (gets (\<lambda>w. clientTimeout (w_config w))) (closeIdleClients pf))
     (seq (modify (\<lambda>w.
            if appendOnly (w_config w) \<and> appendFsync (w_config w) = ''everysec'' \<and>
               steady_ms pf div 1000 > lastAofFsyncTime w
            then (flushAof w)\<lparr>lastAofFsyncTime := steady_ms pf div 1000\<rparr> else w))
     (bnd (timedOut pf) (\<lambda>ps. forEach ps endBlock)))))"

lemma serverCron_start: "serverCron pf link = seq (cron_start pf) (seq (replicationCron pf link) (ret 100))"
  by (simp add: serverCron_def cron_start_def bnd_assoc)

lemma keeps_cron_start: "keeps pf (cron_start pf)"
  unfolding cron_start_def by (intro keeps gentle_keeps [OF gentle_expireAll])

lemma shrinks_cron_start: "shrinks (cron_start pf)"
proof -
  have "shrinks (modify (\<lambda>w. w\<lparr>w_mem := f w\<rparr>))"
    "shrinks (modify (\<lambda>w. if b w then (flushAof w)\<lparr>lastAofFsyncTime := t\<rparr> else w))" for f b t
    by (rule shrinks_modify; simp add: shrunk_def flushAof_def split: option.split)+
  then show ?thesis unfolding cron_start_def by (intro shrinks shrinks_expireAll)
qed

lemma serverCron_ok:
  assumes w: "world_ok pf w" and link: "link_ok link w"
  shows "world_ok pf (snd (serverCron pf link w))"
proof -
  obtain r w' where pre: "cron_start pf w = (r, w')" by fastforce
  have w': "world_ok pf w'" using keepsD [OF keeps_cron_start w] pre by simp
  have "link_ok link w'"
    using link shrunk_unused [OF _ shrinksD [OF shrinks_cron_start pre]] by (simp add: link_ok_def)
  from replicationCron_ok [OF w' this, of pf] w' pre show ?thesis
    by (cases "replicationCron pf link w'") (auto simp: serverCron_start bnd_def ret_def split: sum.splits)
qed

section \<open>Writing to a connection\<close>

lemma world_ok_client:
  assumes w: "world_ok pf w" and c: "w_clients w p = Some c" "akin c c'"
  shows "world_ok pf (w\<lparr>w_clients := (w_clients w)(p \<mapsto> c')\<rparr>)"
proof -
  have al: "alike (w_clients w) (w_clients (w\<lparr>w_clients := (w_clients w)(p \<mapsto> c')\<rparr>))"
    using alike_update [of "w_clients w", OF c] by simp
  show ?thesis
    by (rule world_ok_frame [OF w _ al spaces_ok_frame [OF world_okD(4) [OF w] _ alike_dom [OF al]]])
      (simp_all add: same_tables_def)
qed

lemma removeFileEvent_events:
  "e \<in> set (fileEvents (removeFileEvent fd msk el)) \<Longrightarrow> e \<in> set (fileEvents el) \<or>
     (\<exists>fe. (fd, fe) \<in> set (fileEvents el) \<and> e = (fd, withoutCallback msk fe))"
  using set_update [of fd "withoutCallback msk (the (map_of (fileEvents el) fd))" "fileEvents el"]
  by (auto simp: removeFileEvent_def Let_def AList.delete_eq split: option.splits if_splits dest: map_of_SomeD)

lemma keeps_removeEvent [keeps]: "keeps pf (onLoop (removeFileEvent fd msk))"
proof (rule keepsI)
  fix w assume w: "world_ok pf w"
  let ?w = "w\<lparr>eventLoop := removeFileEvent fd msk (eventLoop w)\<rparr>"
  note conn = world_okD(2) [OF w, unfolded conn_ok_def]
  have and0: "(m AND NOT a) AND b = 0" if "m AND b = 0" for m a b :: "32 word"
  proof -
    have "(m AND NOT a) AND b = (m AND b) AND NOT a" by (simp add: ac_simps)
    with that show ?thesis by simp
  qed
  have mask: "ev_mask (withoutCallback msk fe) = ev_mask fe AND NOT msk" for fe
    by (simp add: withoutCallback_def Let_def)
  have "event_known ?w e" if "e \<in> set (fileEvents (eventLoop ?w))" for e
  proof -
    from that have "e \<in> set (fileEvents (eventLoop w)) \<or>
        (\<exists>fe. (fd, fe) \<in> set (fileEvents (eventLoop w)) \<and> e = (fd, withoutCallback msk fe))"
      using removeFileEvent_events [of e fd msk "eventLoop w"] by simp
    then obtain f fe where fe: "(f, fe) \<in> set (fileEvents (eventLoop w))"
      "e = (f, fe) \<or> e = (f, withoutCallback msk fe)" by (cases e) blast
    then have "event_known w (f, fe)" using conn by blast
    then have m: "ev_mask fe AND NOT (EVENT_READABLE OR EVENT_WRITABLE) = 0" and
      f: "Some f = listenFd w \<or> f \<in> set (keys_of (connections w))" by (simp_all add: event_known_def del: set_map)
    have "ev_mask (snd e) AND NOT (EVENT_READABLE OR EVENT_WRITABLE) = 0"
      using fe(2) and0 [OF m] m mask by (metis snd_conv)
    moreover have "fst e = f" using fe(2) by auto
    ultimately show ?thesis using f unfolding event_known_def by simp
  qed
  then have "conn_ok (w_clients ?w) ?w" using conn by (simp add: conn_ok_def removeFileEvent_ok)
  moreover have "points ?w t k q = points w t k q" for t k q by (cases t) simp_all
  then have "links_ok (w_clients ?w) ?w" using world_okD(1) [OF w] by (simp add: links_ok_def tables_ok_def)
  moreover have "spaces_ok pf ?w" by (rule spaces_ok_other [OF world_okD(4) [OF w]]) simp_all
  ultimately show "world_ok pf (snd (onLoop (removeFileEvent fd msk) w))"
    using world_okD(3) [OF w] by (simp add: onLoop_def act_apply world_ok_def)
qed

lemma akin_write: "writeToSocket r c = (n, s, c') \<Longrightarrow> akin c c'"
  by (auto simp: writeToSocket_def akin_def hasFlag_def Let_def split: socket_write.splits if_splits)

lemma akin_read: "readFromSocket r now c = (n, c') \<Longrightarrow> akin c c'"
  by (auto simp: readFromSocket_def akin_def hasFlag_def Let_def split: socket_read.splits if_splits)

lemma onWritable_ok:
  assumes w: "world_ok pf w"
  shows "world_ok pf (snd (onWritable fd r w))"
proof (cases "map_of (connections w) fd")
  case (Some p)
  then obtain c where c: "w_clients w p = Some c"
    using world_okD(2) [OF w] unfolding conn_ok_def has_def by blast
  obtain n s c' where wr: "writeToSocket r c = (n, s, c')" using prod_cases3 by blast
  have "world_ok pf (w\<lparr>w_clients := (w_clients w)(p \<mapsto> c')\<rparr>)" by (rule world_ok_client [OF w c akin_write [OF wr]])
  moreover have "keeps pf (if n = 0 \<and> hasPendingOutput c' then removeClient fd
          else if \<not> hasPendingOutput c' then
            seq (onLoop (removeFileEvent fd EVENT_WRITABLE))
            (if hasFlag CLIENT_CLOSE_ASAP c' then removeClient fd else ret ())
          else ret ())" by (intro keeps)
  ultimately show ?thesis
    by (simp add: onWritable_def bnd_gets Some bnd_theClient [OF c] wr Let_def bnd_setClient [where c = c, OF c] keeps_def)
qed (use w in \<open>simp add: onWritable_def bnd_gets act_apply\<close>)

section \<open>Loading a snapshot\<close>

text \<open>What a reader returns, on whatever bytes, is well formed.\<close>

definition yields :: "('a \<Rightarrow> bool) \<Rightarrow> 'a reader \<Rightarrow> bool" where
  "yields Q r \<longleftrightarrow> (\<forall>st x st'. r st = Inr (x, st') \<longrightarrow> Q x)"

lemma yields_ret: "Q x \<Longrightarrow> yields Q (rd_ret x)"
  by (simp add: yields_def rd_ret_def)

lemma yields_bnd: "yields P r \<Longrightarrow> (\<And>x. P x \<Longrightarrow> yields Q (f x)) \<Longrightarrow> yields Q (rd_bnd r f)"
  unfolding yields_def [of Q "rd_bnd r f"] by (fastforce simp: rd_bnd_def yields_def split: sum.splits)

lemma yields_any: "yields (\<lambda>_. True) r"
  by (simp add: yields_def)

lemma yields_into:
  assumes "\<And>x acc acc'. Q acc \<Longrightarrow> add x acc = Some acc' \<Longrightarrow> Q acc'"
  shows "Q acc \<Longrightarrow> yields Q (readInto n item add acc)"
proof (induction n arbitrary: acc)
  case (Suc n)
  show ?case unfolding readInto.simps
    by (rule yields_bnd [OF yields_any])
      (use assms [OF Suc.prems] Suc.IH in \<open>auto simp: yields_def [of Q "\<lambda>st. Inl Undefined"] split: option.split\<close>)
qed (simp add: yields_ret)

lemma yields_if: "yields Q a \<Longrightarrow> yields Q b \<Longrightarrow> yields Q (if c then a else b)"
  by simp

lemma yields_position: "(\<And>n. yields Q (r n)) \<Longrightarrow> yields Q (atPosition r)"
  by (simp add: yields_def atPosition_def)

lemma yields_value: "yields (\<lambda>v. \<forall>x. v = Some x \<longrightarrow> contents_ok (hasher pf) x) (readValue pf can_reserve opcode)"
proof -
  have list: "yields (\<lambda>l. \<exists>xs. ll_is l xs) (readInto n item ll_pushBack newList)" for n and item :: "string reader"
    by (rule yields_into) (use ll_pushBack_is newList_is in \<open>auto intro: exI [of _ "[]"], metis option.inject\<close>)
  have hash: "yields (ht_inv (hasher pf)) (readInto n item (\<lambda>(f, v) h. Some (snd (ht_set (hasher pf) f v h))) newTable)"
    for n and item :: "(string \<times> string) reader"
    by (rule yields_into) (auto intro: ht.put_inv)
  have set: "yields (ht_inv (hasher pf)) (readInto n item (\<lambda>m s. Some (snd (hs_add (hasher pf) m s))) newSet)"
    for n and item :: "string reader"
    by (rule yields_into) (auto intro: hs.add_inv simp: newSet_def)
  have zset: "yields (\<lambda>z. ss_ok (hasher pf) z) (readInto n item
      (\<lambda>(m, s) z. map_option snd (ss_add (hasher pf) m s z)) (newSortedSet rng))" for n rng and item :: "(string \<times> double) reader"
  proof (rule yields_into)
    fix x acc acc' assume a: "ss_ok (hasher pf) acc"
      "(case x of (m, s) \<Rightarrow> \<lambda>z. map_option snd (ss_add (hasher pf) m s z)) acc = Some acc'"
    then obtain m s r where "ss_add (hasher pf) m s acc = Some (r, acc')" by (cases x) auto
    then have "inZset (ss_add (hasher pf) m s) (SortedSetObject acc) = Some (r, SortedSetObject acc')"
      by (simp add: inZset_def)
    with a(1) sound_zset(1) [of pf m s] show "ss_ok (hasher pf) acc'"
      unfolding sound_def by (metis contents_ok_simps(5))
  qed simp
  let ?Q = "\<lambda>v. \<forall>x. v = Some x \<longrightarrow> contents_ok (hasher pf) x"
  have "yields ?Q (rd_bnd r (\<lambda>s. rd_ret (Some (StringObject s))))" for r
    by (rule yields_bnd [OF yields_any]) (simp add: yields_ret)
  moreover have "yields ?Q (rd_bnd r (\<lambda>len. rd_bnd (readInto len (item :: string reader) ll_pushBack newList)
      (\<lambda>l. rd_ret (Some (ListObject l)))))" for r item
    by (intro yields_bnd [OF yields_any] yields_bnd [OF list] yields_ret) simp
  moreover have "yields ?Q (rd_bnd r (\<lambda>len. rd_bnd (readInto len item
      (\<lambda>(f, v) h. Some (snd (ht_set (hasher pf) f v h))) newTable) (\<lambda>h. rd_ret (Some (HashObject h)))))" for r item
    by (intro yields_bnd [OF yields_any] yields_bnd [OF hash] yields_ret) simp
  moreover have "yields ?Q (rd_bnd r (\<lambda>len. rd_bnd (readInto len item
      (\<lambda>m s. Some (snd (hs_add (hasher pf) m s))) newSet) (\<lambda>s. rd_ret (Some (SetObject s)))))" for r item
    by (intro yields_bnd [OF yields_any] yields_bnd [OF set] yields_ret) simp
  moreover have "yields ?Q (rd_bnd r (\<lambda>len. rd_bnd (atPosition (\<lambda>n. readInto len item
      (\<lambda>(m, s) z. map_option snd (ss_add (hasher pf) m s z)) (newSortedSet (rng_seed pf n))))
      (\<lambda>z. rd_ret (Some (SortedSetObject z)))))" for r item
    by (intro yields_bnd [OF yields_any] yields_bnd [OF yields_position [OF zset]] yields_ret) simp
  ultimately show ?thesis
    unfolding readValue_def by (intro yields_if yields_ret) simp_all
qed

lemma wrap32_le: "0 \<le> x \<Longrightarrow> wrap32 x \<le> x"
  using zmod_le_nonneg_dividend [of "x + 2 ^ 31" "2 ^ 32"] by (simp add: wrap_s_def)

text \<open>Loading, like saving, only calls methods of the databases.\<close>

definition loads :: "platform \<Rightarrow> (world \<Rightarrow> 'a \<times> world) \<Rightarrow> bool" where
  "loads pf m \<longleftrightarrow> (\<forall>w. gently pf w (snd (m w)))"

lemma mild_storeKey:
  assumes "i < length (databases w)" "\<forall>x. v = Some x \<longrightarrow> contents_ok (hasher pf) x"
  shows "gently pf w (storeKey pf i key v ld w)"
proof -
  define ks1 where "ks1 = (case v of None \<Rightarrow> openDb i w | Some v \<Rightarrow> db_setObject pf key (newObject v) (openDb i w))"
  have "mild pf (openDb i w) ks1"
  proof (cases v)
    case (Some x)
    then have "tame pf (db_setObject pf key (newObject x))"
      using assms(2) by (intro tame_setObject) (simp add: newObject_def)
    with Some tame_mild show ?thesis by (simp add: ks1_def)
  qed (simp add: ks1_def)
  moreover have "mild pf ks1 (if hasExpire ld then snd (db_setExpiryAt key (wrap64 (int (expireMs ld))) ks1) else ks1)"
    using tame_mild [OF tame_setExpiryAt] by simp
  ultimately show ?thesis
    unfolding storeKey_def Let_def ks1_def [symmetric] by (rule gently_closeDb [OF assms(1) mild_trans])
qed

lemma loadKey_gently: "gently pf w (snd (loadKey pf can_reserve opcode ld st w))"
proof (cases "readString can_reserve st")
  case (Inr kst)
  obtain key st1 where kst: "kst = (key, st1)" by (cases kst)
  show ?thesis
  proof (cases "readValue pf can_reserve opcode st1")
    case (Inr vst)
    obtain v st2 where vst: "vst = (v, st2)" by (cases vst)
    have v: "\<forall>x. v = Some x \<longrightarrow> contents_ok (hasher pf) x"
      using yields_value [of pf can_reserve opcode] Inr vst unfolding yields_def by blast
    have "gently pf w (storeKey pf (nat (currentDb ld)) key v ld w)"
      if "\<not> currentDb ld \<ge> wrap32 (int (length (databases w)))" "\<not> currentDb ld < 0"
    proof (rule mild_storeKey [OF _ v])
      show "nat (currentDb ld) < length (databases w)"
        using that wrap32_le [of "int (length (databases w))"] by simp
    qed
    with \<open>readString can_reserve st = Inr kst\<close> kst Inr vst show ?thesis by (simp add: loadKey_def)
  qed (use Inr kst in \<open>simp add: loadKey_def\<close>)
qed (simp add: loadKey_def)

lemma loadStep_gently: "gently pf w (snd (loadStep pf can_reserve ld st w))"
  using loadKey_gently by (auto simp: loadStep_def withLoad_def split: sum.split prod.split)

lemma loadLoop_gently: "gently pf w (snd (loadLoop pf can_reserve ld st w))"
proof (induction pf can_reserve ld st w rule: loadLoop.induct)
  case (1 pf can_reserve ld st w)
  obtain r w' where step: "loadStep pf can_reserve ld st w = (r, w')" by fastforce
  have w': "gently pf w w'" using loadStep_gently [of pf w can_reserve ld st] step by simp
  show ?case
  proof (cases "\<not> in_good st \<or> in_rest st = []")
    case False
    show ?thesis
    proof (cases "\<exists>ld' st'. r = Inr (Some ld', st')")
      case True
      then obtain ld' st' where r: "r = Inr (Some ld', st')" by blast
      with False step have eq: "loadLoop pf can_reserve ld st w = loadLoop pf can_reserve ld' st' w'"
        by (subst loadLoop.simps) simp
      have "gently pf w' (snd (loadLoop pf can_reserve ld' st' w'))"
        using 1 [OF False, of r w' "(Some ld', st')" "Some ld'" st' ld'] step r by simp
      with eq gently_trans [OF w'] show ?thesis by simp
    next
      case no: False
      then have "snd (loadLoop pf can_reserve ld st w) = w'"
        using False step by (subst loadLoop.simps) (auto split: sum.split option.split)
      with w' show ?thesis by simp
    qed
  qed (subst loadLoop.simps, simp)
qed

lemma load_gently: "gently pf w (snd (loadFromFile pf can_reserve contents w))"
proof -
  have "gently pf w (flushAll pf w)"
    unfolding flushAll_def by (rule gently_foldDbs) (simp_all add: tame_mild [OF tame_flush])
  from gently_trans [OF this loadLoop_gently] show ?thesis
    by (auto simp: loadFromFile_def Let_def split: option.split sum.split prod.split) (metis snd_conv)+
qed

lemma gentle_load [gentle]: "gentle pf (loadFromFile pf can_reserve contents)"
  by (rule gentleI, rule load_gently)

lemma keeps_load [keeps]: "keeps pf (loadFromFile pf can_reserve contents)"
  by (rule gentle_keeps, rule gentle_load)

lemma keeps_sync [keeps]: "keeps pf (syncWithMaster pf p answer)"
proof -
  have answer: "keeps pf (case answer of Error e \<Rightarrow> f e | _ \<Rightarrow> g)" if "\<And>e. keeps pf (f e)" "keeps pf g" for f :: "string \<Rightarrow> unit act" and g
    using that by (simp split: RespValue.split)
  have st: "keeps pf (case st of ReplReceivePong \<Rightarrow> a | ReplSendPsync \<Rightarrow> b | ReplReceivePsync \<Rightarrow> c | ReplReceiveRdb \<Rightarrow> d | _ \<Rightarrow> ret ())"
    if "keeps pf a" "keeps pf b" "keeps pf c" "keeps pf d" for st and a b c d :: "unit act"
    using that by (simp add: keeps_basic split: repl_state.split)
  show ?thesis unfolding syncWithMaster_def by (intro keeps st answer)
qed

section \<open>Reading from a connection\<close>

text \<open>
  What a client must not send for the server to stay safe: a command inside \<^verbatim>\<open>MULTI\<close>
  that is not quiet, and a \<^verbatim>\<open>PSYNC\<close> when it is a replica already. The condition
  follows the commands through the states they lead to.
\<close>

primrec polite :: "platform \<Rightarrow> nat \<Rightarrow> RespValue list \<Rightarrow> world \<Rightarrow> bool" where
  "polite pf p [] w = True"
| "polite pf p (cmd # rest) w = (case w_clients w p of
      None \<Rightarrow> True
    | Some c \<Rightarrow>
        if hasFlag CLIENT_BLOCKED c then True
        else if hasFlag CLIENT_MASTER c \<and> replState w \<noteq> ReplConnected
        then polite pf p rest (snd (syncWithMaster pf p cmd w))
        else admissible cmd c \<and> polite pf p rest (snd (executeCommand pf p cmd w)))"

definition consumed :: "ParseResult \<Rightarrow> client \<Rightarrow> client" where
  "consumed r c = (if bytesConsumed r > 0 then consumeInput (bytesConsumed r) c else c)"

definition polite_read :: "platform \<Rightarrow> int \<Rightarrow> socket_read \<Rightarrow> world \<Rightarrow> bool" where
  "polite_read pf fd r w = (case map_of (connections w) fd of
      None \<Rightarrow> True
    | Some p \<Rightarrow> (case w_clients w p of
        None \<Rightarrow> True
      | Some c \<Rightarrow>
          (let c' = snd (readFromSocket r (steady_ms pf) c)
           in case parse (reserve_ok pf) (inputBuffer c') of
             Inl _ \<Rightarrow> True
           | Inr res \<Rightarrow> polite pf p (commands res) (w\<lparr>w_clients := (w_clients w)(p \<mapsto> consumed res c')\<rparr>))))"

lemma inputLoop_ok: "world_ok pf w \<Longrightarrow> polite pf p cmds w \<Longrightarrow> world_ok pf (snd (inputLoop pf p cmds w))"
proof (induction cmds arbitrary: w)
  case (Cons cmd rest)
  show ?case
  proof (cases "w_clients w p")
    case None
    with Cons.prems show ?thesis by (simp add: runs_client)
  next
    case (Some c)
    show ?thesis
    proof (cases "hasFlag CLIENT_BLOCKED c")
      case True
      with Some Cons.prems show ?thesis by (simp add: bnd_theClient act_apply)
    next
      case False
      define m where "m = (if hasFlag CLIENT_MASTER c \<and> replState w \<noteq> ReplConnected then syncWithMaster pf p cmd
        else executeCommand pf p cmd)"
      obtain r w' where run: "m w = (r, w')" by fastforce
      have pol: "polite pf p rest (snd (m w))" using Cons.prems(2) Some False by (simp add: m_def split: if_splits)
      have "world_ok pf (snd (m w))"
      proof (cases "hasFlag CLIENT_MASTER c \<and> replState w \<noteq> ReplConnected")
        case True
        with Cons.prems(1) show ?thesis by (simp add: m_def keepsD [OF keeps_sync])
      next
        case no: False
        then have "admissible cmd c" using Cons.prems(2) Some False by simp
        then show ?thesis unfolding m_def if_not_P [OF no] by (rule executeCommand_at [OF Cons.prems(1) Some])
      qed
      then have w': "world_ok pf w'" "polite pf p rest w'" using pol run by simp_all
      have "world_ok pf (snd (bnd (theClient p) (\<lambda>c. if hasFlag CLIENT_CLOSE_ASAP c then ret () else inputLoop pf p rest) w'))"
        using w' Cons.IH [OF w'] by (simp add: runs_client act_apply split: option.split)
      moreover have "inputLoop pf p (cmd # rest) w =
          seq m (bnd (theClient p) (\<lambda>c. if hasFlag CLIENT_CLOSE_ASAP c then ret () else inputLoop pf p rest)) w"
        using Some False by (simp add: bnd_theClient bnd_gets m_def)
      ultimately show ?thesis using run w'(1) by (cases r) (simp_all add: bnd_def [of m])
    qed
  qed
qed (simp add: act_apply)

lemma akin_consumed: "akin c (consumed r c)"
  by (simp add: consumed_def akin_fields)

lemma processClientInput_ok:
  assumes w: "world_ok pf w" and c: "w_clients w p = Some c"
    and pol: "\<And>res. parse (reserve_ok pf) (inputBuffer c) = Inr res \<Longrightarrow>
      polite pf p (commands res) (w\<lparr>w_clients := (w_clients w)(p \<mapsto> consumed res c)\<rparr>)"
  shows "world_ok pf (snd (processClientInput pf p w))"
proof (cases "parse (reserve_ok pf) (inputBuffer c)")
  case (Inl e)
  with w c show ?thesis by (simp add: processClientInput_def bnd_theClient bnd_lift act_apply)
next
  case (Inr res)
  let ?w = "w\<lparr>w_clients := (w_clients w)(p \<mapsto> consumed res c)\<rparr>"
  have same: "w\<lparr>w_clients := (w_clients w)(p \<mapsto> c)\<rparr> = w" using c by (simp add: fun_upd_idem)
  have "processClientInput pf p w = inputLoop pf p (commands res) ?w"
    using Inr c same by (simp add: processClientInput_def bnd_theClient bnd_lift bnd_setClient consumed_def)
  moreover have "world_ok pf ?w" by (rule world_ok_client [OF w c akin_consumed])
  ultimately show ?thesis using inputLoop_ok [OF _ pol [OF Inr]] by simp
qed

lemma onReadable_ok:
  assumes w: "world_ok pf w" and pol: "polite_read pf fd r w"
  shows "world_ok pf (snd (onReadable pf fd r w))"
proof (cases "map_of (connections w) fd")
  case (Some p)
  then obtain c where c: "w_clients w p = Some c"
    using world_okD(2) [OF w] unfolding conn_ok_def has_def by blast
  obtain n c' where rd: "readFromSocket r (steady_ms pf) c = (n, c')" by fastforce
  let ?w = "w\<lparr>w_clients := (w_clients w)(p \<mapsto> c')\<rparr>"
  have w': "world_ok pf ?w" by (rule world_ok_client [OF w c akin_read [OF rd]])
  have input: "world_ok pf (snd (processClientInput pf p ?w))"
    by (rule processClientInput_ok [OF w', where c = c'])
      (use pol Some c rd in \<open>simp_all add: polite_read_def\<close>)
  have post: "keeps pf (bnd (theClient p) (\<lambda>c. if hasPendingOutput c then installWriteHandler p else ret ()))"
    by (intro keeps)
  obtain q v where run: "processClientInput pf p ?w = (q, v)" by fastforce
  have "world_ok pf (snd (seq (processClientInput pf p)
      (bnd (theClient p) (\<lambda>c. if hasPendingOutput c then installWriteHandler p else ret ())) ?w))"
    using input run keepsD [OF post, of v] by (cases q) (simp_all add: bnd_def [of "processClientInput pf p"])
  moreover have "world_ok pf (snd (removeClient fd ?w))" by (rule keepsD [OF keeps_removeClient w'])
  ultimately show ?thesis
    using w' by (simp add: onReadable_def bnd_gets Some bnd_theClient [OF c] rd Let_def bnd_setClient [OF c] act_apply)
qed (use w in \<open>simp add: onReadable_def bnd_gets act_apply\<close>)

section \<open>The start\<close>

lemma spaces_empty: "spaces_ok pf (w\<lparr>databases := replicate n emptyDatabase\<rparr>)"
  by (simp add: spaces_ok_def ks_ok_def openDb_def emptyDatabase_def)

lemma listen_run:
  assumes "tcp_listen le w = (Inr True, w')"
  obtains fd where "le_socket le = Some fd"
    "w' = w\<lparr>listenFd := Some fd, eventLoop := addFileEvent fd EVENT_READABLE OnAccept (eventLoop w)\<rparr>"
proof (cases "le_socket le")
  case None
  with assms show ?thesis by (simp add: tcp_listen_def bnd_gets bnd_modify act_apply)
next
  case (Some fd)
  have no: "fst (seq tcp_close (ret False) w) \<noteq> Inr True" for w
    by (auto simp: bnd_def ret_def split: prod.split sum.split)
  have "tcp_listen le w = (Inr True, w\<lparr>listenFd := Some fd, eventLoop := addFileEvent fd EVENT_READABLE OnAccept (eventLoop w)\<rparr>) \<or>
      fst (tcp_listen le w) \<noteq> Inr True"
    using Some no by (simp add: tcp_listen_def bnd_gets bnd_modify onLoop_def act_apply)
  with assms Some that show ?thesis by auto
qed

lemma bnd_Inr: "bnd m f w = (Inr x, w') \<longleftrightarrow> (\<exists>y v. m w = (Inr y, v) \<and> f y v = (Inr x, w'))"
  by (auto simp: bnd_def split: prod.splits sum.splits)

lemma initialize_run:
  assumes init: "initialize pf sockets p le w = (Inr True, w')" and rdb: "\<not> appendOnly (w_config w)"
  shows "\<exists>r w2 fd. le_socket le = Some fd \<and>
    loadFromFile pf (reserve_ok pf) (fileContents (rdbFilename (w_config w)) w)
       (w\<lparr>databases := replicate (nat (cfg_databases (w_config w))) emptyDatabase\<rparr>) = (Inr r, w2) \<and>
    w' = w2\<lparr>connUp := True, listenFd := Some fd, eventLoop := snd (addTimeEvent (steady_ms pf) 100
       (addFileEvent fd EVENT_READABLE OnAccept newEventLoop))\<rparr>"
proof -
  let ?w1 = "w\<lparr>databases := replicate (nat (cfg_databases (w_config w))) emptyDatabase\<rparr>"
  have rd: "fileContents name ?w1 = fileContents name w" for name by (simp add: fileContents_def)
  from init rdb obtain r w2 w3 w4 where
    load: "loadFromFile pf (reserve_ok pf) (fileContents (rdbFilename (w_config w)) w) ?w1 = (Inr r, w2)"
    and loop: "w3 = w2\<lparr>eventLoop := newEventLoop, connUp := True\<rparr>" and listen: "tcp_listen le w3 = (Inr True, w4)"
    and w': "w' = w4\<lparr>eventLoop := snd (addTimeEvent (steady_ms pf) 100 (eventLoop w4))\<rparr>"
    unfolding initialize_def restoreData_def restoreRdb_def createEventLoop_def reserving_def onLoop_def
    by (auto simp: bnd_Inr act_apply rd split: if_splits)
  from listen_run [OF listen] obtain fd where "le_socket le = Some fd"
    "w4 = w3\<lparr>listenFd := Some fd, eventLoop := addFileEvent fd EVENT_READABLE OnAccept (eventLoop w3)\<rparr>" by metis
  with load loop w' show ?thesis by (intro exI [of _ r] exI [of _ w2] exI [of _ fd]) simp
qed

lemma start_ok:
  assumes init: "initialize pf sockets p le (newServer cfg names bytes fresh) = (Inr True, w)"
    and rdb: "\<not> appendOnly cfg" and fd: "\<And>fd. le_socket le = Some fd \<Longrightarrow> 0 \<le> fd"
  shows "world_ok pf (startRun w)"
proof -
  let ?w0 = "newServer cfg names bytes fresh"
  let ?w1 = "?w0\<lparr>databases := replicate (nat (cfg_databases cfg)) emptyDatabase\<rparr>"
  have sel: "w_config ?w0 = cfg" by (simp add: newServer_def)
  from initialize_run [OF init] rdb obtain r w2 fd where le: "le_socket le = Some fd"
    and load: "loadFromFile pf (reserve_ok pf) (fileContents (rdbFilename cfg) ?w0) ?w1 = (Inr r, w2)"
    and w: "w = w2\<lparr>connUp := True, listenFd := Some fd, eventLoop := snd (addTimeEvent (steady_ms pf) 100
       (addFileEvent fd EVENT_READABLE OnAccept newEventLoop))\<rparr>"
    unfolding sel by blast
  have w2: "spaces_ok pf w2" "same_tables ?w1 w2" "alike (w_clients ?w1) (w_clients w2)"
    using load_gently [of pf ?w1 "reserve_ok pf"] load spaces_empty unfolding gently_def by (metis snd_conv)+
  have cs: "w_clients w2 = Map.empty"
    using w2(3) by (auto simp: newServer_def dest!: alike_dom)
  have empty: "pubsubChannels w2 = []" "pubsubPatterns w2 = []" "blockedClients w2 = []" "replicas w2 = []"
    "masterClient w2 = None" "connections w2 = []" "map watchedKeys (databases w2) = replicate (nat (cfg_databases cfg)) []"
    using w2(2) by (simp_all add: same_tables_def newServer_def emptyDatabase_def)
  let ?el = "snd (addTimeEvent (steady_ms pf) 100 (addFileEvent fd EVENT_READABLE OnAccept newEventLoop))"
  let ?w = "startRun w"
  show ?thesis
  proof (rule world_okI)
    have "\<not> points ?w t k q" for t k q
      using empty by (cases t) (simp_all add: w startRun_def entries_def del: set_map)
    then show "links_ok (w_clients ?w) ?w" by (simp add: links_ok_def tables_ok_def w startRun_def empty)
    show "calm (w_clients ?w)" by (simp add: calm_def w startRun_def cs)
    show "spaces_ok pf ?w" by (rule spaces_ok_other [OF w2(1)]) (simp_all add: w startRun_def)
    have "loop_ok ?el" by (intro addTimeEvent_ok addFileEvent_ok new_loop_ok event_masks_ok fd le)
    then have "loop_ok (?el\<lparr>running := True\<rparr>)" by (simp add: loop_ok_def times_ok_def)
    moreover have "fileEvents ?el = [(fd, withCallback EVENT_READABLE OnAccept (eventOf fd newEventLoop))]"
      by (simp add: addTimeEvent_def addFileEvent_def newEventLoop_def)
    ultimately show "conn_ok (w_clients ?w) ?w"
      using event_masks_ok(4)
      by (simp add: conn_ok_def w startRun_def cs empty event_known_def withCallback_mask eventOf_def newEventLoop_def EVENT_NONE_def)
  qed
qed

section \<open>Runs of the server\<close>

text \<open>
  The events a running server handles, in any order. A descriptor or address that the
  system hands out is not in use. \<open>hf\<close> is the hash function; time and the answers of the
  system may differ from event to event.
\<close>

inductive server_run :: "(string \<Rightarrow> nat) \<Rightarrow> world \<Rightarrow> bool" for hf where
  start: "initialize pf sockets p le (newServer cfg names bytes fresh) = (Inr True, w) \<Longrightarrow>
    \<not> appendOnly cfg \<Longrightarrow> (\<And>fd. le_socket le = Some fd \<Longrightarrow> 0 \<le> fd) \<Longrightarrow> hasher pf = hf \<Longrightarrow>
    server_run hf (startRun w)"
| accept: "server_run hf w \<Longrightarrow> unused fd p w \<Longrightarrow> server_run hf (snd (addClient fd p now nonblocking w))"
| reading: "server_run hf w \<Longrightarrow> hasher pf = hf \<Longrightarrow> polite_read pf fd r w \<Longrightarrow>
    onReadable pf fd r w = (Inr (), w') \<Longrightarrow> server_run hf w'"
| writing: "server_run hf w \<Longrightarrow> onWritable fd s w = (Inr (), w') \<Longrightarrow> server_run hf w'"
| cron: "server_run hf w \<Longrightarrow> hasher pf = hf \<Longrightarrow> link_ok link w \<Longrightarrow>
    serverCron pf link w = (Inr n, w') \<Longrightarrow> server_run hf w'"
| saver: "server_run hf w \<Longrightarrow> bgsaveThread pf w = (Inr (), w') \<Longrightarrow> server_run hf w'"
| rewriter: "server_run hf w \<Longrightarrow> bgrewriteThread pf w = (Inr (), w') \<Longrightarrow> server_run hf w'"

lemma world_ok_hasher: "hasher pf' = hasher pf \<Longrightarrow> world_ok pf' w = world_ok pf w"
  by (simp add: world_ok_def spaces_ok_def ks_ok_def)

lemma keeps_onCopies [keeps]: "keeps pf (onCopies copies m)"
proof (rule keepsI)
  fix w assume w: "world_ok pf w"
  have "world_ok pf (w\<lparr>w_mem := q\<rparr>)" for q
    using keepsD [OF keeps_cron_fields(1) [of pf "\<lambda>_. q"] w] by (simp add: act_apply)
  then show "world_ok pf (snd (onCopies copies m w))" by (simp add: onCopies_def split: prod.split)
qed

lemma keeps_threads [keeps]: "keeps pf (bgsaveThread pf')" "keeps pf (bgrewriteThread pf')"
proof -
  have fields: "keeps pf (modify (\<lambda>w. w\<lparr>bgsaveInProgress := False, bgsaveJob := None\<rparr>))"
    "keeps pf (modify (\<lambda>w. w\<lparr>bgrewriteaofInProgress := False, bgrewriteJob := None\<rparr>))"
    "keeps pf (modify (\<lambda>w. renameFile name (aofFilename (w_config w)) (removeFile (aofFilename (w_config w)) (writeFile name s w))))"
    for name s
    by (rule keeps_frame; simp add: same_tables_def renameFile_def removeFile_def writeFile_def del: set_map split: option.split)+
  show "keeps pf (bgsaveThread pf')" "keeps pf (bgrewriteThread pf')"
    unfolding bgsaveThread_def bgrewriteThread_def by (intro keeps fields)+
qed

lemma run_world_ok: "server_run hf w \<Longrightarrow> hasher pf = hf \<Longrightarrow> world_ok pf w"
proof (induction arbitrary: pf rule: server_run.induct)
  case (start pf' sockets p le cfg names bytes fresh w)
  then show ?case using start_ok [of pf' sockets p le cfg names bytes fresh w] world_ok_hasher [of pf' pf] by simp
next
  case (accept w fd p now nonblocking)
  then show ?case by (simp add: addClient_ok)
next
  case (reading w pf' fd r w')
  then show ?case using onReadable_ok [of pf' w fd r] world_ok_hasher [of pf' pf] by simp
next
  case (writing w fd s w')
  then show ?case using onWritable_ok [of pf w fd s] by simp
next
  case (cron w pf' link n w')
  then show ?case using serverCron_ok [of pf' w link] world_ok_hasher [of pf' pf] by simp
next
  case (saver w pf' w')
  then show ?case using keepsD [OF keeps_threads(1), of pf w pf'] by simp
next
  case (rewriter w pf' w')
  then show ?case using keepsD [OF keeps_threads(2), of pf w pf'] by simp
qed

end
