(* ===== verification/Lookup.thy ===== *)
theory Lookup
  imports SafeEvents
begin

text \<open>
  Lookup of the built-in commands, as a table: handler, arity, and whether the command
  writes. \<open>execute_known\<close> is \<^verbatim>\<open>executeCommand\<close> for a command that passes the guards.
\<close>

unbundle bit_operations_syntax

section \<open>The registry\<close>

definition entry_of :: "string \<times> handler \<times> int \<times> 32 word \<Rightarrow> command_entry" where
  "entry_of c = (case c of (name, h, n, fl) \<Rightarrow>
     \<lparr>entry_name = upper name, entry_handler = h, arity = n, cmd_flags = fl\<rparr>)"

lemma registry_lookup: "map_of (fold registerCommand cs r) k =
    (case find (\<lambda>c. upper (fst c) = k) (rev cs) of Some c \<Rightarrow> Some (entry_of c) | None \<Rightarrow> map_of r k)"
proof (induction cs rule: rev_induct)
  case (snoc c cs)
  then show ?case by (cases c) (auto simp: registerCommand_def entry_of_def update_conv')
qed simp

lemma lookup_find: "lookupCommand s = map_option entry_of (find (\<lambda>c. upper (fst c) = upper s) (rev builtinCommands))"
  by (simp add: lookupCommand_def builtinRegistry_def registry_lookup split: option.split)

text \<open>The commands that the properties below speak of.\<close>

definition table_row :: "string \<times> handler \<times> int \<times> 32 word \<Rightarrow> string \<times> handler \<times> int \<times> bool" where
  "table_row c = (case c of (name, h, n, fl) \<Rightarrow> (upper name, h, n, fl AND CMD_WRITE \<noteq> 0))"

definition known :: "string \<Rightarrow> (handler \<times> int \<times> bool) option" where
  "known s = map_option (\<lambda>e. (entry_handler e, arity e, hasCmdFlag CMD_WRITE e)) (lookupCommand s)"

lemma known_table: "known s = map_of (map table_row (rev builtinCommands)) (upper s)"
proof -
  have "map_option (\<lambda>c. (entry_handler (entry_of c), arity (entry_of c), hasCmdFlag CMD_WRITE (entry_of c)))
      (find (\<lambda>c. upper (fst c) = k) cs) = map_of (map table_row cs) k" for k cs
    by (induction cs) (auto simp: entry_of_def table_row_def hasCmdFlag_def)
  then show ?thesis by (simp add: known_def lookup_find option.map_comp comp_def)
qed

lemma table: "map table_row (rev builtinCommands) =
    [(''WAIT'', ReplicationH WAIT, 3, False), (''PSYNC'', ReplicationH PSYNC, 3, False),
     (''REPLCONF'', ReplicationH REPLCONF, -3, False), (''REPLICAOF'', ReplicationH REPLICAOF, 3, False),
     (''PUBLISH'', PubSubH PUBLISH, 3, False), (''PUNSUBSCRIBE'', PubSubH PUNSUBSCRIBE, -1, False),
     (''PSUBSCRIBE'', PubSubH PSUBSCRIBE, -2, False), (''UNSUBSCRIBE'', PubSubH UNSUBSCRIBE, -1, False),
     (''SUBSCRIBE'', PubSubH SUBSCRIBE, -2, False), (''UNWATCH'', TransactionH UNWATCH, 1, False),
     (''WATCH'', TransactionH WATCH, -2, False), (''DISCARD'', TransactionH DISCARD, 1, False),
     (''EXEC'', TransactionH EXEC, 1, False), (''MULTI'', TransactionH MULTI, 1, False),
     (''PERSIST'', KeyH PERSIST, 2, True), (''PTTL'', KeyH PTTL, 2, False), (''TTL'', KeyH TTL, 2, False),
     (''PEXPIREAT'', KeyH PEXPIREAT, 3, True), (''EXPIREAT'', KeyH EXPIREAT, 3, True),
     (''PEXPIRE'', KeyH PEXPIRE, 3, True), (''EXPIRE'', KeyH EXPIRE, 3, True),
     (''KEYS'', KeyH KEYS, 2, False), (''RENAME'', KeyH RENAME, 3, True), (''TYPE'', KeyH TYPEOF, 2, False),
     (''SETNX'', StringH SETNX, 3, True), (''STRLEN'', StringH STRLEN, 2, False),
     (''APPEND'', StringH APPENDTO, 3, True), (''DECRBY'', StringH DECRBY, 3, True),
     (''INCRBY'', StringH INCRBY, 3, True), (''DECR'', StringH DECR, 2, True),
     (''INCR'', StringH INCR, 2, True), (''MGET'', StringH MGET, -2, False),
     (''MSET'', StringH MSET, -3, True), (''EXISTS'', StringH EXISTS, -2, False),
     (''DEL'', StringH DEL, -2, True), (''GET'', StringH GET, 2, False), (''SET'', StringH SET, -3, True),
     (''ZREM'', ZsetH ZREM, -3, True), (''ZSCORE'', ZsetH ZSCORE, 3, False),
     (''ZRANK'', ZsetH ZRANK, 3, False), (''ZRANGE'', ZsetH ZRANGE, -4, False),
     (''ZADD'', ZsetH ZADD, -4, True), (''SMEMBERS'', SetH SMEMBERS, 2, False),
     (''SISMEMBER'', SetH SISMEMBER, 3, False), (''SREM'', SetH SREM, -3, True),
     (''SADD'', SetH SADD, -3, True), (''HGETALL'', HashH HGETALL, 2, False),
     (''HGET'', HashH HGET, 3, False), (''HSET'', HashH HSET, -4, True), (''LLEN'', ListH LLEN, 2, False),
     (''LRANGE'', ListH LRANGE, 4, False), (''BRPOP'', ListH BRPOP, -3, True),
     (''BLPOP'', ListH BLPOP, -3, True), (''RPOP'', ListH RPOP, 2, True), (''LPOP'', ListH LPOP, 2, True),
     (''RPUSH'', ListH RPUSH, -3, True), (''LPUSH'', ListH LPUSH, -3, True),
     (''DEBUG'', AdminH DEBUG, -2, False), (''CONFIG'', ServerH CONFIG, -2, False),
     (''BGREWRITEAOF'', AdminH BGREWRITEAOF, 1, False), (''BGSAVE'', AdminH BGSAVE, 1, False),
     (''SAVE'', AdminH SAVE, 1, False), (''INFO'', ServerH INFO, -1, False),
     (''QUIT'', ServerH QUIT, 1, False), (''SELECT'', ServerH SELECT, 2, False),
     (''FLUSHDB'', ServerH FLUSHDB, -1, True), (''DBSIZE'', ServerH DBSIZE, 1, False),
     (''COMMAND'', ServerH COMMAND, -1, False), (''ECHO'', ServerH ECHO, 2, False),
     (''PING'', ServerH PING, -1, False)]"
  by code_simp

lemma upper_names:
  "map upper [''SET'', ''GET'', ''DEL'', ''EXISTS'', ''SETNX'', ''STRLEN'', ''APPEND'', ''INCRBY'', ''MGET'',
    ''SUBSCRIBE'', ''PUBLISH'', ''MULTI'', ''EXEC'', ''BLPOP'', ''LPUSH'', ''FOO''] =
   [''SET'', ''GET'', ''DEL'', ''EXISTS'', ''SETNX'', ''STRLEN'', ''APPEND'', ''INCRBY'', ''MGET'',
    ''SUBSCRIBE'', ''PUBLISH'', ''MULTI'', ''EXEC'', ''BLPOP'', ''LPUSH'', ''FOO'']"
  by code_simp

lemma known_names:
  "known ''SET'' = Some (StringH SET, -3, True)" "known ''GET'' = Some (StringH GET, 2, False)"
  "known ''DEL'' = Some (StringH DEL, -2, True)" "known ''EXISTS'' = Some (StringH EXISTS, -2, False)"
  "known ''SETNX'' = Some (StringH SETNX, 3, True)" "known ''STRLEN'' = Some (StringH STRLEN, 2, False)"
  "known ''APPEND'' = Some (StringH APPENDTO, 3, True)" "known ''INCRBY'' = Some (StringH INCRBY, 3, True)"
  "known ''MGET'' = Some (StringH MGET, -2, False)" "known ''SUBSCRIBE'' = Some (PubSubH SUBSCRIBE, -2, False)"
  "known ''PUBLISH'' = Some (PubSubH PUBLISH, 3, False)" "known ''MULTI'' = Some (TransactionH MULTI, 1, False)"
  "known ''EXEC'' = Some (TransactionH EXEC, 1, False)" "known ''BLPOP'' = Some (ListH BLPOP, -3, True)"
  "known ''LPUSH'' = Some (ListH LPUSH, -3, True)" "known ''FOO'' = None"
  using upper_names by (simp_all add: known_table table)
section \<open>A command that passes the guards\<close>

definition command_of :: "string list \<Rightarrow> RespValue" where
  "command_of ss = Array (map BulkString ss)"

lemma argStr_words [simp]: "i < length ss \<Longrightarrow> argStr (map BulkString ss) i = ret (ss ! i)"
  by (simp add: argStr_def lift_def ret_def fun_eq_iff)

text \<open>No replication, and no memory limit.\<close>

definition alone :: "world \<Rightarrow> bool" where
  "alone w \<longleftrightarrow> replicas w = [] \<and> replBacklogHistLen w = 0 \<and> replId w = '''' \<and> maxMemory (w_config w) = 0"

lemma mapEach_words: "mapEach (map BulkString ss) (\<lambda>a. lift (asString a)) = ret ss"
  by (induction ss) (simp_all add: lift_def ret_def bnd_def fun_eq_iff)

text \<open>What \<^verbatim>\<open>executeCommand\<close> does after a handler.\<close>

definition logged :: "bool \<Rightarrow> string list \<Rightarrow> world \<Rightarrow> world" where
  "logged wr ss w = (let w1 = w\<lparr>totalCommandsProcessed := totalCommandsProcessed w + 1\<rparr>
     in if wr \<and> appendOnly (w_config w) \<and> ss \<noteq> []
        then w1\<lparr>aofBuffer := aofBuffer w1 @ reply_bulkStringArray ss\<rparr> else w1)"

lemma propagate_alone: "alone w \<Longrightarrow> propagateToReplicas args w = (Inr (), w)"
  by (simp add: propagateToReplicas_def bnd_gets alone_def act_apply)

lemma append_words: "appendAof (map BulkString ss) w =
    (Inr (), if appendOnly (w_config w) \<and> ss \<noteq> [] then w\<lparr>aofBuffer := aofBuffer w @ reply_bulkStringArray ss\<rparr> else w)"
  by (simp add: appendAof_def bnd_gets mapEach_words act_apply)

lemma execute_known:
  assumes c: "w_clients w p = Some c" "\<not> queued name c" and w: "alone w"
    and name: "known name = Some (h, n, wr)" "\<not> (n > 0 \<and> int (length ss) + 1 \<noteq> n)" "\<not> (n < 0 \<and> int (length ss) + 1 < - n)"
    and run: "runDepth pf 4 h p (map BulkString (name # ss)) w = (Inr (), w')" "alone w'"
  shows "executeCommand pf p (command_of (name # ss)) w = (Inr (), logged wr (name # ss) w')"
proof -
  let ?args = "map BulkString (name # ss)"
  from name(1) obtain e where e: "lookupCommand name = Some e" "entry_handler e = h" "arity e = n" "hasCmdFlag CMD_WRITE e = wr"
    by (auto simp: known_def)
  have guard: "memoryGuard pf e w = (Inr True, w)"
    using w by (simp add: memoryGuard_def bnd_gets alone_def act_apply)
  have ok: "arityOk e (length ?args)" using name(2,3) e(3) by (simp add: arityOk_def add.commute)
  let ?w1 = "w'\<lparr>totalCommandsProcessed := totalCommandsProcessed w' + 1\<rparr>"
  have tail: "seq (appendAof ?args) (propagateToReplicas ?args) ?w1 = (Inr (), logged True (name # ss) w')"
    using run(2) propagate_alone [of "?w1\<lparr>aofBuffer := b\<rparr>" for b] propagate_alone [of ?w1]
    unfolding bnd_def [of "appendAof ?args"] append_words by (simp add: logged_def alone_def)
  have "callHandler pf (runDepth pf 4) e p ?args w = (Inr (), logged wr (name # ss) w')"
    using run(1) tail e(2,4)
    by (cases wr) (simp_all add: callHandler_def try_catch_def bnd_def [of "runDepth pf 4 h p a" for a] bnd_modify logged_def act_apply)
  then have "afterGuard pf (runDepth pf 4) e p name ?args True w = (Inr (), logged wr (name # ss) w')"
    using c ok by (simp add: afterGuard_def bnd_theClient)
  moreover have "executeCommand pf p (command_of (name # ss)) =
      bnd (memoryGuard pf e) (afterGuard pf (runDepth pf 4) e p name ?args)"
    unfolding executeCommand_def executeDepth_def command_of_def list.map
    by (rule execute_body [OF _ e(1)]) simp
  ultimately show ?thesis by (simp add: bnd_run [where m = "memoryGuard pf e", OF guard])
qed

text \<open>Inside a transaction a command is queued instead.\<close>

lemma execute_queued:
  assumes c: "w_clients w p = Some c" "queued name c" and w: "alone w"
    and name: "known name = Some (h, n, wr)" "\<not> (n > 0 \<and> int (length ss) + 1 \<noteq> n)" "\<not> (n < 0 \<and> int (length ss) + 1 < - n)"
  shows "executeCommand pf p (command_of (name # ss)) w = (Inr (), w\<lparr>w_clients := (w_clients w)(p \<mapsto>
    addReply (reply_simpleString ''QUEUED'') (c\<lparr>transactionQueue := transactionQueue c @ [map BulkString (name # ss)]\<rparr>))\<rparr>)"
proof -
  let ?args = "map BulkString (name # ss)"
  from name(1) obtain e where e: "lookupCommand name = Some e" "entry_handler e = h" "arity e = n" "hasCmdFlag CMD_WRITE e = wr"
    by (auto simp: known_def)
  have guard: "memoryGuard pf e w = (Inr True, w)"
    using w by (simp add: memoryGuard_def bnd_gets alone_def act_apply)
  have ok: "arityOk e (length ?args)" using name(2,3) e(3) by (simp add: arityOk_def add.commute)
  have "executeCommand pf p (command_of (name # ss)) =
      bnd (memoryGuard pf e) (afterGuard pf (runDepth pf 4) e p name ?args)"
    unfolding executeCommand_def executeDepth_def command_of_def list.map
    by (rule execute_body [OF _ e(1)]) simp
  then show ?thesis using c ok
    by (simp add: bnd_run [where m = "memoryGuard pf e", OF guard] afterGuard_def bnd_theClient bnd_setClient reply_def runs_client)
qed

end
