(* ===== verification/Session.thy ===== *)
theory Session
  imports Lookup
begin

text \<open>
  A client that uses string commands sees a finite map. \<open>store_step\<close> is that map's machine;
  \<open>sees\<close> relates a world to it: the client's output so far, and its database, which holds
  strings without expiry times. The database methods that handlers call share the contract
  \<open>key_method\<close>, from which the loops of the handlers are proved once.
\<close>

section \<open>The abstract machine\<close>

type_synonym store = "string \<Rightarrow> string option"

datatype request = Set string string | Get string | Del "string list" | Exists "string list"
  | Setnx string string | Strlen string | Append string string | Incrby string int | Mget "string list"

text \<open>The number a string holds.\<close>

definition number_of :: "string \<Rightarrow> int option" where
  "number_of s = (case from_chars_i64 s of
      Some (v, n) \<Rightarrow> if n = length s then Some v else None
    | None \<Rightarrow> None)"

definition text_reply :: "string option \<Rightarrow> string" where
  "text_reply v = (case v of Some s \<Rightarrow> reply_bulkString s | None \<Rightarrow> reply_nullBulkString)"

fun store_step :: "request \<Rightarrow> store \<Rightarrow> string \<times> store" where
  "store_step (Set k v) m = (reply_ok, m(k \<mapsto> v))"
| "store_step (Get k) m = (text_reply (m k), m)"
| "store_step (Del ks) m = (reply_integer (int (card {k \<in> set ks. m k \<noteq> None})), m |` (- set ks))"
| "store_step (Exists ks) m = (reply_integer (int (length (filter (\<lambda>k. m k \<noteq> None) ks))), m)"
| "store_step (Setnx k v) m = (if m k = None then (reply_integer 1, m(k \<mapsto> v)) else (reply_integer 0, m))"
| "store_step (Strlen k) m = (reply_integer (case m k of None \<Rightarrow> 0 | Some s \<Rightarrow> int (length s)), m)"
| "store_step (Append k v) m = (let s = (case m k of None \<Rightarrow> '''' | Some s \<Rightarrow> s) @ v
     in (reply_integer (int (length s)), m(k \<mapsto> s)))"
| "store_step (Incrby k n) m = (case (case m k of None \<Rightarrow> Some 0 | Some s \<Rightarrow> number_of s) of
      None \<Rightarrow> (not_an_integer, m)
    | Some c \<Rightarrow> if in_i64 (c + n) then (reply_integer (c + n), m(k \<mapsto> int_to_dec (c + n))) else (not_an_integer, m))"
| "store_step (Mget ks) m = (''*'' @ nat_to_dec (length ks) @ CRLF @ concat (map (\<lambda>k. text_reply (m k)) ks), m)"

fun store_run :: "request list \<Rightarrow> store \<Rightarrow> string \<times> store" where
  "store_run [] m = ('''', m)"
| "store_run (r # rs) m = (let (a, m1) = store_step r m; (b, m2) = store_run rs m1 in (a @ b, m2))"

fun request_words :: "request \<Rightarrow> string list" where
  "request_words (Set k v) = [''SET'', k, v]"
| "request_words (Get k) = [''GET'', k]"
| "request_words (Del ks) = ''DEL'' # ks"
| "request_words (Exists ks) = ''EXISTS'' # ks"
| "request_words (Setnx k v) = [''SETNX'', k, v]"
| "request_words (Strlen k) = [''STRLEN'', k]"
| "request_words (Append k v) = [''APPEND'', k, v]"
| "request_words (Incrby k n) = [''INCRBY'', k, int_to_dec n]"
| "request_words (Mget ks) = ''MGET'' # ks"

text \<open>The requests the protocol can express: at least one key, a 64-bit increment.\<close>

fun proper :: "request \<Rightarrow> bool" where
  "proper (Del ks) = (ks \<noteq> [])"
| "proper (Exists ks) = (ks \<noteq> [])"
| "proper (Mget ks) = (ks \<noteq> [])"
| "proper (Incrby k n) = in_i64 n"
| "proper _ = True"

section \<open>The simulation relation\<close>

definition holds :: "store \<Rightarrow> keyspace \<Rightarrow> bool" where
  "holds m ks \<longleftrightarrow> (\<forall>k. view ks k = map_option (\<lambda>s. (StringObject s, None)) (m k))"

text \<open>An ordinary client: no transaction, not blocked, not about to close.\<close>

definition plain :: "client \<Rightarrow> bool" where
  "plain c \<longleftrightarrow> \<not> hasFlag CLIENT_MULTI c \<and> \<not> hasFlag CLIENT_BLOCKED c \<and> \<not> hasFlag CLIENT_CLOSE_ASAP c"

lemma plain_dirty: "plain (setFlag CLIENT_DIRTY_EXEC c) = plain c"
proof -
  have "CLIENT_CLOSE_ASAP \<noteq> CLIENT_DIRTY_EXEC" by (simp add: client_flags)
  then show ?thesis by (simp add: plain_def hasFlag_setFlag)
qed

lemma plain_flags: "flags c' = flags c \<Longrightarrow> plain c' = plain c"
  by (simp add: plain_def hasFlag_def)

definition sees :: "platform \<Rightarrow> nat \<Rightarrow> int \<Rightarrow> store \<Rightarrow> string \<Rightarrow> world \<Rightarrow> bool" where
  "sees pf p db m out w \<longleftrightarrow> spaces_ok pf w \<and> alone w \<and> databases w \<noteq> [] \<and> holds m (openDb (dbIndex db w) w) \<and>
     (\<exists>c. w_clients w p = Some c \<and> plain c \<and> selectedDb c = db \<and> outputBuffer c = out)"

lemma holds_fresh:
  assumes "ks_ok pf ks" "holds m ks"
  shows "\<not> isExpired pf k ks"
proof -
  have "map_of (expires ks) k = None"
  proof (cases "map_of (data ks) k")
    case None
    then show ?thesis by (rule ks_ok_no_orphan [OF assms(1)])
  next
    case (Some ob)
    moreover have "view ks k = map_option (\<lambda>s. (StringObject s, None)) (m k)" using assms(2) by (simp add: holds_def)
    ultimately show ?thesis by (cases "m k") (simp_all add: view_def)
  qed
  then show ?thesis by (simp add: isExpired_def)
qed

lemma holds_visible: "ks_ok pf ks \<Longrightarrow> holds m ks \<Longrightarrow> visible pf ks k = map_option (\<lambda>s. (StringObject s, None)) (m k)"
  using holds_fresh [of pf ks m k] by (simp add: holds_def visible_def)

lemma sees_index: "sees pf p db m out w \<Longrightarrow> dbIndex db w < length (databases w)"
  by (auto simp: sees_def dbIndex_def)

lemma sees_ks: "sees pf p db m out w \<Longrightarrow> ks_ok pf (openDb (dbIndex db w) w) \<and> holds m (openDb (dbIndex db w) w)"
  using sees_index [of pf p db m out w] by (simp add: sees_def spaces_ok_def)

lemma marked_client:
  assumes "marked cs cs'" "cs p = Some c"
  shows "\<exists>c'. cs' p = Some c' \<and> (c' = c \<or> c' = setFlag CLIENT_DIRTY_EXEC c)"
  using assms unfolding marked_def by (metis option.map(2))

lemma sees_close:
  assumes s: "sees pf p db m out w" and t: "tame pf f" and h: "holds m' (f (openDb (dbIndex db w) w))"
  shows "sees pf p db m' out (closeDb (dbIndex db w) (f (openDb (dbIndex db w) w)) w)"
proof -
  let ?i = "dbIndex db w" and ?ks = "openDb (dbIndex db w) w"
  let ?w = "closeDb ?i (f ?ks) w"
  note i = sees_index [OF s]
  have ks: "ks_ok pf (f ?ks)" "settled ?ks (f ?ks)" using t sees_ks [OF s] by (simp_all add: tame_def)
  have "spaces_ok pf ?w" using closeDb_spaces(1) [OF _ i ks] s by (simp add: sees_def)
  moreover have "alone ?w" using s by (simp add: sees_def alone_def closeDb_def)
  moreover have "databases ?w \<noteq> []" using s by (simp add: sees_def closeDb_def)
  moreover have "openDb (dbIndex db ?w) ?w = f ?ks" using i by (simp add: openDb_closeDb)
  moreover from s obtain c where c: "w_clients w p = Some c" "plain c" "selectedDb c = db" "outputBuffer c = out"
    by (auto simp: sees_def)
  have "marked (w_clients w) (w_clients ?w)" using ks(2) by (simp add: settled_def closeDb_def openDb_sel)
  from marked_client [OF this c(1)] c have "\<exists>c. w_clients ?w p = Some c \<and> plain c \<and> selectedDb c = db \<and> outputBuffer c = out"
    by (auto simp: plain_dirty) (simp_all add: setFlag_def)
  ultimately show ?thesis using h unfolding sees_def by simp
qed

text \<open>
  From a world the client sees as \<open>m\<close>, the action returns what \<open>spec m\<close> says, and touches
  neither the log nor the configuration nor which client is the master.
\<close>

definition masters :: "world \<Rightarrow> nat set" where
  "masters w = {p. has (w_clients w) p (hasFlag CLIENT_MASTER)}"

lemma masters_marked: "marked (w_clients w) (w_clients w') \<Longrightarrow> masters w' = masters w"
proof -
  have "hasFlag CLIENT_MASTER (setFlag CLIENT_DIRTY_EXEC c) = hasFlag CLIENT_MASTER c" for c
    by (simp add: hasFlag_setFlag) (simp add: client_flags)
  then have "has cs' p (hasFlag CLIENT_MASTER) = has cs p (hasFlag CLIENT_MASTER)"
    if "cs' p = cs p \<or> cs' p = map_option (setFlag CLIENT_DIRTY_EXEC) (cs p)" for cs' cs p
    using that by (elim disjE; cases "cs p"; simp add: has_def)
  then show "marked (w_clients w) (w_clients w') \<Longrightarrow> masters w' = masters w"
    unfolding marked_def masters_def by blast
qed

lemma masters_update: "w_clients w p = Some c \<Longrightarrow> flags c' = flags c \<Longrightarrow>
    masters (w\<lparr>w_clients := (w_clients w)(p \<mapsto> c')\<rparr>) = masters w"
  by (auto simp: masters_def has_def hasFlag_def)

definition same_log :: "world \<Rightarrow> world \<Rightarrow> bool" where
  "same_log w w' \<longleftrightarrow> aofBuffer w' = aofBuffer w \<and> aofStream w' = aofStream w \<and> inodes w' = inodes w \<and>
     w_config w' = w_config w \<and> masters w' = masters w"

text \<open>\<open>log_grows bytes\<close>: as \<open>same_log\<close>, but \<open>bytes\<close> are logged if the server keeps a log.\<close>

definition log_grows :: "string \<Rightarrow> world \<Rightarrow> world \<Rightarrow> bool" where
  "log_grows bytes w w' \<longleftrightarrow> same_log (w\<lparr>aofBuffer := aofBuffer w @ (if appendOnly (w_config w) then bytes else '''')\<rparr>) w'"

lemma same_log_closeDb: "tame pf f \<Longrightarrow> ks_ok pf (openDb i w) \<Longrightarrow> same_log w (closeDb i (f (openDb i w)) w)"
proof -
  assume "tame pf f" "ks_ok pf (openDb i w)"
  then have "marked (clients (openDb i w)) (clients (f (openDb i w)))" by (simp add: tame_def settled_def)
  then have "marked (w_clients w) (w_clients (closeDb i (f (openDb i w)) w))" by (simp add: closeDb_def openDb_sel)
  from masters_marked [OF this] show ?thesis by (simp add: same_log_def) (simp add: closeDb_def)
qed

lemma same_log_fields [simp]: "masters (w\<lparr>totalCommandsProcessed := n\<rparr>) = masters w" "masters (w\<lparr>aofBuffer := b\<rparr>) = masters w"
  by (simp_all add: masters_def)

lemma same_log_trans: "same_log w w' \<Longrightarrow> same_log w' w'' \<Longrightarrow> same_log w w''"
  by (simp add: same_log_def)

definition yields_as :: "platform \<Rightarrow> nat \<Rightarrow> int \<Rightarrow> 'a act \<Rightarrow> (store \<Rightarrow> 'a \<times> string \<times> store) \<Rightarrow> bool" where
  "yields_as pf p db act spec \<longleftrightarrow> (\<forall>m out w. sees pf p db m out w \<longrightarrow>
     (\<exists>w'. act w = (Inr (fst (spec m)), w') \<and> same_log w w' \<and>
       sees pf p db (snd (snd (spec m))) (out @ fst (snd (spec m))) w'))"

lemma yields_asD:
  assumes "yields_as pf p db act spec" "sees pf p db m out w"
  obtains w' where "act w = (Inr (fst (spec m)), w')" "sees pf p db (snd (snd (spec m))) (out @ fst (snd (spec m))) w'"
    "same_log w w'"
  using assms unfolding yields_as_def by blast

lemma yields_as_ret: "yields_as pf p db (ret x) (\<lambda>m. (x, '''', m))"
  by (simp add: yields_as_def act_apply same_log_def)

definition then_spec :: "(store \<Rightarrow> 'a \<times> string \<times> store) \<Rightarrow> ('a \<Rightarrow> store \<Rightarrow> 'b \<times> string \<times> store) \<Rightarrow> store \<Rightarrow> 'b \<times> string \<times> store" where
  "then_spec spec g m = (case spec m of (x, s, m1) \<Rightarrow> (case g x m1 of (y, t, m2) \<Rightarrow> (y, s @ t, m2)))"

lemma yields_as_bnd:
  assumes "yields_as pf p db act spec" "\<And>x. yields_as pf p db (f x) (g x)"
  shows "yields_as pf p db (bnd act f) (then_spec spec g)"
  unfolding yields_as_def
proof (intro allI impI)
  fix m out w assume "sees pf p db m out w"
  from yields_asD [OF assms(1) this] obtain w1 where w1: "act w = (Inr (fst (spec m)), w1)"
    "sees pf p db (snd (snd (spec m))) (out @ fst (snd (spec m))) w1" "same_log w w1" .
  from yields_asD [OF assms(2) w1(2), of "fst (spec m)"] obtain w2 where
    "f (fst (spec m)) w1 = (Inr (fst (g (fst (spec m)) (snd (snd (spec m))))), w2)"
    "sees pf p db (snd (snd (g (fst (spec m)) (snd (snd (spec m)))))) ((out @ fst (snd (spec m))) @
       fst (snd (g (fst (spec m)) (snd (snd (spec m)))))) w2" "same_log w1 w2" .
  with w1(1) same_log_trans [OF w1(3)] show "\<exists>w'. bnd act f w = (Inr (fst (then_spec spec g m)), w') \<and> same_log w w' \<and>
      sees pf p db (snd (snd (then_spec spec g m))) (out @ fst (snd (then_spec spec g m))) w'"
    by (intro exI [of _ w2]) (simp add: bnd_def then_spec_def case_prod_beta)
qed

lemma yields_as_eq: "yields_as pf p db act f \<Longrightarrow> (\<And>m. f m = g m) \<Longrightarrow> yields_as pf p db act g"
  by (simp add: yields_as_def)

lemma yields_as_try: "yields_as pf p db act spec \<Longrightarrow> yields_as pf p db (try_catch act h) spec"
  unfolding yields_as_def try_catch_def by fastforce

lemma yields_as_if: "yields_as pf p db a f \<Longrightarrow> yields_as pf p db b g \<Longrightarrow>
    yields_as pf p db (if c then a else b) (if c then f else g)"
  by simp

lemma yields_as_option: "yields_as pf p db n f \<Longrightarrow> (\<And>x. yields_as pf p db (s x) (g x)) \<Longrightarrow>
    yields_as pf p db (case r of None \<Rightarrow> n | Some x \<Rightarrow> s x) (case r of None \<Rightarrow> f | Some x \<Rightarrow> g x)"
  by (simp split: option.split)

lemma yields_as_reply: "yields_as pf p db (reply p s) (\<lambda>m. ((), s, m))"
  unfolding yields_as_def
proof (intro allI impI)
  fix m out w assume s: "sees pf p db m out w"
  then obtain c where c: "w_clients w p = Some c" "plain c" "selectedDb c = db" "outputBuffer c = out"
    by (auto simp: sees_def)
  let ?w = "w\<lparr>w_clients := (w_clients w)(p \<mapsto> addReply s c)\<rparr>"
  have "spaces_ok pf ?w" by (rule spaces_ok_frame [where w = w]) (use s c in \<open>auto simp: sees_def\<close>)
  moreover have "openDb i ?w = (openDb i w)\<lparr>clients := w_clients ?w\<rparr>" for i by (simp add: openDb_def Let_def)
  then have "holds m (openDb (dbIndex db ?w) ?w)" using s by (simp add: sees_def holds_def view_def dbIndex_def)
  moreover have "plain (addReply s c)" using c(2) plain_flags [of "addReply s c" c] by (simp add: addReply_def)
  ultimately have "sees pf p db m (out @ s) ?w"
    using s c by (simp add: sees_def alone_def) (simp add: addReply_def)
  with c(1) show "\<exists>w'. reply p s w = (Inr (fst ((), s, m)), w') \<and> same_log w w' \<and>
      sees pf p db (snd (snd ((), s, m))) (out @ fst (snd ((), s, m))) w'"
    by (simp add: reply_def runs_client same_log_def masters_update addReply_def)
qed

lemma yields_as_selected: "yields_as pf p db (selected p) (\<lambda>m. (db, '''', m))"
  by (auto simp: yields_as_def selected_def runs_client act_apply sees_def same_log_def)

section \<open>The database methods\<close>

lemma lift_word: "bnd (lift (asString (BulkString k))) f = f k"
  by (simp add: bnd_lift)

text \<open>The effects on the map of the methods that only need a key, and of a sequence of calls.\<close>

definition get_effect :: "string \<Rightarrow> store \<Rightarrow> string option \<times> store" where
  "get_effect k m = (m k, m)"

definition exists_effect :: "string \<Rightarrow> store \<Rightarrow> bool \<times> store" where
  "exists_effect k m = (m k \<noteq> None, m)"

definition del_effect :: "string \<Rightarrow> store \<Rightarrow> bool \<times> store" where
  "del_effect k m = (m k \<noteq> None, m(k := None))"

primrec effects :: "(string \<Rightarrow> store \<Rightarrow> 'a \<times> store) \<Rightarrow> string list \<Rightarrow> store \<Rightarrow> 'a list \<times> store" where
  "effects effect [] m = ([], m)"
| "effects effect (k # ks) m = (let (r, m1) = effect k m; (rs, m2) = effects effect ks m1 in (r # rs, m2))"

text \<open>A method called with a key answers as, and leaves the database as, \<open>effect\<close> says of the map.\<close>

locale key_method =
  fixes pf :: platform and call :: "string \<Rightarrow> keyspace \<Rightarrow> 'a \<times> keyspace" and effect :: "string \<Rightarrow> store \<Rightarrow> 'a \<times> store"
  assumes call_tame: "tame pf (\<lambda>ks. snd (call k ks))"
    and call_answers: "ks_ok pf ks \<Longrightarrow> holds m ks \<Longrightarrow>
      fst (call k ks) = fst (effect k m) \<and> holds (snd (effect k m)) (snd (call k ks))"
begin

lemma on_db: "yields_as pf p db (onDb db (call k)) (\<lambda>m. (fst (effect k m), '''', snd (effect k m)))"
  unfolding yields_as_def
proof (intro allI impI)
  fix m out w assume s: "sees pf p db m out w"
  let ?ks = "openDb (dbIndex db w) w"
  have "fst (call k ?ks) = fst (effect k m)" "holds (snd (effect k m)) (snd (call k ?ks))"
    using call_answers sees_ks [OF s] by blast+
  moreover have "onDb db (call k) w = (Inr (fst (call k ?ks)), closeDb (dbIndex db w) (snd (call k ?ks)) w)"
    using s by (simp add: onDb_def sees_def Let_def case_prod_beta)
  ultimately show "\<exists>w'. onDb db (call k) w = (Inr (fst (fst (effect k m), '''', snd (effect k m))), w') \<and> same_log w w' \<and>
      sees pf p db (snd (snd (fst (effect k m), '''', snd (effect k m))))
        (out @ fst (snd (fst (effect k m), '''', snd (effect k m)))) w'"
    using sees_close [OF s call_tame] same_log_closeDb [OF call_tame] sees_ks [OF s] by simp
qed

text \<open>A loop over the keys that collects the answers.\<close>

lemma collect:
  "yields_as pf p db (mapEach (map BulkString ks) (\<lambda>a. bnd (lift (asString a)) (\<lambda>key. bnd (onDb db (call key)) (\<lambda>r. ret (f r)))))
     (\<lambda>m. (map f (fst (effects effect ks m)), '''', snd (effects effect ks m)))"
proof (induction ks)
  case Nil
  show ?case using yields_as_ret by (simp add: yields_as_def act_apply same_log_def)
next
  case (Cons k ks)
  have "yields_as pf p db (mapEach (map BulkString (k # ks)) (\<lambda>a. bnd (lift (asString a)) (\<lambda>key. bnd (onDb db (call key)) (\<lambda>r. ret (f r)))))
      (then_spec (then_spec (\<lambda>m. (fst (effect k m), '''', snd (effect k m))) (\<lambda>r m. (f r, '''', m)))
        (\<lambda>y. then_spec (\<lambda>m. (map f (fst (effects effect ks m)), '''', snd (effects effect ks m))) (\<lambda>ys m. (y # ys, '''', m))))"
    unfolding list.map mapEach.simps lift_word by (intro yields_as_bnd on_db yields_as_ret Cons.IH)
  then show ?case by (rule yields_as_eq) (simp add: then_spec_def case_prod_beta Let_def)
qed

end

text \<open>Methods that answer whether there was something.\<close>

locale key_test = key_method pf call effect
  for pf and call :: "string \<Rightarrow> keyspace \<Rightarrow> bool \<times> keyspace" and effect
begin

lemma count:
  "yields_as pf p db (countEach (map BulkString ks) (\<lambda>a. bnd (lift (asString a)) (\<lambda>key. onDb db (call key))) n)
     (\<lambda>m. (n + length (filter (\<lambda>b. b) (fst (effects effect ks m))), '''', snd (effects effect ks m)))"
proof (induction ks arbitrary: n)
  case Nil
  show ?case by (simp add: yields_as_def act_apply same_log_def)
next
  case (Cons k ks)
  have "yields_as pf p db (countEach (map BulkString (k # ks)) (\<lambda>a. bnd (lift (asString a)) (\<lambda>key. onDb db (call key))) n)
      (then_spec (\<lambda>m. (fst (effect k m), '''', snd (effect k m)))
        (\<lambda>hit m. ((if hit then n + 1 else n) + length (filter (\<lambda>b. b) (fst (effects effect ks m))), '''', snd (effects effect ks m))))"
    unfolding list.map countEach.simps lift_word by (intro yields_as_bnd on_db Cons.IH)
  then show ?case by (rule yields_as_eq) (simp add: then_spec_def case_prod_beta Let_def)
qed

end

interpretation get: key_method pf "db_get pf" get_effect for pf
proof
  fix ks m k assume ks: "ks_ok pf ks" "holds m ks"
  show "fst (db_get pf k ks) = fst (get_effect k m) \<and> holds (snd (get_effect k m)) (snd (db_get pf k ks))"
    using ks(2) holds_fresh [OF ks] holds_visible [OF ks] view_getObject [OF ks(1)]
    by (simp add: get_fst [OF ks(1)] get_snd holds_def get_effect_def split: option.split)
qed (rule tame)

interpretation ex: key_test pf "db_exists pf" exists_effect for pf
proof
  fix ks m k assume ks: "ks_ok pf ks" "holds m ks"
  have "view (snd (db_exists pf k ks)) = view ks"
    using holds_fresh [OF ks] view_checkAndExpire [OF ks(1), of k]
    by (cases "checkAndExpire pf k ks") (simp add: db_exists_def)
  then show "fst (db_exists pf k ks) = fst (exists_effect k m) \<and> holds (snd (exists_effect k m)) (snd (db_exists pf k ks))"
    using ks(2) holds_visible [OF ks] by (simp add: exists_fst [OF ks(1)] holds_def exists_effect_def)
qed (rule tame)

interpretation del: key_test pf "db_del pf" del_effect for pf
proof
  fix ks m k assume ks: "ks_ok pf ks" "holds m ks"
  then show "fst (db_del pf k ks) = fst (del_effect k m) \<and> holds (snd (del_effect k m)) (snd (db_del pf k ks))"
    by (simp add: view_del [OF ks(1)] holds_def del_effect_def del: view_None)
qed (rule tame)

interpretation set: key_method pf "\<lambda>k ks. ((), db_set pf k v ks)" "\<lambda>k m. ((), m(k \<mapsto> v))" for pf v
  by unfold_locales (simp_all add: tame holds_def view_set)

lemma append_missing: "view ks k = None \<Longrightarrow> db_append pf k v ks = (Some (length v), db_set pf k v ks)"
  by (simp add: db_append_def)

interpretation app: key_method pf "\<lambda>k. db_append pf k v"
  "\<lambda>k m. let s = (case m k of None \<Rightarrow> '''' | Some s \<Rightarrow> s) @ v in (Some (length s), m(k \<mapsto> s))" for pf v
proof
  fix ks m k assume ks: "ks_ok pf ks" "holds m ks"
  show "fst (db_append pf k v ks) = fst (let s = (case m k of None \<Rightarrow> '''' | Some s \<Rightarrow> s) @ v in (Some (length s), m(k \<mapsto> s))) \<and>
      holds (snd (let s = (case m k of None \<Rightarrow> '''' | Some s \<Rightarrow> s) @ v in (Some (length s), m(k \<mapsto> s)))) (snd (db_append pf k v ks))"
    using ks(2) append_value [of ks k _ None pf v] append_missing [of ks k pf v]
    by (cases "m k") (simp_all add: holds_def Let_def view_set del: view_None)
qed (rule tame)

lemma incrby_text:
  assumes "view ks k = Some (StringObject s, t)" "in_i64 n"
  shows "db_incrby pf k n ks = (case number_of s of None \<Rightarrow> (None, ks)
    | Some c \<Rightarrow> if in_i64 (c + n) then (Some (c + n), db_set pf k (int_to_dec (c + n)) ks) else (None, ks))"
proof -
  from assms(1) obtain ob where ob: "map_of (data ks) k = Some ob" "obj_value ob = StringObject s" by (auto simp: view_def)
  show ?thesis
  proof (cases "number_of s")
    case None
    with ob show ?thesis by (auto simp: db_incrby_def number_of_def split: option.splits)
  next
    case (Some c)
    then have "in_i64 c" by (auto simp: number_of_def dest: from_chars_range split: option.splits if_splits)
    from incr_guard [OF this assms(2)] Some ob show ?thesis
      by (auto simp: db_incrby_def number_of_def Let_def split: option.splits if_splits)
  qed
qed

definition sum_effect :: "int \<Rightarrow> string \<Rightarrow> store \<Rightarrow> int option \<times> store" where
  "sum_effect n k m = (case (case m k of None \<Rightarrow> Some 0 | Some s \<Rightarrow> number_of s) of
      None \<Rightarrow> (None, m)
    | Some c \<Rightarrow> if in_i64 (c + n) then (Some (c + n), m(k \<mapsto> int_to_dec (c + n))) else (None, m))"

interpretation inc: key_method pf "\<lambda>k. db_incrby pf k (if in_i64 n then n else 0)" "sum_effect (if in_i64 n then n else 0)" for pf n
proof
  let ?n = "if in_i64 n then n else 0"
  have n: "in_i64 ?n" by (simp add: in_i64_def i64_min_def i64_max_def)
  fix ks m k assume ks: "ks_ok pf ks" "holds m ks"
  show "fst (db_incrby pf k ?n ks) = fst (sum_effect ?n k m) \<and> holds (snd (sum_effect ?n k m)) (snd (db_incrby pf k ?n ks))"
  proof (cases "m k")
    case None
    then have "view ks k = None" using ks(2) by (simp add: holds_def del: view_None)
    from incrby_missing [OF this n, of pf] None n ks(2) show ?thesis
      by (simp add: sum_effect_def holds_def view_set)
  next
    case (Some s)
    then have "view ks k = Some (StringObject s, None)" using ks(2) by (simp add: holds_def del: view_None)
    from incrby_text [OF this n, of pf] Some ks(2) show ?thesis
      by (auto simp: sum_effect_def holds_def view_set split: option.split)
  qed
qed (rule tame)

section \<open>The handlers\<close>

lemma yields_as_db: "yields_as pf p db (f db) g \<Longrightarrow> yields_as pf p db (bnd (selected p) f) g"
proof -
  have "selected p w = (Inr db, w)" if "sees pf p db m out w" for m out w
    using that by (auto simp: sees_def selected_def runs_client act_apply)
  then have "bnd (selected p) f w = f db w" if "sees pf p db m out w" for m out w
    using that by (simp add: bnd_def)
  then show "yields_as pf p db (f db) g \<Longrightarrow> yields_as pf p db (bnd (selected p) f) g"
    by (simp add: yields_as_def)
qed

lemma yields_as_run: "key_method pf (\<lambda>k ks. ((), f k ks)) effect \<Longrightarrow>
    yields_as pf p db (runDb db (f k)) (\<lambda>m. (fst (effect k m), '''', snd (effect k m)))"
  unfolding runDb_def by (rule key_method.on_db)

text \<open>Counters and the log are invisible.\<close>

lemma sees_frame:
  assumes "sees pf p db m out w" "databases w' = databases w" "w_clients w' = w_clients w" "alone w'"
  shows "sees pf p db m out w'"
proof -
  have "spaces_ok pf w'" by (rule spaces_ok_frame [where w = w]) (use assms in \<open>auto simp: sees_def\<close>)
  moreover have "holds m (openDb i w') = holds m (openDb i w)" for i
    using assms(2) by (simp add: openDb_def Let_def holds_def view_def)
  ultimately show ?thesis using assms by (simp add: sees_def dbIndex_def)
qed

lemma del_effects: "snd (effects del_effect ks m) = m |` (- set ks) \<and>
    length (filter (\<lambda>b. b) (fst (effects del_effect ks m))) = card {k \<in> set ks. m k \<noteq> None}"
proof (induction ks arbitrary: m)
  case (Cons k ks)
  have "{j \<in> set (k # ks). m j \<noteq> None} = (if m k = None then {} else {k}) \<union> {j \<in> set ks. (m(k := None)) j \<noteq> None}"
    by auto
  moreover have "card ((if m k = None then {} else {k}) \<union> {j \<in> set ks. (m(k := None)) j \<noteq> None}) =
      (if m k = None then 0 else 1) + card {j \<in> set ks. (m(k := None)) j \<noteq> None}"
    by (subst card_Un_disjoint) auto
  moreover have "(m(k := None)) |` (- set ks) = m |` (- set (k # ks))" by (auto simp: restrict_map_def)
  ultimately show ?case using Cons.IH [of "m(k := None)"]
    by (simp add: Let_def case_prod_beta del_effect_def del: fun_upd_apply)
qed (simp add: restrict_map_def)

lemma exists_effects: "effects exists_effect ks m = (map (\<lambda>k. m k \<noteq> None) ks, m)"
  by (induction ks) (simp_all add: exists_effect_def)

lemma get_effects: "effects get_effect ks m = (map m ks, m)"
  by (induction ks) (simp_all add: get_effect_def)


definition served :: "platform \<Rightarrow> nat \<Rightarrow> int \<Rightarrow> unit act \<Rightarrow> request \<Rightarrow> bool" where
  "served pf p db act r \<longleftrightarrow> yields_as pf p db act (\<lambda>m. ((), store_step r m))"

lemma servedI: "yields_as pf p db act spec \<Longrightarrow> (\<And>m. spec m = ((), store_step r m)) \<Longrightarrow> served pf p db act r"
  by (simp add: served_def yields_as_def)

lemmas yields_as_steps = yields_as_bnd yields_as_reply yields_as_ret

lemma word_at: "bnd (argStr (map BulkString (n # k # l)) 1) f = f k" "bnd (argStr (map BulkString (n # k # v # l)) 2) f = f v"
  by (simp_all add: argStr_def bnd_lift)

lemma get_served: "served pf p db (getCommand pf p (map BulkString [n, k])) (Get k)"
  unfolding getCommand_def
  by (rule servedI, rule yields_as_db, simp only: word_at, (rule yields_as_steps get.on_db)+)
    (simp add: then_spec_def get_effect_def text_reply_def)

lemma strlen_served: "served pf p db (strlenCommand pf p (map BulkString [n, k])) (Strlen k)"
  unfolding strlenCommand_def
  by (rule servedI, rule yields_as_db, simp only: word_at, (rule yields_as_steps get.on_db)+)
    (simp add: then_spec_def get_effect_def split: option.split)

lemma append_served: "served pf p db (appendCommand pf p (map BulkString [n, k, v])) (Append k v)"
  unfolding appendCommand_def
  by (rule servedI, rule yields_as_db, simp only: word_at, (rule yields_as_steps app.on_db)+)
    (simp add: then_spec_def Let_def)

lemma del_served: "served pf p db (delCommand pf p (map BulkString (n # ks))) (Del ks)"
  unfolding delCommand_def
  by (rule servedI, rule yields_as_db, simp only: list.map list.sel, (rule yields_as_steps del.count)+)
    (simp add: then_spec_def del_effects)

lemma exists_served: "served pf p db (existsCommand pf p (map BulkString (n # ks))) (Exists ks)"
  unfolding existsCommand_def
  by (rule servedI, rule yields_as_db, simp only: list.map list.sel, (rule yields_as_steps ex.count)+)
    (simp add: then_spec_def exists_effects filter_map comp_def)

lemma mget_served: "served pf p db (mgetCommand pf p (map BulkString (n # ks))) (Mget ks)"
  unfolding mgetCommand_def
  by (rule servedI, rule yields_as_db, simp only: list.map list.sel, (rule yields_as_steps get.collect)+)
    (simp add: then_spec_def get_effects text_reply_def comp_def)

lemma setnx_served: "served pf p db (setnxCommand pf p (map BulkString [n, k, v])) (Setnx k v)"
  unfolding setnxCommand_def
  by (rule servedI, rule yields_as_db, simp only: word_at,
      (rule yields_as_steps yields_as_if ex.on_db yields_as_run [OF set.key_method_axioms])+)
    (simp add: then_spec_def exists_effect_def)

lemma yields_as_tick: "yields_as pf p db (modify (\<lambda>w. w\<lparr>totalCommandsProcessed := f w\<rparr>)) (\<lambda>m. ((), '''', m))"
  unfolding yields_as_def
proof (intro allI impI)
  fix m out w assume s: "sees pf p db m out w"
  have "sees pf p db m out (w\<lparr>totalCommandsProcessed := f w\<rparr>)"
    by (rule sees_frame [OF s]) (use s in \<open>simp_all add: sees_def alone_def\<close>)
  then show "\<exists>w'. modify (\<lambda>w. w\<lparr>totalCommandsProcessed := f w\<rparr>) w = (Inr (fst ((), '''', m)), w') \<and> same_log w w' \<and>
      sees pf p db (snd (snd ((), '''', m))) (out @ fst (snd ((), '''', m))) w'"
    by (simp add: act_apply same_log_def)
qed

lemma plain_set: "setCommand pf p (map BulkString [n, k, v]) = bnd (selected p) (\<lambda>db. seq (runDb db (db_set pf k v))
    (seq (ret ()) (seq (modify (\<lambda>w. w\<lparr>totalCommandsProcessed := totalCommandsProcessed w + 1\<rparr>)) (reply p reply_ok))))"
  by (simp add: setCommand_def argStr_def bnd_lift)

lemma set_served: "served pf p db (setCommand pf p (map BulkString [n, k, v])) (Set k v)"
  unfolding plain_set
  by (rule servedI, rule yields_as_db, (rule yields_as_steps yields_as_tick yields_as_run [OF set.key_method_axioms])+)
    (simp add: then_spec_def)

lemma try_number: "in_i64 i \<Longrightarrow> tryNumber stoll (map BulkString [n, k, int_to_dec i]) 2 = ret (Some i)"
  by (simp add: tryNumber_def argStr_def bnd_lift)

lemma incrby_on_db: "in_i64 i \<Longrightarrow>
    yields_as pf p db (onDb db (db_incrby pf k i)) (\<lambda>m. (fst (sum_effect i k m), '''', snd (sum_effect i k m)))"
  using inc.on_db [of pf p db k i] by simp

lemma incrby_served:
  assumes i: "in_i64 i"
  shows "served pf p db (incrbyCommand pf p (map BulkString [n, k, int_to_dec i])) (Incrby k i)"
  unfolding incrbyCommand_def try_number [OF i] bnd_ret option.case incrReply_def
  by (rule servedI, rule yields_as_db, simp only: word_at, (rule yields_as_steps incrby_on_db [OF i])+)
    (simp add: then_spec_def sum_effect_def split: option.split)

section \<open>A session\<close>

text \<open>The handler of a request.\<close>

primrec handler_of :: "request \<Rightarrow> string_handler" where
  "handler_of (Set k v) = SET" | "handler_of (Get k) = GET" | "handler_of (Del ks) = DEL"
| "handler_of (Exists ks) = EXISTS" | "handler_of (Setnx k v) = SETNX" | "handler_of (Strlen k) = STRLEN"
| "handler_of (Append k v) = APPENDTO" | "handler_of (Incrby k n) = INCRBY" | "handler_of (Mget ks) = MGET"

lemma handler_served: "proper r \<Longrightarrow> served pf p db (runDepth pf (Suc d) (StringH (handler_of r)) p (map BulkString (request_words r))) r"
  using set_served get_served del_served exists_served setnx_served strlen_served append_served incrby_served mget_served
  by (cases r) (simp_all add: handlerAct_def)

lemma logged_sel [simp]:
  "databases (logged wr ss w) = databases w" "w_clients (logged wr ss w) = w_clients w"
  "alone (logged wr ss w) = alone w"
  by (simp_all add: logged_def Let_def alone_def)

lemma sees_logged: "sees pf p db m out w \<Longrightarrow> sees pf p db m out (logged wr ss w)"
  by (rule sees_frame, assumption) (simp_all add: sees_def)

text \<open>The requests that the registry knows as writes; the log of a list of requests.\<close>

fun is_write :: "request \<Rightarrow> bool" where
  "is_write (Get k) = False"
| "is_write (Exists ks) = False"
| "is_write (Strlen k) = False"
| "is_write (Mget ks) = False"
| "is_write r = True"

definition log_of :: "request list \<Rightarrow> string" where
  "log_of rs = concat (map (\<lambda>r. serialize (command_of (request_words r))) (filter is_write rs))"

lemma log_of_simps [simp]: "log_of [] = ''''"
  "log_of (r # rs) = (if is_write r then serialize (command_of (request_words r)) else '''') @ log_of rs"
  by (simp_all add: log_of_def)

lemma request_row: "proper r \<Longrightarrow> \<exists>name ss n. request_words r = name # ss \<and>
    known name = Some (StringH (handler_of r), n, is_write r) \<and>
    \<not> (n > 0 \<and> int (length ss) + 1 \<noteq> n) \<and> \<not> (n < 0 \<and> int (length ss) + 1 < - n)"
  by (cases r) (simp_all add: known_names Suc_le_eq ex_bool_eq)

lemma execute_request:
  assumes "proper r" "sees pf p db m out w"
  obtains w' where "executeCommand pf p (command_of (request_words r)) w = (Inr (), w')"
    "sees pf p db (snd (store_step r m)) (out @ fst (store_step r m)) w'" "log_grows (log_of [r]) w w'"
proof -
  from handler_served [OF assms(1), of pf p db 3] have "yields_as pf p db (runDepth pf 4 (StringH (handler_of r)) p (map BulkString (request_words r)))
      (\<lambda>m. ((), store_step r m))" by (simp add: served_def eval_nat_numeral)
  from yields_asD [OF this assms(2)] obtain w1 where
    run: "runDepth pf 4 (StringH (handler_of r)) p (map BulkString (request_words r)) w = (Inr (), w1)"
    and w1: "sees pf p db (snd (store_step r m)) (out @ fst (store_step r m)) w1" "same_log w w1" by auto
  from assms(2) obtain c where c: "w_clients w p = Some c" "\<not> hasFlag CLIENT_MULTI c" and w: "alone w"
    by (auto simp: sees_def plain_def)
  have "alone w1" using w1 by (simp add: sees_def)
  moreover obtain name ss n where nm: "request_words r = name # ss" "known name = Some (StringH (handler_of r), n, is_write r)"
    "\<not> (n > 0 \<and> int (length ss) + 1 \<noteq> n)" "\<not> (n < 0 \<and> int (length ss) + 1 < - n)"
    using request_row [OF assms(1)] by blast
  ultimately have "executeCommand pf p (command_of (request_words r)) w = (Inr (), logged (is_write r) (request_words r) w1)"
    using execute_known [OF c(1) _ w nm(2-4)] c(2) run by (simp add: queued_def)
  moreover have "log_grows (log_of [r]) w (logged (is_write r) (request_words r) w1)"
    using w1(2) nm(1) by (simp add: log_grows_def same_log_def logged_def Let_def reply_bulkStringArray_serialize command_of_def)
  ultimately show thesis using that sees_logged [OF w1(1)] by blast
qed

text \<open>The commands of one read event, in order.\<close>

lemma input_session:
  "\<forall>r \<in> set rs. proper r \<Longrightarrow> sees pf p db m out w \<Longrightarrow> p \<notin> masters w \<Longrightarrow>
    \<exists>w'. inputLoop pf p (map (\<lambda>r. command_of (request_words r)) rs) w = (Inr (), w') \<and>
      sees pf p db (snd (store_run rs m)) (out @ fst (store_run rs m)) w' \<and> log_grows (log_of rs) w w'"
proof (induction rs arbitrary: m out w)
  case Nil
  then show ?case by (simp add: act_apply log_grows_def same_log_def)
next
  case (Cons r rs)
  from Cons.prems have "proper r" by simp
  then obtain w1 where run: "executeCommand pf p (command_of (request_words r)) w = (Inr (), w1)"
    and w1: "sees pf p db (snd (store_step r m)) (out @ fst (store_step r m)) w1" "log_grows (log_of [r]) w w1"
    using execute_request Cons.prems(2) by blast
  from Cons.prems(1) have "\<forall>r \<in> set rs. proper r" by simp
  have "p \<notin> masters w1" using w1(2) Cons.prems(3) by (simp add: log_grows_def same_log_def)
  from Cons.IH [OF \<open>\<forall>r \<in> set rs. proper r\<close> w1(1) this] obtain w2 where w2: "inputLoop pf p (map (\<lambda>r. command_of (request_words r)) rs) w1 = (Inr (), w2)"
    "sees pf p db (snd (store_run (r # rs) m)) (out @ fst (store_run (r # rs) m)) w2" "log_grows (log_of (r # rs)) w w2"
    using w1(2) by (auto simp: Let_def case_prod_beta log_grows_def same_log_def)
  from Cons.prems(2) w1(1) obtain c c1 where "w_clients w p = Some c" "plain c" "w_clients w1 p = Some c1" "plain c1"
    unfolding sees_def by blast
  then have "inputLoop pf p (map (\<lambda>r. command_of (request_words r)) (r # rs)) w = (Inr (), w2)"
    using w2(1) Cons.prems(3) by (simp add: masters_def has_def bnd_theClient bnd_gets bnd_run [where m = "executeCommand pf p a" for a, OF run] plain_def)
  with w2(2,3) show ?case by blast
qed

lemma sees_update:
  assumes "sees pf p db m out w" "w_clients w p = Some c" "databases w' = databases w" "alone w'"
    "w_clients w' = (w_clients w)(p \<mapsto> c')" "plain c'" "selectedDb c' = selectedDb c"
  shows "sees pf p db m (outputBuffer c') w'"
proof -
  have "spaces_ok pf w'" by (rule spaces_ok_frame [where w = w]) (use assms in \<open>auto simp: sees_def\<close>)
  moreover have "holds m (openDb i w') = holds m (openDb i w)" for i using assms(3) by (simp add: openDb_def Let_def holds_def view_def)
  ultimately show ?thesis using assms by (auto simp: sees_def dbIndex_def)
qed

lemma sees_client:
  assumes "sees pf p db m out w" "w_clients w p = Some c"
    "flags c' = flags c" "selectedDb c' = selectedDb c" "outputBuffer c' = outputBuffer c"
  shows "sees pf p db m out (w\<lparr>w_clients := (w_clients w)(p \<mapsto> c')\<rparr>)"
  using sees_update [OF assms(1,2), of "w\<lparr>w_clients := (w_clients w)(p \<mapsto> c')\<rparr>" c'] assms plain_flags [OF assms(3)]
  by (auto simp: sees_def alone_def)

lemma answer_pending:
  assumes "w_clients w p = Some c"
  shows "\<exists>el. bnd (theClient p) (\<lambda>c. if hasPendingOutput c then installWriteHandler p else ret ()) w =
    (Inr (), w\<lparr>eventLoop := el\<rparr>)"
  using assms by (auto simp: bnd_theClient installWriteHandler_def bnd_gets onLoop_def act_apply intro: exI [of _ "eventLoop w"])

section \<open>A read event\<close>

definition fresh_input :: "int \<Rightarrow> client \<Rightarrow> client" where
  "fresh_input now c = c\<lparr>inputBuffer := '''', lastInteraction := now\<rparr>"

definition receivable :: "platform \<Rightarrow> RespValue list \<Rightarrow> bool" where
  "receivable pf cmds \<longleftrightarrow> cmds \<noteq> [] \<and> (\<forall>cmd \<in> set cmds. wire_ok cmd \<and> (\<forall>n \<in> array_sizes cmd. reserve_ok pf n)) \<and>
     length (concat (map serialize cmds)) \<le> MAX_INPUT_BUFFER"

lemma receive_commands:
  assumes c: "inputBuffer c = ''''" and cmds: "receivable pf cmds"
  defines "bytes \<equiv> concat (map serialize cmds)"
  shows "parse (reserve_ok pf) bytes = Inr \<lparr>commands = cmds, bytesConsumed = length bytes\<rparr>" "0 < length bytes"
    "readFromSocket (Received bytes) (steady_ms pf) c = (int (length bytes), c\<lparr>inputBuffer := bytes, lastInteraction := steady_ms pf\<rparr>)"
    "consumeInput (length bytes) (c\<lparr>inputBuffer := bytes, lastInteraction := steady_ms pf\<rparr>) = fresh_input (steady_ms pf) c"
proof -
  show "parse (reserve_ok pf) bytes = Inr \<lparr>commands = cmds, bytesConsumed = length bytes\<rparr>"
    unfolding bytes_def using cmds by (intro parse_concat_serialize) (simp add: receivable_def)
  show "0 < length bytes" using cmds by (cases cmds) (simp_all add: receivable_def bytes_def)
  show "readFromSocket (Received bytes) (steady_ms pf) c = (int (length bytes), c\<lparr>inputBuffer := bytes, lastInteraction := steady_ms pf\<rparr>)"
    using c cmds by (simp add: readFromSocket_def Let_def receivable_def bytes_def)
  show "consumeInput (length bytes) (c\<lparr>inputBuffer := bytes, lastInteraction := steady_ms pf\<rparr>) = fresh_input (steady_ms pf) c"
    by (simp add: consumeInput_def fresh_input_def)
qed

lemma read_commands:
  assumes fd: "map_of (connections w) fd = Some p" and c: "w_clients w p = Some c" "inputBuffer c = ''''"
    and cmds: "receivable pf cmds"
    and run: "inputLoop pf p cmds (w\<lparr>w_clients := (w_clients w)(p \<mapsto> fresh_input (steady_ms pf) c)\<rparr>) = (Inr (), w3)"
    and alive: "w_clients w3 p = Some c3"
  shows "\<exists>el. onReadable pf fd (Received (concat (map serialize cmds))) w = (Inr (), w3\<lparr>eventLoop := el\<rparr>)"
proof -
  let ?bytes = "concat (map serialize cmds)"
  let ?w1 = "w\<lparr>w_clients := (w_clients w)(p \<mapsto> c\<lparr>inputBuffer := ?bytes, lastInteraction := steady_ms pf\<rparr>)\<rparr>"
  note rd = receive_commands [OF c(2) cmds]
  have input: "processClientInput pf p ?w1 = (Inr (), w3)"
    using rd(2) run by (simp add: processClientInput_def bnd_theClient bnd_lift bnd_setClient rd(1,4) del: inputLoop.simps)
  from answer_pending [OF alive] obtain el where
    "bnd (theClient p) (\<lambda>c. if hasPendingOutput c then installWriteHandler p else ret ()) w3 = (Inr (), w3\<lparr>eventLoop := el\<rparr>)" by blast
  then have "onReadable pf fd (Received ?bytes) w = (Inr (), w3\<lparr>eventLoop := el\<rparr>)"
    using rd(2) by (simp add: onReadable_def bnd_gets fd bnd_theClient [OF c(1)] rd(3) Let_def bnd_setClient [OF c(1)]
        bnd_run [where m = "processClientInput pf p", OF input])
  then show ?thesis by blast
qed

lemma sees_fresh:
  "sees pf p db m out w \<Longrightarrow> w_clients w p = Some c \<Longrightarrow>
    sees pf p db m out (w\<lparr>w_clients := (w_clients w)(p \<mapsto> fresh_input now c)\<rparr>)"
  by (rule sees_client) (simp_all add: fresh_input_def)

text \<open>What a loop over the commands does to what a client sees, a read event does.\<close>

lemma read_session:
  assumes w: "sees pf p db m out w" and fd: "map_of (connections w) fd = Some p"
    and c: "w_clients w p = Some c" "inputBuffer c = ''''" and cmds: "receivable pf cmds"
    and run: "\<exists>w'. inputLoop pf p cmds (w\<lparr>w_clients := (w_clients w)(p \<mapsto> fresh_input (steady_ms pf) c)\<rparr>) = (Inr (), w') \<and>
      sees pf p db m' out' w'"
  shows "\<exists>w'. onReadable pf fd (Received (concat (map serialize cmds))) w = (Inr (), w') \<and> sees pf p db m' out' w'"
proof -
  from run obtain w3 where w3: "inputLoop pf p cmds (w\<lparr>w_clients := (w_clients w)(p \<mapsto> fresh_input (steady_ms pf) c)\<rparr>) = (Inr (), w3)"
    "sees pf p db m' out' w3" by blast
  then obtain c3 where "w_clients w3 p = Some c3" by (auto simp: sees_def)
  from read_commands [OF fd c cmds w3(1) this] obtain el where
    "onReadable pf fd (Received (concat (map serialize cmds))) w = (Inr (), w3\<lparr>eventLoop := el\<rparr>)" by blast
  moreover have "sees pf p db m' out' (w3\<lparr>eventLoop := el\<rparr>)"
    by (rule sees_frame [OF w3(2)]) (use w3(2) in \<open>simp_all add: sees_def alone_def\<close>)
  ultimately show ?thesis by blast
qed

text \<open>The commands of a list of requests.\<close>

definition request_commands :: "request list \<Rightarrow> RespValue list" where
  "request_commands rs = map (\<lambda>r. command_of (request_words r)) rs"

text \<open>C1: A client that sends any pipeline of SET, GET, DEL, EXISTS, SETNX, STRLEN, APPEND, INCRBY and
  MGET requests on its connection is served as by a finite map from strings to strings: the read
  event parses the requests, dispatches and executes them in order, and appends to the client's
  output exactly the replies of the map machine, errors included; the database then holds exactly
  the machine's map. The server is taken without replicas and without a memory limit, and the
  client neither in a transaction nor a master.\<close>

theorem session_refines_map:
  assumes w: "sees pf p db m out w" and fd: "map_of (connections w) fd = Some p"
    and c: "w_clients w p = Some c" "inputBuffer c = ''''" "\<not> hasFlag CLIENT_MASTER c"
    and rs: "\<forall>r \<in> set rs. proper r" "receivable pf (request_commands rs)"
  shows "\<exists>w'. onReadable pf fd (Received (concat (map serialize (request_commands rs)))) w = (Inr (), w') \<and>
    sees pf p db (snd (store_run rs m)) (out @ fst (store_run rs m)) w'"
proof -
  have "p \<notin> masters (w\<lparr>w_clients := (w_clients w)(p \<mapsto> fresh_input (steady_ms pf) c)\<rparr>)"
    using c(3) by (simp add: masters_def has_def fresh_input_def hasFlag_def)
  with input_session [OF rs(1) sees_fresh [OF w c(1)]] show ?thesis
    by (intro read_session [OF w fd c(1,2) rs(2)]) (auto simp: request_commands_def)
qed

definition oneClient :: world where
  "oneClient = (newServer defaultConfig (\<lambda>_. None) (\<lambda>_. '''') 0)\<lparr>databases := [emptyDatabase], w_clients := [7 \<mapsto> newClient 3 1 0], connections := [(3, 7)]\<rparr>"

lemma oneClient_sees: "sees samplePlatform 7 0 Map.empty '''' oneClient"
proof -
  have "plain (newClient 3 1 0)" by (simp add: plain_def newClient_def hasFlag_def)
  then show ?thesis
    by (simp add: sees_def oneClient_def newServer_def defaultConfig_def alone_def spaces_ok_def ks_ok_def openDb_def
        emptyDatabase_def holds_def view_def newClient_def dbIndex_def)
qed

theorem session_refines_map_witness:
  "\<exists>w' c. onReadable samplePlatform 3 (Received (concat (map serialize (request_commands [Set ''k'' ''v'', Get ''k''])))) oneClient = (Inr (), w') \<and>
    w_clients w' 7 = Some c \<and> outputBuffer c = ''+OK'' @ CRLF @ ''$1'' @ CRLF @ ''v'' @ CRLF"
proof -
  let ?rs = "[Set ''k'' ''v'', Get ''k'']"
  have "receivable samplePlatform (request_commands ?rs)"
    by (simp add: receivable_def request_commands_def command_of_def in_i64_def i64_min_def i64_max_def samplePlatform_def
        MAX_INPUT_BUFFER_def nat_to_dec.simps)
  moreover have "map_of (connections oneClient) 3 = Some 7" "w_clients oneClient 7 = Some (newClient 3 1 0)"
    by (simp_all add: oneClient_def)
  ultimately obtain w' where run: "onReadable samplePlatform 3 (Received (concat (map serialize (request_commands ?rs)))) oneClient = (Inr (), w')"
    and w': "sees samplePlatform 7 0 (snd (store_run ?rs Map.empty)) ('''' @ fst (store_run ?rs Map.empty)) w'"
    using session_refines_map [OF oneClient_sees, of 3 "newClient 3 1 0" ?rs] by (auto simp: newClient_def hasFlag_def simp del: store_run.simps)
  have "fst (store_run ?rs Map.empty) = ''+OK'' @ CRLF @ ''$1'' @ CRLF @ ''v'' @ CRLF"
    by (simp add: text_reply_def reply_defs reply_bulkString_def nat_to_dec.simps digit_char_def char_of_def bit_0)
  with run w' show ?thesis by (auto simp: sees_def)
qed

end
