(* ===== verification/RdbSpec.thy ===== *)
theory RdbSpec
  imports Rdb Keys
begin

text \<open>
  What a snapshot is worth: the locale \<open>codec\<close> states that a writer and a reader belong
  together, and its lemmas lift them to the loops of both sides; the interpretations are the
  code's writers and readers. On top, the theorem that loading a saved file restores every
  key that was visible, with its value and expiry time.
\<close>

section \<open>Writers and readers that belong together\<close>

definition advance :: "string \<Rightarrow> string \<Rightarrow> rdb_in \<Rightarrow> rdb_in" where
  "advance s rest st = st\<lparr>in_rest := rest, in_crc := crc64_update (in_crc st) s\<rparr>"

definition ahead :: "rdb_in \<Rightarrow> string \<Rightarrow> string \<Rightarrow> bool" where
  "ahead st s rest \<longleftrightarrow> in_good st \<and> in_rest st = s @ rest"

lemma ahead_advance: "in_good st \<Longrightarrow> ahead (advance s (t @ rest) st) t rest"
  by (simp add: ahead_def advance_def)

lemma ahead_advance_iff [simp]: "ahead (advance s r st) t rest \<longleftrightarrow> in_good st \<and> r = t @ rest"
  by (simp add: ahead_def advance_def)

lemma ahead_append: "ahead st (s @ t) rest \<longleftrightarrow> ahead st s (t @ rest)"
  by (simp add: ahead_def)

lemma ahead_good [dest]: "ahead st s rest \<Longrightarrow> in_good st"
  by (simp add: ahead_def)

lemma advance_sel [simp]:
  "in_good (advance s rest st) = in_good st" "in_rest (advance s rest st) = rest"
  "in_crc (advance s rest st) = crc64_update (in_crc st) s"
  by (simp_all add: advance_def)

lemma advance_advance [simp]: "advance t rest' (advance s rest st) = advance (s @ t) rest' st"
  by (simp add: advance_def)

lemma emit_emit [simp]: "emit t (emit s out) = emit (s @ t) out"
  by (simp add: emit_def)

lemma emit_Nil [simp]: "emit [] out = out"
  by (simp add: emit_def)

lemma emit_all [simp]: "foldl (\<lambda>out x. emit (f x) out) out xs = emit (concat (map f xs)) out"
  by (induction xs arbitrary: out) simp_all

lemma rd_bnd_Inr: "m st = Inr (x, st') \<Longrightarrow> rd_bnd m f st = f x st'"
  by (simp add: rd_bnd_def)

primrec addAll :: "('a \<Rightarrow> 'b \<Rightarrow> 'b option) \<Rightarrow> 'a list \<Rightarrow> 'b \<Rightarrow> 'b option" where
  "addAll add [] acc = Some acc"
| "addAll add (x # xs) acc = do { acc' \<leftarrow> add x acc; addAll add xs acc' }"

locale codec =
  fixes wr :: "'a \<Rightarrow> rdb_out \<Rightarrow> rdb_out" and rd :: "'a reader"
    and enc :: "'a \<Rightarrow> string" and valid :: "'a \<Rightarrow> bool"
  assumes wr_enc: "wr x out = emit (enc x) out"
    and rd_enc: "valid x \<Longrightarrow> ahead st (enc x) rest \<Longrightarrow> rd st = Inr (x, advance (enc x) rest st)"
begin

lemma write_all: "foldl (\<lambda>out x. wr x out) out xs = emit (concat (map enc xs)) out"
  by (induction xs arbitrary: out) (simp_all add: wr_enc)

lemma read_all:
  assumes "\<forall>x \<in> set xs. valid x" "ahead st (concat (map enc xs)) rest" "addAll add xs acc = Some r"
  shows "readInto (length xs) rd add acc st = Inr (r, advance (concat (map enc xs)) rest st)"
  using assms
proof (induction xs arbitrary: st acc)
  case Nil
  then show ?case by (simp add: rd_ret_def advance_def ahead_def)
next
  case (Cons x xs)
  then have one: "rd st = Inr (x, advance (enc x) (concat (map enc xs) @ rest) st)"
    by (intro rd_enc) (simp_all add: ahead_append)
  from Cons.prems(3) obtain acc' where acc': "add x acc = Some acc'" "addAll add xs acc' = Some r"
    by (auto split: Option.bind_splits)
  have "in_good st" using Cons.prems(2) by blast
  with Cons acc' one show ?case
    by (simp add: rd_bnd_Inr)
qed

lemma read_then: "valid x \<Longrightarrow> ahead st (enc x) rest \<Longrightarrow> rd_bnd rd f st = f x (advance (enc x) rest st)"
  by (rule rd_bnd_Inr [OF rd_enc])

end

text \<open>A pair is written and read one component after the other.\<close>

locale codec_pair = fst_codec: codec write1 read1 enc1 valid1 + snd_codec: codec write2 read2 enc2 valid2
  for write1 :: "'a \<Rightarrow> rdb_out \<Rightarrow> rdb_out" and read1 enc1 valid1
    and write2 :: "'b \<Rightarrow> rdb_out \<Rightarrow> rdb_out" and read2 enc2 valid2

sublocale codec_pair \<subseteq> both: codec "\<lambda>p out. write2 (snd p) (write1 (fst p) out)" "readPair read1 read2"
    "\<lambda>p. enc1 (fst p) @ enc2 (snd p)" "\<lambda>p. valid1 (fst p) \<and> valid2 (snd p)"
proof
  fix p :: "'a \<times> 'b" and st rest out
  show "write2 (snd p) (write1 (fst p) out) = emit (enc1 (fst p) @ enc2 (snd p)) out"
    by (simp add: fst_codec.wr_enc snd_codec.wr_enc)
  assume *: "valid1 (fst p) \<and> valid2 (snd p)" "ahead st (enc1 (fst p) @ enc2 (snd p)) rest"
  then have good: "in_good st" and first: "ahead st (enc1 (fst p)) (enc2 (snd p) @ rest)"
    by (auto simp: ahead_append)
  have second: "ahead (advance (enc1 (fst p)) (enc2 (snd p) @ rest) st) (enc2 (snd p)) rest"
    using good by simp
  show "readPair read1 read2 st = Inr (p, advance (enc1 (fst p) @ enc2 (snd p)) rest st)"
    using * by (simp add: readPair_def rd_ret_def fst_codec.read_then [OF _ first] snd_codec.read_then [OF _ second])
qed

lemma readExact_ahead: "ahead st s rest \<Longrightarrow> length s = n \<Longrightarrow> readExact n st = Inr (s, advance s rest st)"
  by (auto simp: readExact_def takeBytes_def ahead_def account_def advance_def)

interpretation rdb_byte: codec writeByte readByte "\<lambda>n. [char_of n]" "\<lambda>n. n < 256"
  by unfold_locales
    (simp_all add: writeByte_def readByte_def rd_bnd_Inr [OF readExact_ahead] rd_ret_def of_char_of)

interpretation rdb_length: codec writeLength readLength "le_bytes 8" "\<lambda>n. n < 2 ^ 64"
  by unfold_locales
    (simp_all add: writeLength_def readLength_def rd_bnd_Inr [OF readExact_ahead] rd_ret_def)

interpretation rdb_double: codec writeDouble readDouble "\<lambda>d. le_bytes 8 (unat d)" "\<lambda>_. True"
proof unfold_locales
  fix d :: double and st rest
  assume "ahead st (le_bytes 8 (unat d)) rest"
  moreover have "unat d mod 256 ^ 8 = unat d" using unsigned_less [of d, where ?'a = nat] by simp
  ultimately show "readDouble st = Inr (d, advance (le_bytes 8 (unat d)) rest st)"
    by (simp add: readDouble_def rd_bnd_Inr [OF readExact_ahead] rd_ret_def)
qed (simp add: writeDouble_def)

definition enc_string :: "string \<Rightarrow> string" where
  "enc_string s = le_bytes 8 (length s) @ s"

interpretation rdb_string: codec writeString "readString can_reserve" enc_string
    "\<lambda>s. length s < 2 ^ 64 \<and> can_reserve (length s)"
  for can_reserve :: "nat \<Rightarrow> bool"
proof unfold_locales
  fix s st rest
  assume *: "length s < 2 ^ 64 \<and> can_reserve (length s)" "ahead st (enc_string s) rest"
  then have a: "ahead st (le_bytes 8 (length s)) (s @ rest)" by (simp add: enc_string_def ahead_append)
  then have "in_good st" by blast
  with *(1) show "readString can_reserve st = Inr (s, advance (enc_string s) rest st)"
    by (simp add: readString_def rdb_length.read_then [OF _ a] takeBytes_def Let_def account_def enc_string_def
        advance_def)
qed (simp add: writeString_def rdb_length.wr_enc enc_string_def emit_emit)

interpretation rdb_field: codec_pair writeString "readString can_reserve" enc_string
    "\<lambda>s. length s < 2 ^ 64 \<and> can_reserve (length s)"
    writeString "readString can_reserve" enc_string "\<lambda>s. length s < 2 ^ 64 \<and> can_reserve (length s)"
  for can_reserve :: "nat \<Rightarrow> bool"
  by unfold_locales

interpretation rdb_member: codec_pair writeString "readString can_reserve" enc_string
    "\<lambda>s. length s < 2 ^ 64 \<and> can_reserve (length s)"
    writeDouble readDouble "\<lambda>d. le_bytes 8 (unat d)" "\<lambda>_. True"
  for can_reserve :: "nat \<Rightarrow> bool"
  by unfold_locales

section \<open>Values\<close>

text \<open>What a value looks like in the file: a type code and the contents in stored order.\<close>

datatype image = IString string | IList "string list" | IHash "(string \<times> string) list"
  | ISet "string list" | IZset "(string \<times> double) list" | INone

fun image_of :: "contents \<Rightarrow> image" where
  "image_of (StringObject s) = IString s"
| "image_of (ListObject l) = IList (case ll_range 0 (-1) l of Some xs \<Rightarrow> xs | None \<Rightarrow> [])"
| "image_of (HashObject h) = IHash (ht_entries h)"
| "image_of (SetObject s) = ISet (hs_members s)"
| "image_of (SortedSetObject z) = IZset (case ss_rangeByRank 64 0 (-1) z of Some es \<Rightarrow> es | None \<Rightarrow> [])"
| "image_of NoObject = INone"

fun im_code :: "image \<Rightarrow> nat" where
  "im_code (IString s) = RDB_TYPE_STRING"
| "im_code (IList xs) = RDB_TYPE_LIST"
| "im_code (IHash es) = RDB_TYPE_HASH"
| "im_code (ISet ms) = RDB_TYPE_SET"
| "im_code (IZset es) = RDB_TYPE_ZSET"
| "im_code INone = 5"

fun im_payload :: "image \<Rightarrow> string" where
  "im_payload (IString s) = enc_string s"
| "im_payload (IList xs) = le_bytes 8 (length xs) @ concat (map enc_string xs)"
| "im_payload (IHash es) = le_bytes 8 (length es) @ concat (map (\<lambda>p. enc_string (fst p) @ enc_string (snd p)) es)"
| "im_payload (ISet ms) = le_bytes 8 (length ms) @ concat (map enc_string ms)"
| "im_payload (IZset es) = le_bytes 8 (length es) @
     concat (map (\<lambda>p. enc_string (fst p) @ le_bytes 8 (unat (snd p))) es)"
| "im_payload INone = []"

text \<open>
  Values a snapshot can carry: lengths within the types, strings that can be allocated,
  sorted sets whose scores are numbers.
\<close>

definition fits :: "(nat \<Rightarrow> bool) \<Rightarrow> string \<Rightarrow> bool" where
  "fits can_reserve s \<longleftrightarrow> length s < 2 ^ 64 \<and> can_reserve (length s)"

fun storable :: "(nat \<Rightarrow> bool) \<Rightarrow> contents \<Rightarrow> bool" where
  "storable can_reserve (StringObject s) = fits can_reserve s"
| "storable can_reserve (ListObject l) =
     (ll_size l < 2 ^ 31 \<and> (\<forall>xs. ll_is l xs \<longrightarrow> (\<forall>x \<in> set xs. fits can_reserve x)))"
| "storable can_reserve (HashObject h) =
     (ht_size h < 2 ^ 64 \<and> (\<forall>p \<in> set (ht_entries h). fits can_reserve (fst p) \<and> fits can_reserve (snd p)))"
| "storable can_reserve (SetObject s) = (hs_size s < 2 ^ 64 \<and> (\<forall>m \<in> set (hs_members s). fits can_reserve m))"
| "storable can_reserve (SortedSetObject z) =
     (\<exists>es. ss_lists z es \<and> length es < 2 ^ 31 \<and> (\<forall>e \<in> set es. fits can_reserve (fst e)))"
| "storable can_reserve NoObject = False"

text \<open>Two values that stand for the same string, sequence, map, set or ordered list of entries.\<close>

fun same_value :: "contents \<Rightarrow> contents \<Rightarrow> bool" where
  "same_value (StringObject s) v \<longleftrightarrow> v = StringObject s"
| "same_value (ListObject l) v \<longleftrightarrow> (\<exists>l' xs. v = ListObject l' \<and> ll_is l xs \<and> ll_is l' xs)"
| "same_value (HashObject h) v \<longleftrightarrow> (\<exists>h'. v = HashObject h' \<and> ht_abs h' = ht_abs h)"
| "same_value (SetObject s) v \<longleftrightarrow> (\<exists>s'. v = SetObject s' \<and> hs_elems s' = hs_elems s)"
| "same_value (SortedSetObject z) v \<longleftrightarrow> (\<exists>z' es. v = SortedSetObject z' \<and> ss_lists z es \<and> ss_lists z' es)"
| "same_value NoObject v \<longleftrightarrow> v = NoObject"

lemma whole_slice: "slice xs 0 (-1) = xs"
  by (cases xs) (simp_all add: slice_def position_def)

lemma image_list:
  assumes "ll_is l xs" "length xs < 2 ^ 31"
  shows "image_of (ListObject l) = IList xs"
  using ll_range_is [OF assms, of 0 "-1"] by (simp add: whole_slice)

lemma writeElements_emit:
  assumes "ll_is l xs" "length xs < 2 ^ 31"
  shows "\<forall>j \<in> set js. j < length xs \<Longrightarrow>
    writeElements l (map int js) out = Some (emit (concat (map (\<lambda>j. enc_string (xs ! j)) js)) out)"
proof (induction js arbitrary: out)
  case (Cons j js)
  then have "ll_get (int j) l = Some (Some (xs ! j))"
    using ll_get_is [OF assms, of "int j"] assms(2) by (simp add: position_def)
  with Cons show ?case by (simp add: rdb_string.wr_enc)
qed simp

lemma writeElements_all:
  assumes "ll_is l xs" "length xs < 2 ^ 31"
  shows "writeElements l (intRange (length xs)) out = Some (emit (concat (map enc_string xs)) out)"
proof -
  have "map (\<lambda>j. enc_string (xs ! j)) [0..<length xs] = map enc_string xs"
    by (rule nth_equalityI) simp_all
  then show ?thesis
    using writeElements_emit [OF assms, of "[0..<length xs]"] wrap32_id [of "int (length xs)"] assms(2)
    by (simp add: intRange_def)
qed

lemmas write_emits = rdb_byte.wr_enc rdb_length.wr_enc rdb_string.wr_enc rdb_string.write_all
  rdb_double.wr_enc

lemma redis_range_all: "redis_range es 0 (-1) = es"
proof -
  have "filter (\<lambda>i. 0 \<le> int i \<and> int i \<le> int (length es) + -1) [0..<length es] = [0..<length es]"
    by (auto simp: filter_id_conv)
  then show ?thesis by (simp add: redis_range_def Let_def map_nth)
qed

lemma whole_zset:
  assumes "ss_ok hf z" "ss_lists z es" "length es < 2 ^ 31" "lb \<in> {32, 64}"
  shows "ss_rangeByRank lb 0 (-1) z = Some es" "ss_size z = length es"
proof -
  have rep: "ss_rep hf z es" using assms(1,2) by (simp add: ss_rep_lists ss_ok_def)
  have "lb = (if lb = 64 then 64 else 32)" using assms(4) by auto
  then obtain wide where lb: "lb = (if wide then 64 else 32)" by blast
  show "ss_rangeByRank lb 0 (-1) z = Some es"
    unfolding lb using ss_rangeByRank_rep [OF rep assms(3), of 0 "-1" wide] redis_range_all [of es] by simp
  show "ss_size z = length es" by (rule ss_size_rep [OF rep])
qed

lemma image_zset:
  "ss_ok hf z \<Longrightarrow> ss_lists z es \<Longrightarrow> length es < 2 ^ 31 \<Longrightarrow> image_of (SortedSetObject z) = IZset es"
  using whole_zset(1) [of hf z es 64] by simp

lemma writeValue_emit:
  assumes "contents_ok hf v" "storable can_reserve v" "long_bits pf \<in> {32, 64}"
  shows "writeValue pf key v out =
    Some (emit (char_of (im_code (image_of v)) # enc_string key @ im_payload (image_of v)) out)"
proof (cases v)
  case (ListObject l)
  with assms obtain xs where xs: "ll_is l xs" "length xs < 2 ^ 31" "ll_size l = length xs"
    using ll.count_ok by fastforce
  with ListObject image_list [OF xs(1,2)] show ?thesis
    by (simp add: writeValue_def writeElements_all write_emits del: image_of.simps)
next
  case (HashObject h)
  with assms ht.entries_length [of hf h] show ?thesis
    by (simp add: writeValue_def write_emits)
next
  case (SetObject s)
  with assms hs.members_length [of hf s] show ?thesis
    by (simp add: writeValue_def write_emits)
next
  case (SortedSetObject z)
  with assms obtain es where es: "ss_ok hf z" "ss_lists z es" "length es < 2 ^ 31" by auto
  with SortedSetObject whole_zset [OF es assms(3)] image_zset [OF es] show ?thesis
    by (simp add: writeValue_def write_emits del: image_of.simps)
qed (use assms in \<open>simp_all add: writeValue_def write_emits\<close>)

lemma map_of_rev_distinct: "distinct (map fst es) \<Longrightarrow> map_of (rev es) = map_of es"
  by (rule map_of_inject_set [THEN iffD2]) (simp_all add: rev_map [symmetric])

lemma addAll_pushBack: "ll_is l xs \<Longrightarrow> \<exists>l'. addAll ll_pushBack ys l = Some l' \<and> ll_is l' (xs @ ys)"
proof (induction ys arbitrary: l xs)
  case (Cons y ys)
  from ll.pushBack_ok [OF Cons.prems] obtain l1 where "ll_pushBack y l = Some l1" "ll_is l1 (xs @ [y])" by blast
  with Cons.IH [of l1 "xs @ [y]"] show ?case by auto
qed simp

lemma addAll_hash:
  "ht_inv hf h \<Longrightarrow> \<exists>h'. addAll (\<lambda>(f, v) h. Some (snd (ht_set hf f v h))) es h = Some h' \<and>
     ht_inv hf h' \<and> ht_abs h' = ht_abs h ++ map_of (rev es)"
proof (induction es arbitrary: h)
  case (Cons e es)
  obtain f v where e: "e = (f, v)" by (cases e)
  have "ht_inv hf (snd (ht_set hf f v h))" using Cons.prems by (rule ht.put_inv)
  from Cons.IH [OF this, unfolded ht.put_abs [OF Cons.prems]] obtain h' where
    h': "addAll (\<lambda>(f, v) h. Some (snd (ht_set hf f v h))) es (snd (ht_set hf f v h)) = Some h'"
    "ht_inv hf h'" "ht_abs h' = (ht_abs h)(f \<mapsto> v) ++ map_of (rev es)" by blast
  have "ht_abs h ++ map_of (rev (e # es)) = ht_abs h'" unfolding h'(3) by (simp add: e)
  with h'(1,2) show ?case by (simp add: e)
qed simp

lemma addAll_set:
  "ht_inv hf s \<Longrightarrow> \<exists>s'. addAll (\<lambda>m s. Some (snd (hs_add hf m s))) ms s = Some s' \<and>
     ht_inv hf s' \<and> hs_elems s' = hs_elems s \<union> set ms"
proof (induction ms arbitrary: s)
  case (Cons m ms)
  have "ht_inv hf (snd (hs_add hf m s))" using Cons.prems by (rule hs.add_inv)
  from Cons.IH [OF this] show ?case by (auto simp: hs.add_elems [OF Cons.prems])
qed simp

lemma read_count:
  assumes "n < 2 ^ 64" "ahead st (le_bytes 8 n @ s) rest"
  shows "rd_bnd readLength f st = f n (advance (le_bytes 8 n) (s @ rest) st)"
  using assms by (intro rdb_length.read_then) (simp_all add: ahead_append)

lemma readValue_list:
  assumes "length xs < 2 ^ 64" "\<forall>x \<in> set xs. fits can_reserve x" "ahead st (im_payload (IList xs)) rest"
  shows "\<exists>l. readValue pf can_reserve RDB_TYPE_LIST st =
      Inr (Some (ListObject l), advance (im_payload (IList xs)) rest st) \<and> ll_is l xs"
proof -
  from addAll_pushBack [OF ll.new_rep, of xs] obtain l where l: "addAll ll_pushBack xs newList = Some l" "ll_is l xs"
    by auto
  have good: "in_good st" using assms(3) by blast
  from l(2) rdb_string.read_all [of xs can_reserve, OF _ ahead_advance [OF good] l(1)] assms show ?thesis
    by (auto simp: readValue_def rdb_codes read_count [OF assms(1), of st "concat (map enc_string xs)"] fits_def
        rd_bnd_Inr rd_ret_def)
qed

lemma readValue_hash:
  assumes "length es < 2 ^ 64" "\<forall>p \<in> set es. fits can_reserve (fst p) \<and> fits can_reserve (snd p)"
    and "distinct (map fst es)" "ahead st (im_payload (IHash es)) rest"
  shows "\<exists>h. readValue pf can_reserve RDB_TYPE_HASH st =
      Inr (Some (HashObject h), advance (im_payload (IHash es)) rest st) \<and> ht_inv (hasher pf) h \<and> ht_abs h = map_of es"
proof -
  from addAll_hash [OF ht.new_inv, of "hasher pf" es] assms(3) obtain h where
    h: "addAll (\<lambda>(f, v) h. Some (snd (ht_set (hasher pf) f v h))) es newTable = Some h"
    "ht_inv (hasher pf) h" "ht_abs h = map_of es"
    by (auto simp: ht.new_abs map_of_rev_distinct)
  have good: "in_good st" using assms(4) by blast
  from h(2,3) rdb_field.both.read_all [of es can_reserve, OF _ ahead_advance [OF good] h(1)] assms show ?thesis
    by (auto simp: readValue_def rdb_codes fits_def rd_bnd_Inr rd_ret_def
        read_count [OF assms(1), of st "concat (map (\<lambda>p. enc_string (fst p) @ enc_string (snd p)) es)"])
qed

lemma readValue_set:
  assumes "length ms < 2 ^ 64" "\<forall>m \<in> set ms. fits can_reserve m" "ahead st (im_payload (ISet ms)) rest"
  shows "\<exists>s. readValue pf can_reserve RDB_TYPE_SET st =
      Inr (Some (SetObject s), advance (im_payload (ISet ms)) rest st) \<and> ht_inv (hasher pf) s \<and> hs_elems s = set ms"
proof -
  from addAll_set [OF hs.new_inv, of "hasher pf" ms] obtain s where
    s: "addAll (\<lambda>m s. Some (snd (hs_add (hasher pf) m s))) ms newSet = Some s"
    "ht_inv (hasher pf) s" "hs_elems s = set ms"
    by (auto simp: hs.new_elems)
  have good: "in_good st" using assms(3) by blast
  from s(2,3) rdb_string.read_all [of ms can_reserve, OF _ ahead_advance [OF good] s(1)] assms show ?thesis
    by (auto simp: readValue_def rdb_codes read_count [OF assms(1), of st "concat (map enc_string ms)"] fits_def
        rd_bnd_Inr rd_ret_def)
qed

lemma addAll_zset:
  "ss_rep hf z ds \<Longrightarrow> zsorted (ds @ es) \<Longrightarrow> distinct (map fst (ds @ es)) \<Longrightarrow>
    \<exists>z'. addAll (\<lambda>(m, s) z. map_option snd (ss_add hf m s z)) es z = Some z' \<and> ss_rep hf z' (ds @ es)"
proof (induction es arbitrary: z ds)
  case (Cons e es)
  obtain m s where e: "e = (m, s)" by (cases e)
  have "zsorted ((ds @ [(m, s)]) @ es)" using Cons.prems(2) by (simp add: e)
  then have "zsorted (ds @ [(m, s)])" by (rule zsorted_append)
  moreover have "m \<notin> fst ` set ds" using Cons.prems(3) by (auto simp: e)
  ultimately obtain z1
    where z1: "map_option snd (ss_add hf m s z) = Some z1" "ss_rep hf z1 (ds @ [(m, s)])"
    using ss_add_last [OF Cons.prems(1)] by blast
  with Cons.IH [of z1 "ds @ [(m, s)]"] Cons.prems(2,3) show ?case by (auto simp: e)
qed simp

lemma readValue_zset:
  assumes "length es < 2 ^ 64" "\<forall>e \<in> set es. fits can_reserve (fst e)" "zsorted es" "distinct (map fst es)"
    and "ahead st (im_payload (IZset es)) rest"
  shows "\<exists>z. readValue pf can_reserve RDB_TYPE_ZSET st =
      Inr (Some (SortedSetObject z), advance (im_payload (IZset es)) rest st) \<and> ss_rep (hasher pf) z es"
proof -
  let ?enc = "concat (map (\<lambda>p. enc_string (fst p) @ le_bytes 8 (unat (snd p))) es)"
  let ?st = "advance (le_bytes 8 (length es)) (?enc @ rest) st"
  from addAll_zset [OF ss_rep_new, of es "hasher pf" "rng_seed pf (length (in_rest ?st))"] assms(3,4) obtain z where
    z: "addAll (\<lambda>(m, s) z. map_option snd (ss_add (hasher pf) m s z)) es
        (newSortedSet (rng_seed pf (length (in_rest ?st)))) = Some z" "ss_rep (hasher pf) z es" by auto
  have good: "in_good st" using assms(5) by blast
  from z(2) rdb_member.both.read_all [of es can_reserve, OF _ ahead_advance [OF good] z(1)] assms show ?thesis
    by (auto simp: readValue_def rdb_codes fits_def rd_bnd_Inr rd_ret_def atPosition_def
        read_count [OF assms(1), of st ?enc])
qed

text \<open>Reading back what was written of a value gives the same value.\<close>

lemma readValue_image:
  assumes "contents_ok (hasher pf) v" "storable can_reserve v" "ahead st (im_payload (image_of v)) rest"
  shows "\<exists>v'. readValue pf can_reserve (im_code (image_of v)) st =
      Inr (Some v', advance (im_payload (image_of v)) rest st) \<and> same_value v v'"
proof (cases v)
  case (StringObject s)
  with assms show ?thesis
    by (simp add: readValue_def rdb_string.read_then fits_def rd_ret_def)
next
  case (ListObject l)
  with assms obtain xs where xs: "ll_is l xs" "length xs < 2 ^ 31" using ll.count_ok by fastforce
  with readValue_list [of xs can_reserve st rest pf] assms ListObject image_list [OF xs] show ?thesis
    by (fastforce simp del: image_of.simps im_payload.simps)
next
  case (HashObject h)
  with assms readValue_hash [of "ht_entries h" can_reserve st rest pf] ht.entries_length [of "hasher pf" h]
    ht.entries_distinct [of "hasher pf" h] ht.entries_abs [of "hasher pf" h] show ?thesis
    by (fastforce simp del: im_payload.simps)
next
  case (SetObject s)
  with assms readValue_set [of "hs_members s" can_reserve st rest pf] hs.members_length [of "hasher pf" s]
    hs.members_elems [of "hasher pf" s] show ?thesis
    by (fastforce simp del: im_payload.simps)
next
  case (SortedSetObject z)
  with assms obtain es where es: "ss_ok (hasher pf) z" "ss_lists z es" "length es < 2 ^ 31"
    "\<forall>e \<in> set es. fits can_reserve (fst e)" by auto
  have "zsorted es" "distinct (map fst es)" using es(2) by (simp_all add: ss_lists_def)
  with readValue_zset [OF _ es(4), of st rest pf] assms(3) es(2,3) image_zset [OF es(1-3)] SortedSetObject
  show ?thesis by (fastforce simp: ss_rep_lists simp del: image_of.simps im_payload.simps)
qed (use assms in simp_all)

section \<open>Saving a key space\<close>

definition enc_expiry :: "int option \<Rightarrow> string" where
  "enc_expiry t = (case t of None \<Rightarrow> '''' | Some t \<Rightarrow> char_of RDB_OPCODE_EXPIRETIME_MS # le_bytes 8 (nat t))"

definition enc_entry :: "string \<Rightarrow> entry \<Rightarrow> string" where
  "enc_entry key e = enc_expiry (snd e) @ char_of (im_code (image_of (fst e))) # enc_string key @ im_payload (image_of (fst e))"

text \<open>
  The deadline in the file is the time left, read with one look at the clock, added to a
  second one: it is later than the key's deadline by the time between the two.
\<close>

definition stamped :: "platform \<Rightarrow> string \<Rightarrow> entry \<Rightarrow> entry" where
  "stamped pf k e = (fst e, map_option (\<lambda>t. t + (stamp_ms pf k - system_ms pf)) (snd e))"

definition snapshot_of :: "platform \<Rightarrow> keyspace \<Rightarrow> string \<Rightarrow> entry option" where
  "snapshot_of pf ks k = map_option (stamped pf k) (visible pf ks k)"

text \<open>The clock does not run backwards between the two, and stands after 1970.\<close>

definition clock_ok :: "platform \<Rightarrow> bool" where
  "clock_ok pf \<longleftrightarrow> 0 \<le> system_ms pf \<and> (\<forall>k. system_ms pf \<le> stamp_ms pf k)"

lemma snapshot_None [simp]: "snapshot_of pf ks k = None \<longleftrightarrow> visible pf ks k = None"
  by (simp add: snapshot_of_def)

definition savable :: "platform \<Rightarrow> (nat \<Rightarrow> bool) \<Rightarrow> keyspace \<Rightarrow> bool" where
  "savable pf can_reserve ks \<longleftrightarrow> ks_ok pf ks \<and> long_bits pf \<in> {32, 64} \<and>
     (\<forall>k v t. visible pf ks k = Some (v, t) \<longrightarrow> fits can_reserve k \<and> storable can_reserve v \<and>
        (case t of None \<Rightarrow> True | Some t \<Rightarrow> in_i64 (t + (stamp_ms pf k - system_ms pf))))"

lemma pttl_view:
  "db_pttl pf k ks = (case view ks k of None \<Rightarrow> -2 | Some (v, None) \<Rightarrow> -1
     | Some (v, Some t) \<Rightarrow> (let r = wrap64 (t - system_ms pf) in if r \<le> 0 then -2 else r))"
  by (auto simp: db_pttl_def view_def split: option.split)

lemma visible_view:
  assumes "visible pf ks k = Some (v, t)"
  shows "view ks k = Some (v, t)" "\<And>s. t = Some s \<Longrightarrow> system_ms pf < s"
  using assms by (auto simp: visible_def view_def isExpired_def split: if_splits option.splits)

lemma writeExpiry_emit:
  assumes "view ks k = Some (v, t)" "clock_ok pf"
    and "\<And>s. t = Some s \<Longrightarrow> system_ms pf < s \<and> in_i64 (s + (stamp_ms pf k - system_ms pf))"
  shows "writeExpiry pf k ks out = emit (enc_expiry (snd (stamped pf k (v, t)))) out"
proof (cases t)
  case None
  with assms(1) show ?thesis by (simp add: writeExpiry_def pttl_view enc_expiry_def stamped_def)
next
  case (Some s)
  let ?s = "s + (stamp_ms pf k - system_ms pf)"
  from Some assms(2,3) have s: "system_ms pf < s" "in_i64 ?s" "0 \<le> system_ms pf" "system_ms pf \<le> stamp_ms pf k"
    by (auto simp: clock_ok_def)
  then have "in_i64 (s - system_ms pf)" by (simp add: in_i64_def i64_min_def)
  with s have p: "db_pttl pf k ks = s - system_ms pf"
    using assms(1) Some by (simp add: pttl_view)
  have "0 \<le> ?s" "?s < 2 ^ 64" using s by (simp_all add: in_i64_def i64_max_def)
  then have "(stamp_ms pf k + (s - system_ms pf)) mod 2 ^ 64 = ?s" by simp
  with p s Some show ?thesis
    by (simp add: writeExpiry_def enc_expiry_def write_emits stamped_def)
qed

lemma getObject_others [simp]:
  "watchedKeys (snd (db_getObject pf k ks)) = watchedKeys ks"
  "dom (clients (snd (db_getObject pf k ks))) = dom (clients ks)"
  by (auto simp: db_getObject_def checkAndExpire_def Let_def dom_def [symmetric] split: option.split)

lemma saveKeys_emit:
  assumes "clock_ok pf"
  shows "savable pf can_reserve ks \<Longrightarrow> \<forall>k \<in> set keys. visible pf ks k \<noteq> None \<Longrightarrow>
    \<exists>ks'. saveKeys pf keys ks out =
        Some (ks', emit (concat (map (\<lambda>k. enc_entry k (the (snapshot_of pf ks k))) keys)) out) \<and>
      visible pf ks' = visible pf ks \<and> watchedKeys ks' = watchedKeys ks \<and> dom (clients ks') = dom (clients ks)"
proof (induction keys arbitrary: ks out)
  case (Cons key keys)
  from Cons.prems(2) obtain v t where vis: "visible pf ks key = Some (v, t)" by auto
  have ok: "ks_ok pf ks" using Cons.prems(1) by (simp add: savable_def)
  obtain r ks1 where get: "db_getObject pf key ks = (r, ks1)" by fastforce
  with getObject_fst [OF ok, of key] vis obtain ob where ob: "r = Some ob" "obj_value ob = v" by auto
  have same: "visible pf ks1 = visible pf ks" using visible_getObject [OF ok, of key] get by simp
  have "contents_ok (hasher pf) v" using ks_okD(5) [OF ok] visible_view(1) [OF vis] by (auto simp: view_def)
  then have wr: "writeValue pf key v out = Some (emit (char_of (im_code (image_of v)) # enc_string key @ im_payload (image_of v)) out)"
    for out using Cons.prems(1) vis by (intro writeValue_emit) (auto simp: savable_def)
  have ex: "writeExpiry pf key ks1 out = emit (enc_expiry (snd (stamped pf key (v, t)))) out"
  proof (rule writeExpiry_emit)
    show "view ks1 key = Some (v, t)" using vis same visible_view(1) by metis
    show "\<And>s. t = Some s \<Longrightarrow> system_ms pf < s \<and> in_i64 (s + (stamp_ms pf key - system_ms pf))"
      using visible_view(2) [OF vis] Cons.prems(1) vis by (fastforce simp: savable_def)
  qed (rule assms)
  have "savable pf can_reserve ks1"
    using Cons.prems(1) getObject_ok [OF ok, of key] same get by (simp add: savable_def)
  moreover have "\<forall>k \<in> set keys. visible pf ks1 k \<noteq> None" using Cons.prems(2) same by simp
  ultimately obtain ks' where
    "saveKeys pf keys ks1 (emit (enc_entry key (stamped pf key (v, t))) out) =
        Some (ks', emit (concat (map (\<lambda>k. enc_entry k (the (snapshot_of pf ks k))) keys)) (emit (enc_entry key (stamped pf key (v, t))) out))"
    "visible pf ks' = visible pf ks" "watchedKeys ks' = watchedKeys ks1" "dom (clients ks') = dom (clients ks1)"
    using Cons.IH [of ks1 "emit (enc_entry key (stamped pf key (v, t))) out"] unfolding snapshot_of_def same by blast
  moreover have "watchedKeys ks1 = watchedKeys ks" "dom (clients ks1) = dom (clients ks)"
    using getObject_others [of pf key ks] get by simp_all
  ultimately show ?case using get ob wr ex vis by (simp add: enc_entry_def snapshot_of_def) (simp add: stamped_def)
qed simp

definition enc_header :: "nat \<Rightarrow> keyspace \<Rightarrow> string" where
  "enc_header i ks = char_of RDB_OPCODE_SELECTDB # le_bytes 8 i @ char_of RDB_OPCODE_RESIZEDB #
     le_bytes 8 (db_size ks) @ le_bytes 8 (db_expiresSize ks)"

definition enc_db :: "platform \<Rightarrow> nat \<Rightarrow> keyspace \<Rightarrow> string" where
  "enc_db pf i ks = (if data ks = [] then '''' else enc_header i ks @
     concat (map (\<lambda>k. enc_entry k (the (snapshot_of pf ks k))) (db_keys pf ''*'' ks)))"

lemma db_keys_visible:
  assumes "ks_ok pf ks"
  shows "set (db_keys pf ''*'' ks) = {k. visible pf ks k \<noteq> None}" "distinct (db_keys pf ''*'' ks)"
proof -
  have "db_keys pf ''*'' ks = filter (\<lambda>k. \<not> isExpired pf k ks) (keys_of (data ks))"
    by (simp add: db_keys_filter filter_map comp_def case_prod_unfold)
  then show "set (db_keys pf ''*'' ks) = {k. visible pf ks k \<noteq> None}"
    using set_keys_view [of _ ks] by (auto simp: visible_def simp del: set_map view_None)
  show "distinct (db_keys pf ''*'' ks)"
    using ks_okD(1) [OF assms] by (simp add: db_keys_filter distinct_map_filter)
qed

lemma saveDb_emit:
  assumes "clock_ok pf" "savable pf can_reserve ks"
  shows "\<exists>ks'. saveDb pf i ks out = Some (ks', emit (enc_db pf i ks) out) \<and>
    visible pf ks' = visible pf ks \<and> watchedKeys ks' = watchedKeys ks \<and> dom (clients ks') = dom (clients ks)"
proof (cases "data ks = []")
  case True
  then show ?thesis by (simp add: saveDb_def enc_db_def db_size_def)
next
  case False
  have "ks_ok pf ks" using assms(2) by (simp add: savable_def)
  from db_keys_visible(1) [OF this] saveKeys_emit [OF assms, of "db_keys pf ''*'' ks" "emit (enc_header i ks) out"]
    False show ?thesis
    by (simp add: saveDb_def enc_db_def db_size_def enc_header_def write_emits)
qed

lemma openDb_closeDb_other:
  assumes "j \<noteq> i"
  shows "data (openDb j (closeDb i ks w)) = data (openDb j w)"
    "expires (openDb j (closeDb i ks w)) = expires (openDb j w)"
    "watchedKeys (openDb j (closeDb i ks w)) = watchedKeys (openDb j w)"
    "clients (openDb j (closeDb i ks w)) = clients ks"
  using assms by (simp_all add: openDb_def closeDb_def Let_def)

lemma closeDb_sel [simp]: "length (databases (closeDb i ks w)) = length (databases w)" "w_clients (closeDb i ks w) = clients ks"
  by (simp_all add: closeDb_def)

lemma openDb_clients [simp]: "clients (openDb i w) = w_clients w"
  by (simp add: openDb_def Let_def)

lemma visible_cong:
  "data ks' = data ks \<Longrightarrow> expires ks' = expires ks \<Longrightarrow> visible pf ks' = visible pf ks"
  using view_cong [of ks' ks] isExpired_cong [of ks' ks pf] by (simp add: visible_def fun_eq_iff)

lemma savable_cong:
  assumes "savable pf can_reserve ks" "data ks' = data ks" "expires ks' = expires ks"
    "watchedKeys ks' = watchedKeys ks" "dom (clients ks') = dom (clients ks)"
  shows "savable pf can_reserve ks'"
  using assms visible_cong [of ks' ks pf] by (auto simp: savable_def ks_ok_def)

lemma enc_db_cong:
  assumes "data ks' = data ks" "expires ks' = expires ks"
  shows "enc_db pf i ks' = enc_db pf i ks"
  using assms visible_cong [OF assms, of pf]
  by (simp add: enc_db_def enc_header_def db_size_def db_expiresSize_def db_keys_filter isExpired_def snapshot_of_def)

lemma saveDbs_emit:
  assumes "clock_ok pf"
  shows "distinct is \<Longrightarrow> \<forall>i \<in> set is. i < length (databases w) \<and> savable pf can_reserve (openDb i w) \<Longrightarrow>
    \<exists>w'. saveDbs pf is w out = Some (w', emit (concat (map (\<lambda>i. enc_db pf i (openDb i w)) is)) out) \<and>
      length (databases w') = length (databases w) \<and> (\<forall>i. visible pf (openDb i w') = visible pf (openDb i w))"
proof (induction "is" arbitrary: w out)
  case (Cons i "is")
  from saveDb_emit [OF assms, of can_reserve "openDb i w" i out] Cons.prems(2) obtain ks where
    ks: "saveDb pf i (openDb i w) out = Some (ks, emit (enc_db pf i (openDb i w)) out)"
    "visible pf ks = visible pf (openDb i w)" "dom (clients ks) = dom (w_clients w)"
    by auto
  let ?w = "closeDb i ks w"
  have other: "savable pf can_reserve (openDb j ?w)" "enc_db pf j (openDb j ?w) = enc_db pf j (openDb j w)"
    if "j \<in> set is" for j
  proof -
    have "j \<noteq> i" using that Cons.prems(1) by auto
    note same = openDb_closeDb_other [OF this, of ks w]
    show "savable pf can_reserve (openDb j ?w)"
      by (rule savable_cong [of _ _ "openDb j w"]) (use same Cons.prems(2) that ks(3) in simp_all)
    show "enc_db pf j (openDb j ?w) = enc_db pf j (openDb j w)" by (rule enc_db_cong) (rule same)+
  qed
  have vis: "visible pf (openDb j ?w) = visible pf (openDb j w)" for j
  proof (cases "j = i")
    case True
    with ks(2) openDb_closeDb [of i w ks] Cons.prems(2) show ?thesis by simp
  next
    case False
    from openDb_closeDb_other(1,2) [OF this, of ks w] show ?thesis by (rule visible_cong)
  qed
  have "distinct is" "\<forall>j \<in> set is. j < length (databases ?w) \<and> savable pf can_reserve (openDb j ?w)"
    using Cons.prems other(1) by simp_all
  from Cons.IH [OF this, of "emit (enc_db pf i (openDb i w)) out"] obtain w' where
    "saveDbs pf is ?w (emit (enc_db pf i (openDb i w)) out) =
       Some (w', emit (concat (map (\<lambda>i. enc_db pf i (openDb i ?w)) is)) (emit (enc_db pf i (openDb i w)) out))"
    "length (databases w') = length (databases w)" "\<forall>j. visible pf (openDb j w') = visible pf (openDb j ?w)"
    by (elim exE conjE) simp
  moreover have "map (\<lambda>i. enc_db pf i (openDb i ?w)) is = map (\<lambda>i. enc_db pf i (openDb i w)) is"
    using other(2) by simp
  ultimately show ?case using ks(1) vis by simp
qed simp

section \<open>Loading a key space\<close>

text \<open>One turn of the loop, for each code the writer emits.\<close>

lemma turn:
  assumes "ahead st (char_of n # s) rest" "n < 256"
  shows "loadLoop pf can_reserve ld st w = (case loadStep pf can_reserve ld st w of
      (Inl e, w') \<Rightarrow> (Inl e, w')
    | (Inr (None, st'), w') \<Rightarrow> (Inr st', w')
    | (Inr (Some ld', st'), w') \<Rightarrow> loadLoop pf can_reserve ld' st' w')"
    "readByte st = Inr (n, advance [char_of n] (s @ rest) st)"
proof -
  from assms have "in_good st" "in_rest st \<noteq> []" by (auto simp: ahead_def)
  then show "loadLoop pf can_reserve ld st w = (case loadStep pf can_reserve ld st w of
      (Inl e, w') \<Rightarrow> (Inl e, w')
    | (Inr (None, st'), w') \<Rightarrow> (Inr st', w')
    | (Inr (Some ld', st'), w') \<Rightarrow> loadLoop pf can_reserve ld' st' w')"
    by (subst loadLoop.simps) simp
  from assms show "readByte st = Inr (n, advance [char_of n] (s @ rest) st)"
    by (intro rdb_byte.rd_enc) (simp_all add: ahead_def)
qed

lemma turn_select:
  assumes "ahead st (char_of RDB_OPCODE_SELECTDB # le_bytes 8 i) rest" "i < 2 ^ 31"
  shows "loadLoop pf can_reserve ld st w = loadLoop pf can_reserve (ld\<lparr>currentDb := int i\<rparr>)
    (advance (char_of RDB_OPCODE_SELECTDB # le_bytes 8 i) rest st) w"
proof -
  have good: "in_good st" using assms(1) by blast
  have "loadStep pf can_reserve ld st w = withLoad readLength (\<lambda>n. ld\<lparr>currentDb := wrap32 (int n)\<rparr>)
      (advance [char_of RDB_OPCODE_SELECTDB] (le_bytes 8 i @ rest) st) w"
    using turn(2) [OF assms(1)] by (simp add: loadStep_def rdb_codes)
  also have "\<dots> = (Inr (Some (ld\<lparr>currentDb := int i\<rparr>), advance (char_of RDB_OPCODE_SELECTDB # le_bytes 8 i) rest st), w)"
    using assms(2) good wrap32_id [of "int i"]
    by (simp add: withLoad_def rdb_length.read_then [OF _ ahead_advance] rd_ret_def)
  finally show ?thesis using turn(1) [OF assms(1)] by (simp add: rdb_codes)
qed

lemma turn_resize:
  assumes "ahead st (char_of RDB_OPCODE_RESIZEDB # le_bytes 8 a @ le_bytes 8 b) rest"
  shows "loadLoop pf can_reserve ld st w = loadLoop pf can_reserve ld
    (advance (char_of RDB_OPCODE_RESIZEDB # le_bytes 8 a @ le_bytes 8 b) rest st) w"
proof -
  have good: "in_good st" using assms by blast
  have skip: "readLength (advance s (le_bytes 8 n @ t) st) = Inr (n mod 256 ^ 8, advance (s @ le_bytes 8 n) t st)" for s n t
  proof -
    have "readExact 8 (advance s (le_bytes 8 n @ t) st) =
        Inr (le_bytes 8 n, advance (le_bytes 8 n) t (advance s (le_bytes 8 n @ t) st))"
      by (rule readExact_ahead [OF ahead_advance [OF good]]) (rule length_le_bytes)
    then show ?thesis by (simp add: readLength_def rd_bnd_def rd_ret_def)
  qed
  have "loadStep pf can_reserve ld st w = (Inr (Some ld, advance (char_of RDB_OPCODE_RESIZEDB # le_bytes 8 a @ le_bytes 8 b) rest st), w)"
    using turn(2) [OF assms] skip
    by (simp add: loadStep_def rdb_codes withLoad_def readPair_def rd_bnd_def rd_ret_def)
  then show ?thesis using turn(1) [OF assms] by (simp add: rdb_codes)
qed

lemma turn_expire:
  assumes "ahead st (enc_expiry t) rest" "\<And>s. t = Some s \<Longrightarrow> 0 \<le> s \<and> in_i64 s" "\<not> hasExpire ld"
  shows "\<exists>ld'. loadLoop pf can_reserve ld st w = loadLoop pf can_reserve ld' (advance (enc_expiry t) rest st) w \<and>
    currentDb ld' = currentDb ld \<and>
    (case t of None \<Rightarrow> \<not> hasExpire ld' | Some s \<Rightarrow> hasExpire ld' \<and> wrap64 (int (expireMs ld')) = s)"
proof (cases t)
  case None
  with assms(1) have "advance (enc_expiry t) rest st = st" by (cases st) (simp add: enc_expiry_def advance_def ahead_def)
  with None assms(3) show ?thesis by (intro exI [of _ ld]) simp
next
  case (Some s)
  with assms(1,2) have a: "ahead st (char_of RDB_OPCODE_EXPIRETIME_MS # le_bytes 8 (nat s)) rest"
    and s: "0 \<le> s" "in_i64 s" by (auto simp: enc_expiry_def)
  have good: "in_good st" using a by blast
  let ?ld = "ld\<lparr>expireMs := nat s, hasExpire := True\<rparr>"
  have "nat s mod 2 ^ 64 = nat s" using s by (intro mod_less) (simp add: in_i64_def i64_max_def nat_less_iff)
  then have "loadStep pf can_reserve ld st w =
      (Inr (Some ?ld, advance (char_of RDB_OPCODE_EXPIRETIME_MS # le_bytes 8 (nat s)) rest st), w)"
    using turn(2) [OF a] good
    by (simp add: loadStep_def rdb_codes withLoad_def readExpireMs_def takeBytes_def rd_bnd_def rd_ret_def account_def Let_def)
      (simp add: advance_def crc64_update_Cons [of "in_crc st" "char_of 252" "le_bytes 8 (nat s)"])
  then have "loadLoop pf can_reserve ld st w = loadLoop pf can_reserve ?ld (advance (enc_expiry t) rest st) w"
    using turn(1) [OF a] Some by (simp add: rdb_codes enc_expiry_def)
  with s Some show ?thesis by (intro exI [of _ ?ld]) simp
qed

lemma storeKey_view:
  assumes "i < length (databases w)"
    and "case t of None \<Rightarrow> \<not> hasExpire ld | Some s \<Rightarrow> hasExpire ld \<and> wrap64 (int (expireMs ld)) = s"
  shows "view (openDb i (storeKey pf i key (Some v) ld w)) = (view (openDb i w))(key \<mapsto> (v, t))"
    "j \<noteq> i \<Longrightarrow> view (openDb j (storeKey pf i key (Some v) ld w)) = view (openDb j w)"
    "length (databases (storeKey pf i key (Some v) ld w)) = length (databases w)"
  using assms openDb_closeDb_other [of j i _ w]
  by (auto simp: storeKey_def Let_def openDb_closeDb db_simps intro!: view_cong split: option.splits)

lemma turn_key:
  assumes "ahead st (char_of (im_code (image_of v)) # enc_string key @ im_payload (image_of v)) rest"
    and "contents_ok (hasher pf) v" "storable can_reserve v" "fits can_reserve key"
    and "currentDb ld = int i" "i < length (databases w)" "length (databases w) < 2 ^ 31"
  shows "\<exists>v'. loadLoop pf can_reserve ld st w =
      loadLoop pf can_reserve (ld\<lparr>hasExpire := False\<rparr>)
        (advance (char_of (im_code (image_of v)) # enc_string key @ im_payload (image_of v)) rest st)
        (storeKey pf i key (Some v') ld w) \<and> same_value v v'"
proof -
  let ?op = "im_code (image_of v)" and ?im = "im_payload (image_of v)"
  have good: "in_good st" using assms(1) by blast
  have op: "?op < 256" "?op \<notin> {251, 252, 253, 254, 255}" by (cases v; simp add: rdb_codes)+
  let ?st1 = "advance [char_of ?op] (enc_string key @ ?im @ rest) st"
  let ?st2 = "advance (char_of ?op # enc_string key) (?im @ rest) st"
  have key: "readString can_reserve ?st1 = Inr (key, ?st2)"
    using rdb_string.rd_enc [OF _ ahead_advance [OF good], of key can_reserve] assms(4) by (simp add: fits_def)
  have "ahead ?st2 ?im rest" using good by simp
  from readValue_image [OF assms(2,3) this] obtain v' where
    v': "readValue pf can_reserve ?op ?st2 = Inr (Some v', advance (char_of ?op # enc_string key @ ?im) rest st)"
    "same_value v v'" by auto
  have "loadKey pf can_reserve ?op ld ?st1 w =
      (Inr (Some (ld\<lparr>hasExpire := False\<rparr>), advance (char_of ?op # enc_string key @ ?im) rest st), storeKey pf i key (Some v') ld w)"
    using key v' assms(5-7) wrap32_id [of "int (length (databases w))"] by (simp add: loadKey_def)
  then have "loadStep pf can_reserve ld st w =
      (Inr (Some (ld\<lparr>hasExpire := False\<rparr>), advance (char_of ?op # enc_string key @ ?im) rest st), storeKey pf i key (Some v') ld w)"
    using turn(2) [OF assms(1) op(1)] op(2) by (simp add: loadStep_def rdb_codes)
  then show ?thesis using turn(1) [OF assms(1) op(1)] v'(2) by auto
qed

definition restored :: "entry option \<Rightarrow> entry option \<Rightarrow> bool" where
  "restored e e' \<longleftrightarrow> (case e of None \<Rightarrow> e' = None
     | Some (v, t) \<Rightarrow> (\<exists>v'. e' = Some (v', t) \<and> same_value v v'))"

definition good_entry :: "platform \<Rightarrow> (nat \<Rightarrow> bool) \<Rightarrow> string \<Rightarrow> entry \<Rightarrow> bool" where
  "good_entry pf can_reserve k e \<longleftrightarrow> contents_ok (hasher pf) (fst e) \<and> storable can_reserve (fst e) \<and>
     fits can_reserve k \<and> (case snd e of None \<Rightarrow> True | Some s \<Rightarrow> 0 \<le> s \<and> in_i64 s)"

lemma load_entry:
  assumes "ahead st (enc_entry key e) rest" "good_entry pf can_reserve key e"
    and "\<not> hasExpire ld" "currentDb ld = int i" "i < length (databases w)" "length (databases w) < 2 ^ 31"
  shows "\<exists>ld' w'. loadLoop pf can_reserve ld st w = loadLoop pf can_reserve ld' (advance (enc_entry key e) rest st) w' \<and>
    \<not> hasExpire ld' \<and> currentDb ld' = int i \<and> length (databases w') = length (databases w) \<and>
    restored (Some e) (view (openDb i w') key) \<and> (\<forall>k. k \<noteq> key \<longrightarrow> view (openDb i w') k = view (openDb i w) k) \<and>
    (\<forall>j. j \<noteq> i \<longrightarrow> view (openDb j w') = view (openDb j w))"
proof -
  obtain v t where e: "e = (v, t)" by (cases e)
  let ?body = "char_of (im_code (image_of v)) # enc_string key @ im_payload (image_of v)"
  have good: "in_good st" and a: "ahead st (enc_expiry t) (?body @ rest)"
    using assms(1) by (auto simp: enc_entry_def e ahead_append)
  have t: "0 \<le> s \<and> in_i64 s" if "t = Some s" for s using assms(2) that by (simp add: good_entry_def e)
  from turn_expire [where pf = pf and can_reserve = can_reserve and w = w, OF a t assms(3)] obtain ld1 where
    1: "loadLoop pf can_reserve ld st w = loadLoop pf can_reserve ld1 (advance (enc_expiry t) (?body @ rest) st) w"
    "currentDb ld1 = int i"
    "case t of None \<Rightarrow> \<not> hasExpire ld1 | Some s \<Rightarrow> hasExpire ld1 \<and> wrap64 (int (expireMs ld1)) = s"
    using assms(4) by auto
  have v: "contents_ok (hasher pf) v" "storable can_reserve v" "fits can_reserve key"
    using assms(2) by (simp_all add: good_entry_def e)
  from turn_key [where pf = pf and w = w, OF ahead_advance [OF good] v 1(2) assms(5,6)] obtain v' where
    2: "loadLoop pf can_reserve ld1 (advance (enc_expiry t) (?body @ rest) st) w =
      loadLoop pf can_reserve (ld1\<lparr>hasExpire := False\<rparr>) (advance ?body rest (advance (enc_expiry t) (?body @ rest) st))
        (storeKey pf i key (Some v') ld1 w)" "same_value v v'" by blast
  note st = storeKey_view [where pf = pf and key = key and v = v', OF assms(5) 1(3)]
  show ?thesis
    by (intro exI [of _ "ld1\<lparr>hasExpire := False\<rparr>"] exI [of _ "storeKey pf i key (Some v') ld1 w"])
      (use 1 2 st in \<open>simp add: e enc_entry_def restored_def\<close>)
qed

lemma load_entries:
  assumes "length (databases w) < 2 ^ 31" "i < length (databases w)"
    and "\<forall>k \<in> set keys. good_entry pf can_reserve k (f k)" "\<not> hasExpire ld" "currentDb ld = int i"
    and "ahead st (concat (map (\<lambda>k. enc_entry k (f k)) keys)) rest"
  shows "\<exists>ld' w'. loadLoop pf can_reserve ld st w =
      loadLoop pf can_reserve ld' (advance (concat (map (\<lambda>k. enc_entry k (f k)) keys)) rest st) w' \<and>
    \<not> hasExpire ld' \<and> length (databases w') = length (databases w) \<and>
    (\<forall>k. if k \<in> set keys then restored (Some (f k)) (view (openDb i w') k)
         else view (openDb i w') k = view (openDb i w) k) \<and>
    (\<forall>j. j \<noteq> i \<longrightarrow> view (openDb j w') = view (openDb j w))"
  using assms
proof (induction keys arbitrary: ld st w)
  case Nil
  then have "advance [] rest st = st" by (cases st) (simp add: advance_def ahead_def)
  with Nil.prems show ?case by (intro exI [of _ ld] exI [of _ w]) simp
next
  case (Cons key keys)
  let ?enc = "\<lambda>ks. concat (map (\<lambda>k. enc_entry k (f k)) ks)"
  have good: "in_good st" and a: "ahead st (enc_entry key (f key)) (?enc keys @ rest)"
    using Cons.prems(6) by (auto simp: ahead_append)
  have "good_entry pf can_reserve key (f key)" using Cons.prems(3) by simp
  from load_entry [OF a this Cons.prems(4,5,2,1)] obtain ld1 w1 where
    1: "loadLoop pf can_reserve ld st w = loadLoop pf can_reserve ld1 (advance (enc_entry key (f key)) (?enc keys @ rest) st) w1"
    "\<not> hasExpire ld1" "currentDb ld1 = int i" "length (databases w1) = length (databases w)"
    "restored (Some (f key)) (view (openDb i w1) key)"
    "\<forall>k. k \<noteq> key \<longrightarrow> view (openDb i w1) k = view (openDb i w) k"
    "\<forall>j. j \<noteq> i \<longrightarrow> view (openDb j w1) = view (openDb j w)" by blast
  have *: "length (databases w1) < 2 ^ 31" "i < length (databases w1)" "\<forall>k \<in> set keys. good_entry pf can_reserve k (f k)"
    using Cons.prems(1-3) 1(4) by simp_all
  from Cons.IH [OF * 1(2,3) ahead_advance [OF good, of "enc_entry key (f key)"]] obtain ld2 w2 where
    2: "loadLoop pf can_reserve ld1 (advance (enc_entry key (f key)) (?enc keys @ rest) st) w1 =
      loadLoop pf can_reserve ld2 (advance (?enc keys) rest (advance (enc_entry key (f key)) (?enc keys @ rest) st)) w2"
    "\<not> hasExpire ld2" "length (databases w2) = length (databases w1)"
    "\<forall>k. if k \<in> set keys then restored (Some (f k)) (view (openDb i w2) k) else view (openDb i w2) k = view (openDb i w1) k"
    "\<forall>j. j \<noteq> i \<longrightarrow> view (openDb j w2) = view (openDb j w1)" by blast
  have "if k \<in> set (key # keys) then restored (Some (f k)) (view (openDb i w2) k)
      else view (openDb i w2) k = view (openDb i w) k" for k
    using 2(4) 1(5,6) by (cases "k \<in> set keys"; cases "k = key") (auto split: if_splits)
  with 1 2 show ?case by (intro exI [of _ ld2] exI [of _ w2]) simp
qed

lemma load_db:
  assumes "length (databases w) < 2 ^ 31" "i < length (databases w)" "savable pf' can_reserve ks"
    and "hasher pf = hasher pf'" "clock_ok pf'" "view (openDb i w) = Map.empty"
    and "\<not> hasExpire ld" "ahead st (enc_db pf' i ks) rest"
  shows "\<exists>ld' w'. loadLoop pf can_reserve ld st w = loadLoop pf can_reserve ld' (advance (enc_db pf' i ks) rest st) w' \<and>
    \<not> hasExpire ld' \<and> length (databases w') = length (databases w) \<and>
    (\<forall>k. restored (snapshot_of pf' ks k) (view (openDb i w') k)) \<and>
    (\<forall>j. j \<noteq> i \<longrightarrow> view (openDb j w') = view (openDb j w))"
proof (cases "data ks = []")
  case True
  then have "snapshot_of pf' ks k = None" for k by (simp add: visible_def view_def)
  moreover have "advance (enc_db pf' i ks) rest st = st"
    using True assms(8) by (cases st) (simp add: enc_db_def advance_def ahead_def)
  ultimately show ?thesis using assms by (intro exI [of _ ld] exI [of _ w]) (simp add: restored_def snapshot_of_def)
next
  case False
  have ok: "ks_ok pf' ks" using assms(3) by (simp add: savable_def)
  let ?f = "\<lambda>k. the (snapshot_of pf' ks k)" and ?keys = "db_keys pf' ''*'' ks"
  let ?sel = "char_of RDB_OPCODE_SELECTDB # le_bytes 8 i"
  let ?res = "char_of RDB_OPCODE_RESIZEDB # le_bytes 8 (db_size ks) @ le_bytes 8 (db_expiresSize ks)"
  let ?body = "concat (map (\<lambda>k. enc_entry k (?f k)) ?keys)"
  have enc: "enc_db pf' i ks = ?sel @ ?res @ ?body" using False by (simp add: enc_db_def enc_header_def)
  have good: "in_good st" using assms(8) by blast
  have a1: "ahead st ?sel (?res @ ?body @ rest)" using assms(8) by (simp add: enc ahead_def)
  have i31: "i < 2 ^ 31" using assms(1,2) by simp
  have a2: "ahead (advance ?sel (?res @ ?body @ rest) st) ?res (?body @ rest)" using good by simp
  have a3: "ahead (advance (?sel @ ?res) (?body @ rest) st) ?body rest" using good by simp
  have entry: "good_entry pf can_reserve k (?f k)" if "k \<in> set ?keys" for k
  proof -
    from that obtain v t where vis: "visible pf' ks k = Some (v, t)"
      unfolding db_keys_visible(1) [OF ok] by auto
    then have "contents_ok (hasher pf') v" using ks_okD(5) [OF ok] visible_view(1) [OF vis] by (auto simp: view_def)
    moreover have "0 \<le> s + (stamp_ms pf' k - system_ms pf')" if "t = Some s" for s
    proof -
      have "system_ms pf' \<le> stamp_ms pf' k" "0 \<le> system_ms pf'" using assms(5) by (simp_all add: clock_ok_def)
      with visible_view(2) [OF vis that] show ?thesis by simp
    qed
    ultimately show ?thesis using vis assms(3,4)
      by (auto simp: good_entry_def savable_def snapshot_of_def stamped_def split: option.splits)
  qed
  have "\<exists>ld' w'. loadLoop pf can_reserve (ld\<lparr>currentDb := int i\<rparr>) (advance (?sel @ ?res) (?body @ rest) st) w =
      loadLoop pf can_reserve ld' (advance ?body rest (advance (?sel @ ?res) (?body @ rest) st)) w' \<and>
    \<not> hasExpire ld' \<and> length (databases w') = length (databases w) \<and>
    (\<forall>k. if k \<in> set ?keys then restored (Some (?f k)) (view (openDb i w') k)
         else view (openDb i w') k = view (openDb i w) k) \<and>
    (\<forall>j. j \<noteq> i \<longrightarrow> view (openDb j w') = view (openDb j w))"
    by (rule load_entries [OF assms(1,2)]) (use entry assms(7) a3 in simp_all)
  then obtain ld' w' where 3: "loadLoop pf can_reserve (ld\<lparr>currentDb := int i\<rparr>) (advance (?sel @ ?res) (?body @ rest) st) w =
      loadLoop pf can_reserve ld' (advance (?sel @ ?res @ ?body) rest st) w'"
    "\<not> hasExpire ld'" "length (databases w') = length (databases w)"
    "\<forall>k. if k \<in> set ?keys then restored (Some (?f k)) (view (openDb i w') k) else view (openDb i w') k = view (openDb i w) k"
    "\<forall>j. j \<noteq> i \<longrightarrow> view (openDb j w') = view (openDb j w)" by auto
  have "restored (snapshot_of pf' ks k) (view (openDb i w') k)" for k
    using 3(4) [rule_format, of k] assms(6) unfolding db_keys_visible(1) [OF ok]
    by (cases "visible pf' ks k") (simp_all add: restored_def snapshot_of_def)
  with 3 turn_select [OF a1 i31, of pf can_reserve ld w] turn_resize [OF a2, of pf can_reserve "ld\<lparr>currentDb := int i\<rparr>" w]
  show ?thesis by (intro exI [of _ ld'] exI [of _ w']) (simp add: enc)
qed

lemma load_dbs:
  assumes "\<forall>i \<in> set is. savable pf' can_reserve (src i)" "hasher pf = hasher pf'" "clock_ok pf'"
  shows "distinct is \<Longrightarrow> length (databases w) < 2 ^ 31 \<Longrightarrow>
    \<forall>i \<in> set is. i < length (databases w) \<and> view (openDb i w) = Map.empty \<Longrightarrow> \<not> hasExpire ld \<Longrightarrow>
    ahead st (concat (map (\<lambda>i. enc_db pf' i (src i)) is)) rest \<Longrightarrow>
    \<exists>ld' w'. loadLoop pf can_reserve ld st w =
        loadLoop pf can_reserve ld' (advance (concat (map (\<lambda>i. enc_db pf' i (src i)) is)) rest st) w' \<and>
      length (databases w') = length (databases w) \<and>
      (\<forall>j. if j \<in> set is then \<forall>k. restored (snapshot_of pf' (src j) k) (view (openDb j w') k)
           else view (openDb j w') = view (openDb j w))"
  using assms
proof (induction "is" arbitrary: ld st w)
  case Nil
  then have "advance [] rest st = st" by (cases st) (simp add: advance_def ahead_def)
  with Nil show ?case by (intro exI [of _ ld] exI [of _ w]) simp
next
  case (Cons i "is")
  let ?enc = "\<lambda>is. concat (map (\<lambda>i. enc_db pf' i (src i)) is)"
  have good: "in_good st" and a: "ahead st (enc_db pf' i (src i)) (?enc is @ rest)"
    using Cons.prems(5) by (auto simp: ahead_append)
  have i: "i < length (databases w)" "savable pf' can_reserve (src i)" "view (openDb i w) = Map.empty"
    using Cons.prems(3,6) by simp_all
  from load_db [OF Cons.prems(2) i(1,2) Cons.prems(7,8) i(3) Cons.prems(4) a] obtain ld1 w1 where
    1: "loadLoop pf can_reserve ld st w = loadLoop pf can_reserve ld1 (advance (enc_db pf' i (src i)) (?enc is @ rest) st) w1"
    "\<not> hasExpire ld1" "length (databases w1) = length (databases w)"
    "\<forall>k. restored (snapshot_of pf' (src i) k) (view (openDb i w1) k)"
    "\<forall>j. j \<noteq> i \<longrightarrow> view (openDb j w1) = view (openDb j w)" by blast
  have *: "distinct is" "length (databases w1) < 2 ^ 31"
    "\<forall>j \<in> set is. j < length (databases w1) \<and> view (openDb j w1) = Map.empty"
    "\<forall>j \<in> set is. savable pf' can_reserve (src j)"
    using Cons.prems(1,2,3,6) 1(3,5) by auto
  from Cons.IH [OF *(1,2,3) 1(2) ahead_advance [OF good, of "enc_db pf' i (src i)"] *(4) Cons.prems(7,8)] obtain ld2 w2 where
    2: "loadLoop pf can_reserve ld1 (advance (enc_db pf' i (src i)) (?enc is @ rest) st) w1 =
      loadLoop pf can_reserve ld2 (advance (?enc is) rest (advance (enc_db pf' i (src i)) (?enc is @ rest) st)) w2"
    "length (databases w2) = length (databases w1)"
    "\<forall>j. if j \<in> set is then \<forall>k. restored (snapshot_of pf' (src j) k) (view (openDb j w2) k)
       else view (openDb j w2) = view (openDb j w1)" by blast
  have "if j \<in> set (i # is) then \<forall>k. restored (snapshot_of pf' (src j) k) (view (openDb j w2) k)
      else view (openDb j w2) = view (openDb j w)" for j
    using 2(3) 1(4,5) Cons.prems(1) by (cases "j \<in> set is"; cases "j = i") (auto split: if_splits)
  with 1 2 show ?case by (intro exI [of _ ld2] exI [of _ w2]) simp
qed

lemma flushAll_view:
  "length (databases (flushAll pf w)) = length (databases w)"
  "i < length (databases w) \<Longrightarrow> view (openDb i (flushAll pf w)) = Map.empty"
proof -
  let ?F = "\<lambda>is w. foldl (\<lambda>w i. closeDb i (db_flushDb pf (openDb i w)) w) w is"
  have len: "length (databases (?F is w)) = length (databases w)" for "is" w
    by (induction "is" arbitrary: w) simp_all
  then show "length (databases (flushAll pf w)) = length (databases w)" by (simp add: flushAll_def)
  have "\<forall>j \<in> set is. j < length (databases w) \<Longrightarrow> i \<in> set is \<or> view (openDb i w) = Map.empty \<Longrightarrow>
      i < length (databases w) \<Longrightarrow> view (openDb i (?F is w)) = Map.empty" for "is" w
  proof (induction "is" arbitrary: w)
    case (Cons j "is")
    let ?w = "closeDb j (db_flushDb pf (openDb j w)) w"
    have "i = j \<or> view (openDb i w) = Map.empty \<Longrightarrow> view (openDb i ?w) = Map.empty"
      using Cons.prems(3) openDb_closeDb [of j w] openDb_closeDb_other(1,2) [of i j]
        view_cong [of "openDb i ?w" "openDb i w"]
      by (cases "i = j") (simp_all add: db_simps)
    with Cons show ?case by auto
  qed simp
  then show "i < length (databases w) \<Longrightarrow> view (openDb i (flushAll pf w)) = Map.empty"
    by (simp add: flushAll_def)
qed

text \<open>What is visible, from the entries alone.\<close>

lemma visible_view_of:
  "visible pf ks k = (case view ks k of None \<Rightarrow> None | Some (v, None) \<Rightarrow> Some (v, None)
     | Some (v, Some t) \<Rightarrow> if system_ms pf < t then Some (v, Some t) else None)"
  by (auto simp: visible_def view_def isExpired_def split: option.split)

section \<open>Properties\<close>

text \<open>C5: A snapshot loses nothing. Saving all databases and loading the file into a server with as
  many databases, whatever they held before, restores every key that was visible when it was
  saved, in its database, with an equal string, list, hash, set or sorted set, and no other key;
  the checksum is accepted. An expiry time comes back later by exactly the time that passes
  between the two looks at the clock with which it is written, so unchanged when both fall
  into one millisecond. Saving keeps the value and the expiry time of every visible key
  (it counts hits, stamps the objects it reads and collects expired keys it meets).
  \<open>savable\<close> is the condition: what is stored satisfies the invariant, the lengths fit their fields and can be
  allocated when read, scores are numbers, deadlines fit 64 bits.\<close>

theorem snapshot_roundtrip:
  assumes "\<forall>i < length (databases w). savable pf can_reserve (openDb i w)"
    and "length (databases w) < 2 ^ 31" "length (databases w0) = length (databases w)"
    and "clock_ok pf" "hasher pf' = hasher pf"
  shows "\<exists>file w1 w2. saveToFile pf True w = (Inr (Some file), w1) \<and>
    loadFromFile pf' can_reserve (Some file) w0 = (Inr True, w2) \<and>
    (\<forall>i < length (databases w). visible pf (openDb i w1) = visible pf (openDb i w) \<and>
       (\<forall>k. restored (snapshot_of pf (openDb i w) k) (view (openDb i w2) k)))"
proof -
  let ?n = "length (databases w)"
  let ?body = "concat (map (\<lambda>i. enc_db pf i (openDb i w)) [0..<?n])"
  let ?eof = "[char_of RDB_OPCODE_EOF]"
  from saveDbs_emit [OF assms(4), of "[0..<?n]" w can_reserve "emit rdb_magic \<lparr>out_bytes = '''', out_crc = 0\<rparr>"] assms(1)
  obtain w1 where w1: "saveDbs pf [0..<?n] w (emit rdb_magic \<lparr>out_bytes = '''', out_crc = 0\<rparr>) =
      Some (w1, emit (rdb_magic @ ?body) \<lparr>out_bytes = '''', out_crc = 0\<rparr>)"
    "\<forall>i. visible pf (openDb i w1) = visible pf (openDb i w)" by auto
  define crc where "crc = crc64_update 0 (rdb_magic @ ?body @ ?eof)"
  define snap where "snap = rdb_magic @ ?body @ ?eof @ le_bytes 8 (unat crc)"
  have save: "saveToFile pf True w = (Inr (Some snap), w1)"
    using w1(1) by (simp add: saveToFile_def Let_def rdb_byte.wr_enc snap_def crc_def) (simp add: emit_def)
  let ?st0 = "\<lparr>in_rest = snap, in_good = True, in_crc = 0\<rparr>"
  let ?st1 = "advance rdb_magic (?body @ ?eof @ le_bytes 8 (unat crc)) ?st0"
  have magic: "readExact 9 ?st0 = Inr (rdb_magic, ?st1)"
    by (rule readExact_ahead) (simp_all add: ahead_def snap_def rdb_magic_def)
  let ?ld = "\<lparr>currentDb = 0, expireMs = 0, hasExpire = False\<rparr>"
  have "\<exists>ld' w'. loadLoop pf' can_reserve ?ld ?st1 (flushAll pf' w0) =
        loadLoop pf' can_reserve ld' (advance ?body (?eof @ le_bytes 8 (unat crc)) ?st1) w' \<and>
      length (databases w') = length (databases (flushAll pf' w0)) \<and>
      (\<forall>j. if j \<in> set [0..<?n] then \<forall>k. restored (snapshot_of pf (openDb j w) k) (view (openDb j w') k)
           else view (openDb j w') = view (openDb j (flushAll pf' w0)))"
    by (rule load_dbs) (use assms flushAll_view [where pf = pf' and w = w0] in simp_all)
  then obtain ld' w2 where w2: "loadLoop pf' can_reserve ?ld ?st1 (flushAll pf' w0) =
        loadLoop pf' can_reserve ld' (advance (rdb_magic @ ?body) (?eof @ le_bytes 8 (unat crc)) ?st0) w2"
    "\<forall>j < ?n. \<forall>k. restored (snapshot_of pf (openDb j w) k) (view (openDb j w2) k)"
    by (auto split: if_splits)
  let ?st2 = "advance (rdb_magic @ ?body) (?eof @ le_bytes 8 (unat crc)) ?st0"
  let ?st3 = "advance (rdb_magic @ ?body @ ?eof) (le_bytes 8 (unat crc)) ?st0"
  have eof: "ahead ?st2 (char_of RDB_OPCODE_EOF # []) (le_bytes 8 (unat crc))" by simp
  have "loadStep pf' can_reserve ld' ?st2 w2 = (Inr (None, ?st3), w2)"
    using turn(2) [OF eof] by (simp add: loadStep_def rdb_codes)
  then have loop: "loadLoop pf' can_reserve ld' ?st2 w2 = (Inr ?st3, w2)"
    using turn(1) [OF eof, of pf' can_reserve ld' w2] by (simp add: rdb_codes)
  have "readExact 8 ?st3 = Inr (le_bytes 8 (unat crc), advance (le_bytes 8 (unat crc)) [] ?st3)"
    by (rule readExact_ahead) simp_all
  moreover have "unat crc mod 256 ^ 8 = unat crc" using unsigned_less [of crc, where ?'a = nat] by simp
  ultimately have "loadFromFile pf' can_reserve (Some snap) w0 = (Inr True, w2)"
    using magic w2(1) loop by (simp add: loadFromFile_def crc_def)
  with save w1(2) w2(2) show ?thesis by blast
qed

text \<open>A server with one database that holds one string.\<close>

definition emptyServer :: world where
  "emptyServer = (newServer defaultConfig (\<lambda>_. None) (\<lambda>_. '''') 0)\<lparr>databases := [emptyDatabase]\<rparr>"

definition oneKey :: keyspace where
  "oneKey = db_set samplePlatform ''k'' ''v'' (openDb 0 emptyServer)"

theorem snapshot_roundtrip_witness:
  "\<exists>file w1 w2. saveToFile samplePlatform True (closeDb 0 oneKey emptyServer) = (Inr (Some file), w1) \<and>
    loadFromFile samplePlatform (\<lambda>n. n < 10) (Some file) emptyServer = (Inr True, w2) \<and>
    (\<exists>v. view (openDb 0 w2) ''k'' = Some (v, None) \<and> same_value (StringObject ''v'') v)"
proof -
  let ?w = "closeDb 0 oneKey emptyServer"
  have sel: "length (databases emptyServer) = 1" "length (databases ?w) = 1"
    by (simp_all add: emptyServer_def closeDb_def)
  have "ks_ok samplePlatform (openDb 0 emptyServer)"
    by (simp add: ks_ok_def openDb_def emptyServer_def newServer_def emptyDatabase_def)
  then have ok: "ks_ok samplePlatform oneKey" by (simp add: oneKey_def inv_intros)
  have view: "view oneKey = [''k'' \<mapsto> (StringObject ''v'', None)]"
    by (simp add: oneKey_def db_set_setObject db_simps)
       (simp add: view_def openDb_def emptyServer_def newServer_def emptyDatabase_def fun_eq_iff)
  have vis: "visible samplePlatform oneKey = [''k'' \<mapsto> (StringObject ''v'', None)]"
    using view by (auto simp: visible_view_of fun_eq_iff)
  have op: "openDb 0 ?w = oneKey" by (rule openDb_closeDb) (simp add: sel)
  have "\<forall>i < length (databases ?w). savable samplePlatform (\<lambda>n. n < 10) (openDb i ?w)"
    using ok by (auto simp: sel op savable_def vis fits_def split: if_splits)
  note rt = snapshot_roundtrip [OF this _ _ _ refl, of emptyServer]
  have "\<exists>snap w1 w2. saveToFile samplePlatform True ?w = (Inr (Some snap), w1) \<and>
      loadFromFile samplePlatform (\<lambda>n. n < 10) (Some snap) emptyServer = (Inr True, w2) \<and>
      (\<forall>i < length (databases ?w). visible samplePlatform (openDb i w1) = visible samplePlatform (openDb i ?w) \<and>
         (\<forall>k. restored (snapshot_of samplePlatform (openDb i ?w) k) (view (openDb i w2) k)))"
    by (rule rt) (simp_all add: sel clock_ok_def)
  then obtain snap w1 w2 where "saveToFile samplePlatform True ?w = (Inr (Some snap), w1)"
    "loadFromFile samplePlatform (\<lambda>n. n < 10) (Some snap) emptyServer = (Inr True, w2)"
    and "\<forall>i < 1. \<forall>k. restored (snapshot_of samplePlatform (openDb i ?w) k) (view (openDb i w2) k)"
    unfolding sel by blast
  moreover from this(3) have "restored (snapshot_of samplePlatform oneKey ''k'') (view (openDb 0 w2) ''k'')"
    by (simp add: op)
  ultimately show ?thesis by (auto simp: snapshot_of_def stamped_def vis restored_def)
qed

end
