(* ===== verification/Durable.thy ===== *)
theory Durable
  imports Session RdbSpec
begin

text \<open>
  The append-only file: what a session logs, the periodic flush writes to the file, and
  replaying that file on an empty server gives the same database.
\<close>

section \<open>Only writes matter\<close>

lemma store_run_writes: "snd (store_run (filter is_write rs) m) = snd (store_run rs m)"
proof (induction rs arbitrary: m)
  case (Cons r rs)
  have "\<not> is_write r \<Longrightarrow> snd (store_step r m) = m" by (cases r) simp_all
  with Cons.IH show ?case by (simp add: Let_def case_prod_beta)
qed simp

lemma receivable_writes: "receivable pf (request_commands rs) \<Longrightarrow>
    \<forall>cmd \<in> set (request_commands (filter is_write rs)). wire_ok cmd \<and> (\<forall>n \<in> array_sizes cmd. reserve_ok pf n)"
  by (auto simp: receivable_def request_commands_def)

lemma log_commands: "log_of rs = concat (map serialize (request_commands (filter is_write rs)))"
  by (simp add: log_of_def request_commands_def comp_def)

lemma commands_nonempty: "concat (map serialize cmds) = '''' \<Longrightarrow> cmds = []"
  by (cases cmds) simp_all

section \<open>Replay\<close>

lemma replayOne_served:
  assumes "proper r"
  shows "served pf p db (replayOne pf p (command_of (request_words r))) r"
proof -
  from request_row [OF assms] obtain name ss n where row: "request_words r = name # ss"
    "known name = Some (StringH (handler_of r), n, is_write r)" by blast
  then obtain e where e: "lookupCommand name = Some e" "entry_handler e = StringH (handler_of r)" by (auto simp: known_def)
  have name: "argStr (map BulkString (request_words r)) 0 = ret name"
    unfolding row(1) by (subst argStr_words) simp_all
  have "yields_as pf p db (runDepth pf 4 (StringH (handler_of r)) p (map BulkString (request_words r))) (\<lambda>m. ((), store_step r m))"
    using handler_served [OF assms, of pf p db 3] by (simp add: served_def eval_nat_numeral)
  from yields_as_try [OF this] show ?thesis
    unfolding served_def replayOne_def command_of_def RespValue.case name bnd_ret e(1) option.case e(2)
    by (simp add: row(1))
qed

lemma replay_served:
  assumes "\<forall>r \<in> set rs. proper r"
  shows "yields_as pf p db (forEach (request_commands rs) (replayOne pf p)) (\<lambda>m. ((), store_run rs m))"
  using assms
proof (induction rs)
  case Nil
  then show ?case using yields_as_ret by (simp add: request_commands_def)
next
  case (Cons r rs)
  from Cons.prems have "proper r" "\<forall>r \<in> set rs. proper r" by simp_all
  from yields_as_bnd [OF replayOne_served [OF this(1), unfolded served_def] Cons.IH [OF this(2)]]
  show ?case unfolding request_commands_def list.map forEach.simps
    by (rule yields_as_eq) (simp add: then_spec_def case_prod_beta Let_def)
qed

lemma spaces_grow:
  assumes "spaces_ok pf w" "databases w' = databases w" "dom (w_clients w) \<subseteq> dom (w_clients w')"
  shows "spaces_ok pf w'"
proof -
  have "ks_ok pf (openDb i w')" if "ks_ok pf (openDb i w)" for i
    using that assms(2) order.trans [OF _ assms(3)] by (simp add: ks_ok_def openDb_sel del: set_map)
  then show ?thesis using assms(1,2) by (simp add: spaces_ok_def)
qed

lemma flushAll_start:
  assumes "spaces_ok pf w" "alone w" "databases w \<noteq> []" "w_clients w q = None"
  shows "spaces_ok pf (flushAll pf w)" "alone (flushAll pf w)" "databases (flushAll pf w) \<noteq> []"
    "w_clients (flushAll pf w) q = None" "holds Map.empty (openDb 0 (flushAll pf w))"
proof -
  have "gently pf w (flushAll pf w)"
    unfolding flushAll_def by (rule gently_foldDbs) (simp_all add: tame_mild [OF tame_flush])
  then show "spaces_ok pf (flushAll pf w)" "w_clients (flushAll pf w) q = None"
    using assms(1,4) by (auto simp: gently_def dest: alike_dom)
  have "alone (foldl (\<lambda>w i. closeDb i (g (openDb i w)) w) v is) = alone v" for g v "is"
    by (induction "is" arbitrary: v) (simp_all add: alone_def closeDb_def)
  then show "alone (flushAll pf w)" using assms(2) by (simp add: flushAll_def)
  show "databases (flushAll pf w) \<noteq> []" using flushAll_view(1) [of pf w] assms(3) by auto
  show "holds Map.empty (openDb 0 (flushAll pf w))"
    using flushAll_view(2) [of 0 w pf] assms(3) by (simp add: holds_def del: view_None)
qed

lemma replay_log:
  assumes w: "spaces_ok pf w" "alone w" "databases w \<noteq> []" "w_clients w q = None"
    and rs: "\<forall>r \<in> set rs. proper r" "receivable pf (request_commands rs)"
  shows "\<exists>w'. aof_loadFromFile pf q (Some (log_of rs)) w = (Inr True, w') \<and> holds (snd (store_run rs Map.empty)) (openDb 0 w')"
proof (cases "log_of rs = ''''")
  case True
  then have "filter is_write rs = []"
    using commands_nonempty [of "request_commands (filter is_write rs)"] by (simp add: log_commands request_commands_def)
  then have "snd (store_run rs Map.empty) = Map.empty" using store_run_writes [of rs Map.empty] by simp
  with True flushAll_start(5) [OF w] show ?thesis by (simp add: aof_loadFromFile_def bnd_modify act_apply)
next
  case False
  let ?ws = "filter is_write rs" and ?c = "setFlag CLIENT_MASTER (newClient (-1) (nextId (flushAll pf w)) (steady_ms pf))"
  let ?w1 = "(flushAll pf w)\<lparr>w_clients := (w_clients (flushAll pf w))(q \<mapsto> ?c), nextId := nextId (flushAll pf w) + 1\<rparr>"
  note start = flushAll_start [OF w]
  have parse: "parse (reserve_ok pf) (log_of rs) = Inr \<lparr>commands = request_commands ?ws, bytesConsumed = length (log_of rs)\<rparr>"
    unfolding log_commands by (rule parse_concat_serialize [OF receivable_writes [OF rs(2)]])
  have "plain ?c"
    by (simp add: plain_def hasFlag_setFlag) (simp add: newClient_def hasFlag_def client_flags)
  moreover have "spaces_ok pf ?w1"
    by (rule spaces_grow [OF start(1)]) auto
  moreover have "openDb i ?w1 = (openDb i (flushAll pf w))\<lparr>clients := w_clients ?w1\<rparr>" for i by (simp add: openDb_def Let_def)
  ultimately have s: "sees pf q 0 Map.empty '''' ?w1"
    using start by (simp add: sees_def alone_def holds_def view_def dbIndex_def) (simp add: setFlag_def newClient_def)
  have "\<forall>r \<in> set ?ws. proper r" using rs(1) by simp
  from yields_asD [OF replay_served [OF this] s] obtain w2 where
    run: "forEach (request_commands ?ws) (replayOne pf q) ?w1 = (Inr (), w2)" and w2: "sees pf q 0 (snd (store_run rs Map.empty)) (fst (store_run ?ws Map.empty)) w2"
    by (auto simp: store_run_writes)
  let ?w3 = "w2\<lparr>w_clients := (w_clients w2)(q := None)\<rparr>"
  have "dbIndex 0 w2 = 0" by (simp add: dbIndex_def)
  then have "holds (snd (store_run rs Map.empty)) (openDb 0 w2)" using sees_ks [OF w2] by simp
  then have "holds (snd (store_run rs Map.empty)) (openDb 0 ?w3)"
    by (simp add: holds_def view_def openDb_def Let_def)
  moreover have "aof_loadFromFile pf q (Some (log_of rs)) w = (Inr True, ?w3)"
  proof -
    have "aof_loadFromFile pf q (Some (log_of rs)) w = seq (forEach (request_commands ?ws) (replayOne pf q))
        (seq (modify (\<lambda>w. w\<lparr>w_clients := (w_clients w)(q := None)\<rparr>)) (ret True)) ?w1"
      using False parse by (simp add: aof_loadFromFile_def bnd_modify bnd_lift bnd_setClient)
        (rule arg_cong [where f = "bnd m f" for m f], simp)
    then show ?thesis by (simp only: bnd_run [where m = "forEach a b" for a b, OF run] bnd_modify act_apply)
  qed
  ultimately show ?thesis by blast
qed

section \<open>Logging a session\<close>

lemma logged_session:
  assumes w: "sees pf p db m out w" and fd: "map_of (connections w) fd = Some p"
    and c: "w_clients w p = Some c" "inputBuffer c = ''''" "\<not> hasFlag CLIENT_MASTER c"
    and rs: "\<forall>r \<in> set rs. proper r" "receivable pf (request_commands rs)"
  shows "\<exists>w'. onReadable pf fd (Received (concat (map serialize (request_commands rs)))) w = (Inr (), w') \<and>
    sees pf p db (snd (store_run rs m)) (out @ fst (store_run rs m)) w' \<and>
    aofBuffer w' = aofBuffer w @ (if appendOnly (w_config w) then log_of rs else '''') \<and>
    aofStream w' = aofStream w \<and> inodes w' = inodes w \<and> w_config w' = w_config w"
proof -
  let ?w = "w\<lparr>w_clients := (w_clients w)(p \<mapsto> fresh_input (steady_ms pf) c)\<rparr>"
  have "p \<notin> masters ?w" using c(3) by (simp add: masters_def has_def fresh_input_def hasFlag_def)
  from input_session [OF rs(1) sees_fresh [OF w c(1)] this] obtain w3 where
    run: "inputLoop pf p (request_commands rs) ?w = (Inr (), w3)"
    and w3: "sees pf p db (snd (store_run rs m)) (out @ fst (store_run rs m)) w3" "log_grows (log_of rs) ?w w3"
    by (auto simp: request_commands_def)
  then obtain c3 where "w_clients w3 p = Some c3" by (auto simp: sees_def)
  from read_commands [OF fd c(1,2) rs(2) run this] obtain el where
    "onReadable pf fd (Received (concat (map serialize (request_commands rs)))) w = (Inr (), w3\<lparr>eventLoop := el\<rparr>)" by blast
  moreover have "sees pf p db (snd (store_run rs m)) (out @ fst (store_run rs m)) (w3\<lparr>eventLoop := el\<rparr>)"
    by (rule sees_frame [OF w3(1)]) (use w3(1) in \<open>simp_all add: sees_def alone_def\<close>)
  ultimately show ?thesis using w3(2) by (auto simp: log_grows_def same_log_def)
qed

text \<open>C3: With \<^verbatim>\<open>appendonly yes\<close> and an empty log, what a client does to an empty database survives in the
  append-only file: after a pipeline of string requests and the periodic flush, the file holds
  exactly the write requests in order; replaying it on any server, whatever that held, gives a
  database 0 with exactly the keys and values that the session left.\<close>

theorem aof_restores_session:
  assumes w: "sees pf p 0 Map.empty out w" and fd: "map_of (connections w) fd = Some p"
    and c: "w_clients w p = Some c" "inputBuffer c = ''''" "\<not> hasFlag CLIENT_MASTER c"
    and rs: "\<forall>r \<in> set rs. proper r" "receivable pf (request_commands rs)"
    and aof: "appendOnly (w_config w)" "aofBuffer w = ''''" "aofStream w = Some i" "inodes w i = ''''"
    and w0: "spaces_ok pf w0" "alone w0" "databases w0 \<noteq> []" "w_clients w0 q = None"
  shows "\<exists>w' w1. onReadable pf fd (Received (concat (map serialize (request_commands rs)))) w = (Inr (), w') \<and>
    inodes (flushAof w') i = concat (map serialize (request_commands (filter is_write rs))) \<and>
    aof_loadFromFile pf q (Some (inodes (flushAof w') i)) w0 = (Inr True, w1) \<and>
    (\<forall>k. view (openDb (dbIndex 0 w') w') k = map_option (\<lambda>s. (StringObject s, None)) (snd (store_run rs Map.empty) k) \<and>
         view (openDb 0 w1) k = view (openDb (dbIndex 0 w') w') k)"
proof -
  from logged_session [OF w fd c rs] aof obtain w' where
    run: "onReadable pf fd (Received (concat (map serialize (request_commands rs)))) w = (Inr (), w')"
    and w': "sees pf p 0 (snd (store_run rs Map.empty)) (out @ fst (store_run rs Map.empty)) w'"
    and log: "aofBuffer w' = log_of rs" "aofStream w' = Some i" "inodes w' i = ''''" "appendOnly (w_config w')" by auto
  from log have disk: "inodes (flushAof w') i = log_of rs" by (auto simp: flushAof_def)
  from replay_log [OF w0 rs] obtain w1 where
    "aof_loadFromFile pf q (Some (log_of rs)) w0 = (Inr True, w1)" "holds (snd (store_run rs Map.empty)) (openDb 0 w1)" by blast
  with run disk sees_ks [OF w'] show ?thesis
    by (intro exI [of _ w'] exI [of _ w1]) (simp add: holds_def log_commands)
qed

definition loggingServer :: world where
  "loggingServer = oneClient\<lparr>w_config := defaultConfig\<lparr>appendOnly := True\<rparr>, aofStream := Some 0\<rparr>"

theorem aof_restores_session_witness:
  "\<exists>w' w1. onReadable samplePlatform 3 (Received (concat (map serialize (request_commands [Set ''k'' ''v'', Get ''k''])))) loggingServer = (Inr (), w') \<and>
    inodes (flushAof w') 0 = serialize (command_of [''SET'', ''k'', ''v'']) \<and>
    aof_loadFromFile samplePlatform 9 (Some (inodes (flushAof w') 0)) oneClient = (Inr True, w1) \<and>
    view (openDb 0 w1) ''k'' = Some (StringObject ''v'', None)"
proof -
  let ?rs = "[Set ''k'' ''v'', Get ''k'']" and ?c = "newClient 3 1 0"
  have w: "sees samplePlatform 7 0 Map.empty '''' loggingServer"
    by (rule sees_frame [OF oneClient_sees]) (simp_all add: loggingServer_def alone_def oneClient_def newServer_def defaultConfig_def)
  have rs: "\<forall>r \<in> set ?rs. proper r" "receivable samplePlatform (request_commands ?rs)"
    by (simp_all add: receivable_def request_commands_def command_of_def in_i64_def i64_min_def i64_max_def samplePlatform_def
        MAX_INPUT_BUFFER_def nat_to_dec.simps)
  have "map_of (connections loggingServer) 3 = Some 7" "w_clients loggingServer 7 = Some ?c" "inputBuffer ?c = ''''"
    "\<not> hasFlag CLIENT_MASTER ?c"
    by (simp_all add: loggingServer_def oneClient_def newClient_def hasFlag_def)
  note use = aof_restores_session [OF w this rs]
  have "appendOnly (w_config loggingServer)" "aofBuffer loggingServer = ''''" "aofStream loggingServer = Some 0" "inodes loggingServer 0 = ''''"
    by (simp_all add: loggingServer_def oneClient_def newServer_def)
  note use = use [OF this]
  have "spaces_ok samplePlatform oneClient" "alone oneClient" "databases oneClient \<noteq> []"
    using oneClient_sees by (simp_all add: sees_def)
  moreover have "w_clients oneClient 9 = None" by (simp add: oneClient_def)
  ultimately obtain w' w1 where
    "onReadable samplePlatform 3 (Received (concat (map serialize (request_commands ?rs)))) loggingServer = (Inr (), w')"
    "inodes (flushAof w') 0 = concat (map serialize (request_commands (filter is_write ?rs)))"
    "aof_loadFromFile samplePlatform 9 (Some (inodes (flushAof w') 0)) oneClient = (Inr True, w1)"
    "view (openDb 0 w1) ''k'' = map_option (\<lambda>s. (StringObject s, None)) (snd (store_run ?rs Map.empty) ''k'')"
    using use [of oneClient 9] by metis
  then show ?thesis by (auto simp: request_commands_def)
qed

end
