(* ===== verification/Transactions.thy ===== *)
theory Transactions
  imports Session
begin

text \<open>
  \<^verbatim>\<open>MULTI\<close>, queueing and \<^verbatim>\<open>EXEC\<close> over the machine of \<open>Session\<close>, and the optimistic lock
  of \<^verbatim>\<open>WATCH\<close>.
\<close>

section \<open>Queueing\<close>

lemma names_not_queued: "\<not> queued ''MULTI'' c" "\<not> queued ''EXEC'' c"
  by (simp_all add: queued_def)

lemma hasFlag_addReply [simp]: "hasFlag f (addReply s c) = hasFlag f c" "hasFlag f (c\<lparr>transactionQueue := q\<rparr>) = hasFlag f c"
  by (simp_all add: hasFlag_def addReply_def)

lemma flags_apart:
  "CLIENT_DIRTY_EXEC \<noteq> CLIENT_MASTER" "CLIENT_DIRTY_EXEC \<noteq> CLIENT_CLOSE_ASAP" "CLIENT_MULTI \<noteq> CLIENT_MASTER"
  "CLIENT_MULTI \<noteq> CLIENT_CLOSE_ASAP"
  by (simp_all add: client_flags)

lemmas flags_apart_sym = flags_apart flags_apart [THEN not_sym]

text \<open>A client in a transaction whose queue is \<open>rs\<close>.\<close>

definition in_multi :: "request list \<Rightarrow> client \<Rightarrow> bool" where
  "in_multi rs c \<longleftrightarrow> hasFlag CLIENT_MULTI c \<and> \<not> hasFlag CLIENT_DIRTY_EXEC c \<and> \<not> hasFlag CLIENT_BLOCKED c \<and>
     \<not> hasFlag CLIENT_MASTER c \<and> \<not> hasFlag CLIENT_CLOSE_ASAP c \<and>
     transactionQueue c = map (\<lambda>r. map BulkString (request_words r)) rs"

text \<open>The worlds while \<open>p\<close> queues: only its client has changed, and what it was told so far is \<open>out\<close>.\<close>

definition queueing :: "nat \<Rightarrow> world \<Rightarrow> request list \<Rightarrow> string \<Rightarrow> world \<Rightarrow> bool" where
  "queueing p w rs out w' \<longleftrightarrow> databases w' = databases w \<and> alone w' \<and>
     (\<exists>c c'. w_clients w p = Some c \<and> w_clients w' = (w_clients w)(p \<mapsto> c') \<and> in_multi rs c' \<and>
       selectedDb c' = selectedDb c \<and> outputBuffer c' = out)"

lemma begin_multi:
  assumes "sees pf p db m out w" "w_clients w p = Some c" "transactionQueue c = []" "\<not> hasFlag CLIENT_DIRTY_EXEC c"
    "\<not> hasFlag CLIENT_MASTER c"
  shows "\<exists>w'. executeCommand pf p (command_of [''MULTI'']) w = (Inr (), w') \<and>
    queueing p w [] (out @ reply_simpleString ''OK'') w'"
proof -
  have c: "plain c" "outputBuffer c = out" and w: "alone w" using assms(1,2) by (auto simp: sees_def)
  let ?c' = "addReply (reply_simpleString ''OK'') (setFlag CLIENT_MULTI c)"
  let ?w' = "w\<lparr>w_clients := (w_clients w)(p \<mapsto> ?c')\<rparr>"
  have run: "runDepth pf 4 (TransactionH MULTI) p (map BulkString [''MULTI'']) w = (Inr (), ?w')"
    using c assms(2) by (simp add: eval_nat_numeral handlerAct_def multiCommand_def bnd_theClient bnd_setClient reply_def runs_client plain_def)
  have alone: "alone ?w'" using w by (simp add: alone_def)
  have "executeCommand pf p (command_of [''MULTI'']) w = (Inr (), logged False [''MULTI''] ?w')"
    by (rule execute_known [OF assms(2) names_not_queued(1) w known_names(12) _ _ run alone]) simp_all
  moreover have "in_multi [] ?c'"
    using c assms(3-5) by (simp add: in_multi_def plain_def hasFlag_setFlag flags_apart_sym) (simp add: addReply_def setFlag_def)
  ultimately show ?thesis
    using assms(2) alone c(2) unfolding queueing_def
    by (intro exI [of _ "logged False [''MULTI''] ?w'"] conjI exI [of _ c] exI [of _ ?c']) (simp_all add: addReply_def setFlag_def)
qed

lemma queue_request:
  assumes "queueing p w rs out w1" "proper r"
  shows "\<exists>w2. executeCommand pf p (command_of (request_words r)) w1 = (Inr (), w2) \<and>
    queueing p w (rs @ [r]) (out @ reply_simpleString ''QUEUED'') w2"
proof -
  from assms(1) obtain c c1 where c: "w_clients w p = Some c" "w_clients w1 = (w_clients w)(p \<mapsto> c1)" "in_multi rs c1"
    "selectedDb c1 = selectedDb c" "outputBuffer c1 = out" and w1: "databases w1 = databases w" "alone w1"
    by (auto simp: queueing_def)
  from request_row [OF assms(2)] obtain name ss n where row: "request_words r = name # ss"
    "known name = Some (StringH (handler_of r), n, is_write r)"
    "\<not> (n > 0 \<and> int (length ss) + 1 \<noteq> n)" "\<not> (n < 0 \<and> int (length ss) + 1 < - n)" by blast
  have "name \<in> {''SET'', ''GET'', ''DEL'', ''EXISTS'', ''SETNX'', ''STRLEN'', ''APPEND'', ''INCRBY'', ''MGET''}"
    using row(1) by (cases r) auto
  then have q: "queued name c1" using c(3) by (auto simp: queued_def in_multi_def)
  have c1: "w_clients w1 p = Some c1" using c(2) by simp
  let ?c2 = "addReply (reply_simpleString ''QUEUED'') (c1\<lparr>transactionQueue := transactionQueue c1 @ [map BulkString (name # ss)]\<rparr>)"
  let ?w2 = "w1\<lparr>w_clients := (w_clients w1)(p \<mapsto> ?c2)\<rparr>"
  have "executeCommand pf p (command_of (request_words r)) w1 = (Inr (), ?w2)"
    unfolding row(1) by (rule execute_queued [OF c1 q w1(2) row(2-4)])
  moreover have "in_multi (rs @ [r]) ?c2" using c(3) row(1) by (simp add: in_multi_def) (simp add: addReply_def)
  ultimately show ?thesis using c w1 unfolding queueing_def
    by (intro exI [of _ ?w2] conjI exI [of _ c] exI [of _ ?c2]) (simp_all add: alone_def addReply_def)
qed

section \<open>Execution of the queue\<close>

lemma execOne_served:
  assumes "proper r"
  shows "served pf p db (execOne pf (\<lambda>name. map_option (\<lambda>e. runDepth pf (Suc d) (entry_handler e)) (lookupCommand name)) p
    (map BulkString (request_words r))) r"
proof -
  from request_row [OF assms] obtain name ss n where row: "request_words r = name # ss"
    "known name = Some (StringH (handler_of r), n, is_write r)" by blast
  then obtain e where e: "lookupCommand name = Some e" "entry_handler e = StringH (handler_of r)" by (auto simp: known_def)
  have name: "argStr (map BulkString (request_words r)) 0 = ret name"
    unfolding row(1) by (subst argStr_words) simp_all
  have "yields_as pf p db (runDepth pf (Suc d) (StringH (handler_of r)) p (map BulkString (request_words r))) (\<lambda>m. ((), store_step r m))"
    using handler_served [OF assms] by (simp add: served_def)
  from yields_as_bnd [OF this yields_as_tick]
  have "yields_as pf p db (seq (runDepth pf (Suc d) (StringH (handler_of r)) p (map BulkString (request_words r)))
      (modify (\<lambda>w. w\<lparr>totalCommandsProcessed := totalCommandsProcessed w + 1\<rparr>))) (\<lambda>m. ((), store_step r m))"
    by (rule yields_as_eq) (simp add: then_spec_def case_prod_beta)
  then show ?thesis unfolding served_def execOne_def name bnd_ret e(1) option.map option.case e(2) by (rule yields_as_try)
qed

lemma queue_served:
  assumes "\<forall>r \<in> set rs. proper r"
  shows "yields_as pf p db (forEach (map (\<lambda>r. map BulkString (request_words r)) rs)
    (execOne pf (\<lambda>name. map_option (\<lambda>e. runDepth pf (Suc d) (entry_handler e)) (lookupCommand name)) p)) (\<lambda>m. ((), store_run rs m))"
  using assms
proof (induction rs)
  case Nil
  then show ?case using yields_as_ret by simp
next
  case (Cons r rs)
  from Cons.prems have "proper r" "\<forall>r \<in> set rs. proper r" by simp_all
  from yields_as_bnd [OF execOne_served [OF this(1), unfolded served_def] Cons.IH [OF this(2)]]
  show ?case unfolding list.map forEach.simps by (rule yields_as_eq) (simp add: then_spec_def case_prod_beta Let_def)
qed

lemma run_exec:
  assumes "sees pf p db m out0 w" "queueing p w rs out w1" "\<forall>r \<in> set rs. proper r"
  shows "\<exists>w2. executeCommand pf p (command_of [''EXEC'']) w1 = (Inr (), w2) \<and>
    sees pf p db (snd (store_run rs m)) (out @ ''*'' @ nat_to_dec (length rs) @ CRLF @ fst (store_run rs m)) w2"
proof -
  from assms(2) obtain c c1 where c: "w_clients w p = Some c" "w_clients w1 = (w_clients w)(p \<mapsto> c1)" "in_multi rs c1"
    "selectedDb c1 = selectedDb c" "outputBuffer c1 = out" and w1: "databases w1 = databases w" "alone w1"
    by (auto simp: queueing_def)
  have c1: "w_clients w1 p = Some c1" using c(2) by simp
  let ?head = "''*'' @ nat_to_dec (length rs) @ CRLF"
  let ?c2 = "addReply ?head (clearTransaction c1)"
  let ?w2 = "w1\<lparr>w_clients := (w_clients w1)(p \<mapsto> ?c2)\<rparr>"
  have plain: "plain ?c2"
    using c(3) by (simp add: plain_def in_multi_def clearTransaction_def hasFlag_clearFlag flags_apart_sym)
  have out: "outputBuffer ?c2 = out @ ?head" "selectedDb ?c2 = selectedDb c" using c(4,5) by (simp_all add: addReply_def clearTransaction_def clearFlag_def)
  have "sees pf p db m (out @ ?head) ?w2"
    using sees_update [OF assms(1) c(1), of ?w2 ?c2] plain out w1 c(2) by (simp add: alone_def)
  from yields_asD [OF queue_served [OF assms(3), of pf p db 2] this] obtain w3 where
    run: "forEach (map (\<lambda>r. map BulkString (request_words r)) rs) (execOne pf (\<lambda>name. map_option (\<lambda>e. runDepth pf (Suc 2) (entry_handler e))
      (lookupCommand name)) p) ?w2 = (Inr (), w3)"
    and w3: "sees pf p db (snd (store_run rs m)) ((out @ ?head) @ fst (store_run rs m)) w3" by auto
  have "runDepth pf 4 (TransactionH EXEC) p (map BulkString [''EXEC'']) w1 = (Inr (), w3)"
    using c(3) run by (simp add: eval_nat_numeral handlerAct_def execCommand_def bnd_theClient bnd_setClient in_multi_def
        bnd_def [of "reply p s" for s] reply_def runs_client c1)
  moreover have "alone w3" using w3 by (simp add: sees_def)
  ultimately have "executeCommand pf p (command_of [''EXEC'']) w1 = (Inr (), logged False [''EXEC''] w3)"
    by (intro execute_known [OF c1 names_not_queued(2) w1(2) known_names(13)]; simp)
  then show ?thesis using sees_logged [OF w3, of False "[''EXEC'']"] by auto
qed

lemma queue_all:
  assumes "\<forall>r \<in> set rs. proper r" "queueing p w qs out w1"
  shows "\<exists>w2. inputLoop pf p (request_commands rs @ rest) w1 = inputLoop pf p rest w2 \<and>
    queueing p w (qs @ rs) (out @ concat (replicate (length rs) (reply_simpleString ''QUEUED''))) w2"
  using assms
proof (induction rs arbitrary: qs out w1)
  case Nil
  then show ?case by (auto simp: request_commands_def)
next
  case (Cons r rs)
  from Cons.prems have r: "proper r" "\<forall>r \<in> set rs. proper r" by simp_all
  from queue_request [OF Cons.prems(2) r(1)] obtain w2 where
    run: "executeCommand pf p (command_of (request_words r)) w1 = (Inr (), w2)"
    and w2: "queueing p w (qs @ [r]) (out @ reply_simpleString ''QUEUED'') w2" by blast
  obtain c1 c2 where "w_clients w1 p = Some c1" "in_multi qs c1" "w_clients w2 p = Some c2" "in_multi (qs @ [r]) c2"
    using Cons.prems(2) w2 by (auto simp: queueing_def)
  then have "inputLoop pf p (request_commands (r # rs) @ rest) w1 = inputLoop pf p (request_commands rs @ rest) w2"
    by (simp add: request_commands_def bnd_theClient bnd_gets bnd_run [where m = "executeCommand pf p a" for a, OF run] in_multi_def)
  with Cons.IH [OF r(2) w2] show ?case by simp
qed

text \<open>C4: \<^verbatim>\<open>MULTI\<close>, any string requests, \<^verbatim>\<open>EXEC\<close>: every request is answered QUEUED and changes nothing;
  \<^verbatim>\<open>EXEC\<close> answers with the array of exactly the replies that the requests would have got outside the
  transaction, run in order and without another client's command between them, and leaves the
  database in the same state. (In particular the client is then out of the transaction, and can go on.)\<close>

theorem transaction_refines_map:
  assumes w: "sees pf p db m out w" and fd: "map_of (connections w) fd = Some p"
    and c: "w_clients w p = Some c" "inputBuffer c = ''''" "transactionQueue c = []" "\<not> hasFlag CLIENT_DIRTY_EXEC c"
      "\<not> hasFlag CLIENT_MASTER c"
    and rs: "\<forall>r \<in> set rs. proper r"
    and cmds: "cmds = [command_of [''MULTI'']] @ request_commands rs @ [command_of [''EXEC'']]" "receivable pf cmds"
  shows "\<exists>w'. onReadable pf fd (Received (concat (map serialize cmds))) w = (Inr (), w') \<and>
    sees pf p db (snd (store_run rs m))
      (out @ reply_simpleString ''OK'' @ concat (replicate (length rs) (reply_simpleString ''QUEUED'')) @
       ''*'' @ nat_to_dec (length rs) @ CRLF @ fst (store_run rs m)) w'"
proof (rule read_session [OF w fd c(1,2) cmds(2)])
  let ?c = "fresh_input (steady_ms pf) c"
  let ?w = "w\<lparr>w_clients := (w_clients w)(p \<mapsto> ?c)\<rparr>"
  let ?queued = "concat (replicate (length rs) (reply_simpleString ''QUEUED''))"
  have s: "sees pf p db m out ?w" by (rule sees_fresh [OF w c(1)])
  have "w_clients ?w p = Some ?c" "transactionQueue ?c = []" "\<not> hasFlag CLIENT_DIRTY_EXEC ?c" "\<not> hasFlag CLIENT_MASTER ?c"
    using c by (simp_all add: fresh_input_def hasFlag_def)
  from begin_multi [OF s this] obtain w1 where run1: "executeCommand pf p (command_of [''MULTI'']) ?w = (Inr (), w1)"
    and w1: "queueing p ?w [] (out @ reply_simpleString ''OK'') w1" by blast
  from queue_all [OF rs w1] obtain w2 where
    loop: "inputLoop pf p (request_commands rs @ [command_of [''EXEC'']]) w1 = inputLoop pf p [command_of [''EXEC'']] w2"
    and w2: "queueing p ?w rs ((out @ reply_simpleString ''OK'') @ ?queued) w2" by fastforce
  from run_exec [OF s w2 rs] obtain w3 where run3: "executeCommand pf p (command_of [''EXEC'']) w2 = (Inr (), w3)"
    and w3: "sees pf p db (snd (store_run rs m)) (((out @ reply_simpleString ''OK'') @ ?queued) @
      ''*'' @ nat_to_dec (length rs) @ CRLF @ fst (store_run rs m)) w3" by blast
  obtain c1 c2 c3 where "w_clients w1 p = Some c1" "in_multi [] c1" "w_clients w2 p = Some c2" "in_multi rs c2"
    "w_clients w3 p = Some c3" "plain c3" using w1 w2 w3 unfolding queueing_def sees_def by auto
  moreover have "plain ?c" "\<not> hasFlag CLIENT_MASTER ?c" using s c(5) by (simp_all add: sees_def fresh_input_def hasFlag_def)
  ultimately have "inputLoop pf p cmds ?w = (Inr (), w3)"
    using loop unfolding cmds(1)
    by (simp add: bnd_theClient bnd_gets bnd_run [where m = "executeCommand pf p a" for a, OF run1]
        bnd_run [where m = "executeCommand pf p a" for a, OF run3] plain_def in_multi_def act_apply)
  with w3 show "\<exists>w'. inputLoop pf p cmds ?w = (Inr (), w') \<and> sees pf p db (snd (store_run rs m))
      (out @ reply_simpleString ''OK'' @ ?queued @ ''*'' @ nat_to_dec (length rs) @ CRLF @ fst (store_run rs m)) w'" by auto
qed

theorem transaction_refines_map_witness:
  "\<exists>w' c. onReadable samplePlatform 3 (Received (concat (map serialize
      ([command_of [''MULTI'']] @ request_commands [Set ''k'' ''v'', Get ''k''] @ [command_of [''EXEC'']])))) oneClient = (Inr (), w') \<and>
    w_clients w' 7 = Some c \<and> outputBuffer c = ''+OK'' @ CRLF @ ''+QUEUED'' @ CRLF @ ''+QUEUED'' @ CRLF @
      ''*2'' @ CRLF @ ''+OK'' @ CRLF @ ''$1'' @ CRLF @ ''v'' @ CRLF"
proof -
  let ?rs = "[Set ''k'' ''v'', Get ''k'']" and ?c = "newClient 3 1 0"
  let ?cmds = "[command_of [''MULTI'']] @ request_commands ?rs @ [command_of [''EXEC'']]"
  have cmds: "receivable samplePlatform ?cmds"
    by (simp add: receivable_def request_commands_def command_of_def in_i64_def i64_min_def i64_max_def samplePlatform_def
        MAX_INPUT_BUFFER_def nat_to_dec.simps)
  have "map_of (connections oneClient) 3 = Some 7" "w_clients oneClient 7 = Some ?c" "inputBuffer ?c = ''''" "transactionQueue ?c = []"
    "\<not> hasFlag CLIENT_DIRTY_EXEC ?c" "\<not> hasFlag CLIENT_MASTER ?c" "\<forall>r \<in> set ?rs. proper r"
    by (simp_all add: oneClient_def newClient_def hasFlag_def)
  from transaction_refines_map [OF oneClient_sees this refl cmds]
  obtain w' where run: "onReadable samplePlatform 3 (Received (concat (map serialize ?cmds))) oneClient = (Inr (), w')"
    and w': "sees samplePlatform 7 0 (snd (store_run ?rs Map.empty)) ('''' @ reply_simpleString ''OK'' @
      concat (replicate (length ?rs) (reply_simpleString ''QUEUED'')) @ ''*'' @ nat_to_dec (length ?rs) @ CRLF @ fst (store_run ?rs Map.empty)) w'"
    by blast
  have "fst (store_run ?rs Map.empty) = ''+OK'' @ CRLF @ ''$1'' @ CRLF @ ''v'' @ CRLF"
    by (simp add: text_reply_def reply_defs reply_bulkString_def nat_to_dec.simps digit_char_def char_of_def bit_0)
  moreover have "reply_simpleString ''OK'' = ''+OK'' @ CRLF" "reply_simpleString ''QUEUED'' = ''+QUEUED'' @ CRLF" "nat_to_dec (length ?rs) = ''2''"
    by (simp_all add: reply_defs nat_to_dec.simps digit_char_def char_of_def bit_0)
  ultimately show ?thesis using run w' by (auto simp: sees_def numeral_2_eq_2)
qed

section \<open>Optimistic locking\<close>

lemma set_clients: "clients (db_set pf k v ks) q =
    (if q \<in> watchers ks k then map_option (setFlag CLIENT_DIRTY_EXEC) (clients ks q) else clients ks q)"
  by (simp add: db_set_setObject setObject_clients)

text \<open>A SET of \<open>p\<close> marks a client that watches the key.\<close>

lemma set_marks:
  assumes w: "sees pf p db m out w" and q: "q \<noteq> p" "w_clients w q = Some d" "q \<in> watchers (openDb (dbIndex db w) w) k"
  shows "\<exists>w1. executeCommand pf p (command_of [''SET'', k, v]) w = (Inr (), w1) \<and>
    sees pf p db (m(k \<mapsto> v)) (out @ reply_ok) w1 \<and> w_clients w1 q = Some (setFlag CLIENT_DIRTY_EXEC d)"
proof -
  from w obtain c where c: "w_clients w p = Some c" "plain c" "selectedDb c = db" and w': "databases w \<noteq> []" "alone w" by (auto simp: sees_def)
  let ?ks = "openDb (dbIndex db w) w"
  let ?w1 = "closeDb (dbIndex db w) (db_set pf k v ?ks) w"
  have cl: "w_clients ?w1 x = clients (db_set pf k v ?ks) x" for x by (simp add: closeDb_def)
  have "\<exists>c'. w_clients ?w1 p = Some c'" unfolding cl set_clients using c(1) by (simp add: openDb_sel)
  then obtain c' where c': "w_clients ?w1 p = Some c'" by blast
  have sel: "selected p w = (Inr db, w)" using c by (simp add: selected_def runs_client act_apply)
  let ?w2 = "?w1\<lparr>totalCommandsProcessed := totalCommandsProcessed ?w1 + 1\<rparr>"
  let ?w3 = "?w2\<lparr>w_clients := (w_clients ?w2)(p \<mapsto> addReply reply_ok c')\<rparr>"
  have set: "onDb db (\<lambda>ks. ((), db_set pf k v ks)) w = (Inr (), ?w1)" using w'(1) by (simp add: onDb_def Let_def)
  have run: "runDepth pf 4 (StringH SET) p (map BulkString [''SET'', k, v]) w = (Inr (), ?w3)"
    using c' by (simp add: eval_nat_numeral handlerAct_def plain_set [simplified] bnd_run [where m = "selected p", OF sel] runDb_def
        bnd_run [where m = "onDb a b" for a b, OF set] bnd_modify reply_def runs_client)
  have "proper (Set k v)" by simp
  from handler_served [OF this, of pf p db 3] yields_asD [of pf p db _ "\<lambda>m. ((), store_step (Set k v) m)", OF _ w] run
  have "sees pf p db (m(k \<mapsto> v)) (out @ reply_ok) ?w3" by (fastforce simp: served_def eval_nat_numeral)
  moreover from this have "alone ?w3" by (simp add: sees_def)
  moreover have "\<not> queued ''SET'' c" using c(2) by (simp add: queued_def plain_def)
  ultimately have "executeCommand pf p (command_of [''SET'', k, v]) w = (Inr (), logged True [''SET'', k, v] ?w3)"
    "sees pf p db (m(k \<mapsto> v)) (out @ reply_ok) (logged True [''SET'', k, v] ?w3)"
    using execute_known [OF c(1) _ w'(2) known_names(1) _ _ run] sees_logged by simp_all
  moreover have "w_clients ?w1 q = Some (setFlag CLIENT_DIRTY_EXEC d)" unfolding cl set_clients using q by (simp add: openDb_sel)
  ultimately show ?thesis using q(1) by (intro exI [of _ "logged True [''SET'', k, v] ?w3"]) simp
qed

lemma exec_dirty:
  assumes d: "w_clients w q = Some d" "hasFlag CLIENT_MULTI d" "hasFlag CLIENT_DIRTY_EXEC d" and w: "alone w"
  shows "executeCommand pf q (command_of [''EXEC'']) w =
    (Inr (), logged False [''EXEC''] (w\<lparr>w_clients := (w_clients w)(q \<mapsto> addReply reply_nullArray (clearTransaction d))\<rparr>))"
proof -
  have "runDepth pf 4 (TransactionH EXEC) q (map BulkString [''EXEC'']) w =
      (Inr (), w\<lparr>w_clients := (w_clients w)(q \<mapsto> addReply reply_nullArray (clearTransaction d))\<rparr>)"
    using d by (simp add: eval_nat_numeral handlerAct_def execCommand_def bnd_theClient bnd_setClient reply_def runs_client)
  from execute_known [OF d(1) names_not_queued(2) w known_names(13) _ _ this] w show ?thesis by (simp add: alone_def)
qed

text \<open>C11: Optimistic locking: when another client sets a key that \<open>q\<close> watches, \<open>q\<close>'s \<^verbatim>\<open>EXEC\<close> is answered
  with the null array, nothing of its queue is run, no database changes, and \<open>q\<close> is out of the transaction.\<close>

theorem changed_watch_aborts:
  assumes "sees pf p db m out w" "q \<noteq> p" "w_clients w q = Some d" "hasFlag CLIENT_MULTI d"
    and "q \<in> watchers (openDb (dbIndex db w) w) k"
  shows "\<exists>w1 w2 d'. executeCommand pf p (command_of [''SET'', k, v]) w = (Inr (), w1) \<and>
    sees pf p db (m(k \<mapsto> v)) (out @ reply_ok) w1 \<and>
    executeCommand pf q (command_of [''EXEC'']) w1 = (Inr (), w2) \<and> databases w2 = databases w1 \<and>
    w_clients w2 = (w_clients w1)(q \<mapsto> d') \<and> outputBuffer d' = outputBuffer d @ reply_nullArray \<and>
    transactionQueue d' = [] \<and> \<not> hasFlag CLIENT_MULTI d'"
proof -
  from set_marks [OF assms(1-3,5)] obtain w1 where w1: "executeCommand pf p (command_of [''SET'', k, v]) w = (Inr (), w1)"
    "sees pf p db (m(k \<mapsto> v)) (out @ reply_ok) w1" "w_clients w1 q = Some (setFlag CLIENT_DIRTY_EXEC d)" by blast
  have "hasFlag CLIENT_MULTI (setFlag CLIENT_DIRTY_EXEC d)" "hasFlag CLIENT_DIRTY_EXEC (setFlag CLIENT_DIRTY_EXEC d)" "alone w1"
    using assms(4) w1(2) by (simp_all add: hasFlag_setFlag sees_def)
  note exec = exec_dirty [OF w1(3) this, of pf]
  let ?d = "addReply reply_nullArray (clearTransaction (setFlag CLIENT_DIRTY_EXEC d))"
  have "outputBuffer ?d = outputBuffer d @ reply_nullArray" "transactionQueue ?d = []" "\<not> hasFlag CLIENT_MULTI ?d"
    by (simp_all add: clearTransaction_def hasFlag_clearFlag) (simp_all add: addReply_def clearFlag_def setFlag_def)
  with w1(1,2) exec show ?thesis
    by (intro exI [of _ w1] exI [of _ "logged False [''EXEC''] (w1\<lparr>w_clients := (w_clients w1)(q \<mapsto> ?d)\<rparr>)"] exI [of _ ?d]) simp
qed

definition twoClients :: world where
  "twoClients = oneClient\<lparr>w_clients := [7 \<mapsto> newClient 3 1 0, 8 \<mapsto> setFlag CLIENT_MULTI (newClient 4 2 0)],
     databases := [emptyDatabase\<lparr>watchedKeys := [(''k'', [8])]\<rparr>]\<rparr>"

theorem changed_watch_aborts_witness:
  "\<exists>w1 w2 d. executeCommand samplePlatform 7 (command_of [''SET'', ''k'', ''v'']) twoClients = (Inr (), w1) \<and>
    executeCommand samplePlatform 8 (command_of [''EXEC'']) w1 = (Inr (), w2) \<and> w_clients w2 8 = Some d \<and> outputBuffer d = ''*-1'' @ CRLF"
proof -
  have "plain (newClient 3 1 0)" by (simp add: plain_def newClient_def hasFlag_def)
  then have "sees samplePlatform 7 0 Map.empty '''' twoClients"
    by (simp add: sees_def twoClients_def oneClient_def newServer_def defaultConfig_def alone_def spaces_ok_def ks_ok_def openDb_def
        emptyDatabase_def holds_def view_def newClient_def dbIndex_def)
  moreover have "w_clients twoClients 8 = Some (setFlag CLIENT_MULTI (newClient 4 2 0))"
    "hasFlag CLIENT_MULTI (setFlag CLIENT_MULTI (newClient 4 2 0))" "8 \<in> watchers (openDb (dbIndex 0 twoClients) twoClients) ''k''"
    by (simp_all add: twoClients_def hasFlag_setFlag watchers_def openDb_def dbIndex_def)
  ultimately obtain w1 w2 d where "executeCommand samplePlatform 7 (command_of [''SET'', ''k'', ''v'']) twoClients = (Inr (), w1)"
    "executeCommand samplePlatform 8 (command_of [''EXEC'']) w1 = (Inr (), w2)" "w_clients w2 = (w_clients w1)(8 \<mapsto> d)"
    "outputBuffer d = outputBuffer (setFlag CLIENT_MULTI (newClient 4 2 0)) @ reply_nullArray"
    using changed_watch_aborts [of samplePlatform 7 0 Map.empty "''''" twoClients 8] by force
  then show ?thesis by (auto simp: setFlag_def newClient_def reply_defs)
qed

end
