(* ===== verification/Guarantees.thy ===== *)
theory Guarantees
  imports Session
begin

text \<open>
  What holds in every world that a run of the server reaches (\<open>server_run\<close>), whatever the
  clients send within \<open>polite_read\<close> and in whatever order the events come: no pointer of a
  shared table dangles, stored objects are well formed, connections, clients and file events
  agree. Then: what closing a connection leaves behind.
\<close>

section \<open>A run\<close>

definition sampleConfig :: config where
  "sampleConfig = defaultConfig\<lparr>cfg_databases := 1\<rparr>"

definition sampleSockets :: listen_env where
  "sampleSockets = \<lparr>le_socket = Some 5, le_nonblocking = True, le_address = True, le_bind = True, le_listen = True\<rparr>"

definition sampleServer :: world where
  "sampleServer = newServer sampleConfig (\<lambda>_. None) (\<lambda>_. '''') 0"

definition sampleLoop :: event_loop where
  "sampleLoop = snd (addTimeEvent 500 100 (addFileEvent 5 EVENT_READABLE OnAccept newEventLoop))"

definition startedServer :: world where
  "startedServer = startRun (sampleServer\<lparr>databases := [emptyDatabase], connUp := True, listenFd := Some 5, eventLoop := sampleLoop\<rparr>)"

lemma bnd_pair: "bnd (Pair (Inr x)) f = f x" "bnd (\<lambda>w. (Inr x, g w)) f v = f x (g v)"
  by (simp_all add: bnd_def fun_eq_iff)

lemma sample_started: "server_run length startedServer"
  unfolding startedServer_def
proof (rule server_run.start)
  show "initialize samplePlatform True 0 sampleSockets (newServer sampleConfig (\<lambda>_. None) (\<lambda>_. '''') 0) =
      (Inr True, sampleServer\<lparr>databases := [emptyDatabase], connUp := True, listenFd := Some 5, eventLoop := sampleLoop\<rparr>)"
    unfolding sampleServer_def
    by (simp add: initialize_def reserving_def restoreData_def restoreRdb_def createEventLoop_def bnd_assoc bnd_gets bnd_modify
        sampleConfig_def newServer_def defaultConfig_def samplePlatform_def loadFromFile_def fileContents_def tcp_listen_def
        sampleSockets_def onLoop_def act_apply bnd_def [of "loadFromFile a b c" for a b c] bnd_pair sampleLoop_def)
qed (simp_all add: sampleConfig_def defaultConfig_def sampleSockets_def)

text \<open>The client at address 7, on descriptor 3.\<close>

definition connectedServer :: world where
  "connectedServer = connect 3 7 0 EVENT_READABLE OnReadable startedServer"

lemma sample_connected: "server_run length connectedServer"
proof -
  have "unused 3 7 startedServer" by (simp add: unused_def startedServer_def startRun_def sampleServer_def newServer_def)
  moreover have "addClient 3 7 0 True startedServer = (Some 7, connectedServer)"
    by (simp add: addClient_def connectedServer_def startedServer_def startRun_def sampleServer_def newServer_def
        sampleConfig_def defaultConfig_def)
  ultimately show ?thesis using server_run.accept [OF sample_started, of 3 7 0 True] by simp
qed

section \<open>One command per read\<close>

lemma read_command:
  assumes fd: "map_of (connections w) fd = Some p" and c: "w_clients w p = Some c" "inputBuffer c = ''''" "plain c" "\<not> hasFlag CLIENT_MASTER c"
    and cmd: "receivable pf [cmd]"
    and run: "executeCommand pf p cmd (w\<lparr>w_clients := (w_clients w)(p \<mapsto> fresh_input (steady_ms pf) c)\<rparr>) = (Inr (), w3)"
    and alive: "w_clients w3 p = Some c3"
  shows "\<exists>el. onReadable pf fd (Received (serialize cmd)) w = (Inr (), w3\<lparr>eventLoop := el\<rparr>)"
    "admissible cmd (fresh_input (steady_ms pf) c) \<Longrightarrow> polite_read pf fd (Received (serialize cmd)) w"
proof -
  let ?c2 = "fresh_input (steady_ms pf) c"
  have plain: "plain ?c2" "\<not> hasFlag CLIENT_MASTER ?c2" using c(3,4) plain_flags [of ?c2 c] by (simp_all add: fresh_input_def hasFlag_def)
  have "inputLoop pf p [cmd] (w\<lparr>w_clients := (w_clients w)(p \<mapsto> ?c2)\<rparr>) = (Inr (), w3)"
    using plain alive by (simp add: bnd_theClient bnd_gets bnd_run [where m = "executeCommand pf p cmd", OF run] plain_def act_apply)
  from read_commands [OF fd c(1,2) cmd this alive]
  show "\<exists>el. onReadable pf fd (Received (serialize cmd)) w = (Inr (), w3\<lparr>eventLoop := el\<rparr>)" by simp
  note rd = receive_commands [OF c(2) cmd]
  show "polite_read pf fd (Received (serialize cmd)) w" if "admissible cmd ?c2"
    using that plain alive run rd by (simp add: polite_read_def fd c(1) consumed_def plain_def)
qed

section \<open>A first command\<close>

definition firstClient :: client where
  "firstClient = fresh_input 500 (newClient 3 1 0)"

definition firstInput :: world where
  "firstInput = connectedServer\<lparr>w_clients := [7 \<mapsto> firstClient]\<rparr>"

lemmas sample_defs = firstInput_def connectedServer_def connect_def startedServer_def startRun_def sampleServer_def newServer_def

lemma first_client: "\<not> hasFlag f firstClient" "selectedDb firstClient = 0" "outputBuffer firstClient = ''''"
  "subscribed firstClient = []" "psubscribed firstClient = []" "flags firstClient = 0"
  by (simp_all add: firstClient_def fresh_input_def newClient_def hasFlag_def)

lemma first_input: "w_clients firstInput = [7 \<mapsto> firstClient]" "alone firstInput" "databases firstInput = [emptyDatabase]"
  "pubsubChannels firstInput = []" "pubsubPatterns firstInput = []" "blockedClients firstInput = []" "masterHost firstInput = ''''"
  "clientTimeout (w_config firstInput) = 0"
  by (simp_all add: sample_defs alone_def sampleConfig_def defaultConfig_def)

lemma sample_step:
  assumes name: "known name = Some (h, n, wr)" "\<not> (n > 0 \<and> int (length ss) + 1 \<noteq> n)" "\<not> (n < 0 \<and> int (length ss) + 1 < - n)"
    and cmd: "receivable samplePlatform [command_of (name # ss)]"
    and run: "runDepth samplePlatform 4 h 7 (map BulkString (name # ss)) firstInput = (Inr (), w)"
    and after: "alone w" "w_clients w 7 = Some c"
  shows "\<exists>el. server_run length ((logged wr (name # ss) w)\<lparr>eventLoop := el\<rparr>)"
proof -
  let ?c = "newClient 3 1 0"
  have c: "map_of (connections connectedServer) 3 = Some 7" "w_clients connectedServer 7 = Some ?c" "inputBuffer ?c = ''''"
    "plain ?c" "\<not> hasFlag CLIENT_MASTER ?c"
    by (simp_all add: sample_defs) (simp_all add: newClient_def plain_def hasFlag_def)
  have fed: "connectedServer\<lparr>w_clients := (w_clients connectedServer)(7 \<mapsto> fresh_input (steady_ms samplePlatform) ?c)\<rparr> = firstInput"
    by (simp add: sample_defs samplePlatform_def firstClient_def)
  have "w_clients firstInput 7 = Some firstClient" "\<not> queued name firstClient" by (simp_all add: first_input first_client queued_def)
  from execute_known [OF this first_input(2) name run after(1)] have
    ex: "executeCommand samplePlatform 7 (command_of (name # ss)) firstInput = (Inr (), logged wr (name # ss) w)" .
  have "fit h firstClient" by (simp add: fit_def first_client)
  then have "admissible (command_of (name # ss)) firstClient"
    using name(1) by (auto simp: admissible_def command_of_def queued_def commandHandler_def known_def first_client)
  then have ok: "admissible (command_of (name # ss)) (fresh_input (steady_ms samplePlatform) ?c)" by (simp add: firstClient_def samplePlatform_def)
  have alive: "w_clients (logged wr (name # ss) w) 7 = Some c" using after(2) by simp
  note rd = read_command [OF c cmd ex [folded fed] alive]
  from rd(1) obtain el where "onReadable samplePlatform 3 (Received (serialize (command_of (name # ss)))) connectedServer =
      (Inr (), (logged wr (name # ss) w)\<lparr>eventLoop := el\<rparr>)" by blast
  from server_run.reading [OF sample_connected samplePlatform_sel(2) rd(2) [OF ok] this] show ?thesis by blast
qed

lemmas receivable_simps = receivable_def command_of_def in_i64_def i64_min_def i64_max_def MAX_INPUT_BUFFER_def
  nat_to_dec.simps samplePlatform_def

text \<open>It subscribes.\<close>

definition subscribedClient :: client where
  "subscribedClient = firstClient\<lparr>flags := CLIENT_PUBSUB,
     subscribed := [''news''], outputBuffer := subscriptionReply ''subscribe'' ''news'' 1\<rparr>"

lemma sample_subscribed:
  "\<exists>w. server_run length w \<and> points w Channel ''news'' 7 \<and> w_clients w 7 = Some subscribedClient \<and>
    pubsubChannels w = [(''news'', [7])] \<and> pubsubPatterns w = []"
proof -
  let ?w = "firstInput\<lparr>w_clients := [7 \<mapsto> subscribedClient], pubsubChannels := [(''news'', [7])]\<rparr>"
  have run: "runDepth samplePlatform 4 (PubSubH SUBSCRIBE) 7 (map BulkString [''SUBSCRIBE'', ''news'']) firstInput = (Inr (), ?w)"
    by (simp add: eval_nat_numeral handlerAct_def subscribeCommand_def notify_def subscribeChannel_def subscriptions_def bnd_assoc
        bnd_setClient bnd_theClient bnd_modify bnd_lift act_apply reply_def runs_client addPointer_def addReply_def setFlag_def
        first_input first_client subscribedClient_def)
  have "alone ?w" "w_clients ?w 7 = Some subscribedClient" using first_input(2) by (simp_all add: alone_def)
  moreover have "receivable samplePlatform [command_of [''SUBSCRIBE'', ''news'']]" by (simp add: receivable_simps)
  ultimately obtain el where "server_run length ((logged False [''SUBSCRIBE'', ''news''] ?w)\<lparr>eventLoop := el\<rparr>)"
    using sample_step [OF known_names(10) _ _ _ run] by auto
  then show ?thesis by (intro exI conjI) (assumption, simp_all add: logged_def entries_def first_input)
qed

section \<open>Properties\<close>

text \<open>C2: No pointer dangles in the runs \<open>server_run\<close> describes: the server was started without
  an append-only file, and no client sends PSYNC a second time or a blocking pop while blocked or
  within a transaction (\<open>polite_read\<close>). In whatever order reads, writes, new connections, periodic
  tasks and background saves come in such a run, each client pointer in the tables of channels,
  patterns, blocked and watched keys, in the list of replicas and in the master's slot is that of a
  live client, which records the subscription, block, watch or role itself. (Outside these runs the
  program does leave dangling pointers: after a second PSYNC, and after a replay of a logged
  BLPOP.)\<close>

theorem no_dangling_pointers:
  assumes "server_run hf w" "points w t k p"
  shows "\<exists>c. w_clients w p = Some c \<and> own t c k"
proof -
  have "world_ok (samplePlatform\<lparr>hasher := hf\<rparr>) w" by (rule run_world_ok [OF assms(1)]) simp
  from world_okD(1) [OF this] assms(2) show ?thesis unfolding links_ok_def has_def by blast
qed

theorem no_dangling_pointers_witness:
  "\<exists>w. points w Channel ''news'' 7 \<and> (\<exists>c. w_clients w 7 = Some c \<and> own Channel c ''news'')"
  using sample_subscribed no_dangling_pointers by blast

text \<open>C13: Every object stored in a server that a run of \<open>server_run\<close> reaches is well formed: lists and the skip lists of
  sorted sets are intact pointer structures, hashes and sets satisfy their tables' invariants. So
  no operation on a stored sorted set touches a null or deleted node. Each key occurs once in its
  database, and no expiry time is kept without its key.\<close>

theorem stored_objects_typed:
  assumes "server_run hf w" "i < length (databases w)"
  shows "(\<forall>(k, ob) \<in> set (data (openDb i w)). contents_ok hf (obj_value ob)) \<and>
    (\<forall>(k, ob) \<in> set (data (openDb i w)). \<forall>z. obj_value ob = SortedSetObject z \<longrightarrow> ss_safe hf z) \<and>
    distinct (keys_of (data (openDb i w))) \<and> set (keys_of (expires (openDb i w))) \<subseteq> set (keys_of (data (openDb i w)))"
proof -
  let ?pf = "samplePlatform\<lparr>hasher := hf\<rparr>"
  have "world_ok ?pf w" by (rule run_world_ok [OF assms(1)]) simp
  then have "ks_ok ?pf (openDb i w)" using assms(2) by (simp add: world_ok_def spaces_ok_def)
  then have ok: "\<forall>(k, ob) \<in> set (data (openDb i w)). contents_ok hf (obj_value ob)"
    "distinct (keys_of (data (openDb i w))) \<and> set (keys_of (expires (openDb i w))) \<subseteq> set (keys_of (data (openDb i w)))"
    by (auto simp: ks_ok_def)
  have "ss_safe hf z" if "(k, ob) \<in> set (data (openDb i w))" "obj_value ob = SortedSetObject z" for k ob z
    using ok(1) that by (intro ss_ok_safe) fastforce
  with ok show ?thesis by blast
qed

theorem stored_objects_typed_witness:
  "distinct (keys_of (data (openDb 0 startedServer)))"
  using stored_objects_typed [OF sample_started, of 0] by (simp add: startedServer_def startRun_def)

text \<open>C15: Connections, clients and the event loop agree in every world that \<open>server_run\<close> reaches: the connection
  table and the descriptors of the live clients are inverse to each other, the event loop watches
  only the listening socket and open connections, and the highest descriptor it passes to \<^verbatim>\<open>select\<close> is
  exact.\<close>

theorem connections_consistent:
  assumes "server_run hf w"
  shows "(\<forall>fd p. map_of (connections w) fd = Some p \<longleftrightarrow> (\<exists>c. w_clients w p = Some c \<and> client_fd c = fd)) \<and>
    (\<forall>fd \<in> set (keys_of (fileEvents (eventLoop w))). Some fd = listenFd w \<or> (\<exists>p. map_of (connections w) fd = Some p)) \<and>
    highest_ok (highestFd (eventLoop w)) (fileEvents (eventLoop w))"
proof -
  have "world_ok (samplePlatform\<lparr>hasher := hf\<rparr>) w" by (rule run_world_ok [OF assms]) simp
  note conn = world_okD(2) [OF this, unfolded conn_ok_def has_def]
  have "\<forall>fd p. map_of (connections w) fd = Some p \<longleftrightarrow> (\<exists>c. w_clients w p = Some c \<and> client_fd c = fd)" using conn by blast
  moreover have "Some fd = listenFd w \<or> (\<exists>p. map_of (connections w) fd = Some p)" if "(fd, e) \<in> set (fileEvents (eventLoop w))" for fd e
    using conn that unfolding event_known_def by (metis fst_conv map_of_None_iff not_Some_eq)
  moreover have "highest_ok (highestFd (eventLoop w)) (fileEvents (eventLoop w))" using conn by (simp add: loop_ok_def)
  ultimately show ?thesis by fastforce
qed

theorem connections_consistent_witness:
  "\<exists>c. w_clients connectedServer 7 = Some c \<and> client_fd c = 3"
proof -
  have "map_of (connections connectedServer) 3 = Some 7" by (simp add: sample_defs)
  with connections_consistent [OF sample_connected] show ?thesis by blast
qed

text \<open>C14: In every world that \<open>server_run\<close> reaches (no append-only file at the start, no second
  PSYNC of a client, no blocking pop while blocked or in a transaction), closing a connection
  succeeds and leaves nothing behind: the client is freed, its descriptor is neither in the
  connection table nor watched, and no shared table points at it any more. All other clients are
  left as they were.\<close>

theorem closed_client_forgotten:
  assumes w: "server_run hf w" and p: "map_of (connections w) fd = Some p"
  shows "\<exists>w'. removeClient fd w = (Inr (), w') \<and> w_clients w' = (w_clients w)(p := None) \<and>
    connections w' = AList.delete fd (connections w) \<and> fd \<notin> set (keys_of (fileEvents (eventLoop w'))) \<and> (\<forall>t k. \<not> points w' t k p)"
proof -
  let ?pf = "samplePlatform\<lparr>hasher := hf\<rparr>"
  have ok: "world_ok ?pf w" by (rule run_world_ok [OF w]) simp
  note conn = world_okD(2) [OF ok, unfolded conn_ok_def has_def]
  from conn p obtain c where c: "w_clients w p = Some c" by blast
  from close_unlinks [OF ok c] obtain w1 c1 where run: "closeClient p w = (Inr (), w1)" and w1: "unlinked ?pf p c1 w w1 UNIV" by blast
  let ?w' = "w1\<lparr>eventLoop := removeFileEvent fd (EVENT_READABLE OR EVENT_WRITABLE) (eventLoop w1),
    connections := AList.delete fd (connections w1), w_clients := (w_clients w1)(p := None)\<rparr>"
  have "removeClient fd w = (Inr (), ?w')"
    by (simp add: removeClient_def bnd_gets p bnd_run [where m = "closeClient p", OF run] onLoop_def bnd_modify) (simp add: act_apply)
  moreover have w1': "w_clients w1 = (w_clients w)(p \<mapsto> c1)" and el: "eventLoop w1 = eventLoop w"
    and tab: "connections w1 = connections w" using w1 by (simp_all add: unlinked_def same_conn_def)
  have "fd \<notin> set (keys_of (fileEvents (eventLoop ?w')))"
    using removeFileEvent_gone [of "eventLoop w1" fd] conn unfolding el event_known_def by fastforce
  moreover have "\<not> points ?w' t k p" for t k
    using w1 by (cases t) (auto simp: unlinked_def dest: spec [of _ t])
  ultimately show ?thesis by (intro exI [of _ ?w']) (simp add: w1' tab)
qed

theorem closed_client_forgotten_witness:
  "\<exists>w'. removeClient 3 connectedServer = (Inr (), w') \<and> w_clients w' 7 = None"
proof -
  have "map_of (connections connectedServer) 3 = Some 7" by (simp add: sample_defs)
  from closed_client_forgotten [OF sample_connected this] show ?thesis by auto
qed

section \<open>A second PSYNC\<close>

text \<open>Actions that leave the list of replicas alone.\<close>

definition same_replicas :: "'a act \<Rightarrow> bool" where
  "same_replicas m \<longleftrightarrow> (\<forall>w. replicas (snd (m w)) = replicas w)"

lemma same_replicas_bnd: "same_replicas m \<Longrightarrow> (\<And>x. same_replicas (f x)) \<Longrightarrow> same_replicas (bnd m f)"
  by (auto simp: same_replicas_def bnd_def split: prod.split sum.split) (metis snd_conv)+

lemma same_replicas_modify: "(\<And>w. replicas (f w) = replicas w) \<Longrightarrow> same_replicas (modify f)"
  by (simp add: same_replicas_def act_apply)

lemma same_replicas_simple:
  "same_replicas (ret x)" "same_replicas (theClient q)" "same_replicas (setClient q g)" "same_replicas (reply q s)"
  "same_replicas (argStr args i)" "same_replicas (gets h)"
  by (auto simp: same_replicas_def act_apply theClient_def setClient_def reply_def bnd_def defined_def argStr_def
      split: option.split)

lemma same_replicas_forEach: "(\<And>x. same_replicas (f x)) \<Longrightarrow> same_replicas (forEach xs f)"
  by (induction xs) (simp_all add: same_replicas_bnd same_replicas_simple)

lemma removeWatcher_replicas: "replicas (removeWatcher key p w) = replicas w"
proof -
  have "replicas (foldl (\<lambda>w i. closeDb i (g (openDb i w)) w) v is) = replicas v" for g v "is"
    by (induction "is" arbitrary: v) (simp_all add: closeDb_def)
  then show ?thesis by (simp add: removeWatcher_def)
qed

lemma unblock_replicas: "same_replicas (unblockClient q)"
  unfolding unblockClient_def
  by (intro same_replicas_bnd same_replicas_simple) (simp add: same_replicas_simple same_replicas_bnd same_replicas_forEach same_replicas_modify)

text \<open>Actions that take at most one entry of \<open>p\<close> out of the list.\<close>

definition drops_one :: "nat \<Rightarrow> 'a act \<Rightarrow> bool" where
  "drops_one p m \<longleftrightarrow> (\<forall>w. replicas (snd (m w)) = replicas w \<or> replicas (snd (m w)) = remove1 p (replicas w))"

lemma drops_after: "same_replicas m \<Longrightarrow> (\<And>x. drops_one p (f x)) \<Longrightarrow> drops_one p (bnd m f)"
  by (auto simp: same_replicas_def drops_one_def bnd_def split: prod.split sum.split) (metis snd_conv)+

lemma drops_before: "drops_one p m \<Longrightarrow> (\<And>x. same_replicas (f x)) \<Longrightarrow> drops_one p (bnd m f)"
  by (auto simp: same_replicas_def drops_one_def bnd_def split: prod.split sum.split) (metis snd_conv)+

lemma drops_removal: "drops_one p (if b then modify (removeReplica p) else ret ())"
  by (simp add: drops_one_def act_apply removeReplica_def)

lemma closeClient_drops: "drops_one p (closeClient p)"
  unfolding closeClient_def
  by (simp add: drops_after drops_before drops_removal same_replicas_simple same_replicas_forEach same_replicas_modify
      removeWatcher_replicas unblock_replicas)

lemma removeClient_replicas:
  assumes "map_of (connections w) fd = Some p" "removeClient fd w = (Inr (), w')"
  shows "(replicas w' = replicas w \<or> replicas w' = remove1 p (replicas w)) \<and> w_clients w' p = None"
proof -
  obtain r w1 where run: "closeClient p w = (r, w1)" by fastforce
  with assms have r: "r = Inr ()" by (cases r) (auto simp: removeClient_def bnd_gets bnd_def [of "closeClient p"])
  from closeClient_drops [of p] run have "replicas w1 = replicas w \<or> replicas w1 = remove1 p (replicas w)"
    by (auto simp: drops_one_def dest: spec [of _ w])
  moreover have "removeClient fd w = (Inr (), w1\<lparr>eventLoop := removeFileEvent fd (EVENT_READABLE OR EVENT_WRITABLE) (eventLoop w1),
      connections := AList.delete fd (connections w1), w_clients := (w_clients w1)(p := None)\<rparr>)"
    by (simp add: removeClient_def bnd_gets assms(1) bnd_run [where m = "closeClient p", OF run [unfolded r]] onLoop_def bnd_modify)
      (simp add: act_apply)
  ultimately show ?thesis using assms(2) by auto
qed

text \<open>Actions that, when they succeed, put \<open>p\<close> at the end of the list.\<close>

definition adds_one :: "nat \<Rightarrow> 'a act \<Rightarrow> bool" where
  "adds_one p m \<longleftrightarrow> (\<forall>w x w'. m w = (Inr x, w') \<longrightarrow> replicas w' = replicas w @ [p])"

lemma adds_after: "same_replicas m \<Longrightarrow> (\<And>x. adds_one p (f x)) \<Longrightarrow> adds_one p (bnd m f)"
  unfolding adds_one_def
proof (intro allI impI)
  fix w x w' assume m: "same_replicas m" "\<And>x. \<forall>w y w'. f x w = (Inr y, w') \<longrightarrow> replicas w' = replicas w @ [p]"
    and run: "bnd m f w = (Inr x, w')"
  obtain r w1 where 1: "m w = (r, w1)" by fastforce
  then have "replicas w1 = replicas w" using m(1) by (auto simp: same_replicas_def dest: spec [of _ w])
  with m(2) run 1 show "replicas w' = replicas w @ [p]" by (cases r) (auto simp: bnd_def)
qed

lemma adds_replica: "adds_one p (addReplica p)"
  unfolding addReplica_def
  by (rule adds_after) (simp_all add: same_replicas_simple adds_one_def act_apply)

lemma psync_adds: "adds_one p (psyncCommand pf p args)"
  unfolding psyncCommand_def
  by (simp add: adds_after adds_replica same_replicas_simple same_replicas_modify generateReplId_def)

text \<open>C40: A client that sends PSYNC twice leaves a dangling pointer: once it is a replica, a second
  PSYNC enters it again, and closing its connection removes one entry and frees the client, so the list of
  replicas keeps a pointer to it, to which the next write is propagated.\<close>

theorem second_psync_dangles:
  assumes "p \<in> set (replicas w)" "psyncCommand pf p args w = (Inr (), w1)"
    and "map_of (connections w1) fd = Some p" "removeClient fd w1 = (Inr (), w2)"
  shows "p \<in> set (replicas w2) \<and> w_clients w2 p = None"
proof -
  from assms(1) psync_adds [of p pf args] assms(2) have "p \<in> set (replicas w1)" "p \<in> set (remove1 p (replicas w1))"
    by (auto simp: adds_one_def remove1_append)
  with removeClient_replicas [OF assms(3,4)] show ?thesis by auto
qed

definition replicaServer :: world where
  "replicaServer = oneClient\<lparr>replicas := [7], replId := ''id'', w_clients := [7 \<mapsto> setFlag CLIENT_SLAVE (newClient 3 1 0)]\<rparr>"

theorem second_psync_dangles_witness:
  "\<exists>w1 w2. psyncCommand samplePlatform 7 (map BulkString [''PSYNC'', ''id'', ''1'']) replicaServer = (Inr (), w1) \<and>
    removeClient 3 w1 = (Inr (), w2) \<and> replicas w2 = [7] \<and> w_clients w2 7 = None"
proof -
  let ?c = "setFlag CLIENT_SLAVE (addReply (reply_simpleString ''CONTINUE'') (setFlag CLIENT_SLAVE (newClient 3 1 0)))"
  let ?w1 = "replicaServer\<lparr>replicas := [7, 7], w_clients := [7 \<mapsto> ?c]\<rparr>"
  have run: "psyncCommand samplePlatform 7 (map BulkString [''PSYNC'', ''id'', ''1'']) replicaServer = (Inr (), ?w1)"
    by (simp add: psyncCommand_def argStr_def bnd_lift bnd_modify bnd_gets reply_def bnd_setClient addReplica_def act_apply
        replicaServer_def)
  have c: "subscribed ?c = []" "psubscribed ?c = []" "watching ?c = []" "\<not> hasFlag CLIENT_BLOCKED ?c" "hasFlag CLIENT_SLAVE ?c"
    by (simp_all add: setFlag_def addReply_def newClient_def hasFlag_def client_flags)
  obtain w2 where close: "removeClient 3 ?w1 = (Inr (), w2)" "replicas w2 = [7]"
    using c by (simp add: removeClient_def bnd_gets closeClient_def bnd_theClient bnd_setClient act_apply bnd_modify removeReplica_def
        onLoop_def replicaServer_def oneClient_def newServer_def bnd_assoc)
  have "7 \<in> set (replicas replicaServer)" "map_of (connections ?w1) 3 = Some 7"
    by (simp_all add: replicaServer_def oneClient_def)
  from second_psync_dangles [OF this(1) run this(2) close(1)] close run show ?thesis by blast
qed

end
