(* ===== verification/Delivery.thy ===== *)
theory Delivery
  imports Guarantees
begin

text \<open>
  What replicas receive: the circular buffer of \<^verbatim>\<open>feedReplicationBacklog\<close> against the stream
  of all bytes fed so far, and the delivery of \<^verbatim>\<open>propagateToReplicas\<close>; then the delivery of
  \<^verbatim>\<open>publishMessage\<close>, which writes to many clients in the same way.
\<close>

section \<open>The circular buffer\<close>

text \<open>
  After the stream \<open>s\<close>, byte \<open>j\<close> of it is at index \<open>j mod size\<close> if it is among the last \<open>size\<close>
  bytes; the counters give the length of this window and its offset in the stream.
\<close>

definition backlog_ok :: "world \<Rightarrow> string \<Rightarrow> bool" where
  "backlog_ok w s \<longleftrightarrow> 0 < replBacklogSize w \<and>
     length (replBacklog w) \<in> (if s = '''' then {0, replBacklogSize w} else {replBacklogSize w}) \<and>
     replBacklogIdx w = length s mod replBacklogSize w \<and>
     replBacklogHistLen w = int (min (length s) (replBacklogSize w)) \<and>
     replBacklogOff w = int (length s - replBacklogSize w) \<and>
     (\<forall>j < length s. length s \<le> j + replBacklogSize w \<longrightarrow> replBacklog w ! (j mod replBacklogSize w) = s ! j)"

lemma mod_apart: "j < n \<Longrightarrow> n < j + k \<Longrightarrow> j mod k \<noteq> (n :: nat) mod k"
proof
  assume "j < n" "n < j + k" "j mod k = n mod k"
  then have "(n - j) mod k = 0" by (metis mod_eq_dvd_iff_nat less_imp_le_nat dvd_imp_mod_0)
  with \<open>j < n\<close> \<open>n < j + k\<close> show False by simp
qed

lemma feedByte_ok:
  assumes b: "backlog_ok w s" and len: "length (replBacklog w) = replBacklogSize w"
  shows "backlog_ok (feedByte c w) (s @ [c]) \<and> length (replBacklog (feedByte c w)) = replBacklogSize (feedByte c w)"
proof -
  let ?k = "replBacklogSize w" and ?w = "feedByte c w"
  have k: "0 < ?k" using b by (simp add: backlog_ok_def)
  have buf: "replBacklog ?w = (replBacklog w)[length s mod ?k := c]" "replBacklogSize ?w = ?k"
    using b by (simp_all add: feedByte_def Let_def backlog_ok_def)
  have "replBacklog ?w ! (j mod ?k) = (s @ [c]) ! j" if "j < Suc (length s)" "Suc (length s) \<le> j + ?k" for j
  proof (cases "j = length s")
    case True
    then show ?thesis using k len by (simp add: buf)
  next
    case False
    then have "j < length s" "length s < j + ?k" using that by simp_all
    then show ?thesis using mod_apart [of j "length s" ?k] b by (simp add: buf backlog_ok_def nth_append)
  qed
  moreover have "replBacklogIdx ?w = length (s @ [c]) mod ?k"
    using b by (simp add: feedByte_def Let_def backlog_ok_def mod_Suc_eq)
  moreover have "replBacklogHistLen ?w = int (min (length (s @ [c])) ?k)" "replBacklogOff ?w = int (length (s @ [c]) - ?k)"
    using b k by (auto simp: feedByte_def Let_def backlog_ok_def min_def)
  ultimately show ?thesis using k len unfolding backlog_ok_def buf by simp
qed

lemma feedBytes_ok:
  assumes "backlog_ok w s" "length (replBacklog w) = replBacklogSize w"
  shows "backlog_ok (foldl (\<lambda>w c. feedByte c w) w d) (s @ d)"
  using assms
proof (induction d arbitrary: w s)
  case (Cons c d)
  from Cons.IH [of "feedByte c w" "s @ [c]"] feedByte_ok [OF Cons.prems, of c] show ?case by simp
qed simp

lemma feedBytes_sel [simp]:
  "replId (foldl (\<lambda>w c. feedByte c w) w d) = replId w"
  "masterReplOffset (foldl (\<lambda>w c. feedByte c w) w d) = masterReplOffset w"
  by (induction d arbitrary: w) (simp_all add: feedByte_def Let_def)

lemma backlog_offset: "backlog_ok (w\<lparr>masterReplOffset := n\<rparr>) s = backlog_ok w s"
  by (simp add: backlog_ok_def)

lemma feed_ok:
  assumes "backlog_ok w s"
  shows "backlog_ok (feedReplicationBacklog d w) (s @ d)"
    "replId (feedReplicationBacklog d w) = replId w"
    "masterReplOffset (feedReplicationBacklog d w) = masterReplOffset w + int (length d)"
proof -
  let ?w1 = "if replBacklog w = [] then w\<lparr>replBacklog := replicate (replBacklogSize w) (CHR 0x00)\<rparr> else w"
  have "backlog_ok ?w1 s" "length (replBacklog ?w1) = replBacklogSize ?w1"
    using assms by (auto simp: backlog_ok_def split: if_splits)
  from feedBytes_ok [OF this, of d]
  show "backlog_ok (feedReplicationBacklog d w) (s @ d)"
    by (simp add: feedReplicationBacklog_def Let_def backlog_offset)
qed (simp_all add: feedReplicationBacklog_def Let_def)

section \<open>One text to many clients\<close>

definition heard :: "nat set \<Rightarrow> string \<Rightarrow> (nat \<Rightarrow> client option) \<Rightarrow> nat \<Rightarrow> client option" where
  "heard ps d cs = (\<lambda>q. if q \<in> ps then map_option (addReply d) (cs q) else cs q)"

lemma heard_insert: "cs p = Some c \<Longrightarrow> p \<notin> ps \<Longrightarrow> heard ps d (cs(p \<mapsto> addReply d c)) = heard (insert p ps) d cs"
  by (auto simp: heard_def)

lemma addReply_addReply: "addReply e (addReply d c) = addReply (d @ e) c"
  by (simp add: addReply_def)

lemma heard_heard: "heard ps e (heard ps d cs) = heard ps (d @ e) cs"
  by (auto simp: heard_def option.map_comp comp_def addReply_addReply)

lemma heard_nothing: "heard ps '''' cs = cs"
proof
  show "heard ps '''' cs q = cs q" for q by (cases "cs q") (simp_all add: heard_def addReply_def)
qed

lemma reply_all:
  assumes "distinct ps" "\<forall>p \<in> set ps. w_clients w p \<noteq> None"
  shows "forEach ps (\<lambda>p. reply p d) w = (Inr (), w\<lparr>w_clients := heard (set ps) d (w_clients w)\<rparr>)"
  using assms
proof (induction ps arbitrary: w)
  case Nil
  then show ?case by (simp add: act_apply heard_def)
next
  case (Cons p ps)
  from Cons.prems obtain c where c: "w_clients w p = Some c" by auto
  then have "reply p d w = (Inr (), w\<lparr>w_clients := (w_clients w)(p \<mapsto> addReply d c)\<rparr>)" by (simp add: reply_def runs_client)
  with Cons c show ?case by (simp add: bnd_run [where m = "reply p d"] heard_insert)
qed

section \<open>The replication stream\<close>

lemma command_text: "commandText (map BulkString ss) = Inr (concat (map (\<lambda>s. ''$'' @ nat_to_dec (length s) @ CRLF @ s @ CRLF) ss))"
  by (induction ss) simp_all

lemma propagate_one:
  assumes b: "backlog_ok w s" and on: "replId w \<noteq> ''''"
    and reps: "distinct (replicas w)" "\<forall>p \<in> set (replicas w). w_clients w p \<noteq> None"
  shows "\<exists>w'. propagateToReplicas (map BulkString ss) w = (Inr (), w') \<and> backlog_ok w' (s @ serialize (command_of ss)) \<and>
    replId w' = replId w \<and> replicas w' = replicas w \<and>
    masterReplOffset w' = masterReplOffset w + int (length (serialize (command_of ss))) \<and>
    w_clients w' = heard (set (replicas w)) (serialize (command_of ss)) (w_clients w)"
proof -
  let ?d = "serialize (command_of ss)" and ?w1 = "feedReplicationBacklog (serialize (command_of ss)) w"
  have body: "''*'' @ nat_to_dec (length (map BulkString ss)) @ CRLF @ concat (map (\<lambda>s. ''$'' @ nat_to_dec (length s) @ CRLF @ s @ CRLF) ss) = ?d"
    by (simp add: command_of_def comp_def)
  have same: "w_clients ?w1 = w_clients w" "replicas ?w1 = replicas w"
    using feed_frame [where d = ?d and w = w] by (simp_all add: same_tables_def)
  let ?w2 = "?w1\<lparr>w_clients := heard (set (replicas w)) ?d (w_clients w)\<rparr>"
  have "forEach (replicas w) (\<lambda>p. reply p ?d) ?w1 = (Inr (), ?w2)"
    using reply_all [of "replicas w" ?w1 ?d] reps unfolding same by simp
  then have "propagateToReplicas (map BulkString ss) w = (Inr (), ?w2)"
    using on by (simp add: propagateToReplicas_def bnd_gets bnd_lift command_text bnd_modify Let_def body [simplified] same)
  with feed_ok [OF b, of ?d] same(2) show ?thesis by (intro exI [of _ ?w2]) (simp add: backlog_ok_def)
qed

text \<open>C10: The stream that replicas receive: when a sequence of write commands is propagated, every
  registered replica is sent exactly their serialisations in this order, no other client is sent anything,
  the replication offset advances by exactly this number of bytes, and the circular backlog holds the
  last bytes of the whole stream, each at its offset, across any number of wrap-arounds.\<close>

theorem replication_stream_exact:
  assumes "backlog_ok w s" "replId w \<noteq> ''''"
    and "distinct (replicas w)" "\<forall>p \<in> set (replicas w). w_clients w p \<noteq> None"
  shows "\<exists>w'. forEach cmds (\<lambda>ss. propagateToReplicas (map BulkString ss)) w = (Inr (), w') \<and>
    backlog_ok w' (s @ concat (map (\<lambda>ss. serialize (command_of ss)) cmds)) \<and>
    masterReplOffset w' = masterReplOffset w + int (length (concat (map (\<lambda>ss. serialize (command_of ss)) cmds))) \<and>
    w_clients w' = heard (set (replicas w)) (concat (map (\<lambda>ss. serialize (command_of ss)) cmds)) (w_clients w)"
  using assms
proof (induction cmds arbitrary: w s)
  case Nil
  then show ?case by (simp add: act_apply heard_nothing)
next
  case (Cons ss cmds)
  from propagate_one [OF Cons.prems, of ss] obtain w1 where
    run: "propagateToReplicas (map BulkString ss) w = (Inr (), w1)" and w1: "backlog_ok w1 (s @ serialize (command_of ss))"
    "replId w1 = replId w" "replicas w1 = replicas w"
    "masterReplOffset w1 = masterReplOffset w + int (length (serialize (command_of ss)))"
    "w_clients w1 = heard (set (replicas w)) (serialize (command_of ss)) (w_clients w)" by blast
  have "\<forall>p \<in> set (replicas w1). w_clients w1 p \<noteq> None" using Cons.prems(4) by (auto simp: w1 heard_def)
  from Cons.IH [OF w1(1) _ _ this] Cons.prems(2,3) run w1 show ?case
    by (auto simp: bnd_run [where m = "propagateToReplicas a" for a] heard_heard)
qed

definition oneReplica :: world where
  "oneReplica = (newServer defaultConfig (\<lambda>_. None) (\<lambda>_. '''') 0)\<lparr>replId := ''id'', replicas := [7],
     w_clients := [7 \<mapsto> newClient 3 1 0, 8 \<mapsto> newClient 4 2 0]\<rparr>"

theorem replication_stream_exact_witness:
  "\<exists>w'. forEach [[''SET'', ''k'', ''v''], [''DEL'', ''k'']] (\<lambda>ss. propagateToReplicas (map BulkString ss)) oneReplica = (Inr (), w') \<and>
    backlog_ok w' (serialize (command_of [''SET'', ''k'', ''v'']) @ serialize (command_of [''DEL'', ''k'']))"
proof -
  have "backlog_ok oneReplica ''''" by (simp add: backlog_ok_def oneReplica_def newServer_def)
  moreover have "replId oneReplica \<noteq> ''''" "distinct (replicas oneReplica)" "\<forall>p \<in> set (replicas oneReplica). w_clients oneReplica p \<noteq> None"
    by (simp_all add: oneReplica_def)
  ultimately show ?thesis
    using replication_stream_exact [of oneReplica "''''" "[[''SET'', ''k'', ''v''], [''DEL'', ''k'']]"] by (auto simp del: serialize.simps)
qed

section \<open>Publish\<close>

text \<open>The texts that a list of deliveries addresses to a client.\<close>

definition mail :: "nat \<Rightarrow> (nat \<times> string) list \<Rightarrow> string" where
  "mail q ds = concat (map snd (filter (\<lambda>e. fst e = q) ds))"

lemma mail_simps [simp]: "mail q [] = ''''" "mail q ((p, d) # ds) = (if p = q then d else '''') @ mail q ds"
  "mail q (ds @ es) = mail q ds @ mail q es"
  by (simp_all add: mail_def)

definition posted :: "(nat \<times> string) list \<Rightarrow> world \<Rightarrow> world \<Rightarrow> bool" where
  "posted ds w w' \<longleftrightarrow> w_clients w' = (\<lambda>q. map_option (addReply (mail q ds)) (w_clients w q)) \<and>
     pubsubPatterns w' = pubsubPatterns w \<and> pubsubChannels w' = pubsubChannels w \<and> databases w' = databases w"

lemma posted_refl: "posted [] w w"
proof -
  have "map_option (addReply '''') x = x" for x by (cases x) (simp_all add: addReply_def)
  then show ?thesis by (simp add: posted_def)
qed

lemma posted_trans: "posted ds w w1 \<Longrightarrow> posted es w1 w2 \<Longrightarrow> posted (ds @ es) w w2"
  by (simp add: posted_def option.map_comp comp_def addReply_addReply)

lemma posted_live: "posted ds w w' \<Longrightarrow> w_clients w' p \<noteq> None \<longleftrightarrow> w_clients w p \<noteq> None"
  by (simp add: posted_def)

lemma deliver_one:
  assumes "w_clients w p \<noteq> None"
  shows "\<exists>w'. deliver p d w = (Inr (), w') \<and> posted [(p, d)] w w'"
proof -
  from assms obtain c where c: "w_clients w p = Some c" by auto
  have "map_option (addReply '''') x = x" for x by (cases x) (simp_all add: addReply_def)
  moreover have "\<exists>el. deliver p d w = (Inr (), w\<lparr>w_clients := (w_clients w)(p \<mapsto> addReply d c), eventLoop := el\<rparr>)"
    unfolding deliver_def reply_def bnd_setClient [OF c]
    by (auto simp: installWriteHandler_def bnd_theClient bnd_gets onLoop_def act_apply intro: exI [of _ "eventLoop w"])
  ultimately show ?thesis using c by (auto simp: posted_def fun_eq_iff)
qed

lemma deliver_all:
  "\<forall>p \<in> set ps. w_clients w p \<noteq> None \<Longrightarrow>
    \<exists>w'. forEach ps (\<lambda>p. deliver p d) w = (Inr (), w') \<and> posted (map (\<lambda>p. (p, d)) ps) w w'"
proof (induction ps arbitrary: w)
  case Nil
  then show ?case by (simp add: act_apply posted_refl)
next
  case (Cons p ps)
  then obtain w1 where w1: "deliver p d w = (Inr (), w1)" "posted [(p, d)] w w1" using deliver_one [of w p d] by auto
  with Cons.prems have "\<forall>p \<in> set ps. w_clients w1 p \<noteq> None"
    using posted_live by (metis list.set_intros(2))
  from Cons.IH [OF this] obtain w2 where "forEach ps (\<lambda>p. deliver p d) w1 = (Inr (), w2)" "posted (map (\<lambda>p. (p, d)) ps) w1 w2" by blast
  with w1 posted_trans [OF w1(2)] show ?case by (auto simp: bnd_run [where m = "deliver p d"])
qed

definition pattern_spec :: "string \<Rightarrow> string \<Rightarrow> bool" where
  "pattern_spec pattern channel \<longleftrightarrow>
     (if last pattern = CHR ''*'' then \<exists>rest. channel = butlast pattern @ rest else pattern = channel)"

lemma pattern_matches: "pattern \<noteq> '''' \<Longrightarrow> patternMatches pattern channel = ret (pattern_spec pattern channel)"
proof -
  have "take (length pattern - 1) channel = butlast pattern \<longleftrightarrow> (\<exists>rest. channel = butlast pattern @ rest)"
  proof
    show "\<exists>rest. channel = butlast pattern @ rest" if "take (length pattern - 1) channel = butlast pattern"
      using append_take_drop_id [of "length pattern - 1" channel] that by metis
  qed auto
  moreover assume "pattern \<noteq> ''''"
  ultimately show ?thesis by (auto simp: patternMatches_def pattern_spec_def)
qed

definition pattern_mail :: "string \<Rightarrow> string \<Rightarrow> (string \<times> nat) list \<Rightarrow> (nat \<times> string) list" where
  "pattern_mail channel message pats = map (\<lambda>(pattern, p). (p, reply_bulkStringArray [''pmessage'', pattern, channel, message]))
     (filter (\<lambda>(pattern, p). pattern_spec pattern channel) pats)"

definition all_mail :: "world \<Rightarrow> string \<Rightarrow> string \<Rightarrow> (nat \<times> string) list" where
  "all_mail w channel message = map (\<lambda>q. (q, reply_bulkStringArray [''message'', channel, message]))
      (case map_of (pubsubChannels w) channel of None \<Rightarrow> [] | Some ps \<Rightarrow> ps) @ pattern_mail channel message (pubsubPatterns w)"

lemma deliver_patterns:
  "\<forall>(pattern, p) \<in> set pats. pattern \<noteq> '''' \<and> w_clients w p \<noteq> None \<Longrightarrow>
    \<exists>w'. countEach pats (\<lambda>(pattern, p). bnd (patternMatches pattern channel) (\<lambda>match.
        if match then seq (deliver p (reply_bulkStringArray [''pmessage'', pattern, channel, message])) (ret True) else ret False)) n w =
      (Inr (n + length (pattern_mail channel message pats)), w') \<and> posted (pattern_mail channel message pats) w w'"
proof (induction pats arbitrary: w n)
  case Nil
  then show ?case by (simp add: act_apply posted_refl pattern_mail_def)
next
  case (Cons e pats)
  obtain pattern p where e: "e = (pattern, p)" by fastforce
  with Cons.prems have p: "pattern \<noteq> ''''" "w_clients w p \<noteq> None" by auto
  show ?case
  proof (cases "pattern_spec pattern channel")
    case True
    let ?d = "reply_bulkStringArray [''pmessage'', pattern, channel, message]"
    from deliver_one [OF p(2)] obtain w1 where w1: "deliver p ?d w = (Inr (), w1)" "posted [(p, ?d)] w w1" by blast
    have "\<forall>(pattern, p) \<in> set pats. pattern \<noteq> '''' \<and> w_clients w1 p \<noteq> None"
      using Cons.prems posted_live [OF w1(2)] by auto
    from Cons.IH [OF this, of "n + 1"] posted_trans [OF w1(2)] show ?thesis
      by (auto simp: e pattern_matches [OF p(1)] True bnd_assoc bnd_run [where m = "deliver p a" for a, OF w1(1)] pattern_mail_def)
  next
    case False
    from Cons.IH [of w n] Cons.prems False show ?thesis
      by (auto simp: e pattern_matches [OF p(1)] pattern_mail_def)
  qed
qed

text \<open>C9: PUBLISH in a server that \<open>server_run\<close> reaches and in which nobody has subscribed to the
  empty pattern: every subscriber of the channel and every client with a
  matching pattern gets exactly its messages, once per subscription, channel messages first; no other
  client gets anything, the publisher is told the exact number of deliveries, and no database changes.\<close>

theorem publish_delivers:
  assumes run: "server_run hf w" and p: "w_clients w p = Some c"
    and pats: "\<forall>(pattern, q) \<in> set (pubsubPatterns w). pattern \<noteq> ''''"
  shows "\<exists>w'. publishCommand p (map BulkString [''PUBLISH'', channel, message]) w = (Inr (), w') \<and>
    databases w' = databases w \<and> (\<forall>q. w_clients w' q =
      map_option (addReply (mail q (all_mail w channel message @ [(p, reply_integer (int (length (all_mail w channel message))))]))) (w_clients w q))"
proof -
  let ?ds = "all_mail w channel message"
  let ?ps = "case map_of (pubsubChannels w) channel of None \<Rightarrow> [] | Some ps \<Rightarrow> ps"
  let ?m = "reply_bulkStringArray [''message'', channel, message]"
  have "world_ok (samplePlatform\<lparr>hasher := hf\<rparr>) w" by (rule run_world_ok [OF run]) simp
  then have live: "\<And>t k q. points w t k q \<Longrightarrow> w_clients w q \<noteq> None"
    using world_okD(1) unfolding links_ok_def has_def by blast
  have "\<forall>q \<in> set ?ps. w_clients w q \<noteq> None"
    using live [of Channel channel] by (cases "map_of (pubsubChannels w) channel") (simp_all add: entries_def)
  from deliver_all [OF this] obtain w1 where w1: "forEach ?ps (\<lambda>q. deliver q ?m) w = (Inr (), w1)"
    "posted (map (\<lambda>q. (q, ?m)) ?ps) w w1" by blast
  have "\<forall>(pattern, q) \<in> set (pubsubPatterns w). pattern \<noteq> '''' \<and> w_clients w1 q \<noteq> None"
    using pats live [of Pattern] posted_live [OF w1(2)] by auto
  from deliver_patterns [OF this, of channel message "length ?ps"] obtain w2 where
    w2: "countEach (pubsubPatterns w) (\<lambda>(pattern, p). bnd (patternMatches pattern channel) (\<lambda>match.
        if match then seq (deliver p (reply_bulkStringArray [''pmessage'', pattern, channel, message])) (ret True) else ret False))
        (length ?ps) w1 = (Inr (length ?ds), w2)" "posted (pattern_mail channel message (pubsubPatterns w)) w1 w2"
    by (auto simp: all_mail_def)
  have post: "posted ?ds w w2" using posted_trans [OF w1(2) w2(2)] by (simp add: all_mail_def)
  have "pubsubPatterns w1 = pubsubPatterns w" using w1(2) by (simp add: posted_def)
  then have pub: "publishMessage channel message w = (Inr (length ?ds), w2)"
    using w2(1) by (simp add: publishMessage_def bnd_gets bnd_run [where m = "forEach a b" for a b, OF w1(1)])
  have "w_clients w2 p \<noteq> None" using posted_live [OF post] p by simp
  then obtain c2 where c2: "w_clients w2 p = Some c2" by blast
  let ?w3 = "w2\<lparr>w_clients := (w_clients w2)(p \<mapsto> addReply (reply_integer (int (length ?ds))) c2)\<rparr>"
  have "publishCommand p (map BulkString [''PUBLISH'', channel, message]) w = (Inr (), ?w3)"
    using c2 by (simp add: publishCommand_def argStr_def bnd_lift bnd_run [where m = "publishMessage a b" for a b, OF pub] reply_def runs_client
        reply_integer_def int_to_dec_def)
  moreover have "w_clients ?w3 q = map_option (addReply (mail q (?ds @ [(p, reply_integer (int (length ?ds)))]))) (w_clients w q)" for q
    using post c2 by (auto simp: posted_def addReply_addReply)
  moreover have "databases ?w3 = databases w" using post by (simp add: posted_def)
  ultimately show ?thesis by blast
qed

theorem publish_delivers_witness:
  "\<exists>w w' c. publishCommand 7 (map BulkString [''PUBLISH'', ''news'', ''hi'']) w = (Inr (), w') \<and> w_clients w' 7 = Some c \<and>
    outputBuffer c = subscriptionReply ''subscribe'' ''news'' 1 @ reply_bulkStringArray [''message'', ''news'', ''hi''] @ reply_integer 1"
proof -
  from sample_subscribed obtain w where w: "server_run length w" "w_clients w 7 = Some subscribedClient"
    "pubsubChannels w = [(''news'', [7])]" "pubsubPatterns w = []" by blast
  have "\<forall>(pattern, q) \<in> set (pubsubPatterns w). pattern \<noteq> ''''" using w(4) by simp
  from publish_delivers [OF w(1,2) this, of "''news''" "''hi''"] obtain w' where
    "publishCommand 7 (map BulkString [''PUBLISH'', ''news'', ''hi'']) w = (Inr (), w')"
    "w_clients w' 7 = map_option (addReply (mail 7 (all_mail w ''news'' ''hi'' @ [(7, reply_integer (int (length (all_mail w ''news'' ''hi''))))])))
      (w_clients w 7)" by blast
  moreover have "all_mail w ''news'' ''hi'' = [(7, reply_bulkStringArray [''message'', ''news'', ''hi''])]"
    using w(3,4) by (simp add: all_mail_def pattern_mail_def)
  ultimately show ?thesis using w(2)
    by (intro exI conjI) (assumption, simp, simp add: addReply_def subscribedClient_def)
qed

end
