(* ===== verification/Waiting.thy ===== *)
theory Waiting
  imports Guarantees
begin

text \<open>
  Blocked clients and the periodic task: which blocks it ends, and how.
\<close>

section \<open>Ending a block\<close>

definition released :: "client \<Rightarrow> client" where
  "released c = (if hasFlag CLIENT_BLOCKED c then clearBlockState (addReply reply_nullArray c) else c)"

lemma hasFlag_clearBlock: "\<not> hasFlag CLIENT_BLOCKED (clearBlockState c)"
  by (simp add: clearBlockState_def hasFlag_clearFlag)

lemma released_blocked: "\<not> hasFlag CLIENT_BLOCKED (released c)"
  by (simp add: released_def hasFlag_clearBlock)

lemma released_twice: "released (released c) = released c"
  using released_blocked [of c] by (simp add: released_def)

lemma blocked_fold: "foldl (\<lambda>w k. w\<lparr>blockedClients := f k (blockedClients w)\<rparr>) w ks =
    w\<lparr>blockedClients := foldl (\<lambda>b k. f k b) (blockedClients w) ks\<rparr>"
  by (induction ks arbitrary: w) simp_all

lemma end_block:
  assumes c: "w_clients w q = Some c"
  shows "\<exists>b. endBlock q w = (Inr (), w\<lparr>blockedClients := b, w_clients := (w_clients w)(q \<mapsto> released c)\<rparr>)"
proof (cases "hasFlag CLIENT_BLOCKED c")
  case True
  then have "hasFlag CLIENT_BLOCKED (addReply reply_nullArray c)" by (simp add: addReply_def hasFlag_def)
  with True c show ?thesis
    by (auto simp: endBlock_def bnd_theClient reply_def bnd_setClient unblockClient_def forEach_modify bnd_modify runs_client
        blocked_fold [where f = "\<lambda>key. removePointer key q"]
        released_def)
next
  case False
  with c show ?thesis
    by (auto simp: endBlock_def bnd_theClient act_apply released_def fun_upd_idem intro!: exI [of _ "blockedClients w"])
qed

lemma end_blocks:
  "\<forall>q \<in> set ps. w_clients w q \<noteq> None \<Longrightarrow> \<exists>b. forEach ps endBlock w = (Inr (), w\<lparr>blockedClients := b,
    w_clients := (\<lambda>q. if q \<in> set ps then map_option released (w_clients w q) else w_clients w q)\<rparr>)"
proof (induction ps arbitrary: w)
  case Nil
  then show ?case by (auto simp: act_apply intro!: exI [of _ "blockedClients w"])
next
  case (Cons p ps)
  then obtain c where c: "w_clients w p = Some c" by auto
  from end_block [OF c] obtain b where b: "endBlock p w = (Inr (), w\<lparr>blockedClients := b, w_clients := (w_clients w)(p \<mapsto> released c)\<rparr>)"
    (is "_ = (_, ?w1)") by blast
  have "\<forall>q \<in> set ps. w_clients ?w1 q \<noteq> None" using Cons.prems by simp
  from Cons.IH [OF this] obtain b' where "forEach ps endBlock ?w1 = (Inr (), ?w1\<lparr>blockedClients := b',
    w_clients := (\<lambda>q. if q \<in> set ps then map_option released (w_clients ?w1 q) else w_clients ?w1 q)\<rparr>)" by blast
  moreover have "(\<lambda>q. if q \<in> set ps then map_option released (w_clients ?w1 q) else w_clients ?w1 q) =
      (\<lambda>q. if q \<in> set (p # ps) then map_option released (w_clients w q) else w_clients w q)"
    using c by (auto simp: fun_eq_iff released_twice)
  ultimately show ?case by (auto simp: bnd_run [where m = "endBlock p", OF b])
qed

lemma timed_out:
  assumes "\<forall>q \<in> set (concat (map snd (blockedClients w))). w_clients w q \<noteq> None"
  shows "timedOut pf w = (Inr (filter (\<lambda>q. has (w_clients w) q (\<lambda>c. blockTimeout c > 0 \<and> steady_ms pf \<ge> blockTimeout c))
    (concat (map snd (blockedClients w)))), w)"
proof -
  let ?over = "\<lambda>c. blockTimeout c > 0 \<and> steady_ms pf \<ge> blockTimeout c"
  have "mapEach ps (\<lambda>p. bnd (theClient p) (\<lambda>c. ret (p, ?over c))) w =
      (Inr (map (\<lambda>p. (p, has (w_clients w) p ?over)) ps), w)" if "\<forall>q \<in> set ps. w_clients w q \<noteq> None" for ps
    using that
  proof (induction ps)
    case (Cons p ps)
    then obtain c where "w_clients w p = Some c" by auto
    with Cons show ?case
      by (simp add: bnd_assoc bnd_theClient bnd_run [where m = "mapEach a b" for a b] act_apply has_def bnd_pair)
  qed (simp add: act_apply)
  from this [OF assms] show ?thesis
    by (simp add: timedOut_def bnd_gets bnd_run [where m = "mapEach a b" for a b] act_apply filter_map comp_def)
qed

section \<open>The periodic task\<close>

lemma expireAll_marked:
  assumes "spaces_ok pf w"
  shows "marked (w_clients w) (w_clients (expireAll pf w))"
proof -
  have "\<forall>i \<in> set is. i < length (databases v) \<Longrightarrow> spaces_ok pf v \<Longrightarrow>
      marked (w_clients v) (w_clients (foldl (\<lambda>w i. closeDb i (snd (activeExpireCycle pf 20 (openDb i w))) w) v is))" for v "is"
  proof (induction "is" arbitrary: v)
    case (Cons i "is")
    let ?ks = "snd (activeExpireCycle pf 20 (openDb i v))"
    from Cons.prems have i: "i < length (databases v)" "ks_ok pf (openDb i v)" by (simp_all add: spaces_ok_def)
    then have ks: "ks_ok pf ?ks" "settled (openDb i v) ?ks" using tame_cycle [of pf 20] by (simp_all add: tame_def)
    have "marked (w_clients v) (w_clients (closeDb i ?ks v))"
      using ks(2) by (simp add: settled_def closeDb_def openDb_sel)
    moreover have "\<forall>j \<in> set is. j < length (databases (closeDb i ?ks v))" using Cons.prems(1) by simp
    note Cons.IH [OF this closeDb_spaces(1) [OF Cons.prems(2) i(1) ks]]
    ultimately show ?case unfolding foldl.simps by (rule marked_trans)
  qed simp
  from this [of "[0..<length (databases w)]" w] assms show ?thesis by (simp add: expireAll_def)
qed

lemma expireAll_fields:
  "w_config (expireAll pf w) = w_config w" "masterHost (expireAll pf w) = masterHost w" "blockedClients (expireAll pf w) = blockedClients w"
proof -
  have "w_config (foldl (\<lambda>w i. closeDb i (g (openDb i w)) w) v is) = w_config v"
    "masterHost (foldl (\<lambda>w i. closeDb i (g (openDb i w)) w) v is) = masterHost v"
    "blockedClients (foldl (\<lambda>w i. closeDb i (g (openDb i w)) w) v is) = blockedClients v" for g v "is"
    by (induction "is" arbitrary: v) (simp_all add: closeDb_def)
  then show "w_config (expireAll pf w) = w_config w" "masterHost (expireAll pf w) = masterHost w" "blockedClients (expireAll pf w) = blockedClients w"
    by (simp_all add: expireAll_def)
qed

lemma flush_fields:
  "w_config (flushAof w) = w_config w" "masterHost (flushAof w) = masterHost w" "blockedClients (flushAof w) = blockedClients w"
  by (simp_all add: flushAof_def split: option.split)

lemma not_waiting:
  assumes "world_ok pf w" "w_clients w p = Some c" "\<not> hasFlag CLIENT_BLOCKED c"
  shows "\<not> points w BlockedOn k p"
proof
  assume "points w BlockedOn k p"
  with world_okD(1) [OF assms(1)] have "has (w_clients w) p (\<lambda>c. own BlockedOn c k)" unfolding links_ok_def by blast
  with assms(2,3) show False by (simp add: has_def)
qed

text \<open>C12: The periodic task ends exactly the blocks whose stored deadline the steady clock has
  reached. In a reachable server without idle limit and without master, a blocked client whose
  deadline is at or before the reading of the steady clock is unblocked, has been sent the null
  array exactly once, even if it waited for several keys, and no table of blocked clients points at
  it any more; a client without a deadline, or with a later one, stays blocked and is sent nothing.
  (The deadline that \<^verbatim>\<open>BLPOP\<close> stores is a time of the system clock, so it is
  not the end of the timeout that the steady clock is compared with.)\<close>

theorem block_ends_at_stored_deadline:
  assumes run: "server_run hf w" and pf: "hasher pf = hf" and wait: "points w BlockedOn k p"
    and c: "w_clients w p = Some c"
    and cfg: "clientTimeout (w_config w) \<le> 0" "masterHost w = ''''"
  shows "\<exists>w' c'. serverCron pf None w = (Inr 100, w') \<and> w_clients w' p = Some c' \<and>
    (if 0 < blockTimeout c \<and> blockTimeout c \<le> steady_ms pf
     then \<not> hasFlag CLIENT_BLOCKED c' \<and> outputBuffer c' = outputBuffer c @ reply_nullArray \<and>
       (\<forall>k. \<not> points w' BlockedOn k p)
     else hasFlag CLIENT_BLOCKED c' \<and> outputBuffer c' = outputBuffer c)"
proof -
  have ok: "world_ok pf w" by (rule run_world_ok [OF run pf])
  note links = world_okD(1) [OF ok, unfolded links_ok_def tables_ok_def]
  let ?waiting = "concat (map snd (blockedClients w))"
  have "\<exists>c. w_clients w q = Some c" if "q \<in> set ?waiting" for q
  proof -
    from that obtain k ps where "(k, ps) \<in> set (blockedClients w)" "q \<in> set ps" by auto
    then have "points w BlockedOn k q" using links by (auto simp: entries_def dest: map_of_is_SomeI)
    then show ?thesis using links has_live by blast
  qed
  then have live: "\<forall>q \<in> set ?waiting. w_clients w q \<noteq> None" by auto
  from wait obtain ps where "(k, ps) \<in> set (blockedClients w)" "p \<in> set ps" by (auto simp: entries_def dest: map_of_SomeD)
  then have p: "p \<in> set ?waiting" by force
  have "has (w_clients w) p (\<lambda>c. own BlockedOn c k)" using links wait by blast
  then have blocked: "hasFlag CLIENT_BLOCKED c" using c by (simp add: has_def)
  define w1 where "w1 = expireAll pf (w\<lparr>w_mem := setLruClock (word_of_int (steady_ms pf div 1000)) (w_mem w)\<rparr>)"
  define w2 where "w2 = (if appendOnly (w_config w1) \<and> appendFsync (w_config w1) = ''everysec'' \<and>
      steady_ms pf div 1000 > lastAofFsyncTime w1 then (flushAof w1)\<lparr>lastAofFsyncTime := steady_ms pf div 1000\<rparr> else w1)"
  have "spaces_ok pf (w\<lparr>w_mem := setLruClock (word_of_int (steady_ms pf div 1000)) (w_mem w)\<rparr>)"
    by (rule spaces_ok_frame [where w = w]) (use world_okD(4) [OF ok] in simp_all)
  from expireAll_marked [OF this] have "marked (w_clients w) (w_clients w1)" by (simp add: w1_def)
  then have cs: "w_clients w2 = w_clients w1" "w_clients w1 q = w_clients w q \<or> w_clients w1 q = map_option (setFlag CLIENT_DIRTY_EXEC) (w_clients w q)" for q
    by (simp_all add: w2_def flushAof_frame marked_def)
  have fields: "blockedClients w2 = blockedClients w" "masterHost w2 = ''''" "clientTimeout (w_config w1) \<le> 0"
    using cfg by (simp_all add: w2_def w1_def expireAll_fields flush_fields)
  obtain c1 where c1: "w_clients w2 p = Some c1" "c1 = c \<or> c1 = setFlag CLIENT_DIRTY_EXEC c" using cs(2) [of p] c cs(1) by auto
  then have c1': "hasFlag CLIENT_BLOCKED c1" "blockTimeout c1 = blockTimeout c" "outputBuffer c1 = outputBuffer c"
    using blocked by (auto simp: hasFlag_setFlag) (simp_all add: setFlag_def)
  have "w_clients w2 q \<noteq> None" if "w_clients w q \<noteq> None" for q using cs(2) [of q] cs(1) that by auto
  then have live2: "\<forall>q \<in> set ?waiting. w_clients w2 q \<noteq> None" using live by blast
  let ?out = "filter (\<lambda>q. has (w_clients w2) q (\<lambda>c. blockTimeout c > 0 \<and> steady_ms pf \<ge> blockTimeout c)) ?waiting"
  let ?over = "0 < blockTimeout c \<and> blockTimeout c \<le> steady_ms pf"
  have out: "p \<in> set ?out \<longleftrightarrow> ?over" using p c1 c1' c by (auto simp: has_def)
  from end_blocks [of ?out w2] live2 obtain b where b: "forEach ?out endBlock w2 = (Inr (), w2\<lparr>blockedClients := b,
    w_clients := (\<lambda>q. if q \<in> set ?out then map_option released (w_clients w2 q) else w_clients w2 q)\<rparr>)" (is "_ = (_, ?w3)") by auto
  have p3: "w_clients ?w3 p = Some (if ?over then released c1 else c1)" using c1 out by simp
  have "cron_start pf w = (Inr (), ?w3)"
    using fields timed_out [of w2 pf] live2 b
    by (simp add: cron_start_def bnd_assoc bnd_modify w1_def [symmetric] bnd_gets closeIdleClients_def w2_def [symmetric]
        bnd_run [where m = "timedOut pf"])
  then have cron: "serverCron pf None w = (Inr 100, ?w3)"
    using fields by (simp add: serverCron_start bnd_assoc bnd_run [where m = "cron_start pf"] replicationCron_def bnd_gets act_apply
        bnd_def [of "bnd (gets f) g" for f g])
  have "world_ok pf ?w3" using serverCron_ok [OF ok, of None] cron by (simp add: link_ok_def)
  then have free: "\<not> points ?w3 BlockedOn k p" if ?over for k
    using not_waiting [of pf ?w3 p "released c1" k] p3 that released_blocked [of c1] by simp
  have sent: "outputBuffer (released c1) = outputBuffer c @ reply_nullArray"
    using c1' by (simp add: released_def clearBlockState_def clearFlag_def addReply_def)
  obtain w3 where w3: "serverCron pf None w = (Inr 100, w3)"
    "w_clients w3 p = Some (if ?over then released c1 else c1)" "\<And>k. ?over \<Longrightarrow> \<not> points w3 BlockedOn k p"
    "outputBuffer (released c1) = outputBuffer c @ reply_nullArray"
    by (rule that [OF cron p3 free sent])
  show ?thesis
  proof (cases ?over)
    case True
    with w3 released_blocked [of c1] show ?thesis by auto
  next
    case False
    with w3(1,2) c1'(1,3) show ?thesis by auto
  qed
qed

definition blockedClient :: client where
  "blockedClient = firstClient\<lparr>flags := CLIENT_BLOCKED, blockedKeys := [''k''], blockTimeout := 2000, blockTarget := '''',
     blockCmd := command_of [''BLPOP'', ''k'', ''1'']\<rparr>"

lemma sample_blocked:
  "\<exists>w. server_run length w \<and> points w BlockedOn ''k'' 7 \<and> w_clients w 7 = Some blockedClient \<and>
    clientTimeout (w_config w) = 0 \<and> masterHost w = ''''"
proof -
  let ?args = "map BulkString [''BLPOP'', ''k'', ''1'']"
  let ?ks = "snd (db_getObjectForWrite samplePlatform ''k'' (openDb 0 firstInput))"
  let ?w1 = "closeDb 0 ?ks firstInput"
  let ?w = "?w1\<lparr>w_clients := [7 \<mapsto> blockedClient], blockedClients := [(''k'', [7])]\<rparr>"
  have one: "int_to_dec 1 = ''1''" by (simp add: int_to_dec_def nat_to_dec.simps digit_char_def char_of_def bit_0)
  have num: "tryNumber stoll ?args (Suc (Suc 0)) = ret (Some 1)"
    using try_number [of 1 "''BLPOP''" "''k''"] by (simp add: one in_i64_def i64_min_def i64_max_def) (simp add: numeral_2_eq_2)
  have get: "fst (db_getObjectForWrite samplePlatform ''k'' (openDb 0 firstInput)) = None" "clients ?ks = w_clients firstInput"
    by (simp_all add: db_getObjectForWrite_def openDb_def first_input emptyDatabase_def checkAndExpire_def isExpired_def)
  have sel: "selected 7 firstInput = (Inr 0, firstInput)" by (simp add: selected_def runs_client first_input first_client act_apply)
  have db: "onDb 0 (db_getObjectForWrite samplePlatform ''k'') firstInput = (Inr None, ?w1)"
    using get(1) by (simp add: onDb_def first_input dbIndex_def case_prod_beta)
  have cl: "w_clients ?w1 = [7 \<mapsto> firstClient]" "blockedClients ?w1 = []" using get(2) by (simp_all add: closeDb_def first_input)
  have "blpopCommand samplePlatform 7 ?args firstInput = (Inr (), ?w)"
    using num by (simp add: blpopCommand_def bpopGeneric_def bnd_run [where m = "selected 7", OF sel] upt_rec argStr_def wrap64_id in_i64_def i64_min_def i64_max_def bnd_lift
        bnd_run [where m = "onDb a b" for a b, OF db] bnd_assoc blockClient_def bnd_setClient cl setFlag_def first_client addPointer_def
        samplePlatform_sel blockedClient_def command_of_def act_apply bnd_pair)
  then have run: "runDepth samplePlatform 4 (ListH BLPOP) 7 ?args firstInput = (Inr (), ?w)" by (simp add: eval_nat_numeral handlerAct_def)
  have alive: "alone ?w" "w_clients ?w 7 = Some blockedClient" using first_input(2) by (simp_all add: alone_def closeDb_def)
  have cmd: "receivable samplePlatform [command_of [''BLPOP'', ''k'', ''1'']]" by (simp add: receivable_simps)
  from sample_step [OF known_names(14) _ _ cmd run alive] obtain el where
    "server_run length ((logged True [''BLPOP'', ''k'', ''1''] ?w)\<lparr>eventLoop := el\<rparr>)" by auto
  then show ?thesis
    using first_input by (intro exI conjI) (assumption, simp_all add: logged_def Let_def entries_def closeDb_def)
qed

theorem block_ends_at_stored_deadline_witness:
  "\<exists>w w' c. w_clients w 7 = Some blockedClient \<and> serverCron (samplePlatform\<lparr>steady_ms := 3000\<rparr>) None w = (Inr 100, w') \<and>
    w_clients w' 7 = Some c \<and> \<not> hasFlag CLIENT_BLOCKED c \<and> outputBuffer c = ''*-1'' @ CRLF"
proof -
  from sample_blocked obtain w where w: "server_run length w" "points w BlockedOn ''k'' 7" "w_clients w 7 = Some blockedClient"
    "clientTimeout (w_config w) = 0" "masterHost w = ''''" by blast
  have "hasher (samplePlatform\<lparr>steady_ms := 3000\<rparr>) = length" "0 < blockTimeout blockedClient"
    "blockTimeout blockedClient \<le> steady_ms (samplePlatform\<lparr>steady_ms := 3000\<rparr>)" "clientTimeout (w_config w) \<le> 0"
    "outputBuffer blockedClient = ''''"
    using w(4) by (simp_all add: blockedClient_def first_client)
  with block_ends_at_stored_deadline [OF w(1) this(1) w(2,3) this(4) w(5)] w(3) show ?thesis
    by (fastforce simp: reply_defs)
qed

end
