(* ===== verification/Refusal.thy ===== *)
theory Refusal
  imports Session
begin

text \<open>
  The error paths of \<^verbatim>\<open>executeCommand\<close>: what a refused command leaves behind.
\<close>

definition told :: "nat \<Rightarrow> string \<Rightarrow> world \<Rightarrow> world" where
  "told p d w = w\<lparr>w_clients := (w_clients w)(p := map_option (addReply d) (w_clients w p))\<rparr>"

lemma reply_told: "w_clients w p = Some c \<Longrightarrow> reply p d w = (Inr (), told p d w)"
  by (simp add: reply_def runs_client told_def)

text \<open>
  The memory guard comes before the check of the number of arguments: a write over the limit
  evicts keys first. \<open>short_of_memory\<close>: a write is still over the limit after that.
\<close>

definition after_eviction :: "platform \<Rightarrow> bool \<Rightarrow> world \<Rightarrow> world" where
  "after_eviction pf write w =
     (if write \<and> maxMemory (w_config w) > 0 \<and> overMemory w then evictKeysIfNeeded pf w else w)"

definition short_of_memory :: "platform \<Rightarrow> bool \<Rightarrow> world \<Rightarrow> bool" where
  "short_of_memory pf write w \<longleftrightarrow>
     write \<and> maxMemory (w_config w) > 0 \<and> overMemory w \<and> overMemory (after_eviction pf write w)"

lemma memory_guard:
  "hasCmdFlag CMD_WRITE e = write \<Longrightarrow> memoryGuard pf e w = (Inr (\<not> short_of_memory pf write w), after_eviction pf write w)"
  by (auto simp: memoryGuard_def bnd_gets bnd_modify after_eviction_def short_of_memory_def act_apply)

lemma eviction_keeps_client:
  assumes "spaces_ok pf w" "w_clients w p = Some c"
  shows "\<exists>c'. w_clients (after_eviction pf write w) p = Some c'"
proof -
  have "alike (w_clients w) (w_clients (after_eviction pf write w))"
    using evict_gently [of pf w] assms(1) by (simp add: gently_def after_eviction_def)
  then have "rel_option akin (w_clients w p) (w_clients (after_eviction pf write w) p)" by (simp add: alike_def)
  with assms(2) show ?thesis by (cases "w_clients (after_eviction pf write w) p") simp_all
qed

lemma eviction_idle:
  "\<not> write \<or> maxMemory (w_config w) \<le> 0 \<or> \<not> overMemory w \<or> maxMemoryPolicy (w_config w) = ''noeviction'' \<Longrightarrow>
    after_eviction pf write w = w"
  by (auto simp: after_eviction_def evictKeysIfNeeded_def Let_def)

lemma execute_entry:
  assumes "lookupCommand name = Some e" "memoryGuard pf e w = (Inr ok, w')"
  shows "executeCommand pf p (command_of (name # ss)) w = afterGuard pf (runDepth pf 4) e p name (map BulkString (name # ss)) ok w'"
proof -
  have "executeCommand pf p (command_of (name # ss)) =
      bnd (memoryGuard pf e) (afterGuard pf (runDepth pf 4) e p name (map BulkString (name # ss)))"
    unfolding executeCommand_def executeDepth_def command_of_def list.map
    by (rule execute_body [OF _ assms(1)]) simp
  then show ?thesis by (simp add: bnd_run [where m = "memoryGuard pf e", OF assms(2)])
qed

text \<open>C19: What refused commands change, in a server whose databases satisfy their invariant. An unknown command changes nothing. For a write while
  the memory limit is exceeded, keys are evicted first, before the number of arguments is
  checked; if memory is still short, the command is answered with the memory error, and otherwise a
  command with a wrong number of arguments with the arity error. Apart from this one reply
  the state of the server is exactly the one before, or the one eviction has left, transactions,
  the log and statistics included; and for a read, without a limit, below the limit or under
  \<^verbatim>\<open>noeviction\<close> eviction leaves everything as it was.\<close>

theorem refused_commands_answered:
  assumes p: "w_clients w p = Some c" and ok: "spaces_ok pf w"
  shows "(known name = None \<longrightarrow> executeCommand pf p (command_of (name # ss)) w =
      (Inr (), told p (reply_error (''unknown command '' @ QUOTE @ name @ QUOTE @ '', with args beginning with: '')) w)) \<and>
    (known name = Some (h, n, wr) \<longrightarrow>
      (short_of_memory pf wr w \<longrightarrow> executeCommand pf p (command_of (name # ss)) w =
        (Inr (), told p (reply_error (''OOM command not allowed when used memory > '' @ QUOTE @ ''maxmemory'' @ QUOTE))
          (after_eviction pf wr w))) \<and>
      (\<not> short_of_memory pf wr w \<and> (n > 0 \<and> int (length ss) + 1 \<noteq> n \<or> n < 0 \<and> int (length ss) + 1 < - n) \<longrightarrow>
        executeCommand pf p (command_of (name # ss)) w =
        (Inr (), told p (reply_error (''wrong number of arguments for '' @ QUOTE @ name @ QUOTE @ '' command''))
          (after_eviction pf wr w)))) \<and>
    (\<not> wr \<or> maxMemory (w_config w) \<le> 0 \<or> \<not> overMemory w \<or> maxMemoryPolicy (w_config w) = ''noeviction'' \<longrightarrow>
      after_eviction pf wr w = w)"
proof (intro conjI impI)
  assume "known name = None"
  then have "lookupCommand name = None" by (simp add: known_def)
  then show "executeCommand pf p (command_of (name # ss)) w =
      (Inr (), told p (reply_error (''unknown command '' @ QUOTE @ name @ QUOTE @ '', with args beginning with: '')) w)"
    using reply_told [OF p] by (simp add: executeCommand_def executeDepth_def executeBody_def command_of_def argStr_def bnd_lift)
next
  assume "known name = Some (h, n, wr)" and short: "short_of_memory pf wr w"
  then obtain e where e: "lookupCommand name = Some e" "hasCmdFlag CMD_WRITE e = wr" by (auto simp: known_def)
  from eviction_keeps_client [OF ok p] obtain c' where "w_clients (after_eviction pf wr w) p = Some c'" by blast
  with execute_entry [OF e(1) memory_guard [OF e(2)]] short show "executeCommand pf p (command_of (name # ss)) w =
      (Inr (), told p (reply_error (''OOM command not allowed when used memory > '' @ QUOTE @ ''maxmemory'' @ QUOTE))
        (after_eviction pf wr w))"
    by (simp add: afterGuard_def reply_told)
next
  assume "known name = Some (h, n, wr)"
    and bad: "\<not> short_of_memory pf wr w \<and> (n > 0 \<and> int (length ss) + 1 \<noteq> n \<or> n < 0 \<and> int (length ss) + 1 < - n)"
  then obtain e where e: "lookupCommand name = Some e" "arity e = n" "hasCmdFlag CMD_WRITE e = wr" by (auto simp: known_def)
  from eviction_keeps_client [OF ok p] obtain c' where c': "w_clients (after_eviction pf wr w) p = Some c'" by blast
  have "\<not> arityOk e (length (map BulkString (name # ss)))" using bad e(2) by (auto simp: arityOk_def add.commute)
  with execute_entry [OF e(1) memory_guard [OF e(3)]] bad c' show "executeCommand pf p (command_of (name # ss)) w =
      (Inr (), told p (reply_error (''wrong number of arguments for '' @ QUOTE @ name @ QUOTE @ '' command''))
        (after_eviction pf wr w))"
    by (simp add: afterGuard_def reply_told)
qed (rule eviction_idle)

theorem refused_commands_answered_witness:
  "executeCommand samplePlatform 7 (command_of [''FOO'']) oneClient =
      (Inr (), told 7 (reply_error (''unknown command '' @ QUOTE @ ''FOO'' @ QUOTE @ '', with args beginning with: '')) oneClient) \<and>
    executeCommand samplePlatform 7 (command_of [''GET'']) oneClient =
      (Inr (), told 7 (reply_error (''wrong number of arguments for '' @ QUOTE @ ''GET'' @ QUOTE @ '' command'')) oneClient)"
proof -
  have p: "w_clients oneClient 7 = Some (newClient 3 1 0)" by (simp add: oneClient_def)
  have ok: "spaces_ok samplePlatform oneClient" using oneClient_sees by (simp add: sees_def)
  have "\<not> short_of_memory samplePlatform False oneClient" by (simp add: short_of_memory_def)
  with refused_commands_answered [OF p ok, of "''FOO''" "[]"]
    refused_commands_answered [OF p ok, of "''GET''" "[]" "StringH GET" 2 False] known_names(2,16)
  show ?thesis by simp
qed

end
