(* ===== verification/Handlers.thy ===== *)
theory Handlers
  imports Keys ZsetCommands
begin

text \<open>
  The handlers of the collection commands as a whole. First the loops that work on an object
  through a reference (\<^verbatim>\<open>for (i = 2; ...) set.add(args[i].asString())\<close> and the like): they
  amount to one write of the value the loop computes. Then what a handler that writes to an
  existing value leaves alone.
\<close>

section \<open>Loops on an object\<close>

abbreviation db_of :: "int \<Rightarrow> world \<Rightarrow> keyspace" where
  "db_of db w \<equiv> openDb (dbIndex db w) w"

text \<open>The world after the value of a key has been replaced through a reference.\<close>

definition rewritten :: "int \<Rightarrow> string \<Rightarrow> contents \<Rightarrow> world \<Rightarrow> world" where
  "rewritten db key v w = closeDb (dbIndex db w) (writeObject key v (db_of db w)) w"

definition has_key :: "int \<Rightarrow> string \<Rightarrow> world \<Rightarrow> bool" where
  "has_key db key w \<longleftrightarrow> databases w \<noteq> [] \<and> map_of (data (db_of db w)) key \<noteq> None"

lemma dbIndex_less: "databases w \<noteq> [] \<Longrightarrow> dbIndex db w < length (databases w)"
  by (auto simp: dbIndex_def)

lemma closeDb_closeDb: "closeDb i ks' (closeDb i ks w) = closeDb i ks' w"
  by (simp add: closeDb_def)

lemma db_of_closeDb: "databases w \<noteq> [] \<Longrightarrow> openDb (dbIndex db w) (closeDb (dbIndex db w) ks w) = ks"
  by (simp add: openDb_closeDb dbIndex_less)

lemma databases_closeDb: "databases (closeDb i ks w) = [] \<longleftrightarrow> databases w = []"
  by (metis closeDb_length length_0_conv)

lemma dbIndex_rewritten [simp]: "dbIndex db (rewritten db' key v w) = dbIndex db w"
  by (simp add: rewritten_def)

lemma db_of_rewritten:
  "databases w \<noteq> [] \<Longrightarrow> openDb (dbIndex db w) (rewritten db key v w) = writeObject key v (db_of db w)"
  by (simp add: rewritten_def db_of_closeDb)

lemma writeObject_data: "map_of (data ks) key = Some ob \<Longrightarrow> map_of (data (writeObject key v ks)) key = Some (ob\<lparr>obj_value := v\<rparr>)"
  by (simp add: writeObject_def)

lemma writeObject_twice: "writeObject key v' (writeObject key v ks) = writeObject key v' ks"
  by (cases "map_of (data ks) key") (simp_all add: writeObject_def)

lemma update_same: "map_of al k = Some v \<Longrightarrow> AList.update k v al = al"
  by (induction al) auto

lemma writeObject_same: "map_of (data ks) key = Some ob \<Longrightarrow> writeObject key (obj_value ob) ks = ks"
  by (simp add: writeObject_def update_same)

lemma rewritten_twice: "databases w \<noteq> [] \<Longrightarrow> rewritten db key v' (rewritten db key v w) = rewritten db key v' w"
  by (simp add: rewritten_def db_of_closeDb writeObject_twice closeDb_closeDb)

lemma rewritten_same:
  assumes "databases w \<noteq> []" "map_of (data (db_of db w)) key = Some ob"
  shows "rewritten db key (obj_value ob) w = w"
  using assms by (simp add: rewritten_def writeObject_same closeDb_openDb dbIndex_less)

lemma has_key_rewritten: "has_key db key w \<Longrightarrow> has_key db key (rewritten db key v w)"
  by (auto simp: has_key_def rewritten_def databases_closeDb db_of_closeDb writeObject_data)

lemma onObject_apply:
  assumes "databases w \<noteq> []" "map_of (data (db_of db w)) key = Some ob"
  shows "onObject db key f w = (case f (obj_value ob) of
      None \<Rightarrow> (Inl Undefined, w) | Some (r, v) \<Rightarrow> (Inr r, rewritten db key v w))"
  using assms closeDb_openDb [OF dbIndex_less [OF assms(1)], of db]
  by (simp add: onObject_def bnd_def onDb_def runDb_def defined_def ret_def raise_def rewritten_def Let_def
      split: option.split)

lemma onObject_rewritten:
  assumes "has_key db key w"
  shows "onObject db key f (rewritten db key v w) = (case f v of
      None \<Rightarrow> (Inl Undefined, rewritten db key v w) | Some (r, v') \<Rightarrow> (Inr r, rewritten db key v' w))"
proof -
  from assms obtain ob where ob: "databases w \<noteq> []" "map_of (data (db_of db w)) key = Some ob"
    by (auto simp: has_key_def)
  have "map_of (data (db_of db (rewritten db key v w))) key = Some (ob\<lparr>obj_value := v\<rparr>)"
    by (simp add: db_of_rewritten [OF ob(1)] writeObject_data [OF ob(2)])
  moreover have "databases (rewritten db key v w) \<noteq> []" using ob(1) by (simp add: rewritten_def databases_closeDb)
  ultimately show ?thesis by (simp add: onObject_apply rewritten_twice [OF ob(1)] split: option.split)
qed

text \<open>The loop of \<^verbatim>\<open>SADD\<close> and \<^verbatim>\<open>SREM\<close> over the arguments is the loop over the members on the set.\<close>

lemma set_loop:
  assumes "has_key db key w"
  shows "countEach (map BulkString ms) (\<lambda>a. bnd (lift (asString a)) (\<lambda>m. onObject db key (inSet (f m)))) n
      (rewritten db key (SetObject s) w) =
    (Inr (n + fst (countLoop f ms s)), rewritten db key (SetObject (snd (countLoop f ms s))) w)"
proof (induction ms arbitrary: n s)
  case Nil
  show ?case by (simp add: ret_def)
next
  case (Cons m ms)
  obtain hit s' where f: "f m s = (hit, s')" by (cases "f m s")
  then have "onObject db key (inSet (f m)) (rewritten db key (SetObject s) w) = (Inr hit, rewritten db key (SetObject s') w)"
    by (simp add: onObject_rewritten [OF assms] inSet_def)
  then have "countEach (map BulkString (m # ms)) (\<lambda>a. bnd (lift (asString a)) (\<lambda>m. onObject db key (inSet (f m)))) n
      (rewritten db key (SetObject s) w) =
    countEach (map BulkString ms) (\<lambda>a. bnd (lift (asString a)) (\<lambda>m. onObject db key (inSet (f m)))) (if hit then n + 1 else n)
      (rewritten db key (SetObject s') w)"
    by (simp add: bnd_def lift_def)
  with Cons.IH f show ?case by (simp add: Let_def case_prod_beta)
qed

section \<open>A handler between its steps\<close>

text \<open>
  The client \<open>p\<close> has the database \<open>db\<close> selected and \<open>out\<close> in its output buffer; the database
  shows \<open>vis\<close>.
\<close>

definition serving :: "platform \<Rightarrow> nat \<Rightarrow> int \<Rightarrow> (string \<Rightarrow> entry option) \<Rightarrow> string \<Rightarrow> world \<Rightarrow> bool" where
  "serving pf p db vis out w \<longleftrightarrow> databases w \<noteq> [] \<and> ks_ok pf (db_of db w) \<and> visible pf (db_of db w) = vis \<and>
     (\<exists>c. w_clients w p = Some c \<and> selectedDb c = db \<and> outputBuffer c = out)"

lemma selected_step: "serving pf p db vis out w \<Longrightarrow> bnd (selected p) f w = f db w"
  by (auto simp: serving_def selected_def theClient_def bnd_def gets_def ret_def defined_def)

lemma key_step: "bnd (argStr (name # BulkString key # rest) (Suc 0)) f = f key"
  by (simp add: argStr_def bnd_lift)

lemma ks_ok_clients: "ks_ok pf ks \<Longrightarrow> dom (clients ks) \<subseteq> dom cs \<Longrightarrow> ks_ok pf (ks\<lparr>clients := cs\<rparr>)"
  using subset_trans [of _ "dom (clients ks)" "dom cs"] by (simp add: ks_ok_def)

lemma visible_clients: "visible pf (ks\<lparr>clients := cs\<rparr>) = visible pf ks"
  by (simp add: visible_def isExpired_def view_def fun_eq_iff)

lemma reply_step:
  assumes "serving pf p db vis out w"
  shows "\<exists>w'. reply p s w = (Inr (), w') \<and> serving pf p db vis (out @ s) w'"
proof -
  from assms obtain c where c: "w_clients w p = Some c" "selectedDb c = db" "outputBuffer c = out"
    by (auto simp: serving_def)
  let ?w = "w\<lparr>w_clients := (w_clients w)(p \<mapsto> addReply s c)\<rparr>"
  have "reply p s w = (Inr (), ?w)"
    using c(1) by (simp add: reply_def setClient_def theClient_def bnd_def gets_def modify_def defined_def ret_def)
  moreover have eq: "db_of db ?w = (db_of db w)\<lparr>clients := (w_clients w)(p \<mapsto> addReply s c)\<rparr>"
    by (simp add: openDb_def Let_def dbIndex_def)
  have "dom (w_clients w) \<subseteq> dom ((w_clients w)(p \<mapsto> addReply s c))" by auto
  then have "ks_ok pf (db_of db ?w)" "visible pf (db_of db ?w) = vis"
    using assms unfolding eq by (auto simp: serving_def visible_clients openDb_sel intro: ks_ok_clients)
  moreover have "databases ?w \<noteq> []" "w_clients ?w p = Some (addReply s c)" "selectedDb (addReply s c) = db"
    "outputBuffer (addReply s c) = out @ s"
    using assms c by (simp_all add: serving_def addReply_def)
  ultimately show ?thesis unfolding serving_def by blast
qed

text \<open>A method of the database that keeps its invariant and only flags clients.\<close>

lemma clients_kept:
  assumes "\<forall>q. cs' q = cs q \<or> cs' q = map_option (setFlag CLIENT_DIRTY_EXEC) (cs q)" "cs p = Some c"
  shows "\<exists>c'. cs' p = Some c' \<and> selectedDb c' = selectedDb c \<and> outputBuffer c' = outputBuffer c"
  using assms(1) [rule_format, of p] assms(2) by (auto simp: setFlag_def)

lemma method_step:
  assumes "serving pf p db vis out w" "ks_ok pf (snd (f (db_of db w)))"
    and "\<forall>q. clients (snd (f (db_of db w))) q = w_clients w q \<or>
      clients (snd (f (db_of db w))) q = map_option (setFlag CLIENT_DIRTY_EXEC) (w_clients w q)"
  shows "\<exists>w'. onDb db f w = (Inr (fst (f (db_of db w))), w') \<and> db_of db w' = snd (f (db_of db w)) \<and>
    serving pf p db (visible pf (snd (f (db_of db w)))) out w'"
proof -
  let ?ks = "snd (f (db_of db w))" and ?i = "dbIndex db w"
  from assms(1) obtain c where c: "databases w \<noteq> []" "w_clients w p = Some c" "selectedDb c = db" "outputBuffer c = out"
    by (auto simp: serving_def)
  from clients_kept [OF assms(3) c(2)] c(3,4) obtain c' where
    c': "clients ?ks p = Some c'" "selectedDb c' = db" "outputBuffer c' = out" by auto
  have "onDb db f w = (Inr (fst (f (db_of db w))), closeDb ?i ?ks w)"
    using c(1) by (simp add: onDb_def Let_def case_prod_beta)
  moreover have "w_clients (closeDb ?i ?ks w) = clients ?ks" by (simp add: closeDb_def)
  ultimately show ?thesis
    using c' assms(2) c(1) by (auto simp: serving_def db_of_closeDb databases_closeDb)
qed

lemma isExpired_kept: "visible pf ks k = Some e \<Longrightarrow> \<not> isExpired pf k ks \<and> view ks k = Some e"
  by (simp add: visible_def split: if_splits)

lemma visible_stored: "visible pf (db_setObject pf k ob ks) = (visible pf ks)(k \<mapsto> (obj_value ob, None))"
  by (auto simp: visible_def isExpired_def db_simps fun_eq_iff)

lemma visible_written:
  "visible pf ks k = Some (v, t) \<Longrightarrow> visible pf (writeObject k v' ks) = (visible pf ks)(k \<mapsto> (v', t))"
proof
  fix k' assume vis: "visible pf ks k = Some (v, t)"
  have "expires (writeObject k v' ks) = expires ks" by (simp add: writeObject_def split: option.split)
  then have "isExpired pf k' (writeObject k v' ks) = isExpired pf k' ks" by (rule isExpired_cong)
  with isExpired_kept [OF vis] show "visible pf (writeObject k v' ks) k' = ((visible pf ks)(k \<mapsto> (v', t))) k'"
    by (simp add: visible_def view_writeObject)
qed

lemma visible_deleted: "ks_ok pf ks \<Longrightarrow> visible pf (snd (db_del pf k ks)) = (visible pf ks)(k := None)"
proof
  fix k' assume ok: "ks_ok pf ks"
  have "expires (snd (db_del pf k ks)) = AList.delete k (expires ks)"
    by (simp add: db_del_def Let_def split: option.split)
  then have "isExpired pf k' (snd (db_del pf k ks)) = (isExpired pf k' ks \<and> k' \<noteq> k)"
    by (auto simp: isExpired_def split: option.splits)
  then show "visible pf (snd (db_del pf k ks)) k' = ((visible pf ks)(k := None)) k'"
    by (simp add: visible_def view_del [OF ok] del: view_None)
qed

lemma getObject_flags:
  "clients (snd (db_getObject pf k ks)) q = clients ks q \<or>
   clients (snd (db_getObject pf k ks)) q = map_option (setFlag CLIENT_DIRTY_EXEC) (clients ks q)"
  by (simp add: db_getObject_def checkAndExpire_def dropObject_clients Let_def split: option.split)

lemma get_step:
  assumes s: "serving pf p db vis out w"
  shows "\<exists>ob w'. onDb db (db_getObjectForWrite pf key) w = (Inr ob, w') \<and>
    map_option obj_value ob = map_option fst (vis key) \<and> serving pf p db vis out w'"
proof -
  have ok: "ks_ok pf (db_of db w)" "visible pf (db_of db w) = vis" using s by (auto simp: serving_def)
  have "\<forall>q. clients (snd (db_getObjectForWrite pf key (db_of db w))) q = w_clients w q \<or>
      clients (snd (db_getObjectForWrite pf key (db_of db w))) q = map_option (setFlag CLIENT_DIRTY_EXEC) (w_clients w q)"
    using getObject_flags [of pf key "db_of db w"] by (simp add: getObjectForWrite_getObject openDb_sel)
  from method_step [where f = "db_getObjectForWrite pf key", OF s getObjectForWrite_ok [OF ok(1)] this] show ?thesis
    using getObject_fst [OF ok(1), of key] visible_getObject [OF ok(1), of key] ok(2)
    by (auto simp: getObjectForWrite_getObject)
qed

lemma store_step:
  assumes s: "serving pf p db vis out w" and "contents_ok (hasher pf) v"
  shows "\<exists>w'. runDb db (db_setObject pf key (newObject v)) w = (Inr (), w') \<and>
    serving pf p db (vis(key \<mapsto> (v, None))) out w'"
proof -
  let ?f = "\<lambda>ks. ((), db_setObject pf key (newObject v) ks)"
  have ok: "ks_ok pf (db_of db w)" "visible pf (db_of db w) = vis" using s by (auto simp: serving_def)
  have "\<forall>q. clients (snd (?f (db_of db w))) q = w_clients w q \<or>
      clients (snd (?f (db_of db w))) q = map_option (setFlag CLIENT_DIRTY_EXEC) (w_clients w q)"
    by (simp add: setObject_clients openDb_sel)
  moreover have "ks_ok pf (snd (?f (db_of db w)))"
    using setObject_ok [OF ok(1), of "newObject v" key] assms(2) by (simp add: newObject_def)
  ultimately show ?thesis
    using method_step [where f = ?f, OF s] ok(2) by (auto simp: runDb_def visible_stored newObject_def)
qed

lemma del_step:
  assumes s: "serving pf p db vis out w"
  shows "\<exists>r w'. onDb db (db_del pf key) w = (Inr r, w') \<and> serving pf p db (vis(key := None)) out w'"
proof -
  have ok: "ks_ok pf (db_of db w)" "visible pf (db_of db w) = vis" using s by (auto simp: serving_def)
  have "\<forall>q. clients (snd (db_del pf key (db_of db w))) q = w_clients w q \<or>
      clients (snd (db_del pf key (db_of db w))) q = map_option (setFlag CLIENT_DIRTY_EXEC) (w_clients w q)"
    by (simp add: db_del_def Let_def dropObject_clients openDb_sel split: option.split)
  from method_step [where f = "db_del pf key", OF s _ this] ok show ?thesis by (auto simp: visible_deleted intro!: inv_intros)
qed

lemma open_write:
  assumes s: "serving pf p db vis out w" and fresh: "contents_type fresh = ty" "contents_ok (hasher pf) fresh"
    and ty: "\<forall>e. vis key = Some e \<longrightarrow> contents_type (fst e) = ty"
  shows "\<exists>w'. openForWrite pf p db key ty fresh w = (Inr True, w') \<and>
    serving pf p db (vis(key \<mapsto> (case vis key of None \<Rightarrow> (fresh, None) | Some e \<Rightarrow> e))) out w'"
proof -
  from get_step [OF s, of key] obtain ob w1 where w1: "onDb db (db_getObjectForWrite pf key) w = (Inr ob, w1)"
    "map_option obj_value ob = map_option fst (vis key)" "serving pf p db vis out w1" by blast
  show ?thesis
  proof (cases "vis key")
    case None
    from store_step [OF w1(3) fresh(2), of key] obtain w2 where
      w2: "runDb db (db_setObject pf key (newObject fresh)) w1 = (Inr (), w2)"
        "serving pf p db (vis(key \<mapsto> (fresh, None))) out w2" by blast
    from get_step [OF w2(2), of key] obtain ob' w3 where
      w3: "onDb db (db_getObjectForWrite pf key) w2 = (Inr (Some ob'), w3)"
        "serving pf p db (vis(key \<mapsto> (fresh, None))) out w3" by (auto simp: map_option_case split: option.splits)
    have "openForWrite pf p db key ty fresh w = (Inr True, w3)"
      using None w1(1,2) w2(1) w3(1) by (simp add: openForWrite_def bnd_def ret_def)
    with w3(2) None show ?thesis by simp
  next
    case (Some e)
    with w1(2) ty obtain o' where "ob = Some o'" "obj_type o' = ty" by (auto simp: obj_type_def)
    with w1(1) have "openForWrite pf p db key ty fresh w = (Inr True, w1)"
      by (simp add: openForWrite_def bnd_def ret_def)
    with w1(3) Some show ?thesis by (simp add: fun_upd_idem)
  qed
qed

lemma value_there:
  assumes "serving pf p db vis out w" "vis key = Some (v, t)"
  shows "has_key db key w" "rewritten db key v w = w"
proof -
  have "view (db_of db w) key = Some (v, t)"
    using assms isExpired_kept [of pf "db_of db w" key "(v, t)"] by (auto simp: serving_def)
  then obtain ob where "map_of (data (db_of db w)) key = Some ob" "obj_value ob = v" by (auto simp: view_def)
  with assms(1) show "has_key db key w" "rewritten db key v w = w"
    using rewritten_same [of w db key ob] by (auto simp: serving_def has_key_def)
qed

lemma write_step:
  assumes s: "serving pf p db vis out w" and "vis key = Some (v, t)" "contents_ok (hasher pf) v'"
  shows "serving pf p db (vis(key \<mapsto> (v', t))) out (rewritten db key v' w)"
proof -
  have ok: "databases w \<noteq> []" "ks_ok pf (db_of db w)" "visible pf (db_of db w) = vis" using s by (auto simp: serving_def)
  have "w_clients (rewritten db key v' w) = w_clients w"
    by (simp add: rewritten_def closeDb_def writeObject_clients openDb_sel)
  with s ok assms(2,3) show ?thesis
    using writeObject_ok [OF ok(2) assms(3), of key] visible_written [of pf "db_of db w" key v t v']
    by (simp add: serving_def db_of_rewritten) (simp add: rewritten_def databases_closeDb)
qed

section \<open>The set commands\<close>

text \<open>The members of the set a key holds; a missing key stands for the empty set.\<close>

fun members_at :: "entry option \<Rightarrow> string set" where
  "members_at (Some (SetObject s, t)) = hs_elems s"
| "members_at _ = {}"

definition holds_set :: "entry option \<Rightarrow> bool" where
  "holds_set e \<longleftrightarrow> (\<forall>e'. e = Some e' \<longrightarrow> contents_type (fst e') = TSet)"

lemma holds_setE:
  assumes "holds_set e" obtains "e = None" | s t where "e = Some (SetObject s, t)"
  using assms by (cases e; cases "fst (the e)") (auto simp: holds_set_def)

lemma set_ok_there: "serving pf p db vis out w \<Longrightarrow> vis key = Some (SetObject s, t) \<Longrightarrow> ht_inv (hasher pf) s"
proof -
  assume s: "serving pf p db vis out w" "vis key = Some (SetObject s, t)"
  then have "view (db_of db w) key = Some (SetObject s, t)" "ks_ok pf (db_of db w)"
    using isExpired_kept [of pf "db_of db w" key "(SetObject s, t)"] by (auto simp: serving_def)
  moreover from this(1) obtain ob where "map_of (data (db_of db w)) key = Some ob" "obj_value ob = SetObject s"
    by (auto simp: view_def)
  ultimately show ?thesis using ks_okD(5) [of pf "db_of db w" key ob] by simp
qed

lemma sadd_run:
  assumes s: "serving pf p db vis out w" and set: "holds_set (vis key)"
  shows "\<exists>w' s'. saddCommand pf p (BulkString name # BulkString key # map BulkString ms) w = (Inr (), w') \<and>
    serving pf p db (vis(key \<mapsto> (SetObject s', case vis key of None \<Rightarrow> None | Some e \<Rightarrow> snd e)))
      (out @ reply_integer (int (card (set ms - members_at (vis key))))) w' \<and>
    hs_elems s' = members_at (vis key) \<union> set ms"
proof -
  have ty: "\<forall>e. vis key = Some e \<longrightarrow> contents_type (fst e) = TSet" using set by (simp add: holds_set_def)
  have "contents_ok (hasher pf) (SetObject newSet)" using hs.new_inv by simp
  from open_write [OF s _ this ty] obtain w1 where w1: "openForWrite pf p db key TSet (SetObject newSet) w = (Inr True, w1)"
    "serving pf p db (vis(key \<mapsto> (case vis key of None \<Rightarrow> (SetObject newSet, None) | Some e \<Rightarrow> e))) out w1" by auto
  define t where "t = (case vis key of None \<Rightarrow> None | Some e \<Rightarrow> snd e)"
  from set obtain s0 where s0: "serving pf p db (vis(key \<mapsto> (SetObject s0, t))) out w1" "hs_elems s0 = members_at (vis key)"
    using w1(2) by (elim holds_setE) (auto simp: t_def hs.new_elems)
  then have inv: "ht_inv (hasher pf) s0" by (auto dest: set_ok_there)
  let ?r = "countLoop (hs_add (hasher pf)) ms s0"
  note loop = hs.add_loop [OF inv, of ms]
  have "contents_ok (hasher pf) (SetObject (snd ?r))" using loop by simp
  from write_step [OF s0(1) _ this, of key "SetObject s0" t]
  have w2: "serving pf p db (vis(key \<mapsto> (SetObject (snd ?r), t))) out (rewritten db key (SetObject (snd ?r)) w1)" by simp
  from reply_step [OF w2, of "reply_integer (int (fst ?r))"] obtain w3 where
    w3: "reply p (reply_integer (int (fst ?r))) (rewritten db key (SetObject (snd ?r)) w1) = (Inr (), w3)"
      "serving pf p db (vis(key \<mapsto> (SetObject (snd ?r), t))) (out @ reply_integer (int (fst ?r))) w3" by blast
  have "has_key db key w1" "rewritten db key (SetObject s0) w1 = w1" using value_there [OF s0(1), of key "SetObject s0" t] by simp_all
  from set_loop [OF this(1), of ms "hs_add (hasher pf)" 0 s0] this(2) w1(1) w3(1)
  have "saddCommand pf p (BulkString name # BulkString key # map BulkString ms) w = (Inr (), w3)"
    by (simp add: saddCommand_def selected_step [OF s] key_step) (simp add: bnd_def)
  with w3(2) loop s0(2) show ?thesis unfolding t_def by auto
qed

lemma open_existing:
  assumes s: "serving pf p db vis out w" and ty: "\<forall>e. vis key = Some e \<longrightarrow> contents_type (fst e) = ty"
  shows "\<exists>w'. openExisting pf p db key ty missing w = (Inr (vis key \<noteq> None), w') \<and>
    serving pf p db vis (if vis key = None then out @ missing else out) w'"
proof -
  from get_step [OF s, of key] obtain ob w1 where w1: "onDb db (db_getObjectForWrite pf key) w = (Inr ob, w1)"
    "map_option obj_value ob = map_option fst (vis key)" "serving pf p db vis out w1" by blast
  show ?thesis
  proof (cases "vis key")
    case None
    from reply_step [OF w1(3), of missing] None w1(1,2) show ?thesis
      by (auto simp: openExisting_def bnd_def ret_def)
  next
    case (Some e)
    with w1(2) ty obtain o' where "ob = Some o'" "obj_type o' = ty" by (auto simp: obj_type_def)
    with w1(1,3) Some show ?thesis by (simp add: openExisting_def bnd_def ret_def)
  qed
qed

lemma hs_empty_elems: "ht_inv hf s \<Longrightarrow> hs_empty s \<longleftrightarrow> hs_elems s = {}"
  using hs.count_card [of hf s] hs.elems_finite [of hf s]
  by (simp add: hs_empty_def hs_size_def ht_empty_def ht_size_def)

lemma srem_run:
  assumes s: "serving pf p db vis out w" and set: "holds_set (vis key)"
  shows "\<exists>w' e. sremCommand pf p (BulkString name # BulkString key # map BulkString ms) w = (Inr (), w') \<and>
    serving pf p db (vis(key := e)) (out @ reply_integer (int (card (set ms \<inter> members_at (vis key))))) w' \<and>
    members_at e = members_at (vis key) - set ms \<and> holds_set e \<and> (e = None \<longleftrightarrow> members_at e = {}) \<and>
    (e = None \<or> map_option snd e = map_option snd (vis key))"
proof -
  have ty: "\<forall>e. vis key = Some e \<longrightarrow> contents_type (fst e) = TSet" using set by (simp add: holds_set_def)
  from open_existing [OF s ty, of "reply_integer 0"] obtain w1 where
    w1: "openExisting pf p db key TSet (reply_integer 0) w = (Inr (vis key \<noteq> None), w1)"
      "serving pf p db vis (if vis key = None then out @ reply_integer 0 else out) w1" by blast
  from set show ?thesis
  proof (cases rule: holds_setE)
    case 1
    with w1 have "sremCommand pf p (BulkString name # BulkString key # map BulkString ms) w = (Inr (), w1)"
      by (simp add: sremCommand_def selected_step [OF s] key_step) (simp add: bnd_def ret_def)
    with w1(2) 1 show ?thesis by (intro exI [of _ w1] exI [of _ None]) (simp add: fun_upd_idem holds_set_def)
  next
    case (2 s0 t)
    with w1(2) have sv: "serving pf p db vis out w1" by simp
    have inv: "ht_inv (hasher pf) s0" using set_ok_there [OF sv 2] .
    let ?r = "countLoop (hs_remove (hasher pf)) ms s0"
    let ?w = "rewritten db key (SetObject (snd ?r)) w1"
    note loop = hs.remove_loop [OF inv, of ms]
    have "contents_ok (hasher pf) (SetObject (snd ?r))" using loop by simp
    from write_step [OF sv 2 this] have w2: "serving pf p db (vis(key \<mapsto> (SetObject (snd ?r), t))) out ?w" .
    have there: "has_key db key w1" "rewritten db key (SetObject s0) w1 = w1" using value_there [OF sv 2] by simp_all
    have empty: "onObject db key (inSet (\<lambda>s. (hs_empty s, s))) ?w = (Inr (hs_elems (snd ?r) = {}), ?w)"
      using loop hs_empty_elems [of "hasher pf" "snd ?r"] by (simp add: onObject_rewritten [OF there(1)] inSet_def)
    define e where "e = (if hs_elems (snd ?r) = {} then None else Some (SetObject (snd ?r), t))"
    obtain w3 where w3: "(if hs_elems (snd ?r) = {} then seq (onDb db (db_del pf key)) (ret ()) else ret ()) ?w = (Inr (), w3)"
      "serving pf p db (vis(key := e)) out w3"
      using del_step [OF w2, of key] w2 by (cases "hs_elems (snd ?r) = {}") (auto simp: e_def bnd_def ret_def)
    from reply_step [OF w3(2), of "reply_integer (int (fst ?r))"] obtain w4 where
      w4: "reply p (reply_integer (int (fst ?r))) w3 = (Inr (), w4)"
        "serving pf p db (vis(key := e)) (out @ reply_integer (int (fst ?r))) w4" by blast
    from set_loop [OF there(1), of ms "hs_remove (hasher pf)" 0 s0] there(2) w1(1) 2 empty w3(1) w4(1)
    have "sremCommand pf p (BulkString name # BulkString key # map BulkString ms) w = (Inr (), w4)"
      by (simp add: sremCommand_def selected_step [OF s] key_step) (simp add: bnd_def)
    moreover have "members_at e = members_at (vis key) - set ms" "fst ?r = card (set ms \<inter> members_at (vis key))"
      using loop 2 by (simp_all add: e_def)
    moreover have "holds_set e" "e = None \<longleftrightarrow> members_at e = {}" "e = None \<or> map_option snd e = map_option snd (vis key)"
      using 2 by (simp_all add: e_def holds_set_def)
    ultimately show ?thesis using w4(2) by (intro exI [of _ w4] exI [of _ e]) simp
  qed
qed

section \<open>Writing to an existing value\<close>

text \<open>
  The client \<open>p\<close> has selected a database that holds an unexpired value of type \<open>ty\<close> at
  \<open>key\<close>, and nobody is blocked on the key.
\<close>

definition occupied :: "platform \<Rightarrow> nat \<Rightarrow> int \<Rightarrow> string \<Rightarrow> ObjectType \<Rightarrow> world \<Rightarrow> bool" where
  "occupied pf p db key ty w \<longleftrightarrow> databases w \<noteq> [] \<and> \<not> isExpired pf key (db_of db w) \<and>
     map_option obj_type (map_of (data (db_of db w)) key) = Some ty \<and>
     map_option selectedDb (w_clients w p) = Some db \<and> map_of (blockedClients w) key \<in> {None, Some []}"

text \<open>An action that keeps this and touches no client but \<open>p\<close>.\<close>

definition spares :: "platform \<Rightarrow> nat \<Rightarrow> int \<Rightarrow> string \<Rightarrow> ObjectType \<Rightarrow> 'a act \<Rightarrow> bool" where
  "spares pf p db key ty m \<longleftrightarrow> (\<forall>w. occupied pf p db key ty w \<longrightarrow>
     occupied pf p db key ty (snd (m w)) \<and> (\<forall>q. q \<noteq> p \<longrightarrow> w_clients (snd (m w)) q = w_clients w q))"

named_theorems spares_intros

lemma spares_bnd [spares_intros]:
  assumes "spares pf p db key ty m" "\<And>x. spares pf p db key ty (f x)"
  shows "spares pf p db key ty (bnd m f)"
  unfolding spares_def
proof (intro allI impI)
  fix w assume w: "occupied pf p db key ty w"
  obtain r w1 where m: "m w = (r, w1)" by (cases "m w")
  with assms(1) w have w1: "occupied pf p db key ty w1" "\<forall>q. q \<noteq> p \<longrightarrow> w_clients w1 q = w_clients w q"
    by (auto simp: spares_def)
  then show "occupied pf p db key ty (snd (bnd m f w)) \<and> (\<forall>q. q \<noteq> p \<longrightarrow> w_clients (snd (bnd m f w)) q = w_clients w q)"
    using m assms(2) by (cases r) (simp_all add: bnd_def spares_def)
qed

lemma spares_option [spares_intros]:
  "spares pf p db key ty m \<Longrightarrow> (\<And>x. spares pf p db key ty (f x)) \<Longrightarrow>
    spares pf p db key ty (case r of None \<Rightarrow> m | Some x \<Rightarrow> f x)"
  by (simp split: option.split)

lemma spares_if [spares_intros]:
  "spares pf p db key ty m \<Longrightarrow> spares pf p db key ty m' \<Longrightarrow> spares pf p db key ty (if b then m else m')"
  by simp

lemma spares_still: "(\<And>w. snd (m w) = w) \<Longrightarrow> spares pf p db key ty m"
  by (simp add: spares_def)

lemma spares_simple [spares_intros]:
  "spares pf p db key ty (ret x)" "spares pf p db key ty (lift r)" "spares pf p db key ty (argStr args i)"
  "spares pf p db key ty (tryNumber conv args i)"
  by (rule spares_still, simp add: act_apply argStr_def tryNumber_def try_catch_def bnd_def split: sum.split prod.split)+

lemma spares_selected:
  assumes "spares pf p db key ty (f db)"
  shows "spares pf p db key ty (bnd (selected p) f)"
proof -
  have "bnd (selected p) f w = f db w" if "occupied pf p db key ty w" for w
    using that by (auto simp: occupied_def selected_def theClient_def bnd_def gets_def ret_def defined_def)
  with assms show ?thesis by (simp add: spares_def)
qed

lemma spares_reply [spares_intros]: "spares pf p db key ty (reply p s)"
proof -
  have "reply p s w = (Inr (), w\<lparr>w_clients := (w_clients w)(p \<mapsto> addReply s c)\<rparr>)" if "w_clients w p = Some c" for w c
    using that by (simp add: reply_def setClient_def theClient_def bnd_def gets_def modify_def defined_def ret_def)
  then show ?thesis
    by (auto simp: spares_def occupied_def addReply_def openDb_def dbIndex_def Let_def isExpired_def)
qed

lemma spares_method:
  assumes "\<And>ks ob. \<not> isExpired pf key ks \<Longrightarrow> map_of (data ks) key = Some ob \<Longrightarrow> obj_type ob = ty \<Longrightarrow>
    clients (snd (f ks)) = clients ks \<and> expires (snd (f ks)) = expires ks \<and>
    map_option obj_type (map_of (data (snd (f ks))) key) = Some ty"
  shows "spares pf p db key ty (onDb db f)"
  unfolding spares_def
proof (intro allI impI)
  fix w assume w: "occupied pf p db key ty w"
  let ?ks = "snd (f (db_of db w))"
  from w obtain ob where "map_of (data (db_of db w)) key = Some ob" "obj_type ob = ty" by (auto simp: occupied_def)
  with assms [of "db_of db w" ob] w have ks: "clients ?ks = w_clients w" "expires ?ks = expires (db_of db w)"
    "map_option obj_type (map_of (data ?ks) key) = Some ty" by (auto simp: occupied_def openDb_sel)
  have "onDb db f w = (Inr (fst (f (db_of db w))), closeDb (dbIndex db w) ?ks w)"
    using w by (simp add: onDb_def occupied_def Let_def case_prod_beta)
  moreover have "w_clients (closeDb (dbIndex db w) ?ks w) = clients ?ks"
    "blockedClients (closeDb (dbIndex db w) ?ks w) = blockedClients w" by (simp_all add: closeDb_def)
  ultimately show "occupied pf p db key ty (snd (onDb db f w)) \<and>
      (\<forall>q. q \<noteq> p \<longrightarrow> w_clients (snd (onDb db f w)) q = w_clients w q)"
    using w ks isExpired_cong [OF ks(2)] by (simp add: occupied_def db_of_closeDb databases_closeDb)
qed

lemma getObject_present:
  assumes "\<not> isExpired pf key ks" "map_of (data ks) key = Some ob"
  shows "db_getObjectForWrite pf key ks =
    (Some (stamp ob ks), ks\<lparr>hits := hits ks + 1, data := AList.update key (stamp ob ks) (data ks)\<rparr>)"
  using assms by (simp add: db_getObjectForWrite_def checkAndExpire_def Let_def stamp_def)

lemma obj_type_stamp [simp]: "obj_type (stamp ob ks) = obj_type ob"
  by (simp add: stamp_def obj_type_def)

lemma spares_get: "spares pf p db key ty (onDb db (db_getObjectForWrite pf key))"
  by (rule spares_method) (simp add: getObject_present)

lemma spares_append: "spares pf p db key ty (onDb db (db_append pf key v))"
  by (rule spares_method) (auto simp: db_append_def Let_def obj_type_def split: contents.split)

lemma spares_open [spares_intros]: "spares pf p db key ty (openForWrite pf p db key ty fresh)"
proof -
  have "snd (openForWrite pf p db key ty fresh w) = snd (onDb db (db_getObjectForWrite pf key) w)"
    if w: "occupied pf p db key ty w" for w
  proof -
    from w obtain ob where "map_of (data (db_of db w)) key = Some ob" "obj_type ob = ty" by (auto simp: occupied_def)
    with w getObject_present [of pf key "db_of db w" ob] obtain w' where
      "onDb db (db_getObjectForWrite pf key) w = (Inr (Some (stamp ob (db_of db w))), w')"
      by (auto simp: occupied_def onDb_def Let_def)
    with \<open>obj_type ob = ty\<close> show ?thesis by (simp add: openForWrite_def bnd_def ret_def)
  qed
  with spares_get [of pf p db key ty] show ?thesis by (simp add: spares_def)
qed

lemma spares_object:
  assumes "\<And>v r v'. f v = Some (r, v') \<Longrightarrow> contents_type v' = contents_type v"
  shows "spares pf p db key ty (onObject db key f)"
  unfolding spares_def
proof (intro allI impI)
  fix w assume w: "occupied pf p db key ty w"
  then obtain ob where ob: "databases w \<noteq> []" "map_of (data (db_of db w)) key = Some ob" "obj_type ob = ty"
    by (auto simp: occupied_def)
  have "occupied pf p db key ty (rewritten db key v w) \<and> w_clients (rewritten db key v w) = w_clients w"
    if "contents_type v = ty" for v
  proof -
    have "expires (writeObject key v (db_of db w)) = expires (db_of db w)"
      using ob(2) by (simp add: writeObject_def)
    then have "isExpired pf key (writeObject key v (db_of db w)) = isExpired pf key (db_of db w)"
      by (rule isExpired_cong)
    moreover have "databases (rewritten db key v w) \<noteq> []" using ob(1) by (simp add: rewritten_def databases_closeDb)
    moreover have "w_clients (rewritten db key v w) = w_clients w" "blockedClients (rewritten db key v w) = blockedClients w"
      by (simp_all add: rewritten_def closeDb_def writeObject_clients openDb_sel)
    ultimately show ?thesis
      using w that writeObject_data [OF ob(2), of v]
      by (simp add: occupied_def db_of_rewritten [OF ob(1)] obj_type_def)
  qed
  with ob(3) assms [of "obj_value ob"] w show "occupied pf p db key ty (snd (onObject db key f w)) \<and>
      (\<forall>q. q \<noteq> p \<longrightarrow> w_clients (snd (onObject db key f w)) q = w_clients w q)"
    by (auto simp: onObject_apply [OF ob(1,2)] obj_type_def split: option.split)
qed

lemma spares_forEach [spares_intros]: "(\<And>x. spares pf p db key ty (f x)) \<Longrightarrow> spares pf p db key ty (forEach xs f)"
  by (induction xs) (simp_all add: spares_intros)

lemma spares_countEach [spares_intros]: "(\<And>x. spares pf p db key ty (f x)) \<Longrightarrow> spares pf p db key ty (countEach xs f n)"
  by (induction xs arbitrary: n) (simp_all add: spares_intros)

lemma spares_wake [spares_intros]: "spares pf p db key ty (handleClientsBlockedOnKey exec key)"
proof -
  have "handleClientsBlockedOnKey exec key w = (Inr (), w)" if "occupied pf p db key ty w" for w
    using that by (auto simp: occupied_def handleClientsBlockedOnKey_def bnd_def gets_def ret_def)
  then show ?thesis by (simp add: spares_def)
qed

lemma spares_values [spares_intros]:
  "spares pf p db key ty (onObject db key (inList l))" "spares pf p db key ty (onObject db key (inHash h))"
  "spares pf p db key ty (onObject db key (inSet s))" "spares pf p db key ty (onObject db key (inZset z))"
  by (rule spares_object, auto simp: inList_def inHash_def inSet_def inZset_def split: contents.splits prod.splits)+

lemma spares_zadd [spares_intros]: "spares pf p db key ty (zaddLoop pf p args db key is n)"
  by (induction "is" arbitrary: n) (simp_all add: spares_intros)

text \<open>The commands that write to an existing value, by its type.\<close>

fun writers :: "platform \<Rightarrow> (nat \<Rightarrow> RespValue \<Rightarrow> unit act) \<Rightarrow> nat \<Rightarrow> RespValue list \<Rightarrow> ObjectType \<Rightarrow> unit act list" where
  "writers pf exec p args TString = [appendCommand pf p args]"
| "writers pf exec p args TList = [lpushCommand pf exec p args, rpushCommand pf exec p args]"
| "writers pf exec p args THash = [hsetCommand pf p args]"
| "writers pf exec p args TSet = [saddCommand pf p args]"
| "writers pf exec p args TSortedSet = [zaddCommand pf p args]"
| "writers pf exec p args TNone = []"

lemma spares_push: "spares pf p db key TList (pushGeneric pf exec p (name # BulkString key # rest) left)"
  unfolding pushGeneric_def One_nat_def by (rule spares_selected, unfold key_step) (intro spares_intros)

lemma spares_writers:
  assumes "m \<in> set (writers pf exec p (name # BulkString key # rest) ty)"
  shows "spares pf p db key ty m"
proof (cases ty)
  case TString
  have "spares pf p db key TString (appendCommand pf p (name # BulkString key # rest))"
    unfolding appendCommand_def One_nat_def
    by (rule spares_selected, unfold key_step) (intro spares_intros spares_append)
  with assms TString show ?thesis by simp
next
  case TList
  with assms spares_push show ?thesis by (auto simp: lpushCommand_def rpushCommand_def intro: spares_bnd)
next
  case THash
  have "spares pf p db key THash (hsetCommand pf p (name # BulkString key # rest))"
    unfolding hsetCommand_def One_nat_def
    by (rule spares_if, rule spares_reply, rule spares_selected, unfold key_step) (intro spares_intros)
  with assms THash show ?thesis by simp
next
  case TSet
  have "spares pf p db key TSet (saddCommand pf p (name # BulkString key # rest))"
    unfolding saddCommand_def One_nat_def by (rule spares_selected, unfold key_step) (intro spares_intros)
  with assms TSet show ?thesis by simp
next
  case TSortedSet
  have "spares pf p db key TSortedSet (zaddCommand pf p (name # BulkString key # rest))"
    unfolding zaddCommand_def One_nat_def
    by (rule spares_if, rule spares_reply, rule spares_selected, unfold key_step) (intro spares_intros)
  with assms TSortedSet show ?thesis by simp
qed (use assms in simp)

section \<open>Properties\<close>

text \<open>A server with two clients, one of which watches a key that holds a string.\<close>

definition watchedServer :: world where
  "watchedServer = (newServer defaultConfig (\<lambda>_. None) (\<lambda>_. '''') 0)\<lparr>
     databases := [\<lparr>data = [(''k'', newObject (StringObject ''v''))], expires = [], watchedKeys = [(''k'', [7])],
       hits = 0, misses = 0, dirty = 0\<rparr>],
     w_clients := [7 \<mapsto> newClient 3 1 0, 8 \<mapsto> newClient 4 2 0]\<rparr>"

lemma watched_server:
  "databases watchedServer \<noteq> []" "dbIndex 0 watchedServer = 0" "blockedClients watchedServer = []"
  "w_clients watchedServer = [7 \<mapsto> newClient 3 1 0, 8 \<mapsto> newClient 4 2 0]"
  "databases watchedServer ! 0 = \<lparr>data = [(''k'', newObject (StringObject ''v''))], expires = [],
     watchedKeys = [(''k'', [7])], hits = 0, misses = 0, dirty = 0\<rparr>"
  by (simp_all add: watchedServer_def newServer_def dbIndex_def)

lemma watched_serving:
  "serving samplePlatform 8 0 [''k'' \<mapsto> (StringObject ''v'', None)] '''' watchedServer"
proof -
  have "ks_ok samplePlatform (openDb 0 watchedServer)"
    by (simp add: ks_ok_def watched_server openDb_sel newObject_def)
  moreover have "visible samplePlatform (openDb 0 watchedServer) = [''k'' \<mapsto> (StringObject ''v'', None)]"
    by (simp add: visible_def isExpired_def view_def watched_server openDb_sel newObject_def fun_eq_iff)
  ultimately show ?thesis by (simp add: serving_def watched_server newClient_def)
qed

text \<open>C32: \<open>SADD\<close> and \<open>SREM\<close>, at a key that is missing or holds a set, store exactly the union
  and the difference with the members given, and answer with the exact number of members that
  were new, respectively present, repeated arguments counting once. No other key changes and the
  expiry time stays; \<open>SREM\<close> removes the key exactly when no member is left.\<close>

theorem set_commands_exact:
  assumes "serving pf p db vis out w" "holds_set (vis key)"
  shows "(\<exists>w' s'. saddCommand pf p (BulkString name # BulkString key # map BulkString ms) w = (Inr (), w') \<and>
      serving pf p db (vis(key \<mapsto> (SetObject s', case vis key of None \<Rightarrow> None | Some e \<Rightarrow> snd e)))
        (out @ reply_integer (int (card (set ms - members_at (vis key))))) w' \<and>
      hs_elems s' = members_at (vis key) \<union> set ms) \<and>
    (\<exists>w' e. sremCommand pf p (BulkString name # BulkString key # map BulkString ms) w = (Inr (), w') \<and>
      serving pf p db (vis(key := e)) (out @ reply_integer (int (card (set ms \<inter> members_at (vis key))))) w' \<and>
      members_at e = members_at (vis key) - set ms \<and> holds_set e \<and> (e = None \<longleftrightarrow> members_at e = {}) \<and>
      (e = None \<or> map_option snd e = map_option snd (vis key)))"
  by (rule conjI [OF sadd_run [OF assms] srem_run [OF assms]])

theorem set_commands_exact_witness:
  "\<exists>w' s'. saddCommand samplePlatform 8 [BulkString ''SADD'', BulkString ''s'', BulkString ''x'', BulkString ''y'', BulkString ''x'']
      watchedServer = (Inr (), w') \<and>
    serving samplePlatform 8 0 [''k'' \<mapsto> (StringObject ''v'', None), ''s'' \<mapsto> (SetObject s', None)] (reply_integer 2) w' \<and>
    hs_elems s' = {''x'', ''y''}"
proof -
  let ?vis = "[''k'' \<mapsto> (StringObject ''v'', None)] :: string \<Rightarrow> entry option"
  have there: "?vis ''s'' = None" by simp
  then have "holds_set (?vis ''s'')" by (simp add: holds_set_def)
  from set_commands_exact [where vis = ?vis and key = "''s''", OF watched_serving this, THEN conjunct1,
      of "''SADD''" "[''x'', ''y'', ''x'']"]
  show ?thesis by (simp add: there insert_commute del: fun_upd_apply)
qed

text \<open>C36: Writes in place escape \<open>WATCH\<close>: \<open>APPEND\<close> to an existing string, \<open>LPUSH\<close> and
  \<open>RPUSH\<close> to an existing list on which nobody is blocked, \<open>HSET\<close>, \<open>SADD\<close> and \<open>ZADD\<close> to an
  existing hash, set or sorted set leave every other client exactly as it was. A client that
  watches the key is not marked, where Redis marks it.\<close>

theorem in_place_writes_escape_watch:
  assumes "occupied pf p db key ty w" "m \<in> set (writers pf exec p (name # BulkString key # rest) ty)" "q \<noteq> p"
  shows "w_clients (snd (m w)) q = w_clients w q"
  using spares_writers [OF assms(2)] assms(1,3) by (simp add: spares_def)

theorem in_place_writes_escape_watch_witness:
  "watchers (openDb 0 watchedServer) ''k'' = {7} \<and>
    w_clients (snd (appendCommand samplePlatform 8 (map BulkString [''APPEND'', ''k'', ''!'']) watchedServer)) 7 =
      Some (newClient 3 1 0)"
proof -
  have "occupied samplePlatform 8 0 ''k'' TString watchedServer"
    by (simp add: occupied_def watched_server openDb_sel isExpired_def newObject_def obj_type_def newClient_def)
  from in_place_writes_escape_watch [OF this, of "appendCommand samplePlatform 8 (map BulkString [''APPEND'', ''k'', ''!''])"
      undefined "BulkString ''APPEND''" "[BulkString ''!'']" 7]
  show ?thesis by (simp add: watchers_def watched_server openDb_sel)
qed

end
