(* ===== verification/Spec2Isabelle.thy ===== *)
theory Spec2Isabelle
  imports Framing Containers OrderedSet Durable Transactions Delivery Waiting Refusal Handlers
begin

text \<open>
  A verification development for a Redis-like in-memory database server written in C++.

  \<^bold>\<open>The program.\<close> One thread runs an event loop over \<^verbatim>\<open>select\<close>. Connections deliver bytes;
  the RESP parser turns them into commands; the registry finds a command's handler; handlers work on
  sixteen databases of typed objects (strings, lists, hashes, sets, sorted sets), on the client and on
  tables shared by the server (subscriptions, blocked clients, replicas, watched keys). Replies go to
  output buffers that the loop writes to the sockets. Write commands are logged to an append-only
  file and propagated to replicas; snapshots are saved in the RDB format, also by a background
  thread on a copy; a periodic task expires keys, ends blocks, closes idle connections and
  reconnects to a master.

  \<^bold>\<open>The model\<close> (paths are relative to \<^verbatim>\<open>src/src/\<close>).
  \<^item> \<open>Prelude\<close>: exceptions as values, 64-bit numbers and their conversions from and to text.
  \<^item> \<open>LinkedList\<close>, \<open>HashTable\<close>, \<open>HashSet\<close>, \<open>Float64\<close>, \<open>SkipList\<close>, \<open>SortedSet\<close>: the containers of
    \<^verbatim>\<open>storage/data_structures\<close>. Lists and skip lists live in an explicit store of nodes, so null and
    deleted nodes are outcomes; hash tables are arrays of buckets with tombstones and rehashing.
  \<^item> \<open>RedisObject\<close>, \<open>Database\<close>: \<^verbatim>\<open>storage/redis_object\<close>, \<^verbatim>\<open>server/memory_manager\<close>, \<^verbatim>\<open>storage/db\<close>. A
    \<open>keyspace\<close> is a database together with what its methods reach: memory account and clients.
  \<^item> \<open>Resp\<close>, \<open>RespParser\<close>, \<open>Client\<close>: \<^verbatim>\<open>protocol\<close> and \<^verbatim>\<open>networking/client\<close>.
  \<^item> \<open>EventLoop\<close>, \<open>World\<close>, \<open>ServerState\<close>, \<open>Eviction\<close>: the tables of the event loop; the record
    \<open>world\<close> is the state of \<^verbatim>\<open>server/server.h\<close> with all it owns, files included; its operations are
    actions \<open>world \<Rightarrow> result \<times> world\<close>, an exception being the \<open>Inl\<close> of the result.
  \<^item> \<open>Commands\<close>, \<open>Decimal\<close>, \<open>ZsetCommands\<close>, \<open>ServerCommands\<close>, \<open>Bytes\<close>, \<open>Rdb\<close>, \<open>Persistence\<close>: all
    handlers of \<^verbatim>\<open>commands\<close>, the snapshot and append-only files.
  \<^item> \<open>Dispatch\<close>, \<open>Events\<close>, \<open>Loop\<close>, \<open>Config\<close>, \<open>Startup\<close>: lookup and \<^verbatim>\<open>executeCommand\<close>; reading, writing
    and closing connections and \<^verbatim>\<open>serverCron\<close>; the rounds of the loop; the configuration and \<^verbatim>\<open>main\<close>.

  Definitions have the names of the functions they translate; class methods carry a prefix
  (\<open>ht_\<close>, \<open>hs_\<close>, \<open>ll_\<close>, \<open>sl_\<close>, \<open>db_\<close>) where two classes share a name.

  \<^bold>\<open>What is shown.\<close>
  \<^item> \<open>LinkedListSpec\<close>, \<open>HashTableSpec\<close>, \<open>Containers\<close>: lists refine sequences, hash tables refine maps for
    every hash function, through collisions, tombstones and growth; loops end; clones are copies,
    destructors free everything, moves hand the contents over.
  \<^item> \<open>DatabaseSpec\<close>, \<open>KeySpace\<close>, \<open>Glob\<close>, \<open>Keys\<close>: the invariant of a key space, the meaning of each
    method on the map from keys to values and deadlines, glob patterns, the memory account.
  \<^item> \<open>Handlers\<close>: the handlers of \<^verbatim>\<open>SADD\<close> and \<^verbatim>\<open>SREM\<close> as a whole, and what the handlers that write to
    an existing value leave alone (judgement \<open>spares\<close>).
  \<^item> \<open>RespStream\<close>, \<open>Framing\<close>: the parser inverts the serializer, cutting the input into chunks changes
    nothing unless a chunk closes the connection, replies leave in order.
  \<^item> \<open>SkipListLinks\<close>, \<open>SkipListInsert\<close>, \<open>SkipListSpec\<close>, \<open>SkipListOrder\<close>, \<open>SortedSetSpec\<close>,
    \<open>OrderedSet\<close>: the links and spans of a skip list by position, and that insertion and deletion keep
    them for arbitrary scores and random heights; with scores that are numbers the list is sorted, its
    queries are those of a sequence, and a sorted set refines an ordered list of entries (locale
    \<open>ordered_set\<close>). Two theorems show calls on which the code leaves that reference.
  \<^item> \<open>RdbSpec\<close>: saving and loading restores every visible key; the locale \<open>codec\<close> is the contract of a
    writer and a reader.
  \<^item> \<open>Links\<close>, \<open>Safety\<close>, \<open>Disconnect\<close>, \<open>SafeHandlers\<close>, \<open>SafeServer\<close>, \<open>SafeCommands\<close>, \<open>SafeEvents\<close>,
    \<open>Guarantees\<close>: the invariant \<open>world_ok\<close> of the running server. Each operation keeps it, by the rules
    collected in \<open>tame\<close> (methods of a database), \<open>gentle\<close> (actions that leave every client as it is
    up to its buffers) and \<open>keeps\<close>; \<open>server_run\<close> is the transition system of the server's events.
  \<^item> \<open>Lookup\<close>, \<open>Session\<close>, \<open>Transactions\<close>, \<open>Durable\<close>: a client's string commands refine a machine on
    a finite map, from the bytes received to the replies; transactions, the optimistic lock and
    the replay of the log are compared with the same machine.
  \<^item> \<open>Delivery\<close>, \<open>Waiting\<close>, \<open>Refusal\<close>: what replicas and subscribers are sent, how blocks end, what
    refused commands leave.

  \<^bold>\<open>Parameters.\<close> A \<open>platform\<close> stands for what the code gets from outside: the clocks (\<open>system_ms\<close>, and
  \<open>stamp_ms\<close> for the second look when a deadline is saved), the hash function,
  sizes of C++ types, random draws, whether an allocation or a file can be had. Outcomes of socket calls,
  \<^verbatim>\<open>select\<close> and the traversal order of \<^verbatim>\<open>std::unordered_map\<close> are arguments of the events.

  \<^bold>\<open>Bounds.\<close> Every loop of the code is a total function. Three carry a bound. The parser's nesting depth is the
  length of the input, which no value exceeds (\<open>parseValueDepth_enough\<close>). \<open>evictLoop\<close> may run as many rounds as
  there are keys plus one, since a round that goes on has removed one. Handlers call handlers only as
  a push that wakes a blocked client, or as EXEC does: \<open>executeCommand\<close> allows a depth of 4; the invariant
  shows that a blocked client waits with a blocking pop, outside a transaction, and a blocking pop calls nothing, so that
  EXEC, push and pop make a depth of three.

  \<^bold>\<open>Hypotheses of \<open>server_run\<close>.\<close> A descriptor or address given by the system is not in use. \<open>polite_read\<close> excludes
  the requests for which the code really leaves dangling pointers: a second PSYNC of a connection
  (\<open>second_psync_dangles\<close> shows that it does), a blocking pop while blocked or within a transaction. The
  server is started without an append-only file: a blocking pop is logged as a write, and its replay
  would block the client on the stack that executes the log. The theorems of \<open>Guarantees\<close>,
  \<open>Delivery\<close> and \<open>Waiting\<close> speak of these runs.

  \<^bold>\<open>Not modelled.\<close> The socket wrappers and the class for \<^verbatim>\<open>epoll\<close>, which is not in the repository; the interleaving of a background thread with the loop within one event (it works
  on a copy); \<^verbatim>\<open>server_run\<close> starts without an append-only file and does not include the shutdown,
  although both are modelled. The rewriting of the append-only file is defined, but no property is proved of it.
\<close>

end
